(* ===== verification/Prelude.thy ===== *)
theory Prelude
  imports Main "HOL-Library.Word" "HOL-Library.List_Lexorder" "HOL-Library.Monad_Syntax"
begin

text \<open>
  Vocabulary shared by every theory of the development.

  A C function that may fail to continue (a failed \<open>assert\<close>, or an access outside the
  object a pointer points into) returns an \<open>option\<close>: \<open>None\<close> is the run that stops there,
  \<open>Some\<close> the value it returns. Error codes the C functions return to their caller
  (\<open>mtbl_res\<close>, a NULL pointer, a zero length) are ordinary values inside the \<open>Some\<close>.
  \<open>ensure\<close> is \<open>assert\<close>, \<open>byte_at\<close> and \<open>bytes_at\<close> are the reads of one byte and of a run of
  bytes through a pointer, and the \<open>do\<close> notation of \<open>Monad_Syntax\<close> sequences them.

  A byte is an \<open>8 word\<close>; a byte string a list of them, ordered lexicographically by
  \<open>List_Lexorder\<close>, which is the order \<open>bytes_compare\<close> computes.
\<close>

unbundle bit_operations_syntax

type_synonym u8 = "8 word"
type_synonym u16 = "16 word"
type_synonym u32 = "32 word"
type_synonym u64 = "64 word"
type_synonym bytes = "u8 list"

named_theorems run_simps \<open>equations of the partial operations on the inputs where they succeed\<close>
named_theorems wire_simps \<open>decoding what was encoded\<close>

subsection \<open>Assertions and reads through a pointer\<close>

definition ensure :: "bool \<Rightarrow> unit option" where
  "ensure b = (if b then Some () else None)"

definition byte_at :: "bytes \<Rightarrow> nat \<Rightarrow> u8 option" where
  "byte_at data i = (if i < length data then Some (data ! i) else None)"

definition bytes_at :: "bytes \<Rightarrow> nat \<Rightarrow> nat \<Rightarrow> bytes option" where
  "bytes_at data i n = (if i + n \<le> length data then Some (take n (drop i data)) else None)"

lemma ensure_True [simp, run_simps]: "ensure True = Some ()"
  by (simp add: ensure_def)

lemma ensure_False [simp]: "ensure False = None"
  by (simp add: ensure_def)

lemma ensure_eq_Some [simp]: "ensure b = Some u \<longleftrightarrow> b"
  by (simp add: ensure_def)

lemma ensure_bind [simp]: "(ensure b \<bind> f = Some x) \<longleftrightarrow> b \<and> f () = Some x"
  by (simp add: ensure_def)

lemma byte_at_Some: "i < length data \<Longrightarrow> byte_at data i = Some (data ! i)"
  by (simp add: byte_at_def)

lemma byte_at_append1: "i < length xs \<Longrightarrow> byte_at (xs @ ys) i = Some (xs ! i)"
  by (simp add: byte_at_def nth_append)

lemma byte_at_append2 [simp]: "byte_at (xs @ ys) (length xs + i) = byte_at ys i"
  by (simp add: byte_at_def nth_append)

lemma bytes_at_Some: "i + n \<le> length data \<Longrightarrow> bytes_at data i n = Some (take n (drop i data))"
  by (simp add: bytes_at_def)

lemma bytes_at_length: "bytes_at data i n = Some xs \<Longrightarrow> length xs = n"
  by (auto simp: bytes_at_def split: if_splits)

lemma bytes_at_at:
  assumes "i = length xs" and "n = length ys"
  shows "bytes_at (xs @ ys @ zs) i n = Some ys"
  using assms by (simp add: bytes_at_def)

lemma bytes_at_append1: "i + n \<le> length xs \<Longrightarrow> bytes_at (xs @ ys) i n = bytes_at xs i n"
  by (simp add: bytes_at_def)

lemma bytes_at_0 [simp]: "bytes_at data 0 (length data) = Some data"
  by (simp add: bytes_at_def)

lemma nth_drop_0: "xs \<noteq> [] \<Longrightarrow> drop n ys = xs \<Longrightarrow> ys ! n = xs ! 0"
  by (metis add_0_right drop_eq_Nil linorder_not_le nat_less_le nth_drop)

subsection \<open>Common prefixes\<close>

text \<open>The length of the longest common prefix, the meaning of the byte-comparing loops.\<close>

fun lcp :: "'a list \<Rightarrow> 'a list \<Rightarrow> nat" where
  "lcp (x # xs) (y # ys) = (if x = y then Suc (lcp xs ys) else 0)"
| "lcp _ _ = 0"

lemma lcp_le1: "lcp xs ys \<le> length xs"
  by (induction xs ys rule: lcp.induct) auto

lemma lcp_le2: "lcp xs ys \<le> length ys"
  by (induction xs ys rule: lcp.induct) auto

lemma lcp_take: "take (lcp xs ys) xs = take (lcp xs ys) ys"
  by (induction xs ys rule: lcp.induct) auto

lemma lcp_differ:
  "lcp xs ys < length xs \<Longrightarrow> lcp xs ys < length ys \<Longrightarrow> xs ! lcp xs ys \<noteq> ys ! lcp xs ys"
  by (induction xs ys rule: lcp.induct) (auto split: if_splits)

lemma lcp_eq_nth: "i < lcp xs ys \<Longrightarrow> xs ! i = ys ! i"
  by (metis lcp_take nth_take)

lemma lcp_self [simp]: "lcp xs xs = length xs"
  by (induction xs) auto

lemma lcp_restore: "take (lcp xs ys) xs @ drop (lcp xs ys) ys = ys"
  by (metis append_take_drop_id lcp_take)

text \<open>
  The loop \<open>while (i < m && a[i] == b[i]) i++\<close>, which \<open>bytes_shortest_separator\<close> and
  \<open>block_builder_add\<close> both contain.
\<close>

function match_loop :: "'a list \<Rightarrow> 'a list \<Rightarrow> nat \<Rightarrow> nat \<Rightarrow> nat" where
  "match_loop a b m i = (if i < m \<and> a ! i = b ! i then match_loop a b m (i + 1) else i)"
  by pat_completeness auto

termination
  by (relation "measure (\<lambda>(a, b, m, i). m - i)") auto

declare match_loop.simps [simp del]

lemma match_loop_from:
  assumes "m = min (length xs) (length ys)" and "i \<le> lcp xs ys"
  shows "match_loop xs ys m i = lcp xs ys"
  using assms
proof (induction "lcp xs ys - i" arbitrary: i)
  case 0
  then have i: "i = lcp xs ys" by simp
  then show ?case
    using 0 lcp_differ [of xs ys] by (subst match_loop.simps) auto
next
  case (Suc k)
  then have "i < lcp xs ys" by simp
  with Suc show ?case
    using lcp_eq_nth [of i xs ys] lcp_le1 [of xs ys] lcp_le2 [of xs ys]
    by (subst match_loop.simps) auto
qed

lemma match_loop_lcp: "match_loop xs ys (min (length xs) (length ys)) 0 = lcp xs ys"
  by (rule match_loop_from) simp_all

lemma match_loop_min:
  "match_loop xs ys (if length xs > length ys then length ys else length xs) 0 = lcp xs ys"
  "match_loop xs ys (if length xs < length ys then length xs else length ys) 0 = lcp xs ys"
  by (simp_all add: match_loop_from min_def)

subsection \<open>Lexicographic order on lists\<close>

lemma list_less_append: "(xs :: 'a::linorder list) < xs @ ys \<longleftrightarrow> ys \<noteq> []"
  by (induction xs) (cases ys; simp)+

lemma list_less_append_same: "(xs :: 'a::linorder list) @ ys < xs @ zs \<longleftrightarrow> ys < zs"
  by (induction xs) auto

lemma list_less_append_eqlen:
  fixes xs ys :: "'a::linorder list"
  assumes "length xs = length ys"
  shows "xs @ us < ys @ vs \<longleftrightarrow> xs < ys \<or> (xs = ys \<and> us < vs)"
  using assms by (induction xs ys rule: list_induct2) auto

lemma list_less_at:
  fixes xs ys :: "'a::linorder list"
  assumes "n < length xs" and "n < length ys" and "take n xs = take n ys"
  shows "xs < ys \<longleftrightarrow> xs ! n < ys ! n \<or> (xs ! n = ys ! n \<and> drop (Suc n) xs < drop (Suc n) ys)"
proof -
  have "xs = take n xs @ xs ! n # drop (Suc n) xs" and "ys = take n xs @ ys ! n # drop (Suc n) ys"
    using assms id_take_nth_drop by metis+
  then show ?thesis
    by (metis Cons_less_Cons list_less_append_same)
qed

lemma take_le_self: "take n (xs :: 'a::linorder list) \<le> xs"
  by (metis append_take_drop_id list_less_append order.order_iff_strict append_Nil2)

subsection \<open>Words\<close>

lemma unat_of_nat_small: "n < 2 ^ LENGTH('a) \<Longrightarrow> unat (of_nat n :: 'a::len word) = n"
  by (simp add: unat_of_nat)

lemma unat_u8_lt [simp]: "unat (b :: u8) < 256"
  using unsigned_less [of b, where 'a = nat] by simp

lemma unat_u16_lt [simp]: "unat (b :: u16) < 65536"
  using unsigned_less [of b, where 'a = nat] by simp

lemma unat_u32_lt [simp]: "unat (b :: u32) < 4294967296"
  using unsigned_less [of b, where 'a = nat] by simp

lemma unat_u64_lt [simp]: "unat (b :: u64) < 18446744073709551616"
  using unsigned_less [of b, where 'a = nat] by simp

lemma unat_drop_bit_div: "unat (drop_bit n v) = unat v div 2 ^ n"
  by (metis drop_bit_eq_div unat_drop_bit_eq)

lemma unat_ucast_u32_u64 [simp]: "unat (ucast (v :: u32) :: u64) = unat v"
  by (simp add: unsigned_ucast_eq take_bit_nat_eq_self_iff less_trans [OF unat_u32_lt])

lemma ucast_u32_u64_u32 [simp]: "ucast (ucast (v :: u32) :: u64) = v"
  by (rule bit_word_eqI) (auto simp: bit_simps)

lemma ucast_of_nat_u64_u32 [simp]: "ucast (of_nat n :: u64) = (of_nat n :: u32)"
  by (simp add: unsigned_of_nat word_of_nat_eq_iff)

end
