(* ===== verification/Vector.thy ===== *)
theory Vector
  imports Prelude "HOL-Library.While_Combinator"
begin

text \<open>
  \<open>libmy/vector.h\<close>: the growable arrays \<open>VECTOR_GENERATE\<close> declares, and the byte buffers
  of \<open>libmy/ubuf.h\<close>. A vector is its live elements (\<open>_v[0 .. _n)\<close>), the number of elements
  allocated and the allocation hint. Storing through \<open>_ptr\<close> and then calling \<open>_advance\<close> is
  \<open>vec_put\<close>: it fails where the C code would write past the allocation.

  The doubling loops are kept as loops (\<open>while_option\<close>): with nothing allocated they would
  not end, and the invariant \<open>vec_inv\<close> is what makes them end.

  \<open>growable\<close> is the contract the block builder relies on: space reserved is space that can be
  written.
\<close>

subsection \<open>Vectors\<close>

record 'a vec =
  v_elems :: "'a list"
  v_alloced :: nat
  v_hint :: nat

definition vec_init :: "nat \<Rightarrow> 'a vec" where
  "vec_init hint =
     (let hint = (if hint = 0 then 1 else hint)
      in \<lparr>v_elems = [], v_alloced = hint, v_hint = hint\<rparr>)"

definition vec_reinit :: "nat \<Rightarrow> 'a vec \<Rightarrow> 'a vec" where
  "vec_reinit hint vec =
     (let hint = (if hint = 0 then 1 else hint)
      in vec\<lparr>v_elems := [], v_alloced := hint, v_hint := hint\<rparr>)"

definition vec_detach :: "'a vec \<Rightarrow> 'a list \<times> 'a vec" where
  "vec_detach vec = (v_elems vec, vec\<lparr>v_elems := [], v_alloced := v_hint vec\<rparr>)"

definition vec_reserve :: "'a vec \<Rightarrow> nat \<Rightarrow> 'a vec option" where
  "vec_reserve vec n_elems = do {
     a \<leftarrow> while_option (\<lambda>a. n_elems > a - length (v_elems vec)) (\<lambda>a. a * 2) (v_alloced vec);
     Some (vec\<lparr>v_alloced := a\<rparr>)
   }"

definition vec_add :: "'a vec \<Rightarrow> 'a \<Rightarrow> 'a vec option" where
  "vec_add vec elem = do {
     a \<leftarrow> while_option (\<lambda>a. length (v_elems vec) + 1 > a) (\<lambda>a. a * 2) (v_alloced vec);
     Some (vec\<lparr>v_alloced := a, v_elems := v_elems vec @ [elem]\<rparr>)
   }"

definition vec_append :: "'a vec \<Rightarrow> 'a list \<Rightarrow> 'a vec option" where
  "vec_append vec xs = do {
     vec \<leftarrow> vec_reserve vec (length xs);
     Some (vec\<lparr>v_elems := v_elems vec @ xs\<rparr>)
   }"

definition vec_extend :: "'a vec \<Rightarrow> 'a vec \<Rightarrow> 'a vec option" where
  "vec_extend vec0 vec1 = vec_append vec0 (v_elems vec1)"

definition vec_reset :: "'a vec \<Rightarrow> 'a vec" where
  "vec_reset vec =
     (if v_alloced vec > v_hint vec then vec\<lparr>v_elems := [], v_alloced := v_hint vec\<rparr>
      else vec\<lparr>v_elems := []\<rparr>)"

definition vec_clip :: "'a vec \<Rightarrow> nat \<Rightarrow> 'a vec" where
  "vec_clip vec n_elems =
     (if n_elems < length (v_elems vec) then vec\<lparr>v_elems := take n_elems (v_elems vec)\<rparr> else vec)"

definition vec_size :: "'a vec \<Rightarrow> nat" where
  "vec_size vec = length (v_elems vec)"

definition vec_bytes :: "nat \<Rightarrow> 'a vec \<Rightarrow> nat" where
  "vec_bytes sizeof_type vec = length (v_elems vec) * sizeof_type"

definition vec_value :: "'a vec \<Rightarrow> nat \<Rightarrow> 'a option" where
  "vec_value vec i = do {
     ensure (i < length (v_elems vec));
     Some (v_elems vec ! i)
   }"

definition vec_data :: "'a vec \<Rightarrow> 'a list" where
  "vec_data vec = v_elems vec"

definition vec_put :: "'a vec \<Rightarrow> 'a list \<Rightarrow> 'a vec option" where
  "vec_put vec xs = do {
     ensure (length xs \<le> v_alloced vec - length (v_elems vec));
     Some (vec\<lparr>v_elems := v_elems vec @ xs\<rparr>)
   }"

subsection \<open>Byte buffers\<close>

type_synonym ubuf = "u8 vec"

definition ubuf_new :: ubuf where
  "ubuf_new = vec_init 64"

definition ubuf_dup_cstr :: "bytes \<Rightarrow> ubuf option" where
  "ubuf_dup_cstr s = vec_append (vec_init (length s + 1)) s"

definition ubuf_add_cstr :: "ubuf \<Rightarrow> bytes \<Rightarrow> ubuf option" where
  "ubuf_add_cstr u s =
     vec_append
       (if vec_size u > 0 \<and> vec_value u (vec_size u - 1) = Some 0 then vec_clip u (vec_size u - 1)
        else u) s"

definition ubuf_cterm :: "ubuf \<Rightarrow> ubuf option" where
  "ubuf_cterm u =
     (if vec_size u = 0 \<or> (vec_size u > 0 \<and> vec_value u (vec_size u - 1) \<noteq> Some 0)
      then vec_append u [0] else Some u)"

definition ubuf_cstr :: "ubuf \<Rightarrow> (bytes \<times> ubuf) option" where
  "ubuf_cstr u = do {
     u \<leftarrow> ubuf_cterm u;
     Some (vec_data u, u)
   }"

definition ubuf_rstrip :: "ubuf \<Rightarrow> u8 \<Rightarrow> ubuf" where
  "ubuf_rstrip u s =
     (if vec_size u > 0 \<and> vec_value u (vec_size u - 1) = Some s then vec_clip u (vec_size u - 1)
      else u)"

subsection \<open>The invariant and the operations under it\<close>

definition vec_inv :: "'a vec \<Rightarrow> bool" where
  "vec_inv vec \<longleftrightarrow> 0 < v_hint vec \<and> 0 < v_alloced vec \<and> length (v_elems vec) \<le> v_alloced vec"

named_theorems vec_simps \<open>the abstract value after each vector operation\<close>

lemma vec_inv_init [simp, intro]: "vec_inv (vec_init h)"
  by (simp add: vec_inv_def vec_init_def Let_def)

lemma elems_init [simp]: "v_elems (vec_init h) = []"
  by (simp add: vec_init_def Let_def)

lemma vec_inv_reinit [simp]: "vec_inv (vec_reinit h v)"
  by (simp add: vec_inv_def vec_reinit_def Let_def)

lemma vec_inv_reset [simp]: "vec_inv v \<Longrightarrow> vec_inv (vec_reset v)"
  by (simp add: vec_inv_def vec_reset_def)

lemma elems_reset [simp]: "v_elems (vec_reset v) = []"
  by (simp add: vec_reset_def)

lemma vec_inv_clip [simp]: "vec_inv v \<Longrightarrow> vec_inv (vec_clip v n)"
  by (simp add: vec_inv_def vec_clip_def)

lemma elems_clip [simp]: "v_elems (vec_clip v n) = take n (v_elems v)"
  by (simp add: vec_clip_def)

lemma vec_inv_detach: "vec_inv v \<Longrightarrow> vec_inv (snd (vec_detach v))"
  by (simp add: vec_inv_def vec_detach_def)

lemma detach_simps [simp]:
  "fst (vec_detach v) = v_elems v" "v_elems (snd (vec_detach v)) = []"
  by (simp_all add: vec_detach_def)

lemma vec_value_Some: "i < length (v_elems v) \<Longrightarrow> vec_value v i = Some (v_elems v ! i)"
  by (simp add: vec_value_def)

lemma doubling_ends:
  assumes "0 < (a :: nat)"
  shows "\<exists>a'. while_option (\<lambda>a. lo > a) (\<lambda>a. a * 2) a = Some a' \<and> lo \<le> a' \<and> a \<le> a'"
proof -
  let ?P = "\<lambda>x. a \<le> x \<and> 0 < x"
  have "\<exists>t. while_option (\<lambda>a. lo > a) (\<lambda>a. a * 2) a = Some t"
    by (rule measure_while_option_Some [where P = ?P and f = "\<lambda>x. lo - x"]) (use assms in auto)
  then obtain t where t: "while_option (\<lambda>a. lo > a) (\<lambda>a. a * 2) a = Some t" by blast
  have "?P t" by (rule while_option_rule [OF _ t, where P = ?P]) (use assms in auto)
  with t while_option_stop [OF t] show ?thesis by auto
qed

lemma vec_reserve_Some:
  assumes "vec_inv v"
  shows "\<exists>v'. vec_reserve v n = Some v' \<and> vec_inv v' \<and> v_elems v' = v_elems v \<and>
    n \<le> v_alloced v' - length (v_elems v')"
proof -
  have guard: "(\<lambda>a. n > a - length (v_elems v)) = (\<lambda>a. n + length (v_elems v) > a)"
    if "0 < n" using that by (auto simp: fun_eq_iff)
  show ?thesis
  proof (cases "n = 0")
    case True
    then show ?thesis using assms by (auto simp: vec_reserve_def while_option_unfold vec_inv_def)
  next
    case False
    obtain a where a: "while_option (\<lambda>a. n + length (v_elems v) > a) (\<lambda>a. a * 2) (v_alloced v) = Some a"
        "n + length (v_elems v) \<le> a" "v_alloced v \<le> a"
      using doubling_ends [of "v_alloced v" "n + length (v_elems v)"] assms
      by (auto simp: vec_inv_def)
    then show ?thesis using assms False by (auto simp: vec_reserve_def guard vec_inv_def)
  qed
qed

lemma vec_add_Some:
  assumes "vec_inv v"
  shows "\<exists>v'. vec_add v x = Some v' \<and> vec_inv v' \<and> v_elems v' = v_elems v @ [x]"
proof -
  obtain a where "while_option (\<lambda>a. length (v_elems v) + 1 > a) (\<lambda>a. a * 2) (v_alloced v) = Some a"
      "length (v_elems v) + 1 \<le> a" "v_alloced v \<le> a"
    using doubling_ends [of "v_alloced v" "length (v_elems v) + 1"] assms by (auto simp: vec_inv_def)
  then show ?thesis using assms by (auto simp: vec_add_def vec_inv_def)
qed

lemma vec_append_Some:
  assumes "vec_inv v"
  shows "\<exists>v'. vec_append v xs = Some v' \<and> vec_inv v' \<and> v_elems v' = v_elems v @ xs"
  using vec_reserve_Some [OF assms, of "length xs"]
  by (auto simp: vec_append_def vec_inv_def)

lemma vec_append_elems: "vec_append v xs = Some v' \<Longrightarrow> v_elems v' = v_elems v @ xs"
  by (auto simp: vec_append_def vec_reserve_def split: Option.bind_splits)

subsection \<open>Reserved space can be written\<close>

primrec put_all :: "('b \<Rightarrow> 'e list \<Rightarrow> 'b option) \<Rightarrow> 'b \<Rightarrow> 'e list list \<Rightarrow> 'b option" where
  "put_all put b [] = Some b"
| "put_all put b (xs # xss) = put b xs \<bind> (\<lambda>b. put_all put b xss)"

locale growable =
  fixes reserve :: "'b \<Rightarrow> nat \<Rightarrow> 'b option"
    and put :: "'b \<Rightarrow> 'e list \<Rightarrow> 'b option"
    and content :: "'b \<Rightarrow> 'e list"
    and room :: "'b \<Rightarrow> nat"
    and inv :: "'b \<Rightarrow> bool"
  assumes reserve: "inv b \<Longrightarrow>
      \<exists>b'. reserve b n = Some b' \<and> inv b' \<and> content b' = content b \<and> n \<le> room b'"
    and put: "inv b \<Longrightarrow> length xs \<le> room b \<Longrightarrow>
      \<exists>b'. put b xs = Some b' \<and> inv b' \<and> content b' = content b @ xs \<and>
        room b' = room b - length xs"
begin

lemma put_all_room:
  "inv b \<Longrightarrow> length (concat xss) \<le> room b \<Longrightarrow>
   \<exists>b'. put_all put b xss = Some b' \<and> inv b' \<and> content b' = content b @ concat xss \<and>
     room b' = room b - length (concat xss)"
proof (induction xss arbitrary: b)
  case (Cons xs xss)
  then obtain b1 where b1: "put b xs = Some b1" "inv b1" "content b1 = content b @ xs"
      "room b1 = room b - length xs"
    using put [of b xs] by auto
  with Cons.prems Cons.IH [of b1] show ?case by auto
qed simp

lemma reserve_put_all:
  assumes "inv b" and "length (concat xss) \<le> n"
  shows "\<exists>b'. (reserve b n \<bind> (\<lambda>b. put_all put b xss)) = Some b' \<and> inv b' \<and>
    content b' = content b @ concat xss"
proof -
  obtain b1 where "reserve b n = Some b1" "inv b1" "content b1 = content b" "n \<le> room b1"
    using reserve [OF assms(1)] by blast
  with assms(2) put_all_room [of b1 xss] show ?thesis by auto
qed

end

interpretation vec: growable vec_reserve vec_put v_elems
  "\<lambda>v. v_alloced v - length (v_elems v)" vec_inv
  by unfold_locales (simp_all add: vec_reserve_Some, auto simp: vec_put_def vec_inv_def)

end
