(* ===== verification/Codec.thy ===== *)
theory Codec
  imports Prelude
begin

text \<open>
  The contract between the encoders and the code that decodes what they wrote: decoding a
  buffer that starts with an encoding gives back the value and the length of the encoding.
  \<open>codec\<close> is the contract of the variable-length encoders, \<open>fixed_codec\<close> adds a constant
  width. The lemmas every client shares are proved here once: injectivity, reading at an
  offset, reading a sequence, indexing an array of encodings.
\<close>

locale codec =
  fixes enc :: "'a \<Rightarrow> bytes" and dec :: "bytes \<Rightarrow> (nat \<times> 'a) option"
  assumes dec_enc: "dec (enc v @ rest) = Some (length (enc v), v)"
    and enc_nonempty: "enc v \<noteq> []"
begin

lemma dec_enc_Nil: "dec (enc v) = Some (length (enc v), v)"
  using dec_enc [of v "[]"] by simp

lemma prefix_free:
  assumes "enc v @ xs = enc w @ ys"
  shows "v = w \<and> xs = ys"
proof -
  have "Some (length (enc v), v) = Some (length (enc w), w)"
    using dec_enc [of v xs] dec_enc [of w ys] assms by simp
  with assms show ?thesis by simp
qed

lemma enc_inj: "enc v = enc w \<longleftrightarrow> v = w"
  using prefix_free [of v "[]" w "[]"] by auto

lemma dec_drop: "drop (length xs) (xs @ enc v @ rest) = enc v @ rest"
  by simp

lemma dec_at: "dec (drop (length xs) (xs @ enc v @ rest)) = Some (length (enc v), v)"
  by (simp add: dec_enc)

lemma concat_inj: "concat (map enc vs) = concat (map enc ws) \<longleftrightarrow> vs = ws"
proof
  show "concat (map enc vs) = concat (map enc ws) \<Longrightarrow> vs = ws"
  proof (induction vs arbitrary: ws)
    case Nil
    then show ?case using enc_nonempty by (cases ws) auto
  next
    case (Cons v vs)
    then obtain w ws' where ws: "ws = w # ws'" using enc_nonempty by (cases ws) auto
    with Cons.prems prefix_free [of v "concat (map enc vs)" w "concat (map enc ws')"]
    show ?case using Cons.IH by auto
  qed
qed simp

end

locale fixed_codec = codec enc dec
  for enc :: "'a \<Rightarrow> bytes" and dec :: "bytes \<Rightarrow> (nat \<times> 'a) option" +
  fixes width :: nat
  assumes enc_width: "length (enc v) = width"
begin

lemma width_pos: "0 < width"
  using enc_width enc_nonempty by (metis length_greater_0_conv)

lemma length_concat: "length (concat (map enc vs)) = length vs * width"
  by (induction vs) (auto simp: enc_width)

lemma dec_nth:
  assumes "i < length vs"
  shows "dec (drop (i * width) (concat (map enc vs) @ rest)) = Some (width, vs ! i)"
  using assms
proof (induction vs arbitrary: i)
  case (Cons v vs)
  show ?case
  proof (cases i)
    case 0
    then show ?thesis by (simp add: dec_enc enc_width)
  next
    case (Suc j)
    then show ?thesis using Cons by (simp add: enc_width)
  qed
qed simp

end

end
