(* ===== verification/Varint.thy ===== *)
theory Varint
  imports Codec
begin

text \<open>
  \<open>mtbl/varint.c\<close>: the variable-length integers of the file format, seven bits a byte, least
  significant group first, the top bit set on every byte but the last. Pointers into a buffer
  are the list of the bytes from the pointer on; a read past its end is \<open>None\<close>.
\<close>

subsection \<open>The functions\<close>

function mtbl_varint_length_loop :: "u64 \<Rightarrow> nat \<Rightarrow> nat" where
  "mtbl_varint_length_loop v len =
     (if 128 \<le> v then mtbl_varint_length_loop (drop_bit 7 v) (len + 1) else len)"
  by pat_completeness auto

termination
proof (relation "measure (\<lambda>(v, len). unat v)", simp_all)
  fix v :: u64
  assume "128 \<le> v"
  then have "128 \<le> unat v" by (simp add: word_le_nat_alt)
  then show "unat (drop_bit 7 v) < unat v" by (simp add: unat_drop_bit_div)
qed

declare mtbl_varint_length_loop.simps [simp del]

definition mtbl_varint_length :: "u64 \<Rightarrow> nat" where
  "mtbl_varint_length v = mtbl_varint_length_loop v 1"

text \<open>
  \<open>i\<close> is an \<open>unsigned\<close> (32 bits) while \<open>len\<close> is a \<open>size_t\<close>; the comparison with
  \<open>len_data\<close> converts \<open>i\<close> to the wider type.
\<close>

fun mtbl_varint_length_packed_loop :: "bytes \<Rightarrow> nat \<Rightarrow> u32 \<Rightarrow> u32" where
  "mtbl_varint_length_packed_loop data 0 i = i"
| "mtbl_varint_length_packed_loop data (Suc len) i =
     (if data ! unat i AND 0x80 = 0 then i
      else mtbl_varint_length_packed_loop data len (i + 1))"

definition mtbl_varint_length_packed :: "bytes \<Rightarrow> u32" where
  "mtbl_varint_length_packed data =
     (let i = mtbl_varint_length_packed_loop data (length data) 0
      in if unat i = length data then 0 else i + 1)"

definition mtbl_varint_encode32 :: "u32 \<Rightarrow> bytes" where
  "mtbl_varint_encode32 v =
     (let B = 128 :: u32 in
      if v < push_bit 7 1 then
        [ucast v]
      else if v < push_bit 14 1 then
        [ucast (v OR B), ucast (drop_bit 7 v)]
      else if v < push_bit 21 1 then
        [ucast (v OR B), ucast (drop_bit 7 v OR B), ucast (drop_bit 14 v)]
      else if v < push_bit 28 1 then
        [ucast (v OR B), ucast (drop_bit 7 v OR B), ucast (drop_bit 14 v OR B),
         ucast (drop_bit 21 v)]
      else
        [ucast (v OR B), ucast (drop_bit 7 v OR B), ucast (drop_bit 14 v OR B),
         ucast (drop_bit 21 v OR B), ucast (drop_bit 28 v)])"

function mtbl_varint_encode64 :: "u64 \<Rightarrow> bytes" where
  "mtbl_varint_encode64 v =
     (if 128 \<le> v then ucast ((v AND (128 - 1)) OR 128) # mtbl_varint_encode64 (drop_bit 7 v)
      else [ucast v])"
  by pat_completeness auto

termination
proof (relation "measure unat", simp_all)
  fix v :: u64
  assume "128 \<le> v"
  then have "128 \<le> unat v" by (simp add: word_le_nat_alt)
  then show "unat (drop_bit 7 v) < unat v" by (simp add: unat_drop_bit_div)
qed

declare mtbl_varint_encode64.simps [simp del]

text \<open>
  The result is the pair of the length consumed and the value stored through \<open>value\<close>; the
  length 0 reports an overflow, with the value 0.
\<close>

function varint_decode_loop :: "bytes \<Rightarrow> nat \<Rightarrow> nat \<Rightarrow> nat \<Rightarrow> u64 \<Rightarrow> (nat \<times> u64) option" where
  "varint_decode_loop data max_shift shift len val =
     (if shift < max_shift then do {
        b \<leftarrow> byte_at data len;
        let val = val OR push_bit shift (ucast (b AND 0x7f));
        let len = len + 1;
        if b AND 0x80 = 0 then Some (len, val)
        else varint_decode_loop data max_shift (shift + 7) len val
      } else Some (0, 0))"
  by pat_completeness auto

termination
  by (relation "measure (\<lambda>(data, max_shift, shift, len, val). max_shift - shift)") auto

declare varint_decode_loop.simps [simp del]

definition varint_decode :: "bytes \<Rightarrow> nat \<Rightarrow> (nat \<times> u64) option" where
  "varint_decode data max_shift = varint_decode_loop data max_shift 0 0 0"

definition mtbl_varint_decode32 :: "bytes \<Rightarrow> (nat \<times> u32) option" where
  "mtbl_varint_decode32 data = do {
     (ret, tmpv) \<leftarrow> varint_decode data 32;
     Some (ret, ucast tmpv)
   }"

definition mtbl_varint_decode64 :: "bytes \<Rightarrow> (nat \<times> u64) option" where
  "mtbl_varint_decode64 data = varint_decode data 64"

subsection \<open>Groups of seven bits\<close>

lemma bit_128 [simp]: "bit (128 :: 'a::len word) n \<longleftrightarrow> n = 7 \<and> n < LENGTH('a)"
  using bit_exp_iff [where 'a = "'a word", of 7 n] by auto

lemma bit_128_int [simp]: "bit (128 :: int) n \<longleftrightarrow> n = 7"
  using bit_exp_iff [where 'a = int, of 7 n] by auto

lemma bit_128_nat [simp]: "bit (128 :: nat) n \<longleftrightarrow> n = 7"
  using bit_exp_iff [where 'a = nat, of 7 n] by auto

lemma and_127: "(w :: 'a::len word) AND 127 = take_bit 7 w"
proof -
  have "(127 :: 'a word) = mask 7" by (simp add: mask_numeral)
  then show ?thesis by (simp add: take_bit_eq_mask)
qed

lemma small_u64: "\<not> 128 \<le> (v :: u64) \<Longrightarrow> take_bit 7 v = v"
proof -
  assume "\<not> 128 \<le> v"
  then have "unat v < 2 ^ 7" by (simp add: word_le_nat_alt)
  then show ?thesis by (metis take_bit_nat_eq_self_iff unsigned_take_bit_eq word_unat_eq_iff)
qed

lemma lt128: "\<not> 128 \<le> (v :: u64) \<Longrightarrow> unat v < 128"
  by (simp add: word_le_nat_alt)

lemma group_hi: "ucast (v AND 127 OR 128 :: u64) AND (128 :: u8) \<noteq> 0"
  apply (rule notI) apply (drule arg_cong [where f="\<lambda>w. bit w 7"])
  by (simp add: bit_simps)

lemma group_lo: "ucast (ucast (v AND 127 OR 128 :: u64) AND (127 :: u8)) = (v AND 127)"
  unfolding and_127 
  apply (rule bit_word_eqI)
  by (auto simp add: bit_simps)

lemma small_bit: "\<not> 128 \<le> (v :: u64) \<Longrightarrow> bit v n \<Longrightarrow> n < 7"
  by (metis bit_take_bit_iff small_u64)

lemma last_hi: "\<not> 128 \<le> (v :: u64) \<Longrightarrow> ucast v AND (128 :: u8) = 0"
  by (rule bit_word_eqI) (auto simp add: bit_simps dest: small_bit)

lemma last_lo: "\<not> 128 \<le> (v :: u64) \<Longrightarrow> ucast (ucast v AND (127 :: u8)) = v"
  unfolding and_127
  by (rule bit_word_eqI) (auto simp add: bit_simps dest: small_bit intro: less_trans)

lemma regroup: "push_bit s (v AND 127) OR push_bit (s + 7) (drop_bit 7 v) = push_bit s (v :: u64)"
  unfolding and_127
proof (rule bit_word_eqI)
  fix n assume "n < LENGTH(64)"
  then show "bit (push_bit s (take_bit 7 v) OR push_bit (s + 7) (drop_bit 7 v)) n = bit (push_bit s v) n"
    by (cases "n < s + 7") (auto simp add: bit_simps)
qed

subsection \<open>Decoding undoes encoding\<close>

lemma decode_loop_encode: "s < m \<Longrightarrow> m \<le> 64 \<Longrightarrow> unat v < 2 ^ (m - s) \<Longrightarrow>
  varint_decode_loop (pre @ mtbl_varint_encode64 v @ rest) m s (length pre) val
   = Some (length pre + length (mtbl_varint_encode64 v), val OR push_bit s v)"
proof (induction v arbitrary: pre s val rule: mtbl_varint_encode64.induct)
  case (1 v)
  show ?case
  proof (cases "128 \<le> v")
    case True
    let ?b = "ucast (v AND 127 OR 128 :: u64) :: u8"
    have enc: "mtbl_varint_encode64 v = ?b # mtbl_varint_encode64 (drop_bit 7 v)"
      using True by (subst mtbl_varint_encode64.simps) simp
    have "2 ^ 7 < (2::nat) ^ (m - s)" using True "1.prems" by (simp add: word_le_nat_alt)
    then have s7: "7 < m - s" by (simp only: power_strict_increasing_iff)
    have "unat (drop_bit 7 v) < 2 ^ (m - (s + 7))"
    proof -
      have "2 ^ (m - s) = 2 ^ (m - (s + 7)) * (2::nat) ^ 7" using s7 by (simp only: flip: power_add) simp
      then show ?thesis using "1.prems"(3) by (simp add: unat_drop_bit_div less_mult_imp_div_less)
    qed
    then have IH: "varint_decode_loop ((pre @ [?b]) @ mtbl_varint_encode64 (drop_bit 7 v) @ rest) m (s + 7)
        (length (pre @ [?b])) (val OR push_bit s (v AND 127))
      = Some (length (pre @ [?b]) + length (mtbl_varint_encode64 (drop_bit 7 v)),
         (val OR push_bit s (v AND 127)) OR push_bit (s + 7) (drop_bit 7 v))"
      using "1.IH" [OF True, of "s + 7" "pre @ [?b]"] s7 "1.prems" by simp
    show ?thesis
      using IH "1.prems"(1) unfolding enc
      by (subst varint_decode_loop.simps)
         (simp add: byte_at_def nth_append group_hi group_lo or.assoc regroup Let_def del: push_bit_and)
  next
    case False
    then have enc: "mtbl_varint_encode64 v = [ucast v]" by (subst mtbl_varint_encode64.simps) simp
    show ?thesis
      using "1.prems" False unfolding enc
      by (subst varint_decode_loop.simps) (simp add: byte_at_def nth_append last_hi last_lo Let_def)
  qed
qed
lemma decode_encode_max:
  assumes "unat v < 2 ^ m" and "0 < m" and "m \<le> 64"
  shows "varint_decode (mtbl_varint_encode64 v @ rest) m = Some (length (mtbl_varint_encode64 v), v)"
  using decode_loop_encode [of 0 m v "[]" rest 0] assms by (simp add: varint_decode_def)

lemma decode64_encode64 [wire_simps]:
  "mtbl_varint_decode64 (mtbl_varint_encode64 v @ rest) = Some (length (mtbl_varint_encode64 v), v)"
  unfolding mtbl_varint_decode64_def by (simp add: decode_encode_max)

lemma enc64_big: "128 \<le> v \<Longrightarrow> mtbl_varint_encode64 v = ucast ((v AND 127) OR 128) # mtbl_varint_encode64 (drop_bit 7 v)"
  by (subst mtbl_varint_encode64.simps) simp

lemma enc64_small: "\<not> 128 \<le> v \<Longrightarrow> mtbl_varint_encode64 v = [ucast v]"
  by (subst mtbl_varint_encode64.simps) simp

lemma ucast_group: "(ucast (v OR 128 :: u32) :: u8) = ucast ((ucast v AND 127) OR 128 :: u64)"
  by (rule bit_word_eqI) (auto simp: bit_simps and_127)

lemma le128_drop: "128 \<le> drop_bit n (ucast (v :: u32) :: u64) \<longleftrightarrow> 2 ^ (n + 7) \<le> unat v"
proof -
  have "128 \<le> drop_bit n (ucast v :: u64) \<longleftrightarrow> 128 \<le> unat v div 2 ^ n"
    by (simp add: word_le_nat_alt unat_drop_bit_div)
  also have "\<dots> \<longleftrightarrow> 2 ^ (n + 7) \<le> unat v"
    by (simp add: less_eq_div_iff_mult_less_eq power_add mult.commute)
  finally show ?thesis .
qed

lemma unat_pow: "n < LENGTH('a) \<Longrightarrow> unat (2 ^ n :: 'a::len word) = 2 ^ n"
  using unat_of_nat_small [where 'a = 'a, of "2 ^ n"] by simp

lemma lt_push: "n < 32 \<Longrightarrow> v < push_bit n (1 :: u32) \<longleftrightarrow> \<not> 2 ^ n \<le> unat v"
  by (simp add: word_less_nat_alt not_le push_bit_eq_mult unat_pow)

lemma ucast_drop: "ucast (drop_bit n (v::u32)) = drop_bit n (ucast v :: u64)"
  by (rule bit_word_eqI) (auto simp: bit_simps dest: bit_imp_le_length)

lemma ucast_drop8: "(ucast (drop_bit n (v::u32)) :: u8) = ucast (drop_bit n (ucast v :: u64))"
  by (rule bit_word_eqI) (auto simp: bit_simps dest: bit_imp_le_length)

lemma encode32_64: "mtbl_varint_encode32 v = mtbl_varint_encode64 (ucast v)"
proof -
  let ?w = "ucast v :: u64"
  have le0: "128 \<le> ?w \<longleftrightarrow> 2 ^ 7 \<le> unat v" using le128_drop [of 0 v] by simp
  have step: "mtbl_varint_encode64 (drop_bit n ?w) =
      (if 2 ^ (n + 7) \<le> unat v then ucast (drop_bit n v OR 128) # mtbl_varint_encode64 (drop_bit (n + 7) ?w)
       else [ucast (drop_bit n v)])" for n
    by (auto simp add: enc64_big enc64_small le128_drop ucast_group ucast_drop ucast_drop8 add.commute)
  have step0: "mtbl_varint_encode64 ?w =
      (if 2 ^ 7 \<le> unat v then ucast (v OR 128) # mtbl_varint_encode64 (drop_bit 7 ?w)
       else [ucast v])"
    using step [of 0] by simp
  have big: "\<not> 2 ^ 35 \<le> unat v" using less_trans [OF unat_u32_lt [of v], of "2 ^ 35"] by simp
  have mono: "2 ^ 14 \<le> unat v \<Longrightarrow> 2 ^ 7 \<le> unat v" "2 ^ 21 \<le> unat v \<Longrightarrow> 2 ^ 14 \<le> unat v" "2 ^ 28 \<le> unat v \<Longrightarrow> 2 ^ 21 \<le> unat v"
     by simp_all
  show ?thesis
    unfolding mtbl_varint_encode32_def Let_def
    apply (subst lt_push, simp)+
    apply (subst step0)
    apply (subst step [of 7]) apply (subst step [of "7+7"]) apply (subst step [of "7+7+7"])  apply (subst step [of "7+7+7+7"])
    using big by simp
qed

lemma encode32_small: "v < 128 \<Longrightarrow> mtbl_varint_encode32 v = [ucast v]"
  by (simp add: mtbl_varint_encode32_def Let_def)

lemma decode32_encode32 [wire_simps]:
  "mtbl_varint_decode32 (mtbl_varint_encode32 v @ rest) = Some (length (mtbl_varint_encode32 v), v)"
proof -
  have "unat (ucast v :: u64) < 2 ^ 32" by simp
  then show ?thesis
    unfolding mtbl_varint_decode32_def encode32_64
    by (simp add: decode_encode_max)
qed

lemma length_loop: "mtbl_varint_length_loop v n + 1 = n + length (mtbl_varint_encode64 v)"
proof (induction v arbitrary: n rule: mtbl_varint_encode64.induct)
  case (1 v)
  show ?case
  proof (cases "128 \<le> v")
    case True
    have "mtbl_varint_length_loop v n = mtbl_varint_length_loop (drop_bit 7 v) (n + 1)"
      using True by (subst mtbl_varint_length_loop.simps) simp
    then show ?thesis using "1" [OF True, of "n + 1"] True by (simp add: enc64_big)
  next
    case False
    then show ?thesis by (subst mtbl_varint_length_loop.simps) (simp add: enc64_small)
  qed
qed

lemma length_encode64: "length (mtbl_varint_encode64 v) = mtbl_varint_length v"
  using length_loop [of v 1] by (simp add: mtbl_varint_length_def)

lemma length_encode64_le: "0 < k \<Longrightarrow> unat v < 2 ^ (7 * k) \<Longrightarrow> length (mtbl_varint_encode64 v) \<le> k"
proof (induction v arbitrary: k rule: mtbl_varint_encode64.induct)
  case (1 v)
  show ?case
  proof (cases "128 \<le> v")
    case True
    then have "2 ^ 7 < (2::nat) ^ (7 * k)" using 1 by (simp add: word_le_nat_alt)
    then have k: "1 < k" by (simp only: power_strict_increasing_iff)
    then have "2 ^ (7 * k) = 2 ^ (7 * (k - 1)) * (2::nat) ^ 7" by (simp only: flip: power_add) (simp add: algebra_simps)
    then have "unat (drop_bit 7 v) < 2 ^ (7 * (k - 1))"
      using 1 by (simp add: unat_drop_bit_div less_mult_imp_div_less)
    then show ?thesis using 1(1) [OF True, of "k - 1"] k True by (simp add: enc64_big)
  qed (use "1.prems" in \<open>simp add: enc64_small\<close>)
qed

lemma length_encode64_bounds: "length (mtbl_varint_encode64 v) \<le> 10"
  by (rule length_encode64_le) (simp_all add: less_trans [OF unat_u64_lt])

lemma encode64_nonempty [simp]: "mtbl_varint_encode64 v \<noteq> []"
  by (subst mtbl_varint_encode64.simps) simp

lemma length_encode32_bounds: "length (mtbl_varint_encode32 v) \<le> 5"
  unfolding encode32_64 
  by (rule length_encode64_le) (simp_all add: less_trans [OF unat_u32_lt])

lemma encode32_nonempty [simp]: "mtbl_varint_encode32 v \<noteq> []"
  by (simp add: encode32_64)

interpretation varint64: codec mtbl_varint_encode64 mtbl_varint_decode64
  by unfold_locales (simp_all add: wire_simps)

interpretation varint32: codec mtbl_varint_encode32 mtbl_varint_decode32
  by unfold_locales (simp_all add: wire_simps)

subsection \<open>Decoding arbitrary bytes\<close>

text \<open>\<open>cont_bit\<close> is the continuation bit the loops test.\<close>

definition cont_bit :: "u8 \<Rightarrow> bool" where "cont_bit b \<longleftrightarrow> b AND 0x80 \<noteq> 0"

lemma decode_loop_unfold:
  "shift < m \<Longrightarrow> len < length data \<Longrightarrow> varint_decode_loop data m shift len val =
     (let val = val OR push_bit shift (ucast (data ! len AND 0x7f))
      in if \<not> cont_bit (data ! len) then Some (len + 1, val)
         else varint_decode_loop data m (shift + 7) (len + 1) val)"
  by (subst varint_decode_loop.simps) (simp add: byte_at_def cont_bit_def Let_def)

lemma decode_loop_stop: "\<not> shift < m \<Longrightarrow> varint_decode_loop data m shift len val = Some (0, 0)"
  by (subst varint_decode_loop.simps) simp

lemma decode_loop_oob: "shift < m \<Longrightarrow> length data \<le> len \<Longrightarrow> varint_decode_loop data m shift len val = None"
  by (subst varint_decode_loop.simps) (simp add: byte_at_def)

lemma decode_loop_cases:
  assumes "varint_decode_loop data m shift len val = Some (n, v)"
  shows "n = 0 \<and> v = 0 \<and> (\<forall>i. len \<le> i \<longrightarrow> shift + 7 * (i - len) < m \<longrightarrow> cont_bit (data ! i)) \<or>
     len < n \<and> n \<le> length data \<and> \<not> cont_bit (data ! (n - 1)) \<and> shift + 7 * (n - 1 - len) < m \<and>
     (\<forall>i. len \<le> i \<longrightarrow> i < n - 1 \<longrightarrow> cont_bit (data ! i))"
  using assms
proof (induction data m shift len val rule: varint_decode_loop.induct)
  case (1 data m shift len val)
  show ?case
  proof (cases "shift < m")
    case False
    then show ?thesis using "1.prems" by (simp add: decode_loop_stop)
  next
    case s: True
    then have l: "len < length data" using "1.prems" decode_loop_oob by (metis not_le option.distinct(1))
    show ?thesis
    proof (cases "cont_bit (data ! len)")
      case False
      then show ?thesis using "1.prems" s l by (auto simp: decode_loop_unfold Let_def)
    next
      case True
      let ?val = "val OR push_bit shift (ucast (data ! len AND 0x7f))"
      have "varint_decode_loop data m (shift + 7) (len + 1) ?val = Some (n, v)"
        using "1.prems" s l True by (simp add: decode_loop_unfold Let_def)
      with s l True have IH: "n = 0 \<and> v = 0 \<and> (\<forall>i. len + 1 \<le> i \<longrightarrow> shift + 7 + 7 * (i - (len + 1)) < m \<longrightarrow> cont_bit (data ! i)) \<or>
        len + 1 < n \<and> n \<le> length data \<and> \<not> cont_bit (data ! (n - 1)) \<and> shift + 7 + 7 * (n - 1 - (len + 1)) < m \<and>
        (\<forall>i. len + 1 \<le> i \<longrightarrow> i < n - 1 \<longrightarrow> cont_bit (data ! i))"
        by (intro "1.IH") (auto simp: byte_at_def cont_bit_def)
      have a: "\<forall>i. P i" if "\<And>i. len + 1 \<le> i \<Longrightarrow> P i" "P len" "\<And>i. i < len \<Longrightarrow> P i" for P
        using that by (metis Suc_eq_plus1 Suc_leI less_linear)
      from IH show ?thesis
      proof
        assume "n = 0 \<and> v = 0 \<and> (\<forall>i. len + 1 \<le> i \<longrightarrow> shift + 7 + 7 * (i - (len + 1)) < m \<longrightarrow> cont_bit (data ! i))"
        then show ?thesis using True by (intro disjI1 conjI a) (auto simp: Suc_diff_le)
      next
        assume "len + 1 < n \<and> n \<le> length data \<and> \<not> cont_bit (data ! (n - 1)) \<and> shift + 7 + 7 * (n - 1 - (len + 1)) < m \<and>
        (\<forall>i. len + 1 \<le> i \<longrightarrow> i < n - 1 \<longrightarrow> cont_bit (data ! i))"
        then show ?thesis using True by (intro disjI2 conjI a) auto
      qed
    qed
  qed
qed

lemma decode_loop_local:
  "m \<le> shift + 7 * k \<Longrightarrow> varint_decode_loop (take (len + k) data) m shift len val = varint_decode_loop data m shift len val"
proof (induction k arbitrary: shift len val)
  case 0
  then show ?case by (simp add: decode_loop_stop)
next
  case (Suc k)
  have IH: "varint_decode_loop (take (Suc (len + k)) data) m (shift + 7) (Suc len) w = varint_decode_loop data m (shift + 7) (Suc len) w" for w
    using Suc.IH [of "shift + 7" "Suc len" w] Suc.prems by simp
  show ?case
    by (cases "shift < m"; cases "len < length data")
       (simp_all add: decode_loop_stop decode_loop_oob decode_loop_unfold Let_def IH)
qed

lemma packed_loop:
  assumes "\<not> cont_bit (data ! j)" and "\<forall>i. unat a \<le> i \<longrightarrow> i < j \<longrightarrow> cont_bit (data ! i)"
    and "unat a \<le> j" and "j < unat a + len" and "j < 2 ^ 32"
  shows "mtbl_varint_length_packed_loop data len a = of_nat j"
  using assms
proof (induction len arbitrary: a)
  case (Suc len)
  show ?case
  proof (cases "unat a = j")
    case True
    then show ?thesis using Suc.prems by (auto simp: cont_bit_def)
  next
    case False
    then have lt: "unat a < j" using Suc.prems by simp
    then have "unat a + 1 < 2 ^ 32" using Suc.prems by simp
    then have a1: "unat (a + 1) = unat a + 1" by (simp add: unat_word_ariths)
    have "cont_bit (data ! unat a)" using Suc.prems lt by simp
    then show ?thesis using Suc.prems lt Suc.IH [of "a + 1"] by (simp add: a1 cont_bit_def)
  qed
qed simp

lemma length_packed_eq:
  assumes "mtbl_varint_decode64 data = Some (n, v)" and "0 < n" and "length data < 2 ^ 32"
  shows "unat (mtbl_varint_length_packed data) = n"
proof -
  obtain k where k: "n = Suc k" using assms(2) by (cases n) auto
  have l: "n \<le> length data" "\<not> cont_bit (data ! k)" "\<forall>i<k. cont_bit (data ! i)"
    using decode_loop_cases [of data 64 0 0 0 n v] assms(1,2)
    by (auto simp: mtbl_varint_decode64_def varint_decode_def k)
  have "mtbl_varint_length_packed_loop data (length data) 0 = of_nat k"
    using l assms(3) k by (intro packed_loop) auto
  then have eq: "mtbl_varint_length_packed data = (if unat (of_nat k :: u32) = length data then 0 else of_nat k + 1)"
    by (simp add: mtbl_varint_length_packed_def)
  have "unat (of_nat k :: u32) = k" and "unat (of_nat (Suc k) :: u32) = n"
    using l assms(3) k by (auto simp only: intro!: unat_of_nat_small) simp_all
  then show ?thesis using eq l(1) k by (simp add: add.commute)
qed

lemma decode64_total:
  assumes "10 \<le> length data"
  shows "\<exists>n v. mtbl_varint_decode64 data = Some (n, v)"
proof -
  have "\<exists>n v. varint_decode_loop data m s len val = Some (n, v)"
    if "m \<le> s + 7 * (length data - len)" for m s len val
    using that
  proof (induction data m s len val rule: varint_decode_loop.induct)
    case (1 data m s len val)
    show ?case
    proof (cases "s < m")
      case True
      then have "len < length data" using "1.prems" by (cases "length data - len") auto
      with True "1.prems" "1.IH" [OF True] show ?thesis
        by (auto simp: decode_loop_unfold Let_def byte_at_def cont_bit_def Suc_diff_Suc)
    qed (simp add: decode_loop_stop)
  qed
  from this [of 64 0 0 0] assms show ?thesis
    by (simp add: mtbl_varint_decode64_def varint_decode_def)
qed

subsection \<open>Properties\<close>

text \<open>
  C34: a varint written by either encoder and followed by anything decodes to the value it was
  written for, consumes exactly the bytes written, and those are as many as
  \<open>mtbl_varint_length\<close> announces: at most five for 32 bits, at most ten for 64.
\<close>

theorem varint_roundtrip:
  "mtbl_varint_decode64 (mtbl_varint_encode64 v @ rest) = Some (mtbl_varint_length v, v) \<and>
   length (mtbl_varint_encode64 v) = mtbl_varint_length v \<and> mtbl_varint_length v \<le> 10 \<and>
   mtbl_varint_decode32 (mtbl_varint_encode32 w @ rest) = Some (mtbl_varint_length (ucast w), w) \<and>
   length (mtbl_varint_encode32 w) = mtbl_varint_length (ucast w) \<and>
   mtbl_varint_length (ucast w) \<le> 5"
  using length_encode64_bounds [of v] length_encode32_bounds [of w]
  using decode32_encode32 [of w rest] by (simp add: wire_simps length_encode64 encode32_64)

text \<open>
  The unrolled 32-bit encoder and the loop of the 64-bit encoder write the same bytes for
  the same number.
\<close>

theorem varint_encode32_eq_encode64: "mtbl_varint_encode32 v = mtbl_varint_encode64 (ucast v)"
  by (rule encode32_64)

text \<open>
  C35: on a buffer of at least ten bytes the 64-bit decoder always returns, reads only the first
  ten bytes, and reports the overflow value (length 0, value 0) exactly when all ten carry the
  continuation bit; otherwise the length it returns is the one
  \<open>mtbl_varint_length_packed\<close> computes for the buffer.
\<close>

theorem varint_decode_any:
  assumes "10 \<le> length data" and "length data < 2 ^ 32"
  shows "\<exists>n v. mtbl_varint_decode64 data = Some (n, v) \<and>
     mtbl_varint_decode64 (take 10 data) = Some (n, v) \<and>
     (if \<forall>i<10. data ! i AND 0x80 \<noteq> 0 then n = 0 \<and> v = 0
      else 0 < n \<and> n \<le> 10 \<and> unat (mtbl_varint_length_packed data) = n)"
proof -
  obtain n v where d: "mtbl_varint_decode64 data = Some (n, v)"
    using decode64_total [OF assms(1)] by blast
  have t: "mtbl_varint_decode64 (take 10 data) = Some (n, v)"
    using d decode_loop_local [of 64 0 10 0 data 0]
    by (simp add: mtbl_varint_decode64_def varint_decode_def)
  have c: "n = 0 \<and> v = 0 \<and> (\<forall>i<10. cont_bit (data ! i)) \<or>
      0 < n \<and> \<not> cont_bit (data ! (n - 1)) \<and> n \<le> 10"
    using decode_loop_cases [of data 64 0 0 0 n v] d
    by (auto simp: mtbl_varint_decode64_def varint_decode_def)
  have "(if \<forall>i<10. cont_bit (data ! i) then n = 0 \<and> v = 0
      else 0 < n \<and> n \<le> 10 \<and> unat (mtbl_varint_length_packed data) = n)"
  proof (cases n)
    case (Suc k)
    then have "k < 10" and "\<not> cont_bit (data ! k)" using c by auto
    then show ?thesis using c length_packed_eq [OF d _ assms(2)] Suc by auto
  qed (use c in auto)
  with d t show ?thesis by (auto simp: cont_bit_def)
qed

theorem varint_decode_any_witness:
  "\<exists>n v. mtbl_varint_decode64 (replicate 12 0xff) = Some (n, v) \<and> n = 0 \<and> v = 0"
proof -
  have nth: "\<forall>i<10. replicate 12 (0xff :: u8) ! i AND 0x80 \<noteq> 0"
    by (auto simp: nth_replicate)
  have "10 \<le> length (replicate 12 (0xff :: u8))" and "length (replicate 12 (0xff :: u8)) < 2 ^ 32"
    by simp_all
  from varint_decode_any [OF this] nth show ?thesis by auto
qed

end
