(* ===== verification/Fixed.thy ===== *)
theory Fixed
  imports Codec
begin

text \<open>
  \<open>mtbl/fixed.c\<close>: fixed-width little-endian integers. \<open>htole32\<close> followed by a
  \<open>memcpy\<close> of the four bytes stores the least significant byte first whatever the
  host's byte order; \<open>le_store\<close> and \<open>le_load\<close> are that store and load at any width.
\<close>

subsection \<open>Little-endian stores and loads\<close>

primrec le_store :: "nat \<Rightarrow> 'a::len word \<Rightarrow> bytes" where
  "le_store 0 w = []"
| "le_store (Suc n) w = ucast w # le_store n (drop_bit 8 w)"

primrec le_load :: "bytes \<Rightarrow> 'a::len word" where
  "le_load [] = 0"
| "le_load (b # bs) = ucast b OR push_bit 8 (le_load bs)"

subsection \<open>The functions\<close>

definition mtbl_fixed_encode32 :: "u32 \<Rightarrow> bytes" where
  "mtbl_fixed_encode32 value = le_store 4 value"

definition mtbl_fixed_encode64 :: "u64 \<Rightarrow> bytes" where
  "mtbl_fixed_encode64 value = le_store 8 value"

definition mtbl_fixed_decode32 :: "bytes \<Rightarrow> u32 option" where
  "mtbl_fixed_decode32 ptr = do {
     result \<leftarrow> bytes_at ptr 0 4;
     Some (le_load result)
   }"

definition mtbl_fixed_decode64 :: "bytes \<Rightarrow> u64 option" where
  "mtbl_fixed_decode64 ptr = do {
     result \<leftarrow> bytes_at ptr 0 8;
     Some (le_load result)
   }"

subsection \<open>Loads undo stores and stores undo loads\<close>

lemma length_le_store [simp]: "length (le_store n w) = n"
  by (induction n arbitrary: w) auto

lemma le_load_store: "le_load (le_store n (w :: 'a::len word)) = take_bit (8 * n) w"
proof (induction n arbitrary: w)
  case (Suc n)
  have "(ucast (ucast w :: u8) :: 'a word) OR push_bit 8 (take_bit (8 * n) (drop_bit 8 w)) =
      take_bit (8 * Suc n) w"
    by (rule bit_word_eqI) (auto simp: bit_simps)
  with Suc show ?case by simp
qed simp

lemma le_load_store_full: "8 * n = LENGTH('a) \<Longrightarrow> le_load (le_store n (w :: 'a::len word)) = w"
  by (simp add: le_load_store)

lemma bit_le_load_bound: "bit (le_load bs :: 'a::len word) i \<Longrightarrow> i < 8 * length bs"
proof (induction bs arbitrary: i)
  case (Cons b bs)
  show ?case
  proof (cases "i < 8")
    case False
    with Cons.prems have "bit (le_load bs :: 'a word) (i - 8)"
      by (auto simp: bit_simps dest: bit_imp_le_length)
    then have "i - 8 < 8 * length bs" by (rule Cons.IH)
    with False show ?thesis by simp
  qed simp
qed simp

lemma le_store_load:
  "8 * length bs \<le> LENGTH('a) \<Longrightarrow> le_store (length bs) (le_load bs :: 'a::len word) = bs"
proof (induction bs)
  case (Cons b bs)
  have lo: "(ucast (ucast b OR push_bit 8 (le_load bs) :: 'a word) :: u8) = b"
    using Cons.prems by (intro bit_word_eqI) (auto simp: bit_simps)
  have hi: "drop_bit 8 (ucast b OR push_bit 8 (le_load bs) :: 'a word) = le_load bs"
    using Cons.prems
    by (intro bit_word_eqI) (auto simp: bit_simps dest: bit_imp_le_length bit_le_load_bound)
  show ?case using Cons by (simp add: lo hi del: drop_bit_or)
qed simp

lemma length_fixed_encode [simp]:
  "length (mtbl_fixed_encode32 v) = 4" "length (mtbl_fixed_encode64 w) = 8"
  by (simp_all add: mtbl_fixed_encode32_def mtbl_fixed_encode64_def)

lemma fixed_encode32_bytes:
  "mtbl_fixed_encode32 v = [ucast v, ucast (drop_bit 8 v), ucast (drop_bit 16 v), ucast (drop_bit 24 v)]"
  by (simp add: mtbl_fixed_encode32_def le_store.simps(2) [of 3] eval_nat_numeral flip: Suc_1)

lemma fixed_decode32_encode32 [wire_simps]:
  "mtbl_fixed_decode32 (mtbl_fixed_encode32 v @ rest) = Some v"
  by (simp add: mtbl_fixed_decode32_def mtbl_fixed_encode32_def bytes_at_def le_load_store_full)

lemma fixed_decode64_encode64 [wire_simps]:
  "mtbl_fixed_decode64 (mtbl_fixed_encode64 v @ rest) = Some v"
  by (simp add: mtbl_fixed_decode64_def mtbl_fixed_encode64_def bytes_at_def le_load_store_full)

lemma fixed_decode32_Some: "4 \<le> length bs \<Longrightarrow> \<exists>v. mtbl_fixed_decode32 bs = Some v"
  by (simp add: mtbl_fixed_decode32_def bytes_at_def)

lemma fixed_encode32_decode32:
  "mtbl_fixed_decode32 bs = Some v \<Longrightarrow> mtbl_fixed_encode32 v = take 4 bs"
  using le_store_load [where 'a = 32, of "take 4 bs"]
  by (auto simp: mtbl_fixed_decode32_def mtbl_fixed_encode32_def bytes_at_def split: if_splits)

lemma fixed_encode64_decode64:
  "mtbl_fixed_decode64 bs = Some v \<Longrightarrow> mtbl_fixed_encode64 v = take 8 bs"
  using le_store_load [where 'a = 64, of "take 8 bs"]
  by (auto simp: mtbl_fixed_decode64_def mtbl_fixed_encode64_def bytes_at_def split: if_splits)

subsection \<open>The fixed-width codecs\<close>

interpretation fixed32: fixed_codec mtbl_fixed_encode32
  "\<lambda>bs. map_option (Pair 4) (mtbl_fixed_decode32 bs)" 4
  by unfold_locales (simp_all add: wire_simps flip: length_0_conv)

interpretation fixed64: fixed_codec mtbl_fixed_encode64
  "\<lambda>bs. map_option (Pair 8) (mtbl_fixed_decode64 bs)" 8
  by unfold_locales (simp_all add: wire_simps flip: length_0_conv)

lemma fixed_decode32_nth:
  "i < length vs \<Longrightarrow>
   mtbl_fixed_decode32 (drop (i * 4) (concat (map mtbl_fixed_encode32 vs) @ rest)) = Some (vs ! i)"
  using fixed32.dec_nth [of i vs rest] by auto

lemma fixed_decode64_nth:
  "i < length vs \<Longrightarrow>
   mtbl_fixed_decode64 (drop (i * 8) (concat (map mtbl_fixed_encode64 vs) @ rest)) = Some (vs ! i)"
  using fixed64.dec_nth [of i vs rest] by auto

end
