(* ===== verification/Cursor.thy ===== *)
theory Cursor
  imports Prelude
begin

text \<open>
  The contract every iterator of the library offers its client, whatever it iterates over (a
  block, a table, a merge of tables): a step yields the next entry or says there is none, and
  repeating it yields the remaining entries in order. \<open>drain\<close> is the client's loop.
\<close>

type_synonym entry = "bytes \<times> bytes"

primrec drain :: "('s \<Rightarrow> (entry option \<times> 's) option) \<Rightarrow> nat \<Rightarrow> 's \<Rightarrow> (entry list \<times> 's) option" where
  "drain step 0 s = None"
| "drain step (Suc fuel) s = do {
     (e, s) \<leftarrow> step s;
     case e of
       None \<Rightarrow> Some ([], s)
     | Some e \<Rightarrow> do {
         (es, s) \<leftarrow> drain step fuel s;
         Some (e # es, s)
       }
   }"

locale cursor =
  fixes step :: "'s \<Rightarrow> (entry option \<times> 's) option"
    and remaining :: "'s \<Rightarrow> entry list \<Rightarrow> bool"
  assumes step_Cons: "remaining s (e # es) \<Longrightarrow> \<exists>s'. step s = Some (Some e, s') \<and> remaining s' es"
    and step_Nil: "remaining s [] \<Longrightarrow> \<exists>s'. step s = Some (None, s') \<and> remaining s' []"
begin

lemma drain_all:
  assumes "remaining s es" and "length es < fuel"
  shows "\<exists>s'. drain step fuel s = Some (es, s') \<and> remaining s' []"
  using assms
proof (induction es arbitrary: s fuel)
  case Nil
  then obtain f where "fuel = Suc f" by (cases fuel) auto
  with step_Nil [OF Nil.prems(1)] show ?case by auto
next
  case (Cons e es)
  then obtain f where f: "fuel = Suc f" "length es < f" by (cases fuel) auto
  obtain s' where "step s = Some (Some e, s')" "remaining s' es"
    using step_Cons [OF Cons.prems(1)] by blast
  with Cons.IH [OF _ f(2)] f(1) show ?case by fastforce
qed

lemma drain_exact: "remaining s es \<Longrightarrow> \<exists>s'. drain step (length es + 1) s = Some (es, s')"
  using drain_all [of s es "length es + 1"] by auto

lemma remaining_unique:
  assumes "remaining s es" and "remaining s es'"
  shows "es = es'"
proof -
  obtain s1 s2 where "drain step (length es + length es' + 1) s = Some (es, s1)"
      "drain step (length es + length es' + 1) s = Some (es', s2)"
    using drain_all [OF assms(1)] drain_all [OF assms(2)] by (meson le_imp_less_Suc le_add1 le_add2 less_add_one order_le_less_trans)
  then show ?thesis by simp
qed

lemma step_idle_at_end: "remaining s [] \<Longrightarrow> step s = Some (e, s') \<Longrightarrow> e = None"
  using step_Nil by fastforce

end

end
