(* ===== verification/Block_Builder.thy ===== *)
theory Block_Builder
  imports Vector Varint Fixed Cursor
begin

text \<open>
  \<open>mtbl/block_builder.c\<close>: entries are appended to a buffer with the prefix they share with
  the previous key left out; every \<open>block_restart_interval\<close> entries the sharing restarts and
  the offset of the entry is recorded. \<open>finish\<close> appends the restart offsets, 64 bits wide when
  the entries are longer than \<open>UINT32_MAX\<close>, and their number.

  The specification is \<open>block_image\<close>, the bytes of a block as a function of the interval and
  the entries; \<open>bb_inv\<close> ties the builder's state to the entries added so far.
\<close>

definition UINT32_MAX :: nat where
  "UINT32_MAX = 4294967295"

subsection \<open>The builder\<close>

record block_builder =
  bb_interval :: nat
  bb_buf :: ubuf
  bb_last_key :: ubuf
  bb_restarts :: "u64 vec"
  bb_finished :: bool
  bb_counter :: nat

definition block_builder_init :: "nat \<Rightarrow> block_builder option" where
  "block_builder_init block_restart_interval = do {
     restarts \<leftarrow> vec_add (vec_init 64) 0;
     Some \<lparr>bb_interval = block_restart_interval, bb_buf = vec_init 65536,
       bb_last_key = vec_init 256, bb_restarts = restarts, bb_finished = False, bb_counter = 0\<rparr>
   }"

definition block_builder_reset :: "block_builder \<Rightarrow> block_builder option" where
  "block_builder_reset b = do {
     restarts \<leftarrow> vec_add (vec_reset (bb_restarts b)) 0;
     Some (b\<lparr>bb_buf := vec_reset (bb_buf b), bb_last_key := vec_reset (bb_last_key b),
       bb_restarts := restarts, bb_counter := 0, bb_finished := False\<rparr>)
   }"

definition block_builder_empty :: "block_builder \<Rightarrow> bool" where
  "block_builder_empty b \<longleftrightarrow> vec_size (bb_buf b) = 0"

definition block_builder_current_size_estimate :: "block_builder \<Rightarrow> nat" where
  "block_builder_current_size_estimate b =
     (if vec_bytes 1 (bb_buf b) > UINT32_MAX then
        vec_bytes 1 (bb_buf b) + vec_bytes 8 (bb_restarts b) + 4
      else
        vec_bytes 1 (bb_buf b) + vec_bytes 8 (bb_restarts b) div 2 + 4)"

definition block_builder_finish :: "block_builder \<Rightarrow> (bytes \<times> block_builder) option" where
  "block_builder_finish b = do {
     let restart64 = (vec_bytes 1 (bb_buf b) > UINT32_MAX);
     buf \<leftarrow> vec_reserve (bb_buf b) (block_builder_current_size_estimate b);
     buf \<leftarrow> put_all vec_put buf
       (map (\<lambda>r. if restart64 then mtbl_fixed_encode64 r else mtbl_fixed_encode32 (ucast r))
         (vec_data (bb_restarts b)));
     buf \<leftarrow> vec_put buf (mtbl_fixed_encode32 (of_nat (vec_size (bb_restarts b))));
     let (out, buf) = vec_detach buf;
     Some (out, b\<lparr>bb_buf := buf, bb_finished := True\<rparr>)
   }"

text \<open>The first half of \<open>block_builder_add\<close>: how much of the key is shared, or a restart.\<close>

definition block_builder_share :: "block_builder \<Rightarrow> bytes \<Rightarrow> (nat \<times> block_builder) option" where
  "block_builder_share b key =
     (if bb_counter b < bb_interval b then
        (let min_length = (if vec_size (bb_last_key b) > length key then length key
                           else vec_size (bb_last_key b))
         in Some (match_loop (vec_data (bb_last_key b)) key min_length 0, b))
      else do {
        restarts \<leftarrow> vec_add (bb_restarts b) (of_nat (vec_bytes 1 (bb_buf b)));
        Some (0, b\<lparr>bb_restarts := restarts, bb_counter := 0\<rparr>)
      })"

definition block_builder_add :: "block_builder \<Rightarrow> bytes \<Rightarrow> bytes \<Rightarrow> block_builder option" where
  "block_builder_add b key val = do {
     ensure (bb_counter b \<le> bb_interval b);
     ensure (bb_finished b = False);
     (shared, b) \<leftarrow> block_builder_share b key;
     let non_shared = length key - shared;
     buf \<leftarrow> vec_reserve (bb_buf b) (5 * 3 + non_shared + length val);
     buf \<leftarrow> vec_put buf (mtbl_varint_encode32 (of_nat shared));
     buf \<leftarrow> vec_put buf (mtbl_varint_encode32 (of_nat non_shared));
     buf \<leftarrow> vec_put buf (mtbl_varint_encode32 (of_nat (length val)));
     buf \<leftarrow> vec_put buf (drop shared key);
     buf \<leftarrow> vec_put buf val;
     last_key \<leftarrow> vec_append (vec_reset (bb_last_key b)) key;
     Some (b\<lparr>bb_buf := buf, bb_last_key := last_key, bb_counter := bb_counter b + 1\<rparr>)
   }"

primrec block_builder_add_all :: "block_builder \<Rightarrow> (bytes \<times> bytes) list \<Rightarrow> block_builder option" where
  "block_builder_add_all b [] = Some b"
| "block_builder_add_all b (e # es) =
     block_builder_add b (fst e) (snd e) \<bind> (\<lambda>b. block_builder_add_all b es)"

subsection \<open>The specification\<close>

text \<open>A laid-out entry: the length shared with the previous key, the key and the value.\<close>

type_synonym laid = "nat \<times> bytes \<times> bytes"

fun laid_entry :: "laid \<Rightarrow> entry" where
  "laid_entry (shared, key, val) = (key, val)"

fun enc_entry :: "laid \<Rightarrow> bytes" where
  "enc_entry (shared, key, val) =
     mtbl_varint_encode32 (of_nat shared) @ mtbl_varint_encode32 (of_nat (length key - shared)) @
     mtbl_varint_encode32 (of_nat (length val)) @ drop shared key @ val"

fun layout :: "nat \<Rightarrow> nat \<Rightarrow> bytes \<Rightarrow> entry list \<Rightarrow> laid list" where
  "layout n i prev [] = []"
| "layout n i prev ((k, v) # es) =
     ((if i mod n = 0 then 0 else lcp prev k), k, v) # layout n (i + 1) k es"

definition block_layout :: "nat \<Rightarrow> entry list \<Rightarrow> laid list" where
  "block_layout n es = layout n 0 [] es"

definition lay_bytes :: "laid list \<Rightarrow> bytes" where
  "lay_bytes lay = concat (map enc_entry lay)"

definition lay_off :: "laid list \<Rightarrow> nat \<Rightarrow> nat" where
  "lay_off lay i = length (lay_bytes (take i lay))"

definition restart_count :: "nat \<Rightarrow> nat \<Rightarrow> nat" where
  "restart_count n m = (m - 1) div n + 1"

definition restart_offsets :: "nat \<Rightarrow> entry list \<Rightarrow> nat list" where
  "restart_offsets n es =
     map (\<lambda>j. lay_off (block_layout n es) (j * n)) [0..<restart_count n (length es)]"

definition block_image :: "nat \<Rightarrow> entry list \<Rightarrow> bytes" where
  "block_image n es =
     (let body = lay_bytes (block_layout n es); rs = restart_offsets n es
      in body @
         (if length body > UINT32_MAX then concat (map mtbl_fixed_encode64 (map of_nat rs))
          else concat (map mtbl_fixed_encode32 (map of_nat rs))) @
         mtbl_fixed_encode32 (of_nat (length rs)))"

subsection \<open>Facts about layouts\<close>

lemma layout_append:
  "layout n i prev (es @ [(k, v)]) =
     layout n i prev es @
     [((if (i + length es) mod n = 0 then 0 else lcp (if es = [] then prev else fst (last es)) k), k, v)]"
  by (induction es arbitrary: i prev) (auto simp: add_ac)

lemma block_layout_snoc:
  "block_layout n (es @ [(k, v)]) = block_layout n es @
     [((if length es mod n = 0 then 0 else lcp (if es = [] then [] else fst (last es)) k), k, v)]"
  by (simp add: block_layout_def layout_append)

lemma length_layout [simp]: "length (layout n i prev es) = length es"
  by (induction n i prev es rule: layout.induct) auto

lemma length_block_layout [simp]: "length (block_layout n es) = length es"
  by (simp add: block_layout_def)

lemma lay_bytes_append [simp]: "lay_bytes (xs @ ys) = lay_bytes xs @ lay_bytes ys"
  by (simp add: lay_bytes_def)

lemma lay_bytes_simps [simp]: "lay_bytes [] = []" "lay_bytes (x # xs) = enc_entry x @ lay_bytes xs"
  by (simp_all add: lay_bytes_def)

lemma lay_off_append1: "i \<le> length xs \<Longrightarrow> lay_off (xs @ ys) i = lay_off xs i"
  by (simp add: lay_off_def)

lemma lay_off_all: "length lay \<le> i \<Longrightarrow> lay_off lay i = length (lay_bytes lay)"
  by (simp add: lay_off_def)

lemma lay_off_0 [simp]: "lay_off lay 0 = 0"
  by (simp add: lay_off_def)

lemma restart_count_Suc:
  assumes "0 < n"
  shows "restart_count n (Suc m) =
    (if m \<noteq> 0 \<and> m mod n = 0 then restart_count n m + 1 else restart_count n m)"
proof (cases m)
  case (Suc k)
  then show ?thesis using assms by (simp add: restart_count_def div_Suc)
qed (simp add: restart_count_def)

lemma restart_count_mult:
  assumes "0 < n" and "0 < q"
  shows "restart_count n (q * n) = q"
proof -
  obtain p where q: "q = Suc p" using assms(2) by (cases q) auto
  have "(q * n - 1) div n = p"
    using assms(1) q by (intro div_nat_eqI) (auto simp: algebra_simps)
  then show ?thesis by (simp add: restart_count_def q)
qed

lemma restart_offsets_snoc:
  assumes "0 < n"
  shows "restart_offsets n (es @ [(k, v)]) = restart_offsets n es @
    (if es \<noteq> [] \<and> length es mod n = 0 then [length (lay_bytes (block_layout n es))] else [])"
proof -
  let ?lay = "block_layout n es" and ?x = "((if length es mod n = 0 then 0
      else lcp (if es = [] then [] else fst (last es)) k), k, v)"
  have off: "lay_off (?lay @ [?x]) (j * n) = lay_off ?lay (j * n)"
    if "j < restart_count n (length es)" for j
  proof -
    from that have "j \<le> (length es - 1) div n" by (simp add: restart_count_def)
    then have "j * n \<le> length es - 1" using assms by (simp add: less_eq_div_iff_mult_less_eq)
    then show ?thesis by (simp add: lay_off_append1)
  qed
  show ?thesis
  proof (cases "es \<noteq> [] \<and> length es mod n = 0")
    case True
    then have "length es = length es div n * n" by (simp add: dvd_div_mult_self mod_0_imp_dvd)
    then obtain q where "length es = q * n" by blast
    moreover from this True have "0 < q" by (cases q) auto
    ultimately have "restart_count n (length es) * n = length es"
      using assms by (simp add: restart_count_mult)
    then show ?thesis
      using True assms off
      by (simp add: restart_offsets_def block_layout_snoc restart_count_Suc lay_off_append1 lay_off_all)
  next
    case False
    then show ?thesis
      using assms off
      by (auto simp add: restart_offsets_def block_layout_snoc restart_count_Suc)
  qed
qed

subsection \<open>The builder implements the specification\<close>

definition bb_inv :: "block_builder \<Rightarrow> nat \<Rightarrow> entry list \<Rightarrow> bool" where
  "bb_inv b n es \<longleftrightarrow>
     0 < n \<and> bb_interval b = n \<and> \<not> bb_finished b \<and>
     vec_inv (bb_buf b) \<and> vec_inv (bb_last_key b) \<and> vec_inv (bb_restarts b) \<and>
     v_elems (bb_buf b) = lay_bytes (block_layout n es) \<and>
     v_elems (bb_last_key b) = (if es = [] then [] else fst (last es)) \<and>
     v_elems (bb_restarts b) = map of_nat (restart_offsets n es) \<and>
     bb_counter b = (if es = [] then 0 else (length es - 1) mod n + 1)"

lemma restart_offsets_Nil [simp]: "restart_offsets n [] = [0]"
  by (simp add: restart_offsets_def restart_count_def)

lemma block_layout_Nil [simp]: "block_layout n [] = []"
  by (simp add: block_layout_def)

lemma builder_init:
  assumes "0 < n"
  shows "\<exists>b. block_builder_init n = Some b \<and> bb_inv b n []"
  using vec_add_Some [of "vec_init 64 :: u64 vec" 0] assms
  by (auto simp: block_builder_init_def bb_inv_def)

lemma builder_reset:
  assumes "vec_inv (bb_buf b)" "vec_inv (bb_last_key b)" "vec_inv (bb_restarts b)" "0 < bb_interval b"
  shows "\<exists>b'. block_builder_reset b = Some b' \<and> bb_inv b' (bb_interval b) []"
  using vec_add_Some [of "vec_reset (bb_restarts b)" 0] assms
  by (auto simp: block_builder_reset_def bb_inv_def)

lemma builder_empty: "bb_inv b n es \<Longrightarrow> block_builder_empty b \<longleftrightarrow> es = []"
  by (cases es rule: rev_cases)
     (auto simp: bb_inv_def block_builder_empty_def vec_size_def block_layout_snoc)

lemma counter_step:
  assumes "0 < n" and "0 < m"
  shows "Suc ((m - Suc 0) mod n) < n \<longleftrightarrow> \<not> n dvd m"
    and "\<not> n dvd m \<Longrightarrow> Suc ((m - Suc 0) mod n) = m mod n"
proof -
  obtain k where m: "m = Suc k" using assms(2) by (cases m) auto
  have "k mod n < n" using assms(1) by simp
  then show "Suc ((m - Suc 0) mod n) < n \<longleftrightarrow> \<not> n dvd m"
    by (simp only: m dvd_eq_mod_eq_0 mod_Suc diff_Suc_1' diff_Suc_1 One_nat_def) auto
  show "\<not> n dvd m \<Longrightarrow> Suc ((m - Suc 0) mod n) = m mod n"
    by (simp add: m dvd_eq_mod_eq_0 mod_Suc split: if_splits)
qed

lemma builder_share:
  assumes inv: "bb_inv b n es"
  shows "\<exists>b'. block_builder_share b k =
      Some (if length es mod n = 0 then 0 else lcp (if es = [] then [] else fst (last es)) k, b') \<and>
    bb_interval b' = n \<and> bb_finished b' = bb_finished b \<and> bb_buf b' = bb_buf b \<and>
    bb_last_key b' = bb_last_key b \<and> vec_inv (bb_restarts b') \<and>
    v_elems (bb_restarts b') = map of_nat (restart_offsets n (es @ [(k, v)])) \<and>
    bb_counter b' = length es mod n"
proof (cases "es \<noteq> [] \<and> length es mod n = 0")
  case True
  with inv have c: "\<not> bb_counter b < bb_interval b"
    using counter_step(1) [of n "length es"] by (auto simp: bb_inv_def)
  from inv have "vec_inv (bb_restarts b)" by (simp add: bb_inv_def)
  from vec_add_Some [OF this, of "of_nat (vec_bytes 1 (bb_buf b))"] True c inv
  show ?thesis
    by (auto simp: block_builder_share_def restart_offsets_snoc bb_inv_def vec_bytes_def)
next
  case False
  then have c: "bb_counter b < bb_interval b"
    using inv counter_step(1) [of n "length es"] by (auto simp: bb_inv_def)
  have sh: "block_builder_share b k = Some (lcp (v_elems (bb_last_key b)) k, b)"
    by (simp only: block_builder_share_def c if_True Let_def vec_size_def vec_data_def match_loop_min)
  have cnt: "bb_counter b = length es mod n"
    using False inv counter_step(2) [of n "length es"] 
    by (cases "es = []") (auto simp: bb_inv_def dvd_eq_mod_eq_0)
  show ?thesis
    using False inv cnt restart_offsets_snoc [of n "[]" k v] unfolding sh
    by (cases "es = []") (auto simp: bb_inv_def restart_offsets_snoc)
qed

lemma put_all_5:
  "put_all put b [x1, x2, x3, x4, x5] = do {
     b \<leftarrow> put b x1; b \<leftarrow> put b x2; b \<leftarrow> put b x3; b \<leftarrow> put b x4; put b x5 }"
  by (simp add: Option.bind_assoc)

text \<open>The second half of \<open>block_builder_add\<close>: room is reserved, so every store succeeds.\<close>

lemma builder_write:
  assumes "vec_inv buf" and "s \<le> length k"
  shows "\<exists>buf'. (do {
      buf \<leftarrow> vec_reserve buf (5 * 3 + (length k - s) + length v);
      buf \<leftarrow> vec_put buf (mtbl_varint_encode32 (of_nat s));
      buf \<leftarrow> vec_put buf (mtbl_varint_encode32 (of_nat (length k - s)));
      buf \<leftarrow> vec_put buf (mtbl_varint_encode32 (of_nat (length v)));
      buf \<leftarrow> vec_put buf (drop s k);
      vec_put buf v }) = Some buf' \<and>
    vec_inv buf' \<and> v_elems buf' = v_elems buf @ enc_entry (s, k, v)"
proof -
  let ?xs = "[mtbl_varint_encode32 (of_nat s), mtbl_varint_encode32 (of_nat (length k - s)),
    mtbl_varint_encode32 (of_nat (length v)), drop s k, v]"
  have "length (concat ?xs) \<le> 5 * 3 + (length k - s) + length v"
    using length_encode32_bounds [of "of_nat s"] length_encode32_bounds [of "of_nat (length k - s)"]
      length_encode32_bounds [of "of_nat (length v)"]
    by (simp del: of_nat_diff)
  from vec.reserve_put_all [OF assms(1) this] show ?thesis
    unfolding put_all_5 by simp
qed

lemma builder_add:
  assumes inv: "bb_inv b n es"
  shows "\<exists>b'. block_builder_add b k v = Some b' \<and> bb_inv b' n (es @ [(k, v)])"
proof -
  define s where "s = (if length es mod n = 0 then 0
    else lcp (if es = [] then [] else fst (last es)) k)"
  obtain b1 where b1: "block_builder_share b k = Some (s, b1)" "bb_interval b1 = n"
      "bb_finished b1 = bb_finished b" "bb_buf b1 = bb_buf b" "bb_last_key b1 = bb_last_key b"
      "vec_inv (bb_restarts b1)" "bb_counter b1 = length es mod n"
      "v_elems (bb_restarts b1) = map of_nat (restart_offsets n (es @ [(k, v)]))"
    using builder_share [OF inv, of k v] unfolding s_def by blast
  have i: "bb_interval b = n" "\<not> bb_finished b" "vec_inv (bb_buf b)" "vec_inv (bb_last_key b)" "0 < n"
      "v_elems (bb_buf b) = lay_bytes (block_layout n es)" "bb_counter b \<le> n"
    using inv by (auto simp: bb_inv_def Suc_le_eq)
  have "s \<le> length k" by (simp add: s_def lcp_le2)
  from builder_write [OF i(3) this, of v] obtain buf where buf: "vec_inv buf"
      "v_elems buf = v_elems (bb_buf b) @ enc_entry (s, k, v)" and w: "(do {
      buf \<leftarrow> vec_reserve (bb_buf b) (5 * 3 + (length k - s) + length v);
      buf \<leftarrow> vec_put buf (mtbl_varint_encode32 (of_nat s));
      buf \<leftarrow> vec_put buf (mtbl_varint_encode32 (of_nat (length k - s)));
      buf \<leftarrow> vec_put buf (mtbl_varint_encode32 (of_nat (length v)));
      buf \<leftarrow> vec_put buf (drop s k);
      vec_put buf v }) = Some buf"
    by blast
  obtain lk where lk: "vec_append (vec_reset (bb_last_key b)) k = Some lk" "vec_inv lk" "v_elems lk = k"
    using vec_append_Some [of "vec_reset (bb_last_key b)" k] i by auto
  let ?b' = "b1\<lparr>bb_buf := buf, bb_last_key := lk, bb_counter := length es mod n + 1\<rparr>"
  have "block_builder_add b k v = Some ?b'"
    using w by (auto simp: block_builder_add_def Let_def b1 i lk Option.bind_eq_Some_conv simp del: of_nat_diff)
  moreover have "bb_inv ?b' n (es @ [(k, v)])"
    using buf lk i(2,5) b1 unfolding bb_inv_def block_layout_snoc s_def [symmetric]
    by (simp add: i(6))
  ultimately show ?thesis by blast
qed

lemma builder_add_all:
  "bb_inv b n es \<Longrightarrow> \<exists>b'. block_builder_add_all b es' = Some b' \<and> bb_inv b' n (es @ es')"
proof (induction es' arbitrary: b es)
  case (Cons e es')
  obtain b1 where "block_builder_add b (fst e) (snd e) = Some b1" "bb_inv b1 n (es @ [e])"
    using builder_add [OF Cons.prems, of "fst e" "snd e"] by auto
  with Cons.IH show ?case by fastforce
qed simp

lemma length_restarts_concat:
  "length (concat (map (\<lambda>r. if w then mtbl_fixed_encode64 r else mtbl_fixed_encode32 (f r)) rs)) =
     length rs * (if w then 8 else 4)"
  by (induction rs) auto

lemma builder_finish:
  assumes inv: "bb_inv b n es"
  shows "\<exists>b'. block_builder_finish b = Some (block_image n es, b') \<and> bb_interval b' = n \<and>
    vec_inv (bb_buf b') \<and> vec_inv (bb_last_key b') \<and> vec_inv (bb_restarts b') \<and>
    bb_finished b' \<and> v_elems (bb_buf b') = []"
proof -
  let ?body = "lay_bytes (block_layout n es)" and ?rs = "restart_offsets n es"
  let ?w = "length ?body > UINT32_MAX"
  let ?enc = "\<lambda>r. if ?w then mtbl_fixed_encode64 r else mtbl_fixed_encode32 (ucast r)"
  let ?n32 = "mtbl_fixed_encode32 (of_nat (length ?rs))"
  let ?xss = "map ?enc (map of_nat ?rs)"
  have i: "v_elems (bb_buf b) = ?body" "v_elems (bb_restarts b) = map of_nat ?rs" "vec_inv (bb_buf b)"
      "vec_inv (bb_last_key b)" "vec_inv (bb_restarts b)" "bb_interval b = n"
    using inv by (auto simp: bb_inv_def)
  have est: "length (concat (?xss @ [?n32])) \<le> block_builder_current_size_estimate b"
    by (auto simp: length_restarts_concat block_builder_current_size_estimate_def vec_bytes_def i
        simp del: map_map)
  obtain buf where buf: "vec_inv buf" "v_elems buf = ?body @ concat (?xss @ [?n32])"
      "(vec_reserve (bb_buf b) (block_builder_current_size_estimate b) \<bind>
        (\<lambda>buf. put_all vec_put buf (?xss @ [?n32]))) = Some buf"
    using vec.reserve_put_all [OF i(3) est] unfolding i(1) by blast
  have put: "put_all put c (xs @ [x]) = (put_all put c xs \<bind> (\<lambda>c. put c x))"
    for put :: "ubuf \<Rightarrow> bytes \<Rightarrow> ubuf option" and c xs x
    by (induction xs arbitrary: c) (auto simp: Option.bind_assoc)
  have img: "?body @ concat (?xss @ [?n32]) = block_image n es"
    by (simp add: block_image_def Let_def comp_def)
  have "block_builder_finish b =
      Some (block_image n es, b\<lparr>bb_buf := snd (vec_detach buf), bb_finished := True\<rparr>)"
    using buf(3) buf(2) [unfolded img] unfolding put
    by (auto simp: block_builder_finish_def Let_def vec_bytes_def vec_size_def vec_data_def i
        vec_detach_def Option.bind_eq_Some_conv simp del: map_map)
  then show ?thesis using i buf(1) vec_inv_detach [OF buf(1)] by simp
qed

subsection \<open>Properties\<close>

text \<open>
  C21: a builder with a positive restart interval accepts any sequence of entries, and
  \<open>finish\<close> returns exactly the block image the specification gives for them; after
  \<open>reset\<close> the same builder produces the image of the next block, with nothing left of the
  first one.
\<close>

theorem block_builder_produces_image:
  assumes "0 < n"
  shows "\<exists>b b1 b2 b3 b4 b5. block_builder_init n = Some b \<and>
    block_builder_add_all b es = Some b1 \<and> (block_builder_empty b1 \<longleftrightarrow> es = []) \<and>
    block_builder_finish b1 = Some (block_image n es, b2) \<and>
    block_builder_reset b2 = Some b3 \<and> block_builder_empty b3 \<and>
    block_builder_add_all b3 es' = Some b4 \<and>
    block_builder_finish b4 = Some (block_image n es', b5)"
proof -
  obtain b where b: "block_builder_init n = Some b" "bb_inv b n []"
    using builder_init [OF assms] by blast
  obtain b1 where b1: "block_builder_add_all b es = Some b1" "bb_inv b1 n es"
    using builder_add_all [OF b(2), of es] by auto
  obtain b2 where b2: "block_builder_finish b1 = Some (block_image n es, b2)" "bb_interval b2 = n"
      "vec_inv (bb_buf b2)" "vec_inv (bb_last_key b2)" "vec_inv (bb_restarts b2)"
    using builder_finish [OF b1(2)] by blast
  obtain b3 where b3: "block_builder_reset b2 = Some b3" "bb_inv b3 n []"
    using builder_reset [OF b2(3-5)] b2(2) assms by auto
  obtain b4 where b4: "block_builder_add_all b3 es' = Some b4" "bb_inv b4 n es'"
    using builder_add_all [OF b3(2), of es'] by auto
  show ?thesis
    using b b1 b2(1) b3 b4 builder_finish [OF b4(2)] builder_empty [OF b1(2)] builder_empty [OF b3(2)]
    by blast
qed

theorem block_builder_produces_image_witness:
  "\<exists>b b1 b2. block_builder_init 2 = Some b \<and>
     block_builder_add_all b [([97], [1]), ([97, 98], [2]), ([98], [3])] = Some b1 \<and>
     \<not> block_builder_empty b1 \<and>
     block_builder_finish b1 = Some ([0, 1, 1, 97, 1, 1, 1, 1, 98, 2, 0, 1, 1, 98, 3,
       0, 0, 0, 0, 10, 0, 0, 0, 2, 0, 0, 0], b2)"
proof -
  have img: "block_image 2 [([97], [1]), ([97, 98], [2]), ([98], [3])] =
      [0, 1, 1, 97, 1, 1, 1, 1, 98, 2, 0, 1, 1, 98, 3, 0, 0, 0, 0, 10, 0, 0, 0, 2, 0, 0, 0]"
    by (simp add: block_image_def block_layout_def lay_bytes_def restart_offsets_def
        restart_count_def lay_off_def UINT32_MAX_def encode32_small fixed_encode32_bytes)
  have "0 < (2::nat)" by simp
  from block_builder_produces_image [OF this, of "[([97], [1]), ([97, 98], [2]), ([98], [3])]" "[]"]
  show ?thesis unfolding img by blast
qed

text \<open>
  An interval of 0, which \<open>mtbl_writer_options_set_block_restart_interval\<close> accepts, makes
  the second \<open>block_builder_add\<close> of every block fail its assertion, whatever the entries.
\<close>

theorem block_builder_interval_zero_aborts:
  "\<exists>b b1. block_builder_init 0 = Some b \<and> block_builder_add b k v = Some b1 \<and>
     block_builder_add b1 k' v' = None"
proof -
  obtain b where b: "block_builder_init 0 = Some b" "bb_interval b = 0" "bb_counter b = 0"
      "\<not> bb_finished b" "vec_inv (bb_buf b)" "vec_inv (bb_last_key b)" "vec_inv (bb_restarts b)"
    using vec_add_Some [of "vec_init 64 :: u64 vec" 0] by (auto simp: block_builder_init_def)
  obtain rs where rs: "vec_add (bb_restarts b) (of_nat (vec_bytes 1 (bb_buf b))) = Some rs"
    using vec_add_Some [OF b(7)] by blast
  obtain buf where w: "(do {
      buf \<leftarrow> vec_reserve (bb_buf b) (5 * 3 + (length k - 0) + length v);
      buf \<leftarrow> vec_put buf (mtbl_varint_encode32 (of_nat 0));
      buf \<leftarrow> vec_put buf (mtbl_varint_encode32 (of_nat (length k - 0)));
      buf \<leftarrow> vec_put buf (mtbl_varint_encode32 (of_nat (length v)));
      buf \<leftarrow> vec_put buf (drop 0 k);
      vec_put buf v }) = Some buf"
    using builder_write [OF b(5), of 0 k v] by blast
  obtain lk where lk: "vec_append (vec_reset (bb_last_key b)) k = Some lk"
    using vec_append_Some [of "vec_reset (bb_last_key b)" k] b(6) by auto
  have "block_builder_add b k v = Some (b\<lparr>bb_restarts := rs, bb_counter := 1, bb_buf := buf, bb_last_key := lk\<rparr>)"
    using w b(2-4) rs lk
    by (auto simp: block_builder_add_def block_builder_share_def Let_def Option.bind_eq_Some_conv)
  with b(1,2) show ?thesis by (simp add: block_builder_add_def)
qed

end
