(* ===== verification/Bytes.thy ===== *)
theory Bytes
  imports Prelude
begin

text \<open>
  \<open>bytes_compare\<close> of \<open>mtbl/mtbl-private.h\<close>, the key order of every component, and
  \<open>bytes_shortest_separator\<close> of \<open>mtbl/bytes.h\<close>, which shortens the key the writer puts in
  the index block. \<open>memcmp\<close> is the C library's; only the sign of its result is used.
\<close>

subsection \<open>The functions\<close>

fun memcmp :: "bytes \<Rightarrow> bytes \<Rightarrow> nat \<Rightarrow> int" where
  "memcmp (a # as) (b # bs) (Suc n) =
     (if a = b then memcmp as bs n else uint a - uint b)"
| "memcmp _ _ _ = 0"

definition bytes_compare :: "bytes \<Rightarrow> bytes \<Rightarrow> int" where
  "bytes_compare a b =
     (let len_a = length a;
          len_b = length b;
          len = (if len_a > len_b then len_b else len_a);
          ret = memcmp a b len
      in if ret = 0 then
           (if len_a < len_b then - 1
            else if len_a = len_b then 0
            else if len_a > len_b then 1
            else ret)
         else ret)"

text \<open>\<open>be16toh\<close> after a \<open>memcpy\<close> of two bytes, and \<open>htobe16\<close> before one.\<close>

definition be16_load :: "bytes \<Rightarrow> nat \<Rightarrow> u16" where
  "be16_load data i = push_bit 8 (ucast (data ! i)) OR ucast (data ! (i + 1))"

definition be16_store :: "u16 \<Rightarrow> bytes" where
  "be16_store v = [ucast (drop_bit 8 v), ucast v]"

text \<open>The bytes of \<open>start\<close> after the two branches that may shorten it.\<close>

definition separator_candidate :: "bytes \<Rightarrow> bytes \<Rightarrow> nat \<Rightarrow> nat \<Rightarrow> bytes" where
  "separator_candidate start limit min_length diff_index =
     (let diff_byte = start ! diff_index
      in if unat diff_byte < 0xFF \<and> unat diff_byte + 1 < unat (limit ! diff_index) then
           take (diff_index + 1) (start[diff_index := diff_byte + 1])
         else if diff_index + 2 < min_length then
           (let u_start = be16_load start diff_index;
                u_limit = be16_load limit diff_index;
                u_between = u_start + 1
            in if u_start \<le> u_between \<and> u_between \<le> u_limit
               then take diff_index start @ be16_store u_between
               else start)
         else start)"

definition bytes_shortest_separator :: "bytes \<Rightarrow> bytes \<Rightarrow> bytes option" where
  "bytes_shortest_separator start limit =
     (let min_length = (if length start < length limit then length start else length limit);
          diff_index = match_loop start limit min_length 0
      in if diff_index \<ge> min_length then Some start
         else do {
           let start = separator_candidate start limit min_length diff_index;
           ensure (bytes_compare start limit < 0);
           Some start
         })"

subsection \<open>The comparison computes the lexicographic order\<close>

lemma bytes_compare_Nil [simp]:
  "bytes_compare [] [] = 0" "bytes_compare [] (b # bs) = - 1" "bytes_compare (a # as) [] = 1"
  by (simp_all add: bytes_compare_def)

lemma bytes_compare_Cons [simp]:
  "bytes_compare (a # as) (b # bs) =
     (if a = b then bytes_compare as bs else uint a - uint b)"
  by (auto simp: bytes_compare_def Let_def word_uint_eq_iff)

lemma bytes_compare_sign:
  "(bytes_compare a b < 0 \<longleftrightarrow> a < b) \<and> (bytes_compare a b = 0 \<longleftrightarrow> a = b)"
proof (induction a arbitrary: b)
  case Nil
  then show ?case by (cases b) auto
next
  case (Cons x a)
  then show ?case by (cases b) (auto simp: word_less_def word_uint_eq_iff)
qed

lemma bytes_compare_less [simp]: "bytes_compare a b < 0 \<longleftrightarrow> a < b"
  using bytes_compare_sign by blast

lemma bytes_compare_eq [simp]: "bytes_compare a b = 0 \<longleftrightarrow> a = b"
  using bytes_compare_sign by blast

lemma bytes_compare_greater [simp]: "0 < bytes_compare a b \<longleftrightarrow> b < a"
  using bytes_compare_sign [of a b] by (metis linorder_less_linear not_less_iff_gr_or_eq)

lemma bytes_compare_le [simp]: "bytes_compare a b \<le> 0 \<longleftrightarrow> a \<le> b"
  using bytes_compare_greater [of a b] by (metis linorder_not_less)

lemma bytes_compare_ge [simp]: "0 \<le> bytes_compare a b \<longleftrightarrow> b \<le> a"
  using bytes_compare_less [of a b] by (metis linorder_not_less)

subsection \<open>The separator\<close>

lemma be16_value: "unat (be16_load data i) = 256 * unat (data ! i) + unat (data ! (i + 1))"
proof -
  have dis: "push_bit 8 (ucast (data ! i) :: u16) AND ucast (data ! (i + 1)) = 0"
    by (rule bit_word_eqI) (auto simp: bit_simps dest: bit_imp_le_length)
  have "be16_load data i = push_bit 8 (ucast (data ! i)) + ucast (data ! (i + 1))"
    unfolding be16_load_def using dis by (simp add: disjunctive_add_eq_or)
  moreover have "take_bit 16 (unat b) = unat b" for b :: u8
    by (simp add: take_bit_nat_eq_self_iff less_trans [OF unat_u8_lt])
  moreover have "unat (data ! i) * 256 + unat (data ! (i + 1)) < 65536"
  proof -
    have "unat (data ! i) < 256" and "unat (data ! (i + 1)) < 256" by simp_all
    then show ?thesis by linarith
  qed
  ultimately show ?thesis
    by (simp add: push_bit_eq_mult unat_word_ariths unsigned_ucast_eq)
qed

lemma be16_load_store: "be16_load (be16_store v) 0 = v"
  by (rule bit_word_eqI) (auto simp: be16_load_def be16_store_def bit_simps)

lemma be16_less:
  "[a, b] < [c, d] \<longleftrightarrow> be16_load [a, b] 0 < be16_load [c, d] 0"
proof -
  have "unat b < 256" and "unat d < 256" by simp_all
  then have "256 * unat a + unat b < 256 * unat c + unat d \<longleftrightarrow>
      unat a < unat c \<or> (unat a = unat c \<and> unat b < unat d)"
    by linarith
  then show ?thesis by (simp add: word_less_nat_alt be16_value word_unat_eq_iff)
qed

lemma be16_load_take: "i + 1 < length xs \<Longrightarrow> be16_load (take 2 (drop i xs)) 0 = be16_load xs i"
  by (simp add: be16_load_def)

lemma two_bytes: "i + 1 < length xs \<Longrightarrow> take 2 (drop i xs) = [xs ! i, xs ! (i + 1)]"
  by (rule nth_equalityI) (auto simp: less_Suc_eq nth_append eval_nat_numeral)

lemma be16_less_at:
  assumes "i + 1 < length xs"
  shows "be16_store v < take 2 (drop i xs) \<longleftrightarrow> v < be16_load xs i"
    and "take 2 (drop i xs) < be16_store v \<longleftrightarrow> be16_load xs i < v"
  using be16_less [of "ucast (drop_bit 8 v)" "ucast v" "xs ! i" "xs ! (i + 1)"]
    be16_less [of "xs ! i" "xs ! (i + 1)" "ucast (drop_bit 8 v)" "ucast v"]
    be16_load_store [of v]
  by (simp_all add: two_bytes [OF assms] be16_store_def be16_load_def)

lemma candidate_between:
  fixes xs ys :: bytes
  defines "i \<equiv> lcp xs ys" and "m \<equiv> min (length xs) (length ys)"
  assumes less: "xs < ys" and "i < m"
  shows "xs \<le> separator_candidate xs ys m i \<and> separator_candidate xs ys m i < ys \<and>
    length (separator_candidate xs ys m i) \<le> length xs"
proof -
  have lt: "i < length xs" "i < length ys" using assms by auto
  have p: "take i xs = take i ys" unfolding i_def by (rule lcp_take)
  have d: "xs ! i < ys ! i"
    using less lt p lcp_differ [of xs ys] by (auto simp: list_less_at [OF lt p] i_def)
  let ?P = "unat (xs ! i) < 0xFF \<and> unat (xs ! i) + 1 < unat (ys ! i)"
  let ?R = "be16_load xs i \<le> be16_load xs i + 1 \<and> be16_load xs i + 1 \<le> be16_load ys i"
  have "separator_candidate xs ys m i = xs" if "\<not> ?P" and "\<not> (i + 2 < m \<and> ?R)"
    unfolding separator_candidate_def Let_def using that by (simp only: if_False split: if_split) blast
  then consider (inc) "?P" | (be) "\<not> ?P" and "i + 2 < m" and "?R"
    | (same) "separator_candidate xs ys m i = xs"
    by blast
  then show ?thesis
  proof cases
    case inc
    let ?s = "take i xs @ [xs ! i + 1]"
    have c: "separator_candidate xs ys m i = ?s"
      using inc lt by (simp add: separator_candidate_def Let_def take_Suc_conv_app_nth)
    have "unat (xs ! i + 1) = unat (xs ! i) + 1" using inc by (simp add: unat_word_ariths)
    then have b: "xs ! i < xs ! i + 1" "xs ! i + 1 < ys ! i"
      using inc by (simp_all add: word_less_nat_alt)
    have "xs < ?s" and "?s < ys"
      using b lt p by (simp_all add: list_less_at [of i] nth_append)
    with c lt show ?thesis by (simp add: order.strict_implies_order)
  next
    case be
    let ?v = "be16_load xs i + 1"
    let ?s = "take i xs @ be16_store ?v"
    have c: "separator_candidate xs ys m i = ?s"
      using be by (auto simp: separator_candidate_def Let_def)
    have l: "i + 2 < length xs" "i + 2 < length ys" using be(2) by (auto simp: m_def)
    then have l1: "i + 1 < length xs" "i + 1 < length ys" by simp_all
    have v: "be16_load xs i < ?v" using be(3) by (metis add.right_neutral add_left_cancel order_le_less zero_neq_one)
    have x: "xs = take i xs @ take 2 (drop i xs) @ drop (i + 2) xs"
      and y: "ys = take i xs @ take 2 (drop i ys) @ drop (i + 2) ys"
      using p by (metis append_take_drop_id drop_drop add.commute)+
    have tail: "[] < drop (i + 2) ys" using l by (cases "drop (i + 2) ys") auto
    have "take 2 (drop i xs) < be16_store ?v" using v l by (simp add: be16_less_at)
    then have "xs < ?s"
      by (subst x) (simp add: list_less_append_same list_less_append_eqlen [where vs = "[]", simplified] be16_store_def two_bytes [OF l1(1)])
    moreover have "be16_store ?v \<le> take 2 (drop i ys)"
      using be(3) l by (simp add: be16_less_at not_less [symmetric])
    then have "?s < ys"
      using tail
      by (subst y) (auto simp: list_less_append_same list_less_append_eqlen [where us = "[]", simplified] be16_store_def two_bytes [OF l1(2)] le_less)
    ultimately show ?thesis using c l by (simp add: be16_store_def)
  next
    case same
    with less show ?thesis by simp
  qed
qed

lemma separator_between:
  assumes "start < limit"
  shows "\<exists>s. bytes_shortest_separator start limit = Some s \<and> start \<le> s \<and> s < limit \<and>
    length s \<le> length start"
proof -
  let ?m = "min (length start) (length limit)"
  have i: "match_loop start limit ?m 0 = lcp start limit" by (simp add: match_loop_lcp)
  have m: "(if length start < length limit then length start else length limit) = ?m" by simp
  show ?thesis
  proof (cases "?m \<le> lcp start limit")
    case True
    with assms show ?thesis unfolding bytes_shortest_separator_def Let_def m i by simp
  next
    case False
    then have "lcp start limit < ?m" by linarith
    from candidate_between [OF assms this] False show ?thesis
      unfolding bytes_shortest_separator_def Let_def m i by simp
  qed
qed

subsection \<open>Properties\<close>

text \<open>
  \<open>bytes_compare\<close> decides the lexicographic order of byte strings with bytes compared
  unsigned and a proper prefix first, so it is a total order whose zero is equality.
\<close>

theorem bytes_compare_lexicographic:
  "(bytes_compare a b < 0 \<longleftrightarrow> a < b) \<and> (bytes_compare a b = 0 \<longleftrightarrow> a = b) \<and>
   (bytes_compare a b > 0 \<longleftrightarrow> b < a) \<and> (bytes_compare b a < 0 \<longleftrightarrow> bytes_compare a b > 0)"
  by simp

text \<open>
  C26: for keys in order the separator never trips its own assertion: it returns a key at least
  the last key of the block, below the first key of the next block and no longer than the key
  it replaces.
\<close>

theorem shortest_separator_separates:
  assumes "start < limit"
  shows "\<exists>s. bytes_shortest_separator start limit = Some s \<and> start \<le> s \<and> s < limit \<and>
    length s \<le> length start"
  using assms by (rule separator_between)

theorem shortest_separator_separates_witness:
  "[1, 0x61, 0xff, 7, 9] < ([1, 0x62, 0, 7, 9] :: bytes) \<and>
   bytes_shortest_separator [1, 0x61, 0xff, 7, 9] [1, 0x62, 0, 7, 9] = Some [1, 0x62, 0] \<and>
   (\<exists>s. bytes_shortest_separator [1, 0x61, 0xff, 7, 9] [1, 0x62, 0, 7, 9] = Some s \<and>
     s < ([1, 0x62, 0, 7, 9] :: bytes))"
proof -
  have less: "[1, 0x61, 0xff, 7, 9] < ([1, 0x62, 0, 7, 9] :: bytes)" by simp
  have "bytes_shortest_separator [1, 0x61, 0xff, 7, 9] [1, 0x62, 0, 7, 9] = Some [1, 0x62, 0]"
    by code_simp
  with less shortest_separator_separates [OF less] show ?thesis by auto
qed

end
