(* ===== verification/Block.thy ===== *)
theory Block
  imports Block_Builder Bytes
begin

text \<open>
  \<open>mtbl/block.c\<close>: parsing a block and iterating over it. A block is the bytes from its first
  byte on (the buffer may continue after it), its size and the offset of its restart array; an
  iterator holds offsets into those bytes where the code holds pointers, and \<open>bi_next\<close> is
  \<open>None\<close> while the pointer is still NULL.

  Every assertion and every read outside the buffer is a \<open>None\<close>. \<open>block_iter_seek\<close> is split
  into its loops: \<open>gallop\<close>, \<open>restart_bsearch\<close> and \<open>seek_linear\<close>.
\<close>

subsection \<open>Blocks\<close>

record block =
  blk_data :: bytes
  blk_size :: u64
  blk_restart_offset :: u64
  blk_needs_free :: bool

definition num_restarts :: "block \<Rightarrow> u32 option" where
  "num_restarts b = do {
     ensure (blk_size b \<ge> 8);
     mtbl_fixed_decode32 (drop (unat (blk_size b - 4)) (blk_data b))
   }"

definition decode_entry :: "bytes \<Rightarrow> nat \<Rightarrow> nat \<Rightarrow> (nat \<times> u32 \<times> u32 \<times> u32) option option" where
  "decode_entry data p limit =
     (if limit < p + 3 then Some None
      else do {
        b0 \<leftarrow> byte_at data p;
        b1 \<leftarrow> byte_at data (p + 1);
        b2 \<leftarrow> byte_at data (p + 2);
        (p, shared, non_shared, value_length) \<leftarrow>
          (if ucast b0 OR ucast b1 OR ucast b2 < (128 :: u32)
           then Some (p + 3, ucast b0, ucast b1, ucast b2)
           else do {
             (n, shared) \<leftarrow> mtbl_varint_decode32 (drop p data);
             let p = p + n;
             (n, non_shared) \<leftarrow> mtbl_varint_decode32 (drop p data);
             let p = p + n;
             (n, value_length) \<leftarrow> mtbl_varint_decode32 (drop p data);
             let p = p + n;
             ensure (p \<le> limit);
             Some (p, shared, non_shared, value_length)
           });
        ensure (\<not> limit - p < unat (non_shared + value_length));
        Some (Some (p, shared, non_shared, value_length))
      })"

definition block_init :: "bytes \<Rightarrow> u64 \<Rightarrow> bool \<Rightarrow> block option" where
  "block_init data sz needs_free = do {
     let b = \<lparr>blk_data = data, blk_size = sz, blk_restart_offset = 0,
       blk_needs_free = needs_free\<rparr>;
     b \<leftarrow>
       (if sz < 4 then Some (b\<lparr>blk_size := 0\<rparr>)
        else do {
          n \<leftarrow> num_restarts b;
          Some (b\<lparr>blk_restart_offset := sz - ucast (1 + n) * 4\<rparr>)
        });
     b \<leftarrow>
       (if blk_restart_offset b > of_nat UINT32_MAX then do {
          n \<leftarrow> num_restarts b;
          let b = b\<lparr>blk_restart_offset := sz - (4 + ucast n * 8)\<rparr>;
          Some (if blk_restart_offset b \<le> of_nat UINT32_MAX then b\<lparr>blk_size := 0\<rparr> else b)
        } else Some b);
     Some (if blk_restart_offset b > sz - 4 then b\<lparr>blk_size := 0\<rparr> else b)
   }"

subsection \<open>Iterators\<close>

record block_iter =
  bi_data :: bytes
  bi_restarts :: nat
  bi_num_restarts :: nat
  bi_current :: nat
  bi_restart_index :: nat
  bi_next :: "nat option"
  bi_key :: ubuf
  bi_val :: nat
  bi_val_len :: nat

definition block_iter_init :: "block \<Rightarrow> block_iter option" where
  "block_iter_init b = do {
     ensure (blk_size b \<ge> 8);
     n \<leftarrow> num_restarts b;
     ensure (n > 0);
     Some \<lparr>bi_data = blk_data b, bi_restarts = unat (blk_restart_offset b),
       bi_num_restarts = unat n, bi_current = unat (blk_restart_offset b),
       bi_restart_index = unat n, bi_next = None, bi_key = vec_init 64,
       bi_val = 0, bi_val_len = 0\<rparr>
   }"

definition get_restart_point :: "block_iter \<Rightarrow> nat \<Rightarrow> nat option" where
  "get_restart_point bi idx = do {
     ensure (idx < bi_num_restarts bi);
     if bi_restarts bi > UINT32_MAX
     then map_option unat (mtbl_fixed_decode64 (drop (bi_restarts bi + idx * 8) (bi_data bi)))
     else map_option unat (mtbl_fixed_decode32 (drop (bi_restarts bi + idx * 4) (bi_data bi)))
   }"

definition seek_to_restart_point :: "block_iter \<Rightarrow> nat \<Rightarrow> block_iter option" where
  "seek_to_restart_point bi idx = do {
     offset \<leftarrow> get_restart_point bi idx;
     Some (bi\<lparr>bi_key := vec_reset (bi_key bi), bi_restart_index := idx, bi_next := Some offset\<rparr>)
   }"

text \<open>The loop at the end of \<open>parse_next_key\<close>.\<close>

function advance_restart_index :: "block_iter \<Rightarrow> nat \<Rightarrow> nat \<Rightarrow> nat option" where
  "advance_restart_index bi current ri =
     (if ri + 1 < bi_num_restarts bi then do {
        offset \<leftarrow> get_restart_point bi (ri + 1);
        if offset < current then advance_restart_index bi current (ri + 1) else Some ri
      } else Some ri)"
  by pat_completeness auto

termination
  by (relation "measure (\<lambda>(bi, current, ri). bi_num_restarts bi - ri)") auto

declare advance_restart_index.simps [simp del]

definition parse_next_key :: "block_iter \<Rightarrow> (bool \<times> block_iter) option" where
  "parse_next_key bi = do {
     current \<leftarrow> bi_next bi;
     if current \<ge> bi_restarts bi then
       Some (False, bi\<lparr>bi_current := bi_restarts bi, bi_restart_index := bi_num_restarts bi\<rparr>)
     else do {
       decoded \<leftarrow> decode_entry (bi_data bi) current (bi_restarts bi);
       (p, shared, non_shared, value_length) \<leftarrow> decoded;
       ensure (\<not> vec_size (bi_key bi) < unat shared);
       suffix \<leftarrow> bytes_at (bi_data bi) p (unat non_shared);
       key \<leftarrow> vec_append (vec_clip (bi_key bi) (unat shared)) suffix;
       ri \<leftarrow> advance_restart_index bi current (bi_restart_index bi);
       Some (True, bi\<lparr>bi_current := current, bi_key := key,
         bi_next := Some (p + unat non_shared + unat value_length),
         bi_val := p + unat non_shared, bi_val_len := unat value_length,
         bi_restart_index := ri\<rparr>)
     }
   }"

definition block_iter_valid :: "block_iter \<Rightarrow> bool" where
  "block_iter_valid bi \<longleftrightarrow> bi_current bi < bi_restarts bi"

definition block_iter_seek_to_first :: "block_iter \<Rightarrow> block_iter option" where
  "block_iter_seek_to_first bi = do {
     bi \<leftarrow> seek_to_restart_point bi 0;
     (_, bi) \<leftarrow> parse_next_key bi;
     Some bi
   }"

text \<open>
  \<open>while (parse_next_key(bi) && next_entry_offset(bi) < bound)\<close>, the loop of
  \<open>block_iter_seek_to_last\<close> and of \<open>block_iter_prev\<close>.
\<close>

partial_function (option) skip_entries :: "block_iter \<Rightarrow> nat \<Rightarrow> block_iter option" where
  "skip_entries bi bound = do {
     (more, bi) \<leftarrow> parse_next_key bi;
     if more \<and> (case bi_next bi of None \<Rightarrow> False | Some next \<Rightarrow> next < bound)
     then skip_entries bi bound
     else Some bi
   }"

definition block_iter_seek_to_last :: "block_iter \<Rightarrow> block_iter option" where
  "block_iter_seek_to_last bi = do {
     bi \<leftarrow> seek_to_restart_point bi (bi_num_restarts bi - 1);
     skip_entries bi (bi_restarts bi)
   }"

definition compare_restart_point :: "block_iter \<Rightarrow> nat \<Rightarrow> bytes \<Rightarrow> int option" where
  "compare_restart_point bi i target = do {
     region_offset \<leftarrow> get_restart_point bi i;
     decoded \<leftarrow> decode_entry (bi_data bi) region_offset (bi_restarts bi);
     (key_ptr, shared, non_shared, value_length) \<leftarrow> decoded;
     ensure (shared = 0);
     key \<leftarrow> bytes_at (bi_data bi) key_ptr (unat non_shared);
     Some (bytes_compare key target)
   }"

text \<open>The indices of the two searches are \<open>uint32_t\<close>: their sums wrap.\<close>

definition to_u32 :: "nat \<Rightarrow> nat" where
  "to_u32 x = x mod 4294967296"

lemma to_u32_small [simp]: "x < 4294967296 \<Longrightarrow> to_u32 x = x"
  by (simp add: to_u32_def)

partial_function (option) gallop ::
  "block_iter \<Rightarrow> bytes \<Rightarrow> nat \<Rightarrow> nat \<Rightarrow> nat \<Rightarrow> nat \<Rightarrow> (nat \<times> nat) option" where
  "gallop bi target i left right incr = do {
     c \<leftarrow> compare_restart_point bi i target;
     if c < 0 then
       (let left = i; i = to_u32 (i + incr)
        in if i > bi_num_restarts bi - 1 then Some (left, bi_num_restarts bi - 1)
           else gallop bi target i left i (to_u32 (incr * 2)))
     else Some (left, right)
   }"

partial_function (option) restart_bsearch ::
  "block_iter \<Rightarrow> bytes \<Rightarrow> nat \<Rightarrow> nat \<Rightarrow> nat option" where
  "restart_bsearch bi target left right =
     (if left < right then do {
        let mid = to_u32 (left + right + 1) div 2;
        c \<leftarrow> compare_restart_point bi mid target;
        if c < 0 then restart_bsearch bi target mid right
        else restart_bsearch bi target left (to_u32 (mid + 4294967295))
      } else Some left)"

partial_function (option) seek_linear :: "block_iter \<Rightarrow> bytes \<Rightarrow> block_iter option" where
  "seek_linear bi target = do {
     (more, bi) \<leftarrow> parse_next_key bi;
     if \<not> more then Some bi
     else if bytes_compare (vec_data (bi_key bi)) target \<ge> 0 then Some bi
     else seek_linear bi target
   }"

text \<open>
  The first two phases of \<open>block_iter_seek\<close>: galloping from the current restart point, or the
  whole restart array; then binary search unless the range is down to two.
\<close>

definition seek_left :: "block_iter \<Rightarrow> bytes \<Rightarrow> nat option" where
  "seek_left bi target = do {
     (left, right) \<leftarrow>
       (if bi_num_restarts bi \<noteq> bi_restart_index bi \<and> bi_restart_index bi \<noteq> 0
        then gallop bi target (bi_restart_index bi) 0 (bi_restart_index bi) 1
        else Some (0, bi_num_restarts bi - 1));
     (if left + 1 < right then restart_bsearch bi target left right else Some left)
   }"

definition block_iter_seek :: "block_iter \<Rightarrow> bytes \<Rightarrow> block_iter option" where
  "block_iter_seek bi target = do {
     let start_ri = bi_restart_index bi;
     left \<leftarrow> seek_left bi target;
     let cmp = bytes_compare (vec_data (bi_key bi)) target;
     if start_ri = left \<and> cmp = 0 then Some bi
     else do {
       bi \<leftarrow> (if start_ri = left \<and> cmp < 0 then Some bi else seek_to_restart_point bi left);
       seek_linear bi target
     }
   }"

definition block_iter_next :: "block_iter \<Rightarrow> (bool \<times> block_iter) option" where
  "block_iter_next bi =
     (if \<not> block_iter_valid bi then Some (False, bi)
      else do {
        (_, bi) \<leftarrow> parse_next_key bi;
        Some (block_iter_valid bi, bi)
      })"

text \<open>The first loop of \<open>block_iter_prev\<close>: \<open>None\<close> inside when there is no earlier entry.\<close>

fun prev_restart_index :: "block_iter \<Rightarrow> nat \<Rightarrow> nat \<Rightarrow> nat option option" where
  "prev_restart_index bi original 0 = do {
     offset \<leftarrow> get_restart_point bi 0;
     Some (if offset \<ge> original then None else Some 0)
   }"
| "prev_restart_index bi original (Suc ri) = do {
     offset \<leftarrow> get_restart_point bi (Suc ri);
     if offset \<ge> original then prev_restart_index bi original ri else Some (Some (Suc ri))
   }"

definition block_iter_prev :: "block_iter \<Rightarrow> block_iter option" where
  "block_iter_prev bi = do {
     ensure (block_iter_valid bi);
     let original = bi_current bi;
     found \<leftarrow> prev_restart_index bi original (bi_restart_index bi);
     case found of
       None \<Rightarrow> Some (bi\<lparr>bi_current := bi_restarts bi, bi_restart_index := bi_num_restarts bi\<rparr>)
     | Some ri \<Rightarrow> do {
         bi \<leftarrow> seek_to_restart_point (bi\<lparr>bi_restart_index := ri\<rparr>) ri;
         skip_entries bi original
       }
   }"

definition block_iter_get :: "block_iter \<Rightarrow> (bytes \<times> bytes) option option" where
  "block_iter_get bi =
     (if \<not> block_iter_valid bi then Some None
      else do {
        val \<leftarrow> bytes_at (bi_data bi) (bi_val bi) (bi_val_len bi);
        Some (Some (vec_data (bi_key bi), val))
      })"

subsection \<open>Decoding a laid-out entry\<close>

lemma lt128_iff: "(x :: u32) < 128 \<longleftrightarrow> drop_bit 7 x = 0"
proof -
  have "drop_bit 7 x = 0 \<longleftrightarrow> unat (drop_bit 7 x) = 0" by (simp only: unat_eq_zero)
  also have "\<dots> \<longleftrightarrow> unat x < 128" by (simp add: unat_drop_bit_div div_eq_0_iff)
  finally show ?thesis by (simp add: word_less_nat_alt)
qed

lemma or_lt128: "(x OR y :: u32) < 128 \<longleftrightarrow> x < 128 \<and> y < 128"
  by (simp add: lt128_iff or_eq_0_iff)

lemma bit7_ge128: "bit (x :: u32) 7 \<Longrightarrow> \<not> x < 128"
proof
  assume "bit x 7" and lt: "x < 128"
  then have "bit (drop_bit 7 x) 0" by (simp add: bit_drop_bit_eq)
  moreover have "drop_bit 7 x = 0" using lt by (simp only: lt128_iff)
  ultimately show False by simp
qed

text \<open>An encoding is one byte holding the value, or starts with a continuation byte.\<close>

lemma encode32_cases:
  obtains (one) b where "mtbl_varint_encode32 v = [b]" "v = ucast b" "(ucast b :: u32) < 128"
    | (more) b bs where "mtbl_varint_encode32 v = b # bs" "\<not> (ucast b :: u32) < 128"
proof (cases "128 \<le> (ucast v :: u64)")
  case True
  let ?b = "ucast ((ucast v AND 127) OR 128 :: u64) :: u8"
  have "bit (ucast ?b :: u32) 7" by (simp add: bit_simps)
  then have "\<not> (ucast ?b :: u32) < 128" by (rule bit7_ge128)
  then show ?thesis using more True by (simp add: encode32_64 enc64_big)
next
  case False
  then have "unat v < 128" by (simp add: word_le_nat_alt)
  then have v: "v < 128" by (simp add: word_less_nat_alt)
  have "ucast (ucast (ucast v :: u64) :: u8) = v"
    using small_bit [OF False] by (intro bit_word_eqI) (auto simp: bit_simps intro: less_trans)
  then show ?thesis using one False v by (metis encode32_64 enc64_small)
qed

definition entry_header :: "laid \<Rightarrow> bytes" where
  "entry_header x = (case x of (s, k, v) \<Rightarrow>
     mtbl_varint_encode32 (of_nat s) @ mtbl_varint_encode32 (of_nat (length k - s)) @
     mtbl_varint_encode32 (of_nat (length v)))"

lemma enc_entry_header: "enc_entry (s, k, v) = entry_header (s, k, v) @ drop s k @ v"
  by (simp add: entry_header_def)

lemma three_varints:
  fixes pre post :: bytes and a b c :: u32
  defines "hdr \<equiv> mtbl_varint_encode32 a @ mtbl_varint_encode32 b @ mtbl_varint_encode32 c"
  assumes lim: "length pre + length hdr \<le> limit" 
    and fits: "\<not> limit - (length pre + length hdr) < unat (b + c)"
  shows "decode_entry (pre @ hdr @ post) (length pre) limit = Some (Some (length pre + length hdr, a, b, c))"
proof -
  have ne: "0 < length (mtbl_varint_encode32 x)" for x by simp
  have l3: "3 \<le> length hdr"
    using ne [of a] ne [of b] ne [of c] by (simp only: hdr_def length_append)
  have lt: "\<not> limit < length pre + 3" using l3 lim by linarith
  have slow: "(do {
       (n, shared) \<leftarrow> mtbl_varint_decode32 (drop (length pre) (pre @ hdr @ post));
       let p = length pre + n;
       (n, non_shared) \<leftarrow> mtbl_varint_decode32 (drop p (pre @ hdr @ post));
       let p = p + n;
       (n, value_length) \<leftarrow> mtbl_varint_decode32 (drop p (pre @ hdr @ post));
       let p = p + n;
       ensure (p \<le> limit);
       Some (p, shared, non_shared, value_length) }) = Some (length pre + length hdr, a, b, c)"
    using lim by (simp add: hdr_def wire_simps Let_def add.assoc)
  obtain b0 b1 b2 rest where h: "hdr = b0 # b1 # b2 # rest"
    using l3 by (metis length_0_conv list.exhaust not_numeral_le_zero One_nat_def Suc_eq_plus1 list.size(4) numeral_3_eq_3 Suc_le_mono le_zero_eq old.nat.distinct(2))
  have bytes: "byte_at (pre @ hdr @ post) (length pre) = Some b0"
      "byte_at (pre @ hdr @ post) (length pre + 1) = Some b1"
      "byte_at (pre @ hdr @ post) (length pre + 2) = Some b2"
    by (simp_all add: byte_at_def h nth_append)
  have fast: "length hdr = 3 \<and> a = ucast b0 \<and> b = ucast b1 \<and> c = ucast b2"
    if "ucast b0 OR ucast b1 OR ucast b2 < (128 :: u32)"
    using that h unfolding hdr_def or_lt128
    by (cases a rule: encode32_cases; cases b rule: encode32_cases; cases c rule: encode32_cases) auto
  show ?thesis
  proof (cases "ucast b0 OR ucast b1 OR ucast b2 < (128 :: u32)")
    case True
    then show ?thesis using fast [OF True] lt fits unfolding decode_entry_def bytes by auto
  next
    case False
    then show ?thesis using slow lt fits unfolding decode_entry_def bytes by simp
  qed
qed

subsection \<open>Offsets of a layout\<close>

definition small_entries :: "entry list \<Rightarrow> bool" where
  "small_entries es \<longleftrightarrow> (\<forall>(k, v)\<in>set es. length k + length v < 2 ^ 32)"

definition share :: "nat \<Rightarrow> entry list \<Rightarrow> nat \<Rightarrow> nat" where
  "share n es i = (if i mod n = 0 then 0 else lcp (fst (es ! (i - 1))) (fst (es ! i)))"

definition off :: "nat \<Rightarrow> entry list \<Rightarrow> nat \<Rightarrow> nat" where
  "off n es i = lay_off (block_layout n es) i"

definition body :: "nat \<Rightarrow> entry list \<Rightarrow> bytes" where
  "body n es = lay_bytes (block_layout n es)"

lemma layout_nth:
  "i < length es \<Longrightarrow> layout n j prev es ! i =
     ((if (j + i) mod n = 0 then 0 else lcp (if i = 0 then prev else fst (es ! (i - 1))) (fst (es ! i))), es ! i)"
proof (induction n j prev es arbitrary: i rule: layout.induct)
  case (2 n j prev k v es)
  then show ?case by (cases i) (auto simp: nth_Cons')
qed simp

lemma block_layout_nth: "i < length es \<Longrightarrow> block_layout n es ! i = (share n es i, es ! i)"
  by (cases "es ! i") (auto simp: block_layout_def layout_nth share_def)

lemma share_le: "i < length es \<Longrightarrow> share n es i \<le> length (fst (es ! i))"
  by (simp add: share_def lcp_le2)

lemma body_split:
  assumes "i < length es"
  shows "body n es = lay_bytes (take i (block_layout n es)) @ enc_entry (share n es i, es ! i) @
    lay_bytes (drop (Suc i) (block_layout n es))"
proof -
  have "block_layout n es = take i (block_layout n es) @ block_layout n es ! i # drop (Suc i) (block_layout n es)"
    using assms by (simp add: id_take_nth_drop)
  then show ?thesis using assms unfolding body_def
    by (metis block_layout_nth lay_bytes_append lay_bytes_simps(2))
qed

lemma off_length: "length (lay_bytes (take i (block_layout n es))) = off n es i"
  by (simp add: off_def lay_off_def)

lemma off_Suc: "i < length es \<Longrightarrow> off n es (Suc i) = off n es i + length (enc_entry (share n es i, es ! i))"
  by (simp add: off_def lay_off_def take_Suc_conv_app_nth block_layout_nth)

lemma off_0 [simp]: "off n es 0 = 0"
  by (simp add: off_def)

lemma off_end [simp]: "off n es (length es) = length (body n es)"
  by (simp add: off_def body_def lay_off_all)

lemma enc_entry_nonempty [simp]: "enc_entry x \<noteq> []"
  by (cases x) simp

lemma off_strict: "i < j \<Longrightarrow> j \<le> length es \<Longrightarrow> off n es i < off n es j"
proof (induction j)
  case (Suc j)
  then have "off n es i \<le> off n es j" by (cases "i = j") (auto simp: less_Suc_eq)
  moreover have "0 < length (enc_entry (share n es j, es ! j))" by simp
  ultimately show ?case using Suc.prems by (simp only: off_Suc Suc_le_eq)
qed simp

lemma off_less_iff: "i \<le> length es \<Longrightarrow> j \<le> length es \<Longrightarrow> off n es i < off n es j \<longleftrightarrow> i < j"
  by (metis linorder_neqE_nat not_less_iff_gr_or_eq off_strict)

lemma off_le_iff: "i \<le> length es \<Longrightarrow> j \<le> length es \<Longrightarrow> off n es i \<le> off n es j \<longleftrightarrow> i \<le> j"
  by (metis linorder_not_less off_less_iff)

lemma off_eq_iff: "i \<le> length es \<Longrightarrow> j \<le> length es \<Longrightarrow> off n es i = off n es j \<longleftrightarrow> i = j"
  by (metis nat_neq_iff off_less_iff)

lemma off_less_body: "i < length es \<Longrightarrow> off n es i < length (body n es)"
  using off_less_iff [of i es "length es" n] by simp

lemma restart_index_bound:
  assumes "0 < n" and "j < restart_count n m" and "0 < m"
  shows "j * n < m"
proof -
  have "j \<le> (m - 1) div n" using assms(2) by (simp add: restart_count_def)
  then have "j * n \<le> m - 1" using assms(1) by (simp add: less_eq_div_iff_mult_less_eq)
  then show ?thesis using assms(3) by simp
qed

lemma restart_index_le: "0 < n \<Longrightarrow> j < restart_count n m \<Longrightarrow> j * n \<le> m"
  using restart_index_bound [of n j m] by (cases m) (auto simp: restart_count_def)

subsection \<open>The positions of an iterator\<close>

definition iter_of :: "block_iter \<Rightarrow> nat \<Rightarrow> entry list \<Rightarrow> bool" where
  "iter_of bi n es \<longleftrightarrow> 0 < n \<and> small_entries es \<and> vec_inv (bi_key bi) \<and>
     bi_restarts bi = length (body n es) \<and> bi_num_restarts bi = restart_count n (length es) \<and>
     restart_count n (length es) < 2 ^ 31 \<and>
     take (length (body n es)) (bi_data bi) = body n es \<and>
     (\<forall>j<restart_count n (length es). get_restart_point bi j = Some (off n es (j * n)))"

definition ready :: "block_iter \<Rightarrow> nat \<Rightarrow> entry list \<Rightarrow> nat \<Rightarrow> bool" where
  "ready bi n es i \<longleftrightarrow> iter_of bi n es \<and> i \<le> length es \<and> bi_next bi = Some (off n es i) \<and>
     (i < length es \<longrightarrow> share n es i \<le> length (v_elems (bi_key bi)) \<and>
        take (share n es i) (v_elems (bi_key bi)) = take (share n es i) (fst (es ! i))) \<and>
     bi_restart_index bi < bi_num_restarts bi \<and> bi_restart_index bi * n \<le> i"

definition at_entry :: "block_iter \<Rightarrow> nat \<Rightarrow> entry list \<Rightarrow> nat \<Rightarrow> bool" where
  "at_entry bi n es i \<longleftrightarrow> iter_of bi n es \<and> i < length es \<and> bi_current bi = off n es i \<and>
     v_elems (bi_key bi) = fst (es ! i) \<and> bi_next bi = Some (off n es (Suc i)) \<and>
     bi_val bi + length (snd (es ! i)) = off n es (Suc i) \<and> bi_val_len bi = length (snd (es ! i)) \<and>
     bi_restart_index bi < bi_num_restarts bi \<and> bi_restart_index bi * n \<le> i"

definition at_end :: "block_iter \<Rightarrow> nat \<Rightarrow> entry list \<Rightarrow> bool" where
  "at_end bi n es \<longleftrightarrow> iter_of bi n es \<and> bi_current bi = bi_restarts bi \<and>
     bi_restart_index bi = bi_num_restarts bi"

definition positioned :: "block_iter \<Rightarrow> nat \<Rightarrow> entry list \<Rightarrow> nat \<Rightarrow> bool" where
  "positioned bi n es i \<longleftrightarrow> (if i < length es then at_entry bi n es i else at_end bi n es)"

lemma get_restart_point_update [simp]:
  "get_restart_point (bi_current_update f1 bi) j = get_restart_point bi j"
  "get_restart_point (bi_restart_index_update f2 bi) j = get_restart_point bi j"
  "get_restart_point (bi_next_update f3 bi) j = get_restart_point bi j"
  "get_restart_point (bi_key_update f4 bi) j = get_restart_point bi j"
  "get_restart_point (bi_val_update f5 bi) j = get_restart_point bi j"
  "get_restart_point (bi_val_len_update f6 bi) j = get_restart_point bi j"
  by (simp_all add: get_restart_point_def)

lemma at_entry_ready: "at_entry bi n es i \<Longrightarrow> ready bi n es (Suc i)"
  by (auto simp: at_entry_def ready_def share_def lcp_le1 intro: lcp_take)

lemma at_entry_valid: "at_entry bi n es i \<Longrightarrow> block_iter_valid bi"
  by (simp add: at_entry_def block_iter_valid_def iter_of_def off_less_body)

lemma at_end_invalid: "at_end bi n es \<Longrightarrow> \<not> block_iter_valid bi"
  by (simp add: at_end_def block_iter_valid_def)

lemma advance_restart_ok:
  assumes "iter_of bi n es" and "i < length es" and "ri * n \<le> i" and "ri < restart_count n (length es)"
  shows "\<exists>ri'. advance_restart_index bi (off n es i) ri = Some ri' \<and> ri' * n \<le> i \<and>
    ri' < restart_count n (length es)"
  using assms(3,4)
proof (induction "restart_count n (length es) - ri" arbitrary: ri)
  case (Suc d)
  have num: "bi_num_restarts bi = restart_count n (length es)" and n: "0 < n"
    using assms(1) by (auto simp: iter_of_def)
  show ?case
  proof (cases "ri + 1 < restart_count n (length es)")
    case True
    then have g: "get_restart_point bi (ri + 1) = Some (off n es ((ri + 1) * n))"
      using assms(1) unfolding iter_of_def by blast
    have le: "(ri + 1) * n \<le> length es" using restart_index_le n True by blast
    show ?thesis
    proof (cases "off n es ((ri + 1) * n) < off n es i")
      case lt: True
      then have "(ri + 1) * n \<le> i" using le assms(2) by (simp only: off_less_iff)
      with Suc.hyps(1) [of "ri + 1"] Suc.hyps(2) True
      have "\<exists>ri'. advance_restart_index bi (off n es i) (ri + 1) = Some ri' \<and> ri' * n \<le> i \<and>
        ri' < restart_count n (length es)"
        by simp
      then show ?thesis using True lt g num by (subst advance_restart_index.simps) simp
    next
      case False
      then show ?thesis using True g num Suc.prems by (subst advance_restart_index.simps) simp
    qed
  next
    case False
    then show ?thesis using num Suc.prems by (subst advance_restart_index.simps) simp
  qed
qed simp

lemma data_split:
  assumes "iter_of bi n es" and "i < length es" and "es ! i = (k, v)"
  obtains pre post where "bi_data bi = pre @ entry_header (share n es i, k, v) @ drop (share n es i) k @ v @ post"
    and "length pre = off n es i"
proof -
  let ?pre = "lay_bytes (take i (block_layout n es))"
  obtain rest where "bi_data bi = body n es @ rest"
    using assms(1) unfolding iter_of_def by (metis append_take_drop_id)
  then have "bi_data bi = ?pre @ entry_header (share n es i, k, v) @ drop (share n es i) k @ v @
      lay_bytes (drop (Suc i) (block_layout n es)) @ rest"
    using body_split [OF assms(2), of n] assms(3)
    by (simp only: enc_entry_header append_assoc)
  then show thesis using that off_length by blast
qed


lemma decode_at:
  assumes "iter_of bi n es" and "i < length es" and "es ! i = (k, v)"
  defines "s \<equiv> share n es i" and "h \<equiv> length (entry_header (share n es i, k, v))"
  shows "decode_entry (bi_data bi) (off n es i) (bi_restarts bi) =
      Some (Some (off n es i + h, of_nat s, of_nat (length k - s), of_nat (length v)))"
    and "bytes_at (bi_data bi) (off n es i + h) (length k - s) = Some (drop s k)"
    and "bytes_at (bi_data bi) (off n es i + h + (length k - s)) (length v) = Some v"
    and "off n es (Suc i) = off n es i + h + (length k - s) + length v"
    and "unat (of_nat s :: u32) = s" and "unat (of_nat (length k - s) :: u32) = length k - s"
    and "unat (of_nat (length v) :: u32) = length v"
proof -
  obtain pre post where d: "bi_data bi = pre @ entry_header (s, k, v) @ drop s k @ v @ post"
      "length pre = off n es i"
    using data_split assms by metis
  have sk: "s \<le> length k" using share_le assms by (metis fst_conv)
  have small: "length k + length v < 2 ^ 32"
    using assms(1-3) nth_mem [of i es] by (fastforce simp: iter_of_def small_entries_def)
  show offs: "off n es (Suc i) = off n es i + h + (length k - s) + length v"
    using assms(2,3) by (simp only: off_Suc enc_entry_header s_def h_def) simp
  then have lim: "off n es i + h + (length k - s) + length v \<le> length (body n es)"
    using off_le_iff [of "Suc i" es "length es" n] assms(2) by simp
  have un: "unat (of_nat m :: u32) = m" if "m < 2 ^ 32" for m
    using that by (simp add: unat_of_nat_small)
  show us: "unat (of_nat s :: u32) = s" "unat (of_nat (length k - s) :: u32) = length k - s"
      "unat (of_nat (length v) :: u32) = length v"
    using small sk by (auto intro!: un simp del: of_nat_diff)
  have sum: "unat (of_nat (length k - s) + of_nat (length v) :: u32) = length k - s + length v"
    using un [of "length k - s + length v"] small by (simp del: of_nat_diff)
  have r: "bi_restarts bi = length (body n es)" using assms(1) by (simp add: iter_of_def)
  show "bytes_at (bi_data bi) (off n es i + h) (length k - s) = Some (drop s k)"
    using bytes_at_at [of _ "pre @ entry_header (s, k, v)" _ "drop s k" "v @ post"] d
    by (simp add: h_def s_def add.assoc)
  show "bytes_at (bi_data bi) (off n es i + h + (length k - s)) (length v) = Some v"
    using bytes_at_at [of _ "pre @ entry_header (s, k, v) @ drop s k" _ v post] d
    by (simp add: h_def s_def add.assoc)
  show "decode_entry (bi_data bi) (off n es i) (bi_restarts bi) =
      Some (Some (off n es i + h, of_nat s, of_nat (length k - s), of_nat (length v)))"
    using three_varints [of pre "of_nat s" "of_nat (length k - s)" "of_nat (length v)"
        "bi_restarts bi" "drop s k @ v @ post"] lim d(2) sum
    unfolding d(1) r by (simp add: entry_header_def h_def s_def [symmetric] del: of_nat_diff)
qed

lemma parse_ready:
  assumes "ready bi n es i"
  shows "\<exists>bi'. parse_next_key bi = Some (i < length es, bi') \<and> positioned bi' n es i"
proof (cases "i < length es")
  case False
  then have "i = length es" using assms by (simp add: ready_def)
  then show ?thesis
    using assms by (auto simp: parse_next_key_def ready_def positioned_def at_end_def iter_of_def)
next
  case True
  obtain k v where kv: "es ! i = (k, v)" by fastforce
  let ?s = "share n es i" and ?h = "length (entry_header (share n es i, k, v))"
  have it: "iter_of bi n es" and nx: "bi_next bi = Some (off n es i)"
    and key: "?s \<le> length (v_elems (bi_key bi))" "take ?s (v_elems (bi_key bi)) = take ?s k"
    using assms True kv by (auto simp: ready_def)
  note dec = decode_at [OF it True kv]
  have inv: "vec_inv (vec_clip (bi_key bi) ?s)" using it by (simp add: iter_of_def)
  obtain lk where lk: "vec_append (vec_clip (bi_key bi) ?s) (drop ?s k) = Some lk" "vec_inv lk"
      "v_elems lk = k"
    using vec_append_Some [OF inv, of "drop ?s k"] key(2) by auto
  obtain ri where ri: "advance_restart_index bi (off n es i) (bi_restart_index bi) = Some ri"
      "ri * n \<le> i" "ri < restart_count n (length es)"
    using advance_restart_ok [OF it True, of "bi_restart_index bi"] assms it
    by (auto simp: ready_def iter_of_def)
  have "\<not> bi_restarts bi \<le> off n es i"
    using it off_less_body [OF True, of n] by (simp add: iter_of_def)
  then have "parse_next_key bi = Some (True, bi\<lparr>bi_current := off n es i, bi_key := lk,
      bi_next := Some (off n es i + ?h + (length k - ?s) + length v),
      bi_val := off n es i + ?h + (length k - ?s), bi_val_len := length v, bi_restart_index := ri\<rparr>)"
    using key(1) lk ri(1) by (simp add: parse_next_key_def nx dec vec_size_def del: of_nat_diff)
  then show ?thesis
    using True it lk ri kv dec(4) by (simp add: positioned_def at_entry_def iter_of_def)
qed

lemma seek_restart_ready:
  assumes "iter_of bi n es" and "j < restart_count n (length es)"
  shows "\<exists>bi'. seek_to_restart_point bi j = Some bi' \<and> ready bi' n es (j * n)"
  using assms restart_index_le [of n j "length es"]
  by (auto simp: seek_to_restart_point_def ready_def iter_of_def share_def)

end
