(* ===== verification/Block_Seek.thy ===== *)
theory Block_Seek
  imports Block Cursor
begin

text \<open>
  What the block iterator of \<open>mtbl/block.c\<close> does on a block laid out by the specification
  \<open>block_layout\<close>: every movement (\<open>seek_to_first\<close>, \<open>seek_to_last\<close>, \<open>seek\<close>,
  \<open>next\<close>, \<open>prev\<close>) succeeds and leaves the iterator at the entry the movement means. The
  galloping and the binary search over the restart points are shown to return a restart point
  from which the linear scan reaches the target (\<open>left_ok\<close>).
\<close>

subsection \<open>Seeking\<close>

definition strict_keys :: "entry list \<Rightarrow> bool" where
  "strict_keys es \<longleftrightarrow> sorted_wrt (<) (map fst es)"

text \<open>The position of the first entry whose key is at least \<open>t\<close>.\<close>

definition seek_pos :: "entry list \<Rightarrow> bytes \<Rightarrow> nat" where
  "seek_pos es t = length (takeWhile (\<lambda>e. fst e < t) es)"

lemma seek_pos_le: "seek_pos es t \<le> length es"
  by (simp add: seek_pos_def length_takeWhile_le)

lemma before_seek_pos: "m < seek_pos es t \<Longrightarrow> fst (es ! m) < t"
  unfolding seek_pos_def by (metis nth_mem set_takeWhileD takeWhile_nth)

lemma at_seek_pos: "seek_pos es t < length es \<Longrightarrow> t \<le> fst (es ! seek_pos es t)"
  unfolding seek_pos_def using nth_length_takeWhile [of "\<lambda>e. fst e < t" es] by simp

lemma strict_keys_nth: "strict_keys es \<Longrightarrow> i < j \<Longrightarrow> j < length es \<Longrightarrow> fst (es ! i) < fst (es ! j)"
  by (auto simp: strict_keys_def sorted_wrt_iff_nth_less)

lemma less_seek_pos:
  assumes "strict_keys es" and "m < length es" and "fst (es ! m) < t"
  shows "m < seek_pos es t"
proof (rule ccontr)
  assume "\<not> m < seek_pos es t"
  then have "seek_pos es t \<le> m" and "seek_pos es t < length es" using assms(2) by auto
  then have "t \<le> fst (es ! m)"
    using at_seek_pos [of es t] strict_keys_nth [OF assms(1), of "seek_pos es t" m] assms(2)
    by (cases "seek_pos es t = m") auto
  with assms(3) show False by simp
qed

lemma seek_pos_eq:
  assumes "strict_keys es" and "m < length es" and "fst (es ! m) = t"
  shows "seek_pos es t = m"
proof -
  have "\<not> m < seek_pos es t" using before_seek_pos [of m es t] assms(3) by auto
  moreover have "\<not> seek_pos es t < m"
    using at_seek_pos [of es t] strict_keys_nth [OF assms(1), of "seek_pos es t" m] assms(2,3)
    by fastforce
  ultimately show ?thesis by simp
qed

lemma seek_linear_ok:
  "ready bi n es i \<Longrightarrow> i \<le> seek_pos es t \<Longrightarrow>
   \<exists>bi'. seek_linear bi t = Some bi' \<and> positioned bi' n es (seek_pos es t)"
proof (induction "seek_pos es t - i" arbitrary: bi i)
  case 0
  then have i: "i = seek_pos es t" by simp
  obtain bi1 where p: "parse_next_key bi = Some (i < length es, bi1)" "positioned bi1 n es i"
    using parse_ready 0 by blast
  then show ?case
    using at_seek_pos [of es t] i
    by (auto simp: seek_linear.simps positioned_def at_entry_def vec_data_def)
next
  case (Suc d)
  then have lt: "i < seek_pos es t" and len: "i < length es" using seek_pos_le [of es t] by auto
  obtain bi1 where p: "parse_next_key bi = Some (True, bi1)" "at_entry bi1 n es i"
    using parse_ready [OF Suc.prems(1)] len by (auto simp: positioned_def)
  have "seek_linear bi t = seek_linear bi1 t"
    using p before_seek_pos [OF lt] by (auto simp: seek_linear.simps [of bi] vec_data_def at_entry_def)
  with Suc.hyps(1) [of "Suc i" bi1] at_entry_ready [OF p(2)] Suc.hyps(2) lt show ?case by simp
qed

definition left_ok :: "nat \<Rightarrow> entry list \<Rightarrow> bytes \<Rightarrow> nat \<Rightarrow> bool" where
  "left_ok n es t left \<longleftrightarrow> left < restart_count n (length es) \<and>
     (left = 0 \<or> fst (es ! (left * n)) < t)"

lemma compare_restart_ok:
  assumes "iter_of bi n es" and "j < restart_count n (length es)" and "es \<noteq> []"
  shows "compare_restart_point bi j t = Some (bytes_compare (fst (es ! (j * n))) t)"
proof -
  have lt: "j * n < length es"
    using assms restart_index_bound [of n j "length es"] by (auto simp: iter_of_def)
  obtain k v where kv: "es ! (j * n) = (k, v)" by fastforce
  have s0: "share n es (j * n) = 0" by (simp add: share_def)
  have "get_restart_point bi j = Some (off n es (j * n))"
    using assms by (simp add: iter_of_def)
  then show ?thesis
    using decode_at [OF assms(1) lt kv] kv by (simp add: compare_restart_point_def s0)
qed

lemma gallop_ok:
  assumes "iter_of bi n es" and "es \<noteq> []"
  shows "i < restart_count n (length es) \<Longrightarrow> left_ok n es t left \<Longrightarrow>
    right < restart_count n (length es) \<Longrightarrow> 0 < incr \<Longrightarrow> incr \<le> i \<Longrightarrow>
    \<exists>l r. gallop bi t i left right incr = Some (l, r) \<and> left_ok n es t l \<and>
      r < restart_count n (length es)"
proof (induction "restart_count n (length es) - i" arbitrary: i left right incr rule: less_induct)
  case less
  have num: "bi_num_restarts bi = restart_count n (length es)" "restart_count n (length es) < 2 ^ 31"
    using assms(1) by (simp_all add: iter_of_def)
  have w: "to_u32 (i + incr) = i + incr" "i + incr \<le> restart_count n (length es) - 1 \<Longrightarrow> to_u32 (incr * 2) = incr * 2"
    using num(2) less.prems by simp_all
  have c: "compare_restart_point bi i t = Some (bytes_compare (fst (es ! (i * n))) t)"
    using compare_restart_ok assms less.prems(1) by blast
  show ?case
  proof (cases "fst (es ! (i * n)) < t")
    case False
    then show ?thesis using less.prems by (subst gallop.simps) (simp add: c)
  next
    case True
    then have lo: "left_ok n es t i" using less.prems by (simp add: left_ok_def)
    show ?thesis
    proof (cases "i + incr > restart_count n (length es) - 1")
      case gt: True
      then show ?thesis using True lo less.prems by (subst gallop.simps) (simp add: c num w Let_def)
    next
      case le: False
      then have "\<exists>l r. gallop bi t (i + incr) i (i + incr) (incr * 2) = Some (l, r) \<and>
          left_ok n es t l \<and> r < restart_count n (length es)"
        using less.hyps [of "i + incr" i "i + incr" "incr * 2"] less.prems lo by simp
      then show ?thesis using True le by (subst gallop.simps) (simp add: c num w Let_def)
    qed
  qed
qed

lemma bsearch_ok:
  assumes "iter_of bi n es" and "es \<noteq> []"
  shows "left_ok n es t left \<Longrightarrow> right < restart_count n (length es) \<Longrightarrow>
    \<exists>l. restart_bsearch bi t left right = Some l \<and> left_ok n es t l"
proof (induction "right - left" arbitrary: left right rule: less_induct)
  case less
  show ?case
  proof (cases "left < right")
    case False
    then show ?thesis using less.prems by (subst restart_bsearch.simps) simp
  next
    case True
    let ?m = "(left + right + 1) div 2"
    have m: "left < ?m" "?m \<le> right" using True by auto
    have "right < 2 ^ 31" using less.prems(2) assms(1) by (simp add: iter_of_def)
    then have w: "to_u32 (left + right + 1) = left + right + 1" "to_u32 (?m + 4294967295) = ?m - 1"
      using True m by (simp_all add: to_u32_def mod_if)
    have mr: "?m < restart_count n (length es)" using m(2) less.prems(2) by simp
    have c: "compare_restart_point bi ?m t = Some (bytes_compare (fst (es ! (?m * n))) t)"
      using compare_restart_ok assms mr by blast
    show ?thesis
    proof (cases "fst (es ! (?m * n)) < t")
      case lt: True
      then have "left_ok n es t ?m" using mr by (simp add: left_ok_def)
      moreover have "right - ?m < right - left" using m True by arith
      ultimately have "\<exists>l. restart_bsearch bi t ?m right = Some l \<and> left_ok n es t l"
        using less.hyps less.prems(2) by blast
      then show ?thesis using True lt c by (subst restart_bsearch.simps) (simp add: Let_def w del: One_nat_def)
    next
      case ge: False
      have "?m - 1 - left < right - left" using m by arith
      moreover have "?m - 1 < restart_count n (length es)" using mr by simp
      ultimately have "\<exists>l. restart_bsearch bi t left (?m - 1) = Some l \<and> left_ok n es t l"
        using less.hyps less.prems(1) by blast
      then show ?thesis using True ge c by (subst restart_bsearch.simps) (simp add: Let_def w del: One_nat_def)
    qed
  qed
qed

lemma left_ok_seek_pos:
  assumes "strict_keys es" and "left_ok n es t l" and "0 < n" and "es \<noteq> []"
  shows "l * n \<le> seek_pos es t"
  using assms less_seek_pos [of es "l * n" t] restart_index_bound [of n l "length es"]
  by (auto simp: left_ok_def intro: less_imp_le)

lemma seek_left_ok:
  assumes "iter_of bi n es" and "es \<noteq> []" and "bi_restart_index bi \<le> bi_num_restarts bi"
  shows "\<exists>l. seek_left bi t = Some l \<and> left_ok n es t l"
proof -
  have num: "bi_num_restarts bi = restart_count n (length es)" and pos: "0 < restart_count n (length es)"
    using assms(1) by (auto simp: iter_of_def restart_count_def)
  have l0: "left_ok n es t 0" using pos by (simp add: left_ok_def)
  have "\<exists>l r. (if bi_num_restarts bi \<noteq> bi_restart_index bi \<and> bi_restart_index bi \<noteq> 0
          then gallop bi t (bi_restart_index bi) 0 (bi_restart_index bi) 1
          else Some (0, bi_num_restarts bi - 1)) = Some (l, r) \<and> left_ok n es t l \<and>
      r < restart_count n (length es)"
    using gallop_ok [OF assms(1,2), of "bi_restart_index bi" t 0 "bi_restart_index bi" 1] l0 pos assms(3)
    by (auto simp: num)
  then show ?thesis unfolding seek_left_def using bsearch_ok [OF assms(1,2)] by fastforce
qed

lemma ready_linear:
  assumes "iter_of bi n es" and "j < restart_count n (length es)" and "j * n \<le> seek_pos es t"
  shows "\<exists>bi'. (do { bi \<leftarrow> seek_to_restart_point bi j; seek_linear bi t }) = Some bi' \<and>
    positioned bi' n es (seek_pos es t)"
proof -
  obtain bi1 where "seek_to_restart_point bi j = Some bi1" "ready bi1 n es (j * n)"
    using seek_restart_ready [OF assms(1,2)] by blast
  with seek_linear_ok [OF _ assms(3)] show ?thesis by simp
qed

lemma block_iter_seek_ok:
  assumes sorted: "strict_keys es" and pos: "at_end bi n es \<or> (\<exists>i. at_entry bi n es i)"
  shows "\<exists>bi'. block_iter_seek bi t = Some bi' \<and> positioned bi' n es (seek_pos es t)"
proof -
  have it: "iter_of bi n es" and n: "0 < n" and ri: "bi_restart_index bi \<le> bi_num_restarts bi"
    using pos by (auto simp: at_end_def at_entry_def iter_of_def)
  have num: "bi_num_restarts bi = restart_count n (length es)" using it by (simp add: iter_of_def)
  show ?thesis
  proof (cases "es = []")
    case True
    then have "bi_restart_index bi = 1" "bi_num_restarts bi = 1"
      using pos num by (auto simp: at_end_def at_entry_def restart_count_def)
    then show ?thesis
      using ready_linear [OF it, of 0 t] True by (simp add: block_iter_seek_def seek_left_def restart_count_def)
  next
    case False
    obtain l where l: "seek_left bi t = Some l" and lo: "left_ok n es t l"
      using seek_left_ok [OF it False ri] by blast
    have lt: "l < restart_count n (length es)" using lo by (simp add: left_ok_def)
    have le: "l * n \<le> seek_pos es t" using left_ok_seek_pos [OF sorted lo n False] .
    let ?c = "bytes_compare (vec_data (bi_key bi)) t"
    have seek: "block_iter_seek bi t =
        (if bi_restart_index bi = l \<and> ?c = 0 then Some bi
         else do {
           bi \<leftarrow> (if bi_restart_index bi = l \<and> ?c < 0 then Some bi else seek_to_restart_point bi l);
           seek_linear bi t
         })"
      by (simp add: block_iter_seek_def l Let_def)
    show ?thesis
    proof (cases "bi_restart_index bi = l")
      case True
      then obtain i where i: "at_entry bi n es i" using pos lt num by (auto simp: at_end_def)
      then have key: "vec_data (bi_key bi) = fst (es ! i)" "i < length es"
        by (simp_all add: vec_data_def at_entry_def)
      consider "fst (es ! i) = t" | "fst (es ! i) < t" | "t < fst (es ! i)" by fastforce
      then show ?thesis
      proof cases
        case 1
        with seek_pos_eq [OF sorted key(2)] i True key show ?thesis
          by (simp add: seek positioned_def)
      next
        case 2
        have "Suc i \<le> seek_pos es t" using less_seek_pos [OF sorted key(2) 2] by simp
        from seek_linear_ok [OF at_entry_ready [OF i] this] 2 True key show ?thesis
          by (auto simp: seek)
      next
        case 3
        with ready_linear [OF it lt le] True key show ?thesis by (auto simp: seek)
      qed
    next
      case False
      with ready_linear [OF it lt le] show ?thesis by (simp add: seek)
    qed
  qed
qed

lemma filter_ge_drop:
  assumes "strict_keys es"
  shows "filter (\<lambda>e. t \<le> fst e) es = drop (seek_pos es t) es"
proof -
  have "sorted (map fst es)" using assms strict_sorted_imp_sorted by (auto simp: strict_keys_def)
  then have "dropWhile (\<lambda>e. fst e < t) es = filter (\<lambda>e. \<not> fst e < t) es"
    by (induction es) (auto simp: not_less intro!: filter_True [symmetric] dest: order_trans)
  then show ?thesis by (simp add: seek_pos_def dropWhile_eq_drop not_less)
qed

subsection \<open>Moving\<close>

lemma block_iter_get_at: "at_entry bi n es i \<Longrightarrow> block_iter_get bi = Some (Some (es ! i))"
proof -
  assume a: "at_entry bi n es i"
  obtain k v where kv: "es ! i = (k, v)" by fastforce
  have it: "iter_of bi n es" "i < length es" using a by (auto simp: at_entry_def)
  have v: "bi_val bi = off n es i + length (entry_header (share n es i, k, v)) + (length k - share n es i)"
    using a kv decode_at(4) [OF it kv] by (simp add: at_entry_def)
  have "bytes_at (bi_data bi) (bi_val bi) (bi_val_len bi) = Some v"
    using decode_at(3) [OF it kv] a kv unfolding v by (simp add: at_entry_def)
  then show ?thesis
    using a kv at_entry_valid [OF a] by (simp add: block_iter_get_def vec_data_def at_entry_def)
qed

lemma block_iter_get_end: "at_end bi n es \<Longrightarrow> block_iter_get bi = Some None"
  by (simp add: block_iter_get_def at_end_invalid)

lemma block_iter_get_positioned:
  "positioned bi n es i \<Longrightarrow> block_iter_get bi = Some (if i < length es then Some (es ! i) else None)"
  by (auto simp: positioned_def block_iter_get_at block_iter_get_end split: if_splits)

lemma positioned_valid: "positioned bi n es i \<Longrightarrow> block_iter_valid bi \<longleftrightarrow> i < length es"
  by (auto simp: positioned_def at_entry_valid at_end_invalid split: if_splits)

lemma block_iter_next_ok:
  assumes "at_entry bi n es i"
  shows "\<exists>bi'. block_iter_next bi = Some (Suc i < length es, bi') \<and> positioned bi' n es (Suc i)"
  using parse_ready [OF at_entry_ready [OF assms]] at_entry_valid [OF assms]
  by (auto simp: block_iter_next_def positioned_valid)

lemma block_iter_next_end: "at_end bi n es \<Longrightarrow> block_iter_next bi = Some (False, bi)"
  by (simp add: block_iter_next_def at_end_invalid)

lemma block_iter_seek_to_first_ok:
  assumes "iter_of bi n es"
  shows "\<exists>bi'. block_iter_seek_to_first bi = Some bi' \<and> positioned bi' n es 0"
proof -
  obtain bi1 where "seek_to_restart_point bi 0 = Some bi1" "ready bi1 n es 0"
    using seek_restart_ready [OF assms, of 0] by (auto simp: restart_count_def)
  with parse_ready show ?thesis by (fastforce simp: block_iter_seek_to_first_def)
qed

lemma skip_entries_ok:
  "ready bi n es i \<Longrightarrow> i < c \<Longrightarrow> c \<le> length es \<Longrightarrow>
   \<exists>bi'. skip_entries bi (off n es c) = Some bi' \<and> at_entry bi' n es (c - 1)"
proof (induction "c - i" arbitrary: bi i)
  case (Suc d)
  then obtain bi1 where p: "parse_next_key bi = Some (True, bi1)" "at_entry bi1 n es i"
    using parse_ready [of bi n es i] by (auto simp: positioned_def)
  have nx: "bi_next bi1 = Some (off n es (Suc i))" using p by (simp add: at_entry_def)
  have less: "off n es (Suc i) < off n es c \<longleftrightarrow> Suc i < c" using Suc.prems by (simp add: off_less_iff)
  show ?case
  proof (cases "Suc i < c")
    case True
    then have "skip_entries bi (off n es c) = skip_entries bi1 (off n es c)"
      using p nx less by (simp add: skip_entries.simps [of bi])
    with Suc.hyps(1) [of "Suc i" bi1] at_entry_ready [OF p(2)] Suc.hyps(2) True Suc.prems
    show ?thesis by simp
  next
    case False
    then have "c = Suc i" using Suc.prems by simp
    with p nx show ?thesis by (simp add: skip_entries.simps [of bi])
  qed
qed simp

lemma block_iter_seek_to_last_ok:
  assumes "iter_of bi n es" and "es \<noteq> []"
  shows "\<exists>bi'. block_iter_seek_to_last bi = Some bi' \<and> at_entry bi' n es (length es - 1)"
proof -
  let ?j = "restart_count n (length es) - 1"
  have j: "?j < restart_count n (length es)" by (simp add: restart_count_def)
  have n: "0 < n" and L: "bi_restarts bi = length (body n es)" "bi_num_restarts bi = restart_count n (length es)"
    using assms(1) by (auto simp: iter_of_def)
  obtain bi1 where b: "seek_to_restart_point bi ?j = Some bi1" "ready bi1 n es (?j * n)"
    using seek_restart_ready [OF assms(1) j] by blast
  have "?j * n < length es" using restart_index_bound [OF n j] assms(2) by simp
  from skip_entries_ok [OF b(2) this order_refl] b L show ?thesis
    by (simp add: block_iter_seek_to_last_def ready_def iter_of_def)
qed

lemma prev_restart_ok:
  assumes "iter_of bi n es" and "i < length es"
  shows "r < restart_count n (length es) \<Longrightarrow> r * n \<le> i \<Longrightarrow>
    (if i = 0 then prev_restart_index bi (off n es i) r = Some None
     else \<exists>r'. prev_restart_index bi (off n es i) r = Some (Some r') \<and>
       r' < restart_count n (length es) \<and> r' * n < i)"
proof (induction r)
  case 0
  then have "get_restart_point bi 0 = Some (off n es 0)" using assms(1) unfolding iter_of_def by fastforce
  then show ?case using 0 assms(2) off_strict [of 0 i es n] by (cases "i = 0") auto
next
  case (Suc r)
  have n: "0 < n" using assms(1) by (simp add: iter_of_def)
  have g: "get_restart_point bi (Suc r) = Some (off n es (Suc r * n))"
    using assms(1) Suc.prems(1) unfolding iter_of_def by blast
  have i0: "i \<noteq> 0" using Suc.prems n by (metis le_zero_eq mult_is_0 nat.distinct(1) neq0_conv)
  have cmp: "off n es i \<le> off n es (Suc r * n) \<longleftrightarrow> i \<le> Suc r * n"
    using off_le_iff [of i es "Suc r * n" n] Suc.prems assms(2) by linarith
  show ?case
  proof (cases "i \<le> Suc r * n")
    case True
    have "r * n \<le> i" using Suc.prems(2) by simp
    then have "\<exists>r'. prev_restart_index bi (off n es i) r = Some (Some r') \<and>
       r' < restart_count n (length es) \<and> r' * n < i" using Suc.IH Suc.prems(1) i0 by simp
    with True g cmp i0 show ?thesis by (simp del: mult_Suc)
  next
    case False
    then show ?thesis using Suc.prems g cmp i0 by simp
  qed
qed

lemma block_iter_prev_ok:
  assumes a: "at_entry bi n es i"
  shows "\<exists>bi'. block_iter_prev bi = Some bi' \<and>
    (if i = 0 then at_end bi' n es else at_entry bi' n es (i - 1))"
proof -
  have it: "iter_of bi n es" and i: "i < length es" and cur: "bi_current bi = off n es i"
    and r: "bi_restart_index bi < restart_count n (length es)" "bi_restart_index bi * n \<le> i"
    using a by (auto simp: at_entry_def iter_of_def)
  show ?thesis
  proof (cases "i = 0")
    case True
    then have "prev_restart_index bi (off n es i) (bi_restart_index bi) = Some None"
      using prev_restart_ok [OF it i r] by simp
    then show ?thesis
      using True at_entry_valid [OF a] it cur
      by (simp add: block_iter_prev_def Let_def at_end_def iter_of_def)
  next
    case False
    then obtain r' where r': "prev_restart_index bi (off n es i) (bi_restart_index bi) = Some (Some r')"
        "r' < restart_count n (length es)" "r' * n < i"
      using prev_restart_ok [OF it i r] by auto
    have "iter_of (bi\<lparr>bi_restart_index := r'\<rparr>) n es" using it by (simp add: iter_of_def)
    then obtain bi1 where b: "seek_to_restart_point (bi\<lparr>bi_restart_index := r'\<rparr>) r' = Some bi1"
        "ready bi1 n es (r' * n)"
      using seek_restart_ready r'(2) by blast
    from skip_entries_ok [OF b(2) r'(3)] i b(1) r'(1) False at_entry_valid [OF a] cur show ?thesis
      by (simp add: block_iter_prev_def Let_def)
  qed
qed

end
