(* ===== verification/Block_Image.thy ===== *)
theory Block_Image
  imports Block_Seek
begin

text \<open>
  From the bytes to the iterator: \<open>block_init\<close> and \<open>block_iter_init\<close> on the image a builder
  produces, and the properties of blocks as a whole.
\<close>

subsection \<open>Parsing a block image\<close>

definition block_fits :: "nat \<Rightarrow> entry list \<Rightarrow> bool" where
  "block_fits n es \<longleftrightarrow> 0 < n \<and> small_entries es \<and> length es < 2 ^ 31 - 1 \<and>
     length (block_image n es) < 2 ^ 64"

definition restart_width :: "nat \<Rightarrow> entry list \<Rightarrow> nat" where
  "restart_width n es = (if length (body n es) > UINT32_MAX then 8 else 4)"

definition restart_array :: "nat \<Rightarrow> entry list \<Rightarrow> bytes" where
  "restart_array n es =
     (if length (body n es) > UINT32_MAX then concat (map mtbl_fixed_encode64 (map of_nat (restart_offsets n es)))
      else concat (map mtbl_fixed_encode32 (map of_nat (restart_offsets n es))))"

lemma block_image_parts:
  "block_image n es = body n es @ restart_array n es @
     mtbl_fixed_encode32 (of_nat (restart_count n (length es)))"
  by (simp add: block_image_def body_def restart_array_def Let_def restart_offsets_def)

lemma length_restart_array:
  "length (restart_array n es) = restart_count n (length es) * restart_width n es"
  using fixed32.length_concat [of "map of_nat (restart_offsets n es)"]
    fixed64.length_concat [of "map of_nat (restart_offsets n es)"]
  by (simp add: restart_array_def restart_width_def restart_offsets_def)

lemma length_block_image:
  "length (block_image n es) =
     length (body n es) + restart_count n (length es) * restart_width n es + 4"
  by (simp add: block_image_parts length_restart_array)

lemma restart_offsets_nth:
  "j < restart_count n (length es) \<Longrightarrow> restart_offsets n es ! j = off n es (j * n)"
  by (simp add: restart_offsets_def off_def)

lemma restart_count_le: "restart_count n m \<le> Suc m"
  by (simp add: restart_count_def le_trans [OF div_le_dividend])

lemma restart_lookup:
  assumes fits: "block_fits n es" and data: "bi_data bi = block_image n es @ rest"
    and "bi_restarts bi = length (body n es)" and "bi_num_restarts bi = restart_count n (length es)"
    and j: "j < restart_count n (length es)"
  shows "get_restart_point bi j = Some (off n es (j * n))"
proof -
  have jl: "j < length (map of_nat (restart_offsets n es))" using j by (simp add: restart_offsets_def)
  have "j * n \<le> length es" using restart_index_le j fits by (simp add: block_fits_def)
  then have le: "off n es (j * n) \<le> length (body n es)"
    using off_le_iff [of "j * n" es "length es" n] by simp
  have big: "off n es (j * n) < 2 ^ 64"
    using le fits length_block_image [of n es] by (simp add: block_fits_def)
  have d: "drop (length (body n es) + i) (bi_data bi) =
      drop i (restart_array n es @ mtbl_fixed_encode32 (of_nat (restart_count n (length es))) @ rest)" for i
    by (simp add: data block_image_parts)
  show ?thesis
  proof (cases "length (body n es) > UINT32_MAX")
    case True
    then show ?thesis
      using fixed_decode64_nth [OF jl, of "mtbl_fixed_encode32 (of_nat (restart_count n (length es))) @ rest"] big j jl assms(3,4)
      by (simp add: get_restart_point_def d restart_array_def restart_offsets_nth unat_of_nat_small del: drop_append map_map)
  next
    case False
    then have "off n es (j * n) < 2 ^ 32" using le by (simp add: UINT32_MAX_def)
    then show ?thesis
      using False fixed_decode32_nth [OF jl, of "mtbl_fixed_encode32 (of_nat (restart_count n (length es))) @ rest"] j jl assms(3,4)
      by (simp add: get_restart_point_def d restart_array_def restart_offsets_nth unat_of_nat_small del: drop_append map_map)
  qed
qed

lemma block_init_image:
  fixes rest f
  assumes fits: "block_fits n es"
  defines "img \<equiv> block_image n es"
  defines "b \<equiv> \<lparr>blk_data = img @ rest, blk_size = of_nat (length img),
    blk_restart_offset = of_nat (length (body n es)), blk_needs_free = f\<rparr>"
  shows "block_init (img @ rest) (of_nat (length img)) f = Some b"
    and "num_restarts b = Some (of_nat (restart_count n (length es)))"
proof -
  let ?L = "length (body n es)" and ?nr = "restart_count n (length es)" and ?w = "restart_width n es"
  let ?S = "of_nat (length img) :: u64"
  have S: "length img = ?L + ?nr * ?w + 4" by (simp add: img_def length_block_image)
  have nr: "0 < ?nr" "?nr < 2 ^ 31"
    using fits restart_count_le [of n "length es"] by (auto simp: block_fits_def restart_count_def)
  have nr1: "?nr + 1 < 2 ^ 32"
  proof -
    have "?nr \<le> max 1 (length es)" by (cases "length es") (auto simp: restart_count_def le_trans [OF div_le_dividend])
    then show ?thesis using fits by (auto simp: block_fits_def)
  qed
  have w: "4 \<le> ?w" by (simp add: restart_width_def)
  have nrw: "4 \<le> ?nr * ?w" using nr w by (metis One_nat_def Suc_leI mult_le_mono nat_mult_1)
  have S64: "length img < 2 ^ 64" using fits by (simp add: block_fits_def img_def)
  have un: "unat (of_nat m :: u64) = m" if "m \<le> length img" for m
    using that S64 by (simp add: unat_of_nat_small)
  have minus4: "?S - 4 = of_nat (?L + ?nr * ?w)" by (simp add: S)
  have pos4: "unat (?S - 4) = ?L + ?nr * ?w" unfolding minus4 using S by (intro un) simp
  have size8: "8 \<le> ?S" using S nrw un [of "length img"] by (simp add: word_le_nat_alt)
  have num: "num_restarts \<lparr>blk_data = img @ rest, blk_size = ?S, blk_restart_offset = ro,
      blk_needs_free = f\<rparr> = Some (of_nat ?nr)" for ro
    using size8 pos4
    by (simp add: num_restarts_def img_def block_image_parts length_restart_array wire_simps
        drop_append [of "length (body n es) + _"])
  show "num_restarts b = Some (of_nat ?nr)" unfolding b_def by (rule num)
  have uc: "(ucast (of_nat m :: u32) :: u64) = of_nat m" if "m < 2 ^ 32" for m :: nat
    using that by (simp add: word_unat_eq_iff unat_of_nat_small)
  have u1: "(ucast (1 + of_nat ?nr :: u32) :: u64) = of_nat (?nr + 1)"
    using uc [of "?nr + 1"] nr1 by (simp add: add.commute)
  have u0: "(ucast (of_nat ?nr :: u32) :: u64) = of_nat ?nr"
    using uc [of ?nr] nr1 by simp
  have U: "unat (of_nat UINT32_MAX :: u64) = UINT32_MAX" by (simp add: UINT32_MAX_def)
  have "\<not> ?S < 4" using S un [of "length img"] by (simp add: word_less_nat_alt)
  have r4: "?S - ucast (1 + of_nat ?nr :: u32) * 4 = of_nat (?L + (?w - 4) * ?nr)"
  proof -
    have "?L + ?nr * ?w + 4 = ?L + (?w - 4) * ?nr + (?nr + 1) * 4"
      using w by (auto simp: le_iff_add algebra_simps)
    then have "?S = of_nat (?L + (?w - 4) * ?nr + (?nr + 1) * 4)" using S by simp
    then show ?thesis unfolding u1 by (simp only: of_nat_add of_nat_mult) simp
  qed
  have r8: "?S - (4 + ucast (of_nat ?nr :: u32) * 8) = of_nat ?L" if "?w = 8"
    using S that unfolding u0 by (simp add: algebra_simps)
  have le4: "?L + (?w - 4) * ?nr \<le> length img" "?L \<le> length img" 
    using S w by (auto simp: le_iff_add algebra_simps)
  have end_ok: "\<not> (of_nat ?L :: u64) > ?S - 4"
    using pos4 un [of ?L] S by (simp add: word_less_nat_alt)
  show "block_init (img @ rest) ?S f = Some b"
  proof (cases "?L > UINT32_MAX")
    case True
    then have w8: "?w = 8" by (simp add: restart_width_def)
    have "(of_nat (?L + (?w - 4) * ?nr) :: u64) > of_nat UINT32_MAX" "\<not> (of_nat ?L :: u64) \<le> of_nat UINT32_MAX"
      using True un le4 U by (simp_all add: word_less_nat_alt word_le_nat_alt del: of_nat_add of_nat_mult)
    then show ?thesis
      using \<open>\<not> ?S < 4\<close> end_ok unfolding block_init_def Let_def num
      by (simp add: num r4 r8 [OF w8] b_def del: of_nat_add of_nat_mult)
  next
    case False
    then have w4: "?w = 4" by (simp add: restart_width_def)
    have "\<not> (of_nat ?L :: u64) > of_nat UINT32_MAX"
      using False un le4 U by (simp add: word_less_nat_alt)
    then show ?thesis
      using \<open>\<not> ?S < 4\<close> end_ok r4 unfolding block_init_def Let_def w4
      by (simp add: num b_def)
  qed
qed

lemma block_iter_image:
  assumes fits: "block_fits n es"
  shows "\<exists>b bi. block_init (block_image n es @ rest) (of_nat (length (block_image n es))) f = Some b \<and>
    8 \<le> blk_size b \<and> blk_needs_free b = f \<and> block_iter_init b = Some bi \<and> at_end bi n es"
proof -
  let ?nr = "restart_count n (length es)"
  note init = block_init_image [OF fits, of rest f]
  have nr: "0 < ?nr" "?nr < 2 ^ 31"
  proof -
    have "?nr \<le> max 1 (length es)"
      by (cases "length es") (auto simp: restart_count_def le_trans [OF div_le_dividend])
    then show "?nr < 2 ^ 31" using fits by (auto simp: block_fits_def)
  qed (simp add: restart_count_def)
  have L: "length (body n es) < 2 ^ 64" using fits length_block_image [of n es] by (simp add: block_fits_def)
  have size8: "8 \<le> (of_nat (length (block_image n es)) :: u64)"
    using init(2) by (simp add: num_restarts_def)
  have nz: "(of_nat ?nr :: u32) > 0"
    using nr by (simp add: word_less_nat_alt unat_of_nat_small)
  let ?bi = "\<lparr>bi_data = block_image n es @ rest, bi_restarts = length (body n es),
    bi_num_restarts = ?nr, bi_current = length (body n es), bi_restart_index = ?nr, bi_next = None,
    bi_key = vec_init 64, bi_val = 0, bi_val_len = 0\<rparr>"
  have "at_end ?bi n es"
    using fits restart_lookup [OF fits, of ?bi rest] nr(2)
    by (simp add: at_end_def iter_of_def block_fits_def block_image_parts)
  moreover have "block_iter_init \<lparr>blk_data = block_image n es @ rest,
      blk_size = of_nat (length (block_image n es)), blk_restart_offset = of_nat (length (body n es)),
      blk_needs_free = f\<rparr> = Some ?bi"
    using size8 nz nr L by (simp add: block_iter_init_def init(2) unat_of_nat_small)
  ultimately show ?thesis using init(1) size8 by simp
qed

subsection \<open>The block iterator as a cursor\<close>

text \<open>What a client does with a block iterator: take the current entry and step.\<close>

definition block_iter_pull :: "block_iter \<Rightarrow> (entry option \<times> block_iter) option" where
  "block_iter_pull bi = do {
     e \<leftarrow> block_iter_get bi;
     (_, bi) \<leftarrow> block_iter_next bi;
     Some (e, bi)
   }"

definition block_remaining :: "block_iter \<Rightarrow> entry list \<Rightarrow> bool" where
  "block_remaining bi rest \<longleftrightarrow> (\<exists>n es i. positioned bi n es i \<and> rest = drop i es)"

lemma block_pull_at:
  assumes "positioned bi n es i"
  shows "\<exists>bi'. block_iter_pull bi = Some (if i < length es then Some (es ! i) else None, bi') \<and>
    positioned bi' n es (Suc i)"
proof (cases "i < length es")
  case True
  then have "at_entry bi n es i" using assms by (simp add: positioned_def)
  from block_iter_next_ok [OF this] True show ?thesis
    by (auto simp: block_iter_pull_def block_iter_get_positioned [OF assms])
next
  case False
  then have "at_end bi n es" using assms by (simp add: positioned_def)
  with False show ?thesis
    by (simp add: block_iter_pull_def block_iter_get_positioned [OF assms] block_iter_next_end
        positioned_def)
qed

interpretation block: cursor block_iter_pull block_remaining
proof unfold_locales
  fix bi e rest
  assume "block_remaining bi (e # rest)"
  then obtain n es i where p: "positioned bi n es i" "drop i es = e # rest"
    by (auto simp: block_remaining_def)
  then have i: "i < length es" by (metis drop_eq_Nil linorder_not_le list.discI)
  then have "es ! i = e" "drop (Suc i) es = rest" using p(2) by (metis Cons_nth_drop_Suc list.inject)+
  with block_pull_at [OF p(1)] i
  show "\<exists>bi'. block_iter_pull bi = Some (Some e, bi') \<and> block_remaining bi' rest"
    by (auto simp: block_remaining_def)
next
  fix bi
  assume "block_remaining bi []"
  then obtain n es i where p: "positioned bi n es i" "length es \<le> i"
    by (auto simp: block_remaining_def)
  with block_pull_at [OF p(1)]
  show "\<exists>bi'. block_iter_pull bi = Some (None, bi') \<and> block_remaining bi' []"
    by (fastforce simp: block_remaining_def)
qed

lemma positioned_remaining: "positioned bi n es i \<Longrightarrow> block_remaining bi (drop i es)"
  by (auto simp: block_remaining_def)

subsection \<open>\<open>block_init\<close> on arbitrary bytes\<close>

lemma unat_1_plus_u32:
  "unat (1 + n :: u32) = (if unat n = UINT32_MAX then 0 else unat n + 1)"
proof -
  have n: "unat n \<le> UINT32_MAX" using unat_u32_lt [of n] by (simp add: UINT32_MAX_def del: unat_u32_lt)
  have "unat (1 + n) = (1 + unat n) mod 4294967296" by (simp add: unat_word_ariths)
  with n show ?thesis by (cases "unat n = UINT32_MAX") (simp_all only: UINT32_MAX_def, simp_all)
qed

lemma wrap_sub:
  fixes sz x :: u64
  assumes "unat x + 4 \<le> 2 ^ 64" and "4 \<le> sz" and "4 \<le> x" and "\<not> sz - x > sz - 4"
  shows "unat x \<le> unat sz" and "unat (sz - x) + unat x = unat sz"
proof -
  have s4: "unat (sz - 4) = unat sz - 4" using assms(2) by (simp add: unat_sub)
  show le: "unat x \<le> unat sz"
  proof (rule ccontr)
    assume "\<not> unat x \<le> unat sz"
    then have "unat (sz - x) = 2 ^ 64 + unat sz - unat x"
      by (simp add: unat_sub_if_size word_size)
    moreover have "unat (sz - x) \<le> unat sz - 4"
      using assms(4) s4 by (simp add: word_less_nat_alt)
    moreover have "4 \<le> unat sz" using assms(2) by (simp add: word_le_nat_alt)
    ultimately show False using assms(1) by linarith
  qed
  then show "unat (sz - x) + unat x = unat sz" by (simp add: unat_sub word_le_nat_alt)
qed

lemma num_restarts_total:
  assumes "unat sz \<le> length data" and "8 \<le> sz"
  shows "\<exists>n. \<forall>ro. num_restarts \<lparr>blk_data = data, blk_size = sz, blk_restart_offset = ro,
      blk_needs_free = f\<rparr> = Some n"
proof -
  have "8 \<le> unat sz" using assms(2) by (simp add: word_le_nat_alt)
  moreover have "unat (sz - 4) = unat sz - 4" using assms(2) by (simp add: unat_sub word_le_nat_alt)
  ultimately have "4 \<le> length (drop (unat (sz - 4)) data)" using assms(1) by simp
  from fixed_decode32_Some [OF this] assms(2) show ?thesis by (simp add: num_restarts_def)
qed

lemma restart_bytes32:
  assumes "4 \<le> sz" and "\<not> sz - ucast (1 + n :: u32) * 4 > sz - (4 :: u64)"
  shows "unat (sz - ucast (1 + n) * 4) + unat n * 4 + 4 = unat sz"
proof -
  have u: "unat (ucast (1 + n) * 4 :: u64) = unat (1 + n) * 4"
    by (rule trans [OF unat_mult_lem [THEN iffD1]]) (simp_all add: less_trans [OF unat_u32_lt])
  have ne: "unat n \<noteq> UINT32_MAX"
  proof
    assume "unat n = UINT32_MAX"
    then have "ucast (1 + n) * 4 = (0 :: u64)" using u by (simp add: unat_1_plus_u32 unat_eq_zero)
    with assms show False by (simp add: word_less_nat_alt word_le_nat_alt unat_sub)
  qed
  then have u': "unat (ucast (1 + n) * 4 :: u64) = unat n * 4 + 4" using u by (simp add: unat_1_plus_u32)
  have "unat n < 4294967296" by (rule unat_u32_lt)
  then have "unat (ucast (1 + n) * 4 :: u64) + 4 \<le> 2 ^ 64" unfolding u' by (simp del: unat_u32_lt)
  from wrap_sub(2) [OF this assms(1) _ assms(2)] u' show ?thesis by (simp add: word_le_nat_alt)
qed

lemma restart_bytes64:
  assumes "4 \<le> sz" and "\<not> sz - (4 + ucast (n :: u32) * 8) > sz - (4 :: u64)"
  shows "unat (sz - (4 + ucast n * 8)) + unat n * 8 + 4 = unat sz"
proof -
  have n: "unat n < 4294967296" by simp
  have m: "unat (ucast n * 8 :: u64) = unat n * 8"
    by (rule trans [OF unat_mult_lem [THEN iffD1]]) (simp_all add: less_trans [OF unat_u32_lt])
  have u': "unat (4 + ucast n * 8 :: u64) = unat n * 8 + 4"
    by (rule trans [OF unat_add_lem [THEN iffD1]]) (use n m in \<open>simp_all del: unat_u32_lt\<close>)
  have "unat (4 + ucast n * 8 :: u64) + 4 \<le> 2 ^ 64" unfolding u' using n by (simp del: unat_u32_lt)
  from wrap_sub(2) [OF this assms(1) _ assms(2)] u' show ?thesis by (simp add: word_le_nat_alt)
qed

subsection \<open>Properties\<close>

text \<open>
  C25: on any buffer of the announced size, whatever its bytes, \<open>block_init\<close> yields an empty
  block (size 0) when the size is below 4, fails the assertion of \<open>num_restarts\<close> when it is 4 to
  7, and otherwise either rejects the block (size 0) or finds a restart array that lies inside
  the buffer: offset, entries of 4 or 8 bytes and the final count add up to the size, with no
  wrap-around in the 32- and 64-bit arithmetic that computes it.
\<close>

theorem block_init_restart_array_in_bounds:
  assumes sz: "unat sz \<le> length data"
  shows "if sz < 4 then \<exists>b. block_init data sz f = Some b \<and> blk_size b = 0
    else if sz < 8 then block_init data sz f = None
    else \<exists>b. block_init data sz f = Some b \<and> (blk_size b = 0 \<or>
      blk_size b = sz \<and> (\<exists>n. num_restarts b = Some n \<and>
        unat (blk_restart_offset b) +
          unat n * (if unat (blk_restart_offset b) > UINT32_MAX then 8 else 4) + 4 = unat sz))"
proof -
  have U: "unat (of_nat UINT32_MAX :: u64) = UINT32_MAX" by (simp add: UINT32_MAX_def)
  have small: "\<exists>b. block_init data sz f = Some b \<and> blk_size b = 0" if "sz < 4"
    using that by (simp add: block_init_def)
  have mid: "block_init data sz f = None" if "\<not> sz < 4" "sz < 8"
    using that by (simp add: block_init_def num_restarts_def ensure_def Let_def flip: not_less)
  have big: "\<exists>b. block_init data sz f = Some b \<and> (blk_size b = 0 \<or>
      blk_size b = sz \<and> (\<exists>n. num_restarts b = Some n \<and>
        unat (blk_restart_offset b) +
          unat n * (if unat (blk_restart_offset b) > UINT32_MAX then 8 else 4) + 4 = unat sz))"
    if le: "\<not> sz < 8"
  proof -
    have s8: "8 \<le> sz" and s4: "\<not> sz < 4" "4 \<le> sz"
      using le by (simp_all add: word_less_nat_alt word_le_nat_alt)
    obtain n where n: "num_restarts \<lparr>blk_data = data, blk_size = sz, blk_restart_offset = ro,
        blk_needs_free = f\<rparr> = Some n" for ro
      using num_restarts_total [OF sz s8] by blast
    let ?r4 = "sz - ucast (1 + n) * 4" and ?r8 = "sz - (4 + ucast n * 8)"
    note r4 = restart_bytes32 [OF s4(2), of n] and r8 = restart_bytes64 [OF s4(2), of n]
    show ?thesis
    proof (cases "?r4 > of_nat UINT32_MAX")
      case True
      then show ?thesis
        using s4 n r8 U by (auto simp: block_init_def Let_def word_le_nat_alt word_less_nat_alt)
    next
      case False
      then show ?thesis
        using s4 n r4 U by (auto simp: block_init_def Let_def word_le_nat_alt word_less_nat_alt)
    qed
  qed
  from small mid big show ?thesis by simp
qed

theorem block_init_restart_array_in_bounds_witness:
  "\<exists>b. block_init [0, 0, 0, 0, 255, 255, 255, 255] 8 False = Some b \<and> (blk_size b = 0 \<or>
      blk_size b = 8 \<and> (\<exists>n. num_restarts b = Some n \<and>
        unat (blk_restart_offset b) +
          unat n * (if unat (blk_restart_offset b) > UINT32_MAX then 8 else 4) + 4 = 8))"
proof -
  have "unat (8 :: u64) \<le> length [0, 0, 0, 0, 255, 255, 255, 255 :: u8]" by simp
  from block_init_restart_array_in_bounds [OF this, of False] show ?thesis by simp
qed

text \<open>
  C22: iterating from the first entry over the image of any entries (sharing prefixes, any
  restart interval, restart offsets of either width) gives back exactly those entries, in order
  and complete, and then reports the end; the buffer may continue after the block.
\<close>

theorem block_iteration_roundtrip:
  assumes "block_fits n es"
  shows "\<exists>b bi0 bi bi'. block_init (block_image n es @ rest) (of_nat (length (block_image n es))) f = Some b \<and>
    block_iter_init b = Some bi0 \<and> \<not> block_iter_valid bi0 \<and>
    block_iter_seek_to_first bi0 = Some bi \<and>
    drain block_iter_pull (length es + 1) bi = Some (es, bi')"
proof -
  obtain b bi0 where b: "block_init (block_image n es @ rest) (of_nat (length (block_image n es))) f = Some b"
      "block_iter_init b = Some bi0" and e: "at_end bi0 n es"
    using block_iter_image [OF assms] by blast
  obtain bi where bi: "block_iter_seek_to_first bi0 = Some bi" "positioned bi n es 0"
    using block_iter_seek_to_first_ok [of bi0 n es] e by (auto simp: at_end_def)
  show ?thesis
    using b bi(1) block.drain_exact [OF positioned_remaining [OF bi(2)]] at_end_invalid [OF e] by auto
qed

lemma block_fits_example:
  "block_fits 2 [([97], [1]), ([97, 98], [2]), ([98], [3])]"
  by (simp add: block_fits_def small_entries_def length_block_image body_def block_layout_def
      lay_bytes_def restart_count_def restart_width_def UINT32_MAX_def encode32_small)

theorem block_iteration_roundtrip_witness:
  "\<exists>b bi0 bi bi'. block_init (block_image 2 [([97], [1]), ([97, 98], [2]), ([98], [3])] @ [255])
       (of_nat (length (block_image 2 [([97], [1]), ([97, 98], [2]), ([98], [3])]))) True = Some b \<and>
     block_iter_init b = Some bi0 \<and> block_iter_seek_to_first bi0 = Some bi \<and>
     drain block_iter_pull 4 bi = Some ([([97], [1]), ([97, 98], [2]), ([98], [3])], bi')"
proof -
  have "length [([97], [1]), ([97, 98], [2]), ([98], [3]) :: entry] + 1 = 4" by simp
  from block_iteration_roundtrip [OF block_fits_example, of "[255]" True, unfolded this]
  show ?thesis by blast
qed

text \<open>
  C23: \<open>block_iter_seek\<close> from any position, in a block whose keys are strictly increasing, goes to
  the first entry whose key is at least the target: iteration from there yields exactly the
  entries from that one on, and the end if there is none. The galloping, the binary search and
  the shortcut when the target lies in the current restart group change nothing of that.
\<close>

theorem block_seek_first_at_least:
  assumes "block_fits n es" and "strict_keys es"
  shows "\<exists>b bi0 bi1 bi2 bi' bi''.
    block_init (block_image n es @ rest) (of_nat (length (block_image n es))) f = Some b \<and>
    block_iter_init b = Some bi0 \<and>
    block_iter_seek bi0 t = Some bi1 \<and>
    drain block_iter_pull (length es + 1) bi1 = Some (filter (\<lambda>e. t \<le> fst e) es, bi') \<and>
    block_iter_seek bi1 t' = Some bi2 \<and>
    drain block_iter_pull (length es + 1) bi2 = Some (filter (\<lambda>e. t' \<le> fst e) es, bi'')"
proof -
  note rest = filter_ge_drop [OF assms(2), symmetric]
  have seek: "\<exists>bi'. block_iter_seek bi t = Some bi' \<and> positioned bi' n es (seek_pos es t) \<and>
      (\<exists>b. drain block_iter_pull (length es + 1) bi' = Some (filter (\<lambda>e. t \<le> fst e) es, b))"
    if pos: "at_end bi n es \<or> (\<exists>i. at_entry bi n es i)" for bi t
  proof -
    obtain bi' where bi': "block_iter_seek bi t = Some bi'" "positioned bi' n es (seek_pos es t)"
      using block_iter_seek_ok [OF assms(2) pos] by blast
    have "length (drop (seek_pos es t) es) < length es + 1" by simp
    from block.drain_all [OF positioned_remaining [OF bi'(2)] this] bi' rest show ?thesis by auto
  qed
  obtain b bi0 where b: "block_init (block_image n es @ rest) (of_nat (length (block_image n es))) f = Some b"
      "block_iter_init b = Some bi0" and e: "at_end bi0 n es"
    using block_iter_image [OF assms(1)] by blast
  obtain bi1 where s1: "block_iter_seek bi0 t = Some bi1" "positioned bi1 n es (seek_pos es t)"
      "\<exists>b. drain block_iter_pull (length es + 1) bi1 = Some (filter (\<lambda>e. t \<le> fst e) es, b)"
    using seek [of bi0 t] e by blast
  then have "at_end bi1 n es \<or> (\<exists>i. at_entry bi1 n es i)" by (auto simp: positioned_def split: if_splits)
  from seek [OF this, of t'] s1 b show ?thesis by blast
qed

theorem block_seek_first_at_least_witness:
  "\<exists>b bi0 bi1 bi'. block_init (block_image 2 [([97], [1]), ([97, 98], [2]), ([98], [3])] @ [])
       (of_nat (length (block_image 2 [([97], [1]), ([97, 98], [2]), ([98], [3])]))) True = Some b \<and>
     block_iter_init b = Some bi0 \<and> block_iter_seek bi0 [97, 0] = Some bi1 \<and>
     drain block_iter_pull 4 bi1 = Some ([([97, 98], [2]), ([98], [3])], bi')"
proof -
  have "strict_keys [([97], [1]), ([97, 98], [2]), ([98], [3])]" by (simp add: strict_keys_def)
  moreover have "length [([97], [1]), ([97, 98], [2]), ([98], [3]) :: entry] + 1 = 4"
    and "filter (\<lambda>e. [97, 0] \<le> fst e) [([97], [1]), ([97, 98], [2]), ([98], [3]) :: entry] =
      [([97, 98], [2]), ([98], [3])]"
    by simp_all
  ultimately show ?thesis
    using block_seek_first_at_least [OF block_fits_example, of "[]" True "[97, 0]" "[]"]
    by (simp only:) blast
qed

text \<open>
  C24: \<open>block_iter_seek_to_last\<close> goes to the last entry and \<open>block_iter_prev\<close> from the entry
  at position \<open>i\<close> to the one before it, or out of the block from the first one.
\<close>

theorem block_last_and_prev:
  assumes "block_fits n es" and "es \<noteq> []" and "strict_keys es" and "i < length es"
  shows "\<exists>b bi0 bl bi bp. block_init (block_image n es @ rest) (of_nat (length (block_image n es))) f = Some b \<and>
    block_iter_init b = Some bi0 \<and>
    block_iter_seek_to_last bi0 = Some bl \<and> block_iter_get bl = Some (Some (last es)) \<and>
    block_iter_seek bl (fst (es ! i)) = Some bi \<and> block_iter_get bi = Some (Some (es ! i)) \<and>
    block_iter_prev bi = Some bp \<and>
    block_iter_get bp = Some (if i = 0 then None else Some (es ! (i - 1)))"
proof -
  obtain b bi0 where b: "block_init (block_image n es @ rest) (of_nat (length (block_image n es))) f = Some b"
      "block_iter_init b = Some bi0" and e: "at_end bi0 n es"
    using block_iter_image [OF assms(1)] by blast
  obtain bl where bl: "block_iter_seek_to_last bi0 = Some bl" "at_entry bl n es (length es - 1)"
    using block_iter_seek_to_last_ok [OF _ assms(2)] e by (auto simp: at_end_def)
  obtain bi where bi: "block_iter_seek bl (fst (es ! i)) = Some bi" "at_entry bi n es i"
    using block_iter_seek_ok [OF assms(3), of bl n "fst (es ! i)"] bl(2) assms(4)
    by (auto simp: seek_pos_eq [OF assms(3,4)] positioned_def)
  obtain bp where bp: "block_iter_prev bi = Some bp"
      "if i = 0 then at_end bp n es else at_entry bp n es (i - 1)"
    using block_iter_prev_ok [OF bi(2)] by blast
  then have "block_iter_get bp = Some (if i = 0 then None else Some (es ! (i - 1)))"
    by (simp add: block_iter_get_at block_iter_get_end split: if_splits)
  with b bl bi bp(1) show ?thesis
    by (simp add: block_iter_get_at [OF bl(2)] block_iter_get_at [OF bi(2)] last_conv_nth [OF assms(2)])
qed

theorem block_last_and_prev_witness:
  "\<exists>b bi0 bl bi bp. block_init (block_image 2 [([97], [1]), ([97, 98], [2]), ([98], [3])] @ [])
       (of_nat (length (block_image 2 [([97], [1]), ([97, 98], [2]), ([98], [3])]))) True = Some b \<and>
     block_iter_init b = Some bi0 \<and> block_iter_seek_to_last bi0 = Some bl \<and>
     block_iter_get bl = Some (Some ([98], [3])) \<and>
     block_iter_seek bl [98] = Some bi \<and> block_iter_prev bi = Some bp \<and>
     block_iter_get bp = Some (Some ([97, 98], [2]))"
proof -
  let ?es = "[([97], [1]), ([97, 98], [2]), ([98], [3])] :: entry list"
  have "?es \<noteq> []" "strict_keys ?es" "2 < length ?es" by (simp_all add: strict_keys_def)
  from block_last_and_prev [OF block_fits_example this, of "[]" True]
  show ?thesis by auto
qed

text \<open>
  \<open>decode_entry\<close> checks the key suffix and value lengths against the end of the entries in
  32-bit arithmetic: lengths whose sum wraps are accepted although they run past the end of the
  block.
\<close>

theorem decode_entry_length_check_wraps:
  "decode_entry (mtbl_varint_encode32 0 @ mtbl_varint_encode32 0xFFFFFFFF @ mtbl_varint_encode32 1 @ rest)
     0 7 = Some (Some (7, 0, 0xFFFFFFFF, 1))"
proof -
  have l: "length (mtbl_varint_encode32 0 @ mtbl_varint_encode32 0xFFFFFFFF @ mtbl_varint_encode32 1) = 7"
    by (simp add: mtbl_varint_encode32_def Let_def)
  show ?thesis
    using three_varints [of "[]" 0 "0xFFFFFFFF" 1 7 rest] unfolding l by simp
qed

end
