(* ===== verification/Compression.thy ===== *)
theory Compression
  imports Fixed
begin

text \<open>
  \<open>mtbl/compression.c\<close>: the compression types, their names, and the dispatch to the wrappers
  around LZ4, Zstandard, Snappy and zlib. The libraries are a parameter, the record \<open>complib\<close>
  with one field per library function the wrappers call; \<open>complib_ok\<close> states what their
  manuals promise. A wrapper returns \<open>None\<close> where an assertion fails (a \<open>malloc\<close> that
  cannot be satisfied included), \<open>Some None\<close> for \<open>mtbl_res_failure\<close> and the output otherwise.
\<close>

definition INT_MAX :: nat where "INT_MAX = 2147483647"

datatype mtbl_compression_type =
    MTBL_COMPRESSION_NONE
  | MTBL_COMPRESSION_SNAPPY
  | MTBL_COMPRESSION_ZLIB
  | MTBL_COMPRESSION_LZ4
  | MTBL_COMPRESSION_LZ4HC
  | MTBL_COMPRESSION_ZSTD
  | MTBL_COMPRESSION_OTHER u32

text \<open>
  The enumeration's values; \<open>MTBL_COMPRESSION_OTHER\<close> is an object of the type holding none of
  them, which the switches handle with \<open>default\<close>.
\<close>

fun compression_code :: "mtbl_compression_type \<Rightarrow> u32" where
  "compression_code MTBL_COMPRESSION_NONE = 0"
| "compression_code MTBL_COMPRESSION_SNAPPY = 1"
| "compression_code MTBL_COMPRESSION_ZLIB = 2"
| "compression_code MTBL_COMPRESSION_LZ4 = 3"
| "compression_code MTBL_COMPRESSION_LZ4HC = 4"
| "compression_code MTBL_COMPRESSION_ZSTD = 5"
| "compression_code (MTBL_COMPRESSION_OTHER n) = n"

definition compression_of_code :: "u32 \<Rightarrow> mtbl_compression_type" where
  "compression_of_code n =
     (if n = 0 then MTBL_COMPRESSION_NONE else if n = 1 then MTBL_COMPRESSION_SNAPPY
      else if n = 2 then MTBL_COMPRESSION_ZLIB else if n = 3 then MTBL_COMPRESSION_LZ4
      else if n = 4 then MTBL_COMPRESSION_LZ4HC else if n = 5 then MTBL_COMPRESSION_ZSTD
      else MTBL_COMPRESSION_OTHER n)"

subsection \<open>Names\<close>

fun mtbl_compression_type_to_str :: "mtbl_compression_type \<Rightarrow> string option" where
  "mtbl_compression_type_to_str MTBL_COMPRESSION_NONE = Some ''none''"
| "mtbl_compression_type_to_str MTBL_COMPRESSION_SNAPPY = Some ''snappy''"
| "mtbl_compression_type_to_str MTBL_COMPRESSION_ZLIB = Some ''zlib''"
| "mtbl_compression_type_to_str MTBL_COMPRESSION_LZ4 = Some ''lz4''"
| "mtbl_compression_type_to_str MTBL_COMPRESSION_LZ4HC = Some ''lz4hc''"
| "mtbl_compression_type_to_str MTBL_COMPRESSION_ZSTD = Some ''zstd''"
| "mtbl_compression_type_to_str (MTBL_COMPRESSION_OTHER n) = None"

text \<open>\<open>strcasecmp\<close> in the C locale.\<close>

definition tolower :: "char \<Rightarrow> char" where
  "tolower c =
     (let n = of_char c :: nat in if 65 \<le> n \<and> n \<le> 90 then char_of (n + 32) else c)"

definition strcaseeq :: "string \<Rightarrow> string \<Rightarrow> bool" where
  "strcaseeq s t \<longleftrightarrow> map tolower s = map tolower t"

definition mtbl_compression_type_from_str :: "string \<Rightarrow> mtbl_compression_type option" where
  "mtbl_compression_type_from_str s =
     (if strcaseeq s ''none'' then Some MTBL_COMPRESSION_NONE
      else if strcaseeq s ''snappy'' then Some MTBL_COMPRESSION_SNAPPY
      else if strcaseeq s ''zlib'' then Some MTBL_COMPRESSION_ZLIB
      else if strcaseeq s ''lz4'' then Some MTBL_COMPRESSION_LZ4
      else if strcaseeq s ''lz4hc'' then Some MTBL_COMPRESSION_LZ4HC
      else if strcaseeq s ''zstd'' then Some MTBL_COMPRESSION_ZSTD
      else None)"

subsection \<open>The libraries\<close>

datatype z_ret = Z_OK | Z_STREAM_END | Z_BUF_ERROR | Z_DATA_ERROR

text \<open>
  Outputs are the bytes written, an empty LZ4 output being its error value 0 and \<open>None\<close> an error
  code. \<open>deflate\<close> is the whole \<open>deflateInit\<close>/\<open>deflate\<close>/\<open>deflateEnd\<close> sequence on one input
  buffer: level, input and room to the result codes, the input left and the output; \<open>inflate\<close>
  keeps its stream state. \<open>mem_limit\<close> is the largest allocation that succeeds and \<open>uninit\<close>
  what fresh memory holds.
\<close>

record 'z complib =
  LZ4_compressBound :: "nat \<Rightarrow> nat"
  LZ4_compress_default :: "bytes \<Rightarrow> nat \<Rightarrow> bytes"
  LZ4_compress_HC :: "bytes \<Rightarrow> nat \<Rightarrow> int \<Rightarrow> bytes"
  LZ4_decompress_safe :: "bytes \<Rightarrow> nat \<Rightarrow> bytes option"
  ZSTD_minCLevel :: int
  ZSTD_maxCLevel :: int
  ZSTD_compressBound :: "nat \<Rightarrow> nat"
  ZSTD_compress :: "bytes \<Rightarrow> nat \<Rightarrow> int \<Rightarrow> bytes option"
  ZSTD_getFrameContentSize :: "bytes \<Rightarrow> u64"
  ZSTD_decompress :: "bytes \<Rightarrow> nat \<Rightarrow> bytes option"
  snappy_max_compressed_length :: "nat \<Rightarrow> nat"
  snappy_compress :: "bytes \<Rightarrow> nat \<Rightarrow> bytes option"
  snappy_uncompressed_length :: "bytes \<Rightarrow> nat option"
  snappy_uncompress :: "bytes \<Rightarrow> nat \<Rightarrow> bytes option"
  deflateInit :: "int \<Rightarrow> z_ret"
  deflate :: "int \<Rightarrow> bytes \<Rightarrow> nat \<Rightarrow> z_ret \<times> nat \<times> bytes"
  deflateEnd :: z_ret
  inflateInit :: z_ret
  inflate_start :: "bytes \<Rightarrow> 'z"
  inflate :: "'z \<Rightarrow> nat \<Rightarrow> z_ret \<times> bytes \<times> 'z"
  mem_limit :: nat
  uninit :: "nat \<Rightarrow> bytes"

definition my_malloc :: "'z complib \<Rightarrow> nat \<Rightarrow> unit option" where
  "my_malloc L n = ensure (n \<le> mem_limit L)"

subsection \<open>The compressing wrappers\<close>

definition mtbl_compress_lz4 :: "'z complib \<Rightarrow> bytes \<Rightarrow> bytes option option" where
  "mtbl_compress_lz4 L input =
     (if length input > INT_MAX then Some None
      else do {
        let lz4_size = LZ4_compressBound L (length input);
        my_malloc L (lz4_size + 4);
        let lz4_bytes = LZ4_compress_default L input lz4_size;
        if length lz4_bytes = 0 then Some None
        else Some (Some (mtbl_fixed_encode32 (of_nat (length input)) @ lz4_bytes))
      })"

definition mtbl_compress_lz4hc :: "'z complib \<Rightarrow> bytes \<Rightarrow> int \<Rightarrow> bytes option option" where
  "mtbl_compress_lz4hc L input compression_level =
     (if length input > INT_MAX then Some None
      else do {
        let compression_level = (if compression_level < 0 then 0 else compression_level);
        let lz4_size = LZ4_compressBound L (length input);
        my_malloc L (lz4_size + 4);
        let lz4_bytes = LZ4_compress_HC L input lz4_size compression_level;
        if length lz4_bytes = 0 then Some None
        else Some (Some (mtbl_fixed_encode32 (of_nat (length input)) @ lz4_bytes))
      })"

definition mtbl_compress_zstd :: "'z complib \<Rightarrow> bytes \<Rightarrow> int \<Rightarrow> bytes option option" where
  "mtbl_compress_zstd L input compression_level =
     (let minlevel = ZSTD_minCLevel L in
      if length input > INT_MAX then Some None
      else do {
        let compression_level =
          (if compression_level < minlevel then minlevel
           else if compression_level > ZSTD_maxCLevel L then ZSTD_maxCLevel L
           else compression_level);
        let zstd_size = ZSTD_compressBound L (length input);
        let zstd_size = (if zstd_size < INT_MAX div 2 then zstd_size * 2 else zstd_size);
        my_malloc L zstd_size;
        Some (ZSTD_compress L input zstd_size compression_level)
      })"

definition mtbl_compress_snappy :: "'z complib \<Rightarrow> bytes \<Rightarrow> bytes option option" where
  "mtbl_compress_snappy L input = do {
     let output_size = snappy_max_compressed_length L (length input);
     my_malloc L output_size;
     Some (snappy_compress L input output_size)
   }"

definition Z_DEFAULT_COMPRESSION :: int where "Z_DEFAULT_COMPRESSION = - 1"
definition Z_NO_COMPRESSION :: int where "Z_NO_COMPRESSION = 0"
definition Z_BEST_COMPRESSION :: int where "Z_BEST_COMPRESSION = 9"

definition mtbl_compress_zlib :: "'z complib \<Rightarrow> bytes \<Rightarrow> int \<Rightarrow> bytes option option" where
  "mtbl_compress_zlib L input compression_level = do {
     let compression_level =
       (if compression_level < Z_DEFAULT_COMPRESSION then Z_NO_COMPRESSION
        else if compression_level > Z_BEST_COMPRESSION then Z_BEST_COMPRESSION
        else compression_level);
     let output_size = 2 * length input;
     my_malloc L output_size;
     ensure (deflateInit L compression_level = Z_OK);
     let avail_in = (of_nat (length input) :: u32);
     let avail_out = (of_nat output_size :: u32);
     let (zret, avail_in, output) = deflate L compression_level (take (unat avail_in) input) (unat avail_out);
     ensure (zret = Z_STREAM_END);
     ensure (avail_in = 0);
     if deflateEnd L \<noteq> Z_OK then Some None else Some (Some output)
   }"

subsection \<open>The decompressing wrappers\<close>

definition mtbl_decompress_lz4 :: "'z complib \<Rightarrow> bytes \<Rightarrow> bytes option option" where
  "mtbl_decompress_lz4 L input =
     (if length input > INT_MAX \<or> length input < 4 then Some None
      else do {
        n \<leftarrow> mtbl_fixed_decode32 input;
        let output_size = unat n;
        my_malloc L output_size;
        case LZ4_decompress_safe L (drop 4 input) output_size of
          None \<Rightarrow> Some None
        | Some out \<Rightarrow> Some (Some (out @ uninit L (output_size - length out)))
      })"

definition mtbl_decompress_zstd :: "'z complib \<Rightarrow> bytes \<Rightarrow> bytes option option" where
  "mtbl_decompress_zstd L input =
     (if length input > INT_MAX then Some None
      else do {
        let output_size = ZSTD_getFrameContentSize L input;
        if output_size \<le> 0 then Some None
        else do {
          my_malloc L (unat output_size);
          case ZSTD_decompress L input (unat output_size) of
            None \<Rightarrow> Some None
          | Some out \<Rightarrow> Some (Some (out @ uninit L (unat output_size - length out)))
        }
      })"

definition mtbl_decompress_snappy :: "'z complib \<Rightarrow> bytes \<Rightarrow> bytes option option" where
  "mtbl_decompress_snappy L input =
     (case snappy_uncompressed_length L input of
        None \<Rightarrow> Some None
      | Some output_size \<Rightarrow> do {
          my_malloc L output_size;
          Some (snappy_uncompress L input output_size)
        })"

text \<open>
  The \<open>do\<close> loop of \<open>_mtbl_decompress_zlib\<close>: \<open>buf\<close> is what lies before \<open>next_out\<close>, \<open>total_out\<close>
  counts the bytes \<open>inflate\<close> produced, and \<open>avail_out\<close> is the room left. The \<open>avail_in\<close> and
  \<open>avail_out\<close> of zlib have 32 bits, and the sizes assigned to them are truncated.
\<close>

partial_function (option) inflate_loop ::
  "'z complib \<Rightarrow> 'z \<Rightarrow> bytes \<Rightarrow> nat \<Rightarrow> u32 \<Rightarrow> nat \<Rightarrow> bytes option" where
  "inflate_loop L zs buf total_out avail_out output_size = do {
     let (zret, chunk, zs) = inflate L zs (unat avail_out);
     ensure (zret = Z_STREAM_END \<or> zret = Z_BUF_ERROR);
     if zret \<noteq> Z_STREAM_END then do {
       my_malloc L (output_size * 2);
       inflate_loop L zs (buf @ chunk @ uninit L (output_size - length buf - length chunk))
         (total_out + length chunk) (of_nat output_size) (output_size * 2)
     } else Some (take (total_out + length chunk) (buf @ chunk))
   }"

definition mtbl_decompress_zlib :: "'z complib \<Rightarrow> bytes \<Rightarrow> bytes option option" where
  "mtbl_decompress_zlib L input = do {
     let output_size = 4 * length input;
     let output_size = output_size - output_size mod 1024;
     let output_size = output_size + 1024;
     my_malloc L output_size;
     ensure (inflateInit L = Z_OK);
     let avail_in = (of_nat (length input) :: u32);
     output \<leftarrow> inflate_loop L (inflate_start L (take (unat avail_in) input)) [] 0 (of_nat output_size) output_size;
     Some (Some output)
   }"

subsection \<open>Dispatch\<close>

fun mtbl_compress :: "'z complib \<Rightarrow> mtbl_compression_type \<Rightarrow> bytes \<Rightarrow> bytes option option" where
  "mtbl_compress L MTBL_COMPRESSION_NONE input = Some None"
| "mtbl_compress L MTBL_COMPRESSION_SNAPPY input = mtbl_compress_snappy L input"
| "mtbl_compress L MTBL_COMPRESSION_ZLIB input = mtbl_compress_zlib L input Z_DEFAULT_COMPRESSION"
| "mtbl_compress L MTBL_COMPRESSION_LZ4 input = mtbl_compress_lz4 L input"
| "mtbl_compress L MTBL_COMPRESSION_LZ4HC input = mtbl_compress_lz4hc L input 9"
| "mtbl_compress L MTBL_COMPRESSION_ZSTD input = mtbl_compress_zstd L input 9"
| "mtbl_compress L (MTBL_COMPRESSION_OTHER n) input = Some None"

fun mtbl_compress_level ::
  "'z complib \<Rightarrow> mtbl_compression_type \<Rightarrow> int \<Rightarrow> bytes \<Rightarrow> bytes option option" where
  "mtbl_compress_level L MTBL_COMPRESSION_NONE level input = Some None"
| "mtbl_compress_level L MTBL_COMPRESSION_SNAPPY level input = mtbl_compress_snappy L input"
| "mtbl_compress_level L MTBL_COMPRESSION_ZLIB level input = mtbl_compress_zlib L input level"
| "mtbl_compress_level L MTBL_COMPRESSION_LZ4 level input = mtbl_compress_lz4 L input"
| "mtbl_compress_level L MTBL_COMPRESSION_LZ4HC level input = mtbl_compress_lz4hc L input level"
| "mtbl_compress_level L MTBL_COMPRESSION_ZSTD level input = mtbl_compress_zstd L input level"
| "mtbl_compress_level L (MTBL_COMPRESSION_OTHER n) level input = Some None"

fun mtbl_decompress :: "'z complib \<Rightarrow> mtbl_compression_type \<Rightarrow> bytes \<Rightarrow> bytes option option" where
  "mtbl_decompress L MTBL_COMPRESSION_NONE input = Some None"
| "mtbl_decompress L MTBL_COMPRESSION_SNAPPY input = mtbl_decompress_snappy L input"
| "mtbl_decompress L MTBL_COMPRESSION_ZLIB input = mtbl_decompress_zlib L input"
| "mtbl_decompress L MTBL_COMPRESSION_LZ4 input = mtbl_decompress_lz4 L input"
| "mtbl_decompress L MTBL_COMPRESSION_LZ4HC input = mtbl_decompress_lz4 L input"
| "mtbl_decompress L MTBL_COMPRESSION_ZSTD input = mtbl_decompress_zstd L input"
| "mtbl_decompress L (MTBL_COMPRESSION_OTHER n) input = Some None"

subsection \<open>What the libraries promise\<close>

definition lz4_ok :: "'z complib \<Rightarrow> bool" where
  "lz4_ok L \<longleftrightarrow> (\<forall>x level. length x \<le> 0x7E000000 \<longrightarrow> 0 \<le> level \<longrightarrow>
     LZ4_compressBound L (length x) = length x + length x div 255 + 16 \<and>
     (\<forall>c\<in>{LZ4_compress_default L x (LZ4_compressBound L (length x)),
           LZ4_compress_HC L x (LZ4_compressBound L (length x)) level}.
        c \<noteq> [] \<and> length c \<le> LZ4_compressBound L (length x) \<and>
        LZ4_decompress_safe L c (length x) = Some x))"

definition zstd_ok :: "'z complib \<Rightarrow> bool" where
  "zstd_ok L \<longleftrightarrow> ZSTD_minCLevel L \<le> ZSTD_maxCLevel L \<and>
     (\<forall>n. ZSTD_compressBound L n \<le> n + n div 256 + 64) \<and>
     (\<forall>x cap level. ZSTD_compressBound L (length x) \<le> cap \<longrightarrow>
        ZSTD_minCLevel L \<le> level \<longrightarrow> level \<le> ZSTD_maxCLevel L \<longrightarrow>
        (\<exists>c. ZSTD_compress L x cap level = Some c \<and> c \<noteq> [] \<and> length c \<le> ZSTD_compressBound L (length x) \<and>
           ZSTD_getFrameContentSize L c = of_nat (length x) \<and>
           ZSTD_decompress L c (length x) = Some x))"

definition snappy_ok :: "'z complib \<Rightarrow> bool" where
  "snappy_ok L \<longleftrightarrow> (\<forall>n. snappy_max_compressed_length L n = 32 + n + n div 6) \<and>
     (\<forall>x. \<exists>c. snappy_compress L x (snappy_max_compressed_length L (length x)) = Some c \<and> c \<noteq> [] \<and>
        snappy_uncompressed_length L c = Some (length x) \<and>
        snappy_uncompress L c (length x) = Some x)"

text \<open>
  \<open>R zs xs\<close>: the stream \<open>zs\<close> has the bytes \<open>xs\<close> left to produce. With \<open>Z_FINISH\<close> a call either
  produces all of them and ends, or fills the room and asks for more. \<open>deflate\<close> in one step expands
  its input by at most five bytes a 16 KB block and six for the stream (\<open>zlib_bound\<close>).
\<close>

definition inflates :: "'z complib \<Rightarrow> ('z \<Rightarrow> bytes \<Rightarrow> bool) \<Rightarrow> bool" where
  "inflates L R \<longleftrightarrow> (\<forall>zs xs room. R zs xs \<longrightarrow>
     (\<exists>zret chunk zs'. inflate L zs room = (zret, chunk, zs') \<and>
        (zret = Z_STREAM_END \<and> chunk = xs \<and> length xs \<le> room \<or>
         zret = Z_BUF_ERROR \<and> room \<le> length xs \<and> chunk = take room xs \<and> R zs' (drop room xs))))"

definition zlib_bound :: "nat \<Rightarrow> nat" where
  "zlib_bound n = n + 5 * (n div 16383 + 1) + 6"

definition zlib_ok :: "'z complib \<Rightarrow> bool" where
  "zlib_ok L \<longleftrightarrow> deflateEnd L = Z_OK \<and> inflateInit L = Z_OK \<and>
     (\<forall>level. - 1 \<le> level \<longrightarrow> level \<le> 9 \<longrightarrow> deflateInit L level = Z_OK \<and>
        (\<forall>x cap zret left c. deflate L level x cap = (zret, left, c) \<longrightarrow>
           length c \<le> cap \<and> (zret = Z_STREAM_END \<longrightarrow> 8 \<le> length c))) \<and>
     (\<exists>R. inflates L R \<and> (\<forall>level x cap. - 1 \<le> level \<longrightarrow> level \<le> 9 \<longrightarrow>
        zlib_bound (length x) \<le> cap \<longrightarrow>
        (\<exists>c. deflate L level x cap = (Z_STREAM_END, 0, c) \<and> length c \<le> zlib_bound (length x) \<and>
           R (inflate_start L c) x)))"

definition complib_ok :: "'z complib \<Rightarrow> bool" where
  "complib_ok L \<longleftrightarrow> lz4_ok L \<and> zstd_ok L \<and> snappy_ok L \<and> zlib_ok L \<and>
     2 ^ 34 \<le> mem_limit L \<and> (\<forall>n. length (uninit L n) = n)"

subsection \<open>Compressing and decompressing\<close>

lemma inflate_loop_ok:
  assumes R: "inflates L R" and u: "\<forall>n. length (uninit L n) = n"
  shows "R zs xs \<Longrightarrow> 0 < avail \<Longrightarrow> avail < 2 ^ 32 \<Longrightarrow> length buf + avail = osize \<Longrightarrow>
    2 * (length buf + length xs) \<le> mem_limit L \<Longrightarrow> length buf + length xs < 2 ^ 32 \<Longrightarrow>
    inflate_loop L zs buf (length buf) (of_nat avail) osize = Some (buf @ xs)"
proof (induction xs arbitrary: zs buf avail osize rule: length_induct)
  case (1 xs)
  obtain zret chunk zs' where i: "inflate L zs avail = (zret, chunk, zs')"
    and c: "zret = Z_STREAM_END \<and> chunk = xs \<and> length xs \<le> avail \<or>
      zret = Z_BUF_ERROR \<and> avail \<le> length xs \<and> chunk = take avail xs \<and> R zs' (drop avail xs)"
    using R "1.prems"(1) unfolding inflates_def by blast
  have av: "unat (of_nat avail :: u32) = avail" using "1.prems"(3) by (intro unat_of_nat_small) simp
  show ?case
  proof (cases "zret = Z_STREAM_END")
    case True
    then show ?thesis using c i av by (subst inflate_loop.simps) auto
  next
    case False
    then have b: "zret = Z_BUF_ERROR" "avail \<le> length xs" "chunk = take avail xs" "R zs' (drop avail xs)"
      using c by auto
    have nil: "uninit L 0 = []" using u [rule_format, of 0] by simp
    let ?buf = "buf @ take avail xs"
    have "inflate_loop L zs' ?buf (length ?buf) (of_nat osize) (osize * 2) = Some (?buf @ drop avail xs)"
      using "1.prems" b by (intro "1.IH" [rule_format]) auto
    then show ?thesis
      using i b "1.prems" nil av by (subst inflate_loop.simps) (auto simp: my_malloc_def)
  qed
qed

lemma lz4_decompress:
  assumes "lz4_ok L" and n: "length x \<le> 2 ^ 30" and "2 ^ 34 \<le> mem_limit L"
    and u: "\<forall>n. length (uninit L n) = n"
    and c: "length c \<le> length x + length x div 255 + 16" "LZ4_decompress_safe L c (length x) = Some x"
  shows "mtbl_decompress_lz4 L (mtbl_fixed_encode32 (of_nat (length x)) @ c) = Some (Some x)"
proof -
  have "length x div 255 \<le> length x" by simp
  then have "length c + 4 \<le> INT_MAX" using c(1) n by (simp add: INT_MAX_def)
  moreover have "unat (of_nat (length x) :: u32) = length x"
    using n by (intro unat_of_nat_small) simp
  moreover have "uninit L 0 = []" using u [rule_format, of 0] by simp
  ultimately show ?thesis
    using c(2) n assms(3) by (simp add: mtbl_decompress_lz4_def wire_simps my_malloc_def)
qed

lemma lz4_roundtrip:
  assumes ok: "lz4_ok L" and mem: "2 ^ 34 \<le> mem_limit L" and u: "\<forall>n. length (uninit L n) = n"
    and n: "length x \<le> 2 ^ 30"
  shows "\<exists>c. mtbl_compress_lz4 L x = Some (Some c) \<and> c \<noteq> [] \<and> mtbl_decompress_lz4 L c = Some (Some x)"
    and "\<exists>c. mtbl_compress_lz4hc L x level = Some (Some c) \<and> c \<noteq> [] \<and> mtbl_decompress_lz4 L c = Some (Some x)"
proof -
  let ?lv = "if level < 0 then 0 else level"
  have "length x \<le> 0x7E000000" "0 \<le> ?lv" using n by simp_all
  then have b: "LZ4_compressBound L (length x) = length x + length x div 255 + 16"
    and d: "\<forall>c\<in>{LZ4_compress_default L x (LZ4_compressBound L (length x)),
           LZ4_compress_HC L x (LZ4_compressBound L (length x)) ?lv}.
        c \<noteq> [] \<and> length c \<le> LZ4_compressBound L (length x) \<and>
        LZ4_decompress_safe L c (length x) = Some x"
    using ok unfolding lz4_ok_def by blast+
  have "length x div 255 \<le> length x" by simp
  then have m: "\<not> length x > INT_MAX" "LZ4_compressBound L (length x) + 4 \<le> mem_limit L"
    using n b mem by (simp_all add: INT_MAX_def)
  show "\<exists>c. mtbl_compress_lz4 L x = Some (Some c) \<and> c \<noteq> [] \<and> mtbl_decompress_lz4 L c = Some (Some x)"
    using d m lz4_decompress [OF ok n mem u] unfolding b
    by (simp add: mtbl_compress_lz4_def b my_malloc_def)
  show "\<exists>c. mtbl_compress_lz4hc L x level = Some (Some c) \<and> c \<noteq> [] \<and> mtbl_decompress_lz4 L c = Some (Some x)"
    using d m lz4_decompress [OF ok n mem u] unfolding b
    by (simp add: mtbl_compress_lz4hc_def b my_malloc_def Let_def)
qed

lemma zstd_roundtrip:
  assumes ok: "zstd_ok L" and mem: "2 ^ 34 \<le> mem_limit L" and u: "\<forall>n. length (uninit L n) = n"
    and n: "length x \<le> 2 ^ 30" "x \<noteq> []"
  shows "\<exists>c. mtbl_compress_zstd L x level = Some (Some c) \<and> c \<noteq> [] \<and> mtbl_decompress_zstd L c = Some (Some x)"
proof -
  let ?lv = "if level < ZSTD_minCLevel L then ZSTD_minCLevel L
           else if level > ZSTD_maxCLevel L then ZSTD_maxCLevel L else level"
  let ?sz = "ZSTD_compressBound L (length x)"
  let ?cap = "if ?sz < INT_MAX div 2 then ?sz * 2 else ?sz"
  have b: "?sz \<le> length x + length x div 256 + 64" using ok by (simp add: zstd_ok_def)
  have "length x div 256 \<le> 2 ^ 22" using div_le_mono [OF n(1), of 256] by simp
  with b n(1) have s: "?sz \<le> 2 ^ 30 + 2 ^ 22 + 64" by linarith
  have "ZSTD_minCLevel L \<le> ?lv" "?lv \<le> ZSTD_maxCLevel L" "?sz \<le> ?cap"
    using ok by (auto simp: zstd_ok_def)
  then obtain c where c: "ZSTD_compress L x ?cap ?lv = Some c" "c \<noteq> []" "length c \<le> ?sz"
      "ZSTD_getFrameContentSize L c = of_nat (length x)" "ZSTD_decompress L c (length x) = Some x"
    using ok unfolding zstd_ok_def by blast
  have un: "unat (of_nat (length x) :: u64) = length x"
    using n(1) by (intro unat_of_nat_small) simp
  have pos: "\<not> (of_nat (length x) :: u64) \<le> 0"
    using n(2) un by (metis length_0_conv unat_eq_zero word_le_0_iff)
  have nil: "uninit L 0 = []" using u [rule_format, of 0] by simp
  have "mtbl_compress_zstd L x level = Some (Some c)"
    using c(1) s mem n(1) by (simp add: mtbl_compress_zstd_def Let_def my_malloc_def INT_MAX_def)
  moreover have "mtbl_decompress_zstd L c = Some (Some x)"
    using c(3-5) s mem n(1) pos un nil
    by (simp add: mtbl_decompress_zstd_def Let_def my_malloc_def INT_MAX_def)
  ultimately show ?thesis using c(2) by blast
qed

lemma snappy_roundtrip:
  assumes ok: "snappy_ok L" and mem: "2 ^ 34 \<le> mem_limit L" and n: "length x \<le> 2 ^ 30"
  shows "\<exists>c. mtbl_compress_snappy L x = Some (Some c) \<and> c \<noteq> [] \<and> mtbl_decompress_snappy L c = Some (Some x)"
proof -
  have b: "\<And>n. snappy_max_compressed_length L n = 32 + n + n div 6" using ok by (simp add: snappy_ok_def)
  obtain c where c: "snappy_compress L x (snappy_max_compressed_length L (length x)) = Some c" "c \<noteq> []"
      "snappy_uncompressed_length L c = Some (length x)" "snappy_uncompress L c (length x) = Some x"
    using ok unfolding snappy_ok_def by blast
  have "length x div 6 \<le> length x" by simp
  then have "snappy_max_compressed_length L (length x) \<le> mem_limit L" "length x \<le> mem_limit L"
    using n mem unfolding b by simp_all
  then show ?thesis
    using c by (simp add: mtbl_compress_snappy_def mtbl_decompress_snappy_def my_malloc_def)
qed

text \<open>
  The largest inputs that survive zlib: the first guess for the decompressed size, four times the
  compressed size, must be below 2^32.
\<close>

definition compress_limit :: "mtbl_compression_type \<Rightarrow> nat" where
  "compress_limit t = (if t = MTBL_COMPRESSION_ZLIB then 2 ^ 30 - 2 ^ 19 else 2 ^ 30)"

lemma zlib_bound_small:
  assumes "n \<le> 2 ^ 30 - 2 ^ 19"
  shows "zlib_bound n < 2 ^ 30 - 256"
proof -
  have "n div 16383 \<le> (2 ^ 30 - 2 ^ 19) div 16383" using assms by (rule div_le_mono)
  then have "n div 16383 \<le> 65508" by simp
  then show ?thesis using assms by (simp add: zlib_bound_def)
qed

lemma zlib_bound_double: "11 \<le> n \<Longrightarrow> zlib_bound n \<le> 2 * n"
proof (cases "n div 16383 = 0")
  case False
  have "16 * (n div 16383) \<le> 16383 * (n div 16383)" by (rule mult_le_mono1) simp
  also have "\<dots> \<le> n" by simp
  finally have "16 * (n div 16383) \<le> n" .
  then show ?thesis using False by (simp add: zlib_bound_def)
qed (simp add: zlib_bound_def)

text \<open>What the compressing side gives: a stream that has its input to produce.\<close>

lemma compress_zlib_stream:
  assumes ok: "zlib_ok L" and mem: "2 ^ 34 \<le> mem_limit L" and n: "length x \<le> 2 ^ 30" "11 \<le> length x"
  obtains R c where "inflates L R" "mtbl_compress_zlib L x level = Some (Some c)" "R (inflate_start L c) x"
    "8 \<le> length c" "length c \<le> zlib_bound (length x)"
proof -
  let ?lv = "if level < Z_DEFAULT_COMPRESSION then Z_NO_COMPRESSION
        else if level > Z_BEST_COMPRESSION then Z_BEST_COMPRESSION else level"
  have lv: "- 1 \<le> ?lv" "?lv \<le> 9"
    by (auto simp: Z_DEFAULT_COMPRESSION_def Z_NO_COMPRESSION_def Z_BEST_COMPRESSION_def)
  obtain R where R: "inflates L R" and D: "\<forall>level x cap. - 1 \<le> level \<longrightarrow> level \<le> 9 \<longrightarrow>
        zlib_bound (length x) \<le> cap \<longrightarrow>
        (\<exists>c. deflate L level x cap = (Z_STREAM_END, 0, c) \<and> length c \<le> zlib_bound (length x) \<and>
           R (inflate_start L c) x)"
    using ok unfolding zlib_ok_def by blast
  obtain c where c: "deflate L ?lv x (2 * length x) = (Z_STREAM_END, 0, c)" "R (inflate_start L c) x"
      "length c \<le> zlib_bound (length x)"
    using D lv zlib_bound_double [OF n(2)] by blast
  have i: "deflateInit L ?lv = Z_OK" "deflateEnd L = Z_OK" "8 \<le> length c"
    using ok lv c(1) unfolding zlib_ok_def by blast+
  have u: "unat (of_nat (length x) :: u32) = length x" "unat (of_nat (2 * length x) :: u32) = 2 * length x"
    using n(1) by (intro unat_of_nat_small; simp)+
  have "mtbl_compress_zlib L x level = Some (Some c)"
    using c(1) i n mem u by (simp add: mtbl_compress_zlib_def Let_def my_malloc_def)
  with R c show thesis using i(3) that by blast
qed

lemma decompress_zlib_unfold:
  assumes "osize = 4 * length c - 4 * length c mod 1024 + 1024" and "length c < 2 ^ 32"
  shows "mtbl_decompress_zlib L c = do {
      my_malloc L osize;
      ensure (inflateInit L = Z_OK);
      output \<leftarrow> inflate_loop L (inflate_start L c) [] 0 (of_nat osize) osize;
      Some (Some output)
    }"
proof -
  have "unat (of_nat (length c) :: u32) = length c" using assms(2) by (intro unat_of_nat_small) simp
  then show ?thesis unfolding mtbl_decompress_zlib_def Let_def assms(1) by simp
qed

lemma zlib_roundtrip:
  assumes ok: "zlib_ok L" and mem: "2 ^ 34 \<le> mem_limit L" and u: "\<forall>n. length (uninit L n) = n"
    and n: "length x \<le> compress_limit MTBL_COMPRESSION_ZLIB" "11 \<le> length x"
  shows "\<exists>c. mtbl_compress_zlib L x level = Some (Some c) \<and> c \<noteq> [] \<and> mtbl_decompress_zlib L c = Some (Some x)"
proof -
  have x: "length x \<le> 2 ^ 30 - 2 ^ 19" "length x \<le> 2 ^ 30" using n(1) by (simp_all add: compress_limit_def)
  obtain R c where c: "inflates L R" "mtbl_compress_zlib L x level = Some (Some c)" "R (inflate_start L c) x"
    "8 \<le> length c" "length c \<le> zlib_bound (length x)"
    by (rule compress_zlib_stream [OF ok mem x(2) n(2)])
  have lc: "length c < 2 ^ 30 - 256" using c(5) zlib_bound_small [OF x(1)] by simp
  define os where os: "os = 4 * length c - 4 * length c mod 1024 + 1024"
  have "0 < os" "os < 2 ^ 32" "os \<le> mem_limit L" using lc mem by (simp_all add: os)
  moreover from this have "inflate_loop L (inflate_start L c) [] (length ([] :: bytes)) (of_nat os) os = Some ([] @ x)"
    using x mem by (intro inflate_loop_ok [OF c(1) u c(3)]) auto
  moreover have "inflateInit L = Z_OK" using ok by (simp add: zlib_ok_def)
  ultimately have "mtbl_decompress_zlib L c = Some (Some x)"
    using lc by (subst decompress_zlib_unfold [OF os]) (simp_all add: my_malloc_def)
  then show ?thesis using c(2,4) by auto
qed

lemma compression_roundtrip:
  assumes ok: "complib_ok L" and x: "11 \<le> length x" "length x \<le> compress_limit t"
    and t: "t \<noteq> MTBL_COMPRESSION_NONE" "\<forall>n. t \<noteq> MTBL_COMPRESSION_OTHER n"
  shows "\<exists>c. mtbl_compress L t x = Some (Some c) \<and> c \<noteq> [] \<and> mtbl_decompress L t c = Some (Some x)"
    and "\<exists>c. mtbl_compress_level L t level x = Some (Some c) \<and> c \<noteq> [] \<and> mtbl_decompress L t c = Some (Some x)"
proof -
  have o: "lz4_ok L" "zstd_ok L" "snappy_ok L" "zlib_ok L" "2 ^ 34 \<le> mem_limit L" "\<forall>n. length (uninit L n) = n"
    using ok by (simp_all add: complib_ok_def)
  have ne: "x \<noteq> []" and le: "length x \<le> 2 ^ 30" using x by (auto simp: compress_limit_def split: if_splits)
  note rt = lz4_roundtrip [OF o(1,5,6) le] zstd_roundtrip [OF o(2,5,6) le ne] snappy_roundtrip [OF o(3,5) le]
    zlib_roundtrip [OF o(4-6) _ x(1)]
  show "\<exists>c. mtbl_compress L t x = Some (Some c) \<and> c \<noteq> [] \<and> mtbl_decompress L t c = Some (Some x)"
    using t rt x(2) by (cases t) simp_all
  show "\<exists>c. mtbl_compress_level L t level x = Some (Some c) \<and> c \<noteq> [] \<and> mtbl_decompress L t c = Some (Some x)"
    using t rt x(2) by (cases t) simp_all
qed

text \<open>A library that stores its input, to show the promises can be kept.\<close>

definition store_lib :: "bytes complib" where
  "store_lib = \<lparr>LZ4_compressBound = (\<lambda>n. n + n div 255 + 16),
     LZ4_compress_default = (\<lambda>x cap. 0 # x), LZ4_compress_HC = (\<lambda>x cap level. 0 # x),
     LZ4_decompress_safe = (\<lambda>c n. if c = [] then None else Some (tl c)),
     ZSTD_minCLevel = - 7, ZSTD_maxCLevel = 22, ZSTD_compressBound = (\<lambda>n. n + 1),
     ZSTD_compress = (\<lambda>x cap level. Some (0 # x)),
     ZSTD_getFrameContentSize = (\<lambda>c. of_nat (length c - 1)),
     ZSTD_decompress = (\<lambda>c n. Some (tl c)),
     snappy_max_compressed_length = (\<lambda>n. 32 + n + n div 6),
     snappy_compress = (\<lambda>x cap. Some (0 # x)),
     snappy_uncompressed_length = (\<lambda>c. Some (length c - 1)),
     snappy_uncompress = (\<lambda>c n. Some (tl c)),
     deflateInit = (\<lambda>level. Z_OK),
     deflate = (\<lambda>level x cap. if length x + 8 \<le> cap then (Z_STREAM_END, 0, replicate 8 0 @ x)
       else (Z_OK, length x, [])),
     deflateEnd = Z_OK, inflateInit = Z_OK, inflate_start = drop 8,
     inflate = (\<lambda>zs room. if length zs \<le> room then (Z_STREAM_END, zs, [])
       else (Z_BUF_ERROR, take room zs, drop room zs)),
     mem_limit = 2 ^ 40, uninit = (\<lambda>n. replicate n 0)\<rparr>"

lemma store_lib_ok: "complib_ok store_lib"
proof -
  have "lz4_ok store_lib" "zstd_ok store_lib" "snappy_ok store_lib"
    by (simp_all add: lz4_ok_def zstd_ok_def snappy_ok_def store_lib_def)
  moreover have "inflates store_lib (=)"
    by (auto simp: inflates_def store_lib_def)
  then have "zlib_ok store_lib"
    by (auto simp: zlib_ok_def zlib_bound_def store_lib_def split: if_splits intro!: exI [of _ "(=)"])
  ultimately show ?thesis by (simp add: complib_ok_def store_lib_def)
qed

subsection \<open>Properties\<close>

text \<open>
  C29: with libraries that keep their promises, every compression type decompresses what it
  compressed, at the default level and at any level whatever (levels outside the library's range
  are clamped), for inputs of 11 bytes to 1 GiB; for zlib, whose sizes have 32 bits, to 1 GiB
  less 512 KiB (the next theorem is about inputs above that).
\<close>

theorem compress_roundtrip:
  assumes "complib_ok L" and "11 \<le> length x"
    and "length x \<le> (if t = MTBL_COMPRESSION_ZLIB then 2 ^ 30 - 2 ^ 19 else 2 ^ 30)"
    and "t \<in> {MTBL_COMPRESSION_SNAPPY, MTBL_COMPRESSION_ZLIB, MTBL_COMPRESSION_LZ4,
      MTBL_COMPRESSION_LZ4HC, MTBL_COMPRESSION_ZSTD}"
  shows "\<exists>c c'. mtbl_compress L t x = Some (Some c) \<and> mtbl_decompress L t c = Some (Some x) \<and>
    mtbl_compress_level L t level x = Some (Some c') \<and> mtbl_decompress L t c' = Some (Some x)"
proof -
  have "length x \<le> compress_limit t" using assms(3) by (simp add: compress_limit_def)
  then show ?thesis
    using compression_roundtrip(1) [OF assms(1,2), of t]
      compression_roundtrip(2) [OF assms(1,2), of t level] assms(4) by auto
qed

theorem compress_roundtrip_witness:
  "\<exists>c'. mtbl_compress_level store_lib MTBL_COMPRESSION_ZLIB 99 (replicate 20 7) = Some (Some c') \<and>
     mtbl_decompress store_lib MTBL_COMPRESSION_ZLIB c' = Some (Some (replicate 20 7))"
  using compress_roundtrip [OF store_lib_ok, where x = "replicate 20 7"
      and t = MTBL_COMPRESSION_ZLIB and level = 99] by auto

text \<open>
  \<open>mtbl_compression_type_from_str\<close> accepts exactly the names
  \<open>mtbl_compression_type_to_str\<close> gives, in any letter case, and returns their type.
\<close>

theorem compression_names:
  "mtbl_compression_type_from_str s = Some t \<longleftrightarrow>
     (\<exists>name. mtbl_compression_type_to_str t = Some name \<and> strcaseeq s name)"
proof -
  have lower: "map tolower ''none'' = ''none''" "map tolower ''snappy'' = ''snappy''"
      "map tolower ''zlib'' = ''zlib''" "map tolower ''lz4'' = ''lz4''"
      "map tolower ''lz4hc'' = ''lz4hc''" "map tolower ''zstd'' = ''zstd''"
    by (simp_all add: tolower_def)
  obtain m where m: "map tolower s = m" by blast
  show ?thesis
    unfolding mtbl_compression_type_from_str_def strcaseeq_def m lower by (cases t) (simp_all add: tolower_def)
qed

text \<open>
  \<open>_mtbl_compress_zlib\<close> reserves twice the input for the output, and asserts that this was
  enough: since a finished zlib stream has at least 8 bytes, compressing fewer than 4 bytes
  aborts instead of returning an error.
\<close>

theorem compress_zlib_tiny_aborts:
  assumes "complib_ok L" and "length x < 4"
  shows "mtbl_compress L MTBL_COMPRESSION_ZLIB x = None"
proof -
  obtain zret left c where d: "deflate L Z_DEFAULT_COMPRESSION x (2 * length x) = (zret, left, c)"
    using prod_cases3 by blast
  have u: "unat (of_nat (length x) :: u32) = length x" "unat (of_nat (2 * length x) :: u32) = 2 * length x"
    using assms(2) by (intro unat_of_nat_small; simp)+
  have "length c \<le> 2 * length x \<and> (zret = Z_STREAM_END \<longrightarrow> 8 \<le> length c)"
    using assms(1) d unfolding complib_ok_def zlib_ok_def Z_DEFAULT_COMPRESSION_def by force
  with assms(2) have "zret \<noteq> Z_STREAM_END" by auto
  moreover have "2 * length x \<le> mem_limit L" "deflateInit L (- 1) = Z_OK"
    using assms unfolding complib_ok_def zlib_ok_def by auto
  ultimately show ?thesis
    using d u by (simp add: mtbl_compress_zlib_def Let_def ensure_def my_malloc_def
        Z_DEFAULT_COMPRESSION_def Z_BEST_COMPRESSION_def)
qed

theorem compress_zlib_tiny_aborts_witness: "mtbl_compress store_lib MTBL_COMPRESSION_ZLIB [] = None"
  using compress_zlib_tiny_aborts [OF store_lib_ok, of "[]"] by simp

text \<open>
  \<open>_mtbl_decompress_zlib\<close> assigns the size of its output buffer to the 32 bits of \<open>avail_out\<close>. For a
  compressed size within 256 bytes below 1 GiB that size is 2^32 and the room becomes 0: \<open>inflate\<close>
  can never write, the buffer is doubled until there is no memory left, and the program aborts on
  data its own \<open>_mtbl_compress_zlib\<close> made.
\<close>

lemma inflate_loop_no_room:
  assumes R: "inflates L R" and x: "R zs x" "x \<noteq> []" and o: "osize = 2 ^ 32 * m" "0 < m"
  shows "inflate_loop L zs buf tot 0 osize = None"
  using x(1) o
proof (induction "mem_limit L + 1 - osize" arbitrary: zs buf tot osize m rule: less_induct)
  case less
  obtain zret chunk zs' where i: "inflate L zs 0 = (zret, chunk, zs')"
    and c: "zret = Z_STREAM_END \<and> chunk = x \<and> length x \<le> 0 \<or>
      zret = Z_BUF_ERROR \<and> 0 \<le> length x \<and> chunk = take 0 x \<and> R zs' (drop 0 x)"
    using R less.prems(1) unfolding inflates_def by blast
  then have b: "zret = Z_BUF_ERROR" "R zs' x" using x(2) by auto
  have word: "(of_nat osize :: u32) = 0" using less.prems(2) by (simp only: word_of_nat_eq_0_iff) simp
  show ?case
  proof (cases "osize * 2 \<le> mem_limit L")
    case True
    have "inflate_loop L zs' b t 0 (osize * 2) = None" for b t
      using True less.prems(2,3) by (intro less.hyps [OF _ b(2), of _ "m * 2"]) auto
    then show ?thesis using True i b word by (subst inflate_loop.simps) (simp add: my_malloc_def)
  next
    case False
    then show ?thesis using i b by (subst inflate_loop.simps) (simp add: my_malloc_def ensure_def)
  qed
qed

theorem decompress_zlib_large_aborts:
  assumes ok: "complib_ok L" and x: "11 \<le> length x" "length x \<le> 2 ^ 30"
    and c: "mtbl_compress_zlib L x level = Some (Some c)" "2 ^ 30 - 256 \<le> length c" "length c < 2 ^ 30"
  shows "mtbl_decompress L MTBL_COMPRESSION_ZLIB c = None"
proof -
  have z: "zlib_ok L" "2 ^ 34 \<le> mem_limit L" using ok by (simp_all add: complib_ok_def)
  obtain R c' where R: "inflates L R" "mtbl_compress_zlib L x level = Some (Some c')" "R (inflate_start L c') x"
    by (rule compress_zlib_stream [OF z x(2,1)])
  then have s: "R (inflate_start L c) x" using c(1) by simp
  have "4 * length c div 1024 = 4194303" using c(2,3) by (intro div_nat_eqI) simp_all
  then have os: "4 * length c - 4 * length c mod 1024 + 1024 = 2 ^ 32 * 1"
    unfolding minus_mod_eq_mult_div by (simp only:) simp
  have "inflate_loop L (inflate_start L c) [] 0 0 (2 ^ 32 * 1) = None"
    using x(1) by (intro inflate_loop_no_room [OF R(1) s]) auto
  moreover have "(of_nat (2 ^ 32 * 1) :: u32) = 0" by (simp only: word_of_nat_eq_0_iff) simp
  moreover have "length c < 2 ^ 32" using c(3) by simp
  ultimately show ?thesis
    unfolding mtbl_decompress.simps decompress_zlib_unfold [OF os [symmetric] \<open>length c < 2 ^ 32\<close>]
    by (simp only:) (simp add: my_malloc_def ensure_def)
qed

theorem decompress_zlib_large_aborts_witness:
  "\<exists>x c. mtbl_compress_zlib store_lib x 9 = Some (Some c) \<and> mtbl_decompress store_lib MTBL_COMPRESSION_ZLIB c = None"
proof -
  obtain x :: bytes where x: "length x = 1073741624" using Ex_list_of_length by blast
  have "unat (of_nat (length x) :: u32) = length x" "unat (of_nat (2 * length x) :: u32) = 2 * length x"
    using x by (intro unat_of_nat_small; simp)+
  then have c: "mtbl_compress_zlib store_lib x 9 = Some (Some (replicate 8 0 @ x))"
    using x by (simp add: mtbl_compress_zlib_def Let_def my_malloc_def store_lib_def
        Z_DEFAULT_COMPRESSION_def Z_BEST_COMPRESSION_def)
  have "mtbl_decompress store_lib MTBL_COMPRESSION_ZLIB (replicate 8 0 @ x) = None"
    by (rule decompress_zlib_large_aborts [OF store_lib_ok _ _ c]) (use x in simp_all)
  with c show ?thesis by blast
qed

text \<open>
  \<open>_mtbl_decompress_zstd\<close> tests the frame content size, an unsigned number, with
  \<open><= 0\<close>, so the library's two error values (unknown size and not a frame, 2^64 - 1 and
  2^64 - 2) are taken for sizes: unless that much memory can be allocated the program aborts,
  where \<open>mtbl_res_failure\<close> is meant.
\<close>

theorem decompress_zstd_error_aborts:
  assumes "ZSTD_getFrameContentSize L c = e" and "e = 0xFFFFFFFFFFFFFFFF \<or> e = 0xFFFFFFFFFFFFFFFE"
    and "mem_limit L < 2 ^ 63" and "length c \<le> INT_MAX"
  shows "mtbl_decompress L MTBL_COMPRESSION_ZSTD c = None"
proof -
  have "\<not> e \<le> 0" and "\<not> unat e \<le> mem_limit L" using assms(2,3) by auto
  then show ?thesis
    using assms by (simp add: mtbl_decompress_zstd_def Let_def my_malloc_def ensure_def)
qed

theorem decompress_zstd_error_aborts_witness:
  "mtbl_decompress (store_lib\<lparr>ZSTD_getFrameContentSize := (\<lambda>c. 0xFFFFFFFFFFFFFFFE)\<rparr>) MTBL_COMPRESSION_ZSTD [1, 2] = None"
  by (rule decompress_zstd_error_aborts [where e = "0xFFFFFFFFFFFFFFFE"]) (simp_all add: store_lib_def INT_MAX_def)

end
