(* ===== verification/Metadata.thy ===== *)
theory Metadata
  imports Fixed
begin

text \<open>
  \<open>mtbl/metadata.c\<close>: the 512-byte trailer of a table file. Nine 64-bit fields, zero padding, and
  a magic number that also tells the file format.
\<close>

datatype mtbl_file_version = MTBL_FORMAT_V1 | MTBL_FORMAT_V2

definition MTBL_MAGIC_V1 :: u32 where "MTBL_MAGIC_V1 = 0x77846676"
definition MTBL_MAGIC :: u32 where "MTBL_MAGIC = 0x4D54424C"
definition MTBL_METADATA_SIZE :: nat where "MTBL_METADATA_SIZE = 512"

record mtbl_metadata =
  file_version :: mtbl_file_version
  index_block_offset :: u64
  data_block_size :: u64
  compression_algorithm :: u64
  count_entries :: u64
  count_data_blocks :: u64
  bytes_data_blocks :: u64
  bytes_index_block :: u64
  bytes_keys :: u64
  bytes_values :: u64

text \<open>The bytes \<open>metadata_write\<close> leaves in the buffer of \<open>MTBL_METADATA_SIZE\<close> bytes.\<close>

definition metadata_write :: "mtbl_metadata \<Rightarrow> bytes" where
  "metadata_write m =
     (let p = mtbl_fixed_encode64 (index_block_offset m) @
            mtbl_fixed_encode64 (data_block_size m) @
            mtbl_fixed_encode64 (compression_algorithm m) @
            mtbl_fixed_encode64 (count_entries m) @
            mtbl_fixed_encode64 (count_data_blocks m) @
            mtbl_fixed_encode64 (bytes_data_blocks m) @
            mtbl_fixed_encode64 (bytes_index_block m) @
            mtbl_fixed_encode64 (bytes_keys m) @
            mtbl_fixed_encode64 (bytes_values m);
          padding = MTBL_METADATA_SIZE - length p - 4
      in p @ replicate padding 0 @ mtbl_fixed_encode32 MTBL_MAGIC)"

text \<open>
  \<open>metadata_read\<close> returns the parsed metadata where the C code returns true and \<open>None\<close>
  inside where it returns false.
\<close>

definition metadata_read :: "bytes \<Rightarrow> mtbl_metadata option option" where
  "metadata_read buf = do {
     magic \<leftarrow> mtbl_fixed_decode32 (drop (MTBL_METADATA_SIZE - 4) buf);
     if magic \<noteq> MTBL_MAGIC_V1 \<and> magic \<noteq> MTBL_MAGIC then Some None
     else do {
       index_block_offset \<leftarrow> mtbl_fixed_decode64 buf;
       data_block_size \<leftarrow> mtbl_fixed_decode64 (drop 8 buf);
       compression_algorithm \<leftarrow> mtbl_fixed_decode64 (drop 16 buf);
       count_entries \<leftarrow> mtbl_fixed_decode64 (drop 24 buf);
       count_data_blocks \<leftarrow> mtbl_fixed_decode64 (drop 32 buf);
       bytes_data_blocks \<leftarrow> mtbl_fixed_decode64 (drop 40 buf);
       bytes_index_block \<leftarrow> mtbl_fixed_decode64 (drop 48 buf);
       bytes_keys \<leftarrow> mtbl_fixed_decode64 (drop 56 buf);
       bytes_values \<leftarrow> mtbl_fixed_decode64 (drop 64 buf);
       Some (Some
         \<lparr>file_version = (if magic = MTBL_MAGIC_V1 then MTBL_FORMAT_V1 else MTBL_FORMAT_V2),
          index_block_offset = index_block_offset, data_block_size = data_block_size,
          compression_algorithm = compression_algorithm, count_entries = count_entries,
          count_data_blocks = count_data_blocks, bytes_data_blocks = bytes_data_blocks,
          bytes_index_block = bytes_index_block, bytes_keys = bytes_keys,
          bytes_values = bytes_values\<rparr>)
     }
   }"

subsection \<open>The accessors\<close>

definition mtbl_metadata_file_version :: "mtbl_metadata \<Rightarrow> mtbl_file_version" where
  "mtbl_metadata_file_version m = file_version m"

definition mtbl_metadata_index_block_offset :: "mtbl_metadata \<Rightarrow> u64" where
  "mtbl_metadata_index_block_offset m = index_block_offset m"

definition mtbl_metadata_data_block_size :: "mtbl_metadata \<Rightarrow> u64" where
  "mtbl_metadata_data_block_size m = data_block_size m"

definition mtbl_metadata_compression_algorithm :: "mtbl_metadata \<Rightarrow> u64" where
  "mtbl_metadata_compression_algorithm m = compression_algorithm m"

definition mtbl_metadata_count_entries :: "mtbl_metadata \<Rightarrow> u64" where
  "mtbl_metadata_count_entries m = count_entries m"

definition mtbl_metadata_count_data_blocks :: "mtbl_metadata \<Rightarrow> u64" where
  "mtbl_metadata_count_data_blocks m = count_data_blocks m"

definition mtbl_metadata_bytes_data_blocks :: "mtbl_metadata \<Rightarrow> u64" where
  "mtbl_metadata_bytes_data_blocks m = bytes_data_blocks m"

definition mtbl_metadata_bytes_index_block :: "mtbl_metadata \<Rightarrow> u64" where
  "mtbl_metadata_bytes_index_block m = bytes_index_block m"

definition mtbl_metadata_bytes_keys :: "mtbl_metadata \<Rightarrow> u64" where
  "mtbl_metadata_bytes_keys m = bytes_keys m"

definition mtbl_metadata_bytes_values :: "mtbl_metadata \<Rightarrow> u64" where
  "mtbl_metadata_bytes_values m = bytes_values m"

subsection \<open>Facts\<close>

lemma magic_differ: "MTBL_MAGIC \<noteq> MTBL_MAGIC_V1"
  by (simp add: MTBL_MAGIC_def MTBL_MAGIC_V1_def)

lemma length_metadata_write [simp]: "length (metadata_write m) = 512"
  by (simp add: metadata_write_def Let_def MTBL_METADATA_SIZE_def)

lemma metadata_read_write:
  "metadata_read (metadata_write m @ rest) = Some (Some (m\<lparr>file_version := MTBL_FORMAT_V2\<rparr>))"
proof -
  have "mtbl_fixed_decode32 (drop (MTBL_METADATA_SIZE - 4) (metadata_write m @ rest)) = Some MTBL_MAGIC"
    by (simp add: metadata_write_def Let_def MTBL_METADATA_SIZE_def wire_simps)
  then show ?thesis
    by (simp add: metadata_read_def magic_differ) (simp add: metadata_write_def Let_def wire_simps)
qed

lemma metadata_read_total:
  assumes "512 \<le> length buf"
  shows "\<exists>r. metadata_read buf = Some r"
proof -
  have d: "\<exists>v. mtbl_fixed_decode64 (drop i buf) = Some v" if "i + 8 \<le> 512" for i
    using that assms by (simp add: mtbl_fixed_decode64_def bytes_at_def)
  obtain v where m: "mtbl_fixed_decode32 (drop (MTBL_METADATA_SIZE - 4) buf) = Some v"
  proof -
    have "4 \<le> length (drop (MTBL_METADATA_SIZE - 4) buf)" using assms by (simp add: MTBL_METADATA_SIZE_def)
    from fixed_decode32_Some [OF this] that show thesis by blast
  qed
  show ?thesis
    using d [of 0] d [of 8] d [of 16] d [of 24] d [of 32] d [of 40] d [of 48] d [of 56] d [of 64] m
    by (auto simp: metadata_read_def)
qed

subsection \<open>Properties\<close>

text \<open>
  C32: the trailer written for any metadata is exactly 512 bytes and reads back as the same
  metadata in format V2, whatever follows it; with the magic number of the first format in its
  place the same fields read back as V1; with any other number in its place the trailer is
  rejected.
\<close>

theorem metadata_roundtrip:
  "length (metadata_write m) = MTBL_METADATA_SIZE \<and>
   metadata_read (metadata_write m @ rest) = Some (Some (m\<lparr>file_version := MTBL_FORMAT_V2\<rparr>)) \<and>
   metadata_read (take 508 (metadata_write m) @ mtbl_fixed_encode32 magic) =
     Some (if magic = MTBL_MAGIC_V1 then Some (m\<lparr>file_version := MTBL_FORMAT_V1\<rparr>)
           else if magic = MTBL_MAGIC then Some (m\<lparr>file_version := MTBL_FORMAT_V2\<rparr>) else None)"
proof -
  let ?w = "take 508 (metadata_write m) @ mtbl_fixed_encode32 magic"
  have magic: "mtbl_fixed_decode32 (drop (MTBL_METADATA_SIZE - 4) ?w) = Some magic"
    using fixed_decode32_encode32 [of magic "[]"] by (simp add: MTBL_METADATA_SIZE_def)
  have split: "?w = mtbl_fixed_encode64 (index_block_offset m) @
            mtbl_fixed_encode64 (data_block_size m) @
            mtbl_fixed_encode64 (compression_algorithm m) @
            mtbl_fixed_encode64 (count_entries m) @
            mtbl_fixed_encode64 (count_data_blocks m) @
            mtbl_fixed_encode64 (bytes_data_blocks m) @
            mtbl_fixed_encode64 (bytes_index_block m) @
            mtbl_fixed_encode64 (bytes_keys m) @
            mtbl_fixed_encode64 (bytes_values m) @ replicate 436 0 @ mtbl_fixed_encode32 magic"
    by (simp add: metadata_write_def Let_def MTBL_METADATA_SIZE_def)
  have "metadata_read ?w = Some (if magic = MTBL_MAGIC_V1 then Some (m\<lparr>file_version := MTBL_FORMAT_V1\<rparr>)
           else if magic = MTBL_MAGIC then Some (m\<lparr>file_version := MTBL_FORMAT_V2\<rparr>) else None)"
    unfolding metadata_read_def magic unfolding split by (auto simp: wire_simps)
  then show ?thesis
    by (simp add: metadata_read_write MTBL_METADATA_SIZE_def)
qed

end
