(* ===== verification/Writer.thy ===== *)
theory Writer
  imports Block_Image Compression Metadata
begin

text \<open>
  \<open>mtbl/writer.c\<close>: building a table file. The operating system is an \<open>fdesc\<close>: its bytes and
  the outcomes the next calls of \<open>write\<close> will have (after which every call writes all it is
  given); \<open>write\<close> appends. The compression libraries \<open>L\<close> and the checksum
  function \<open>crc\<close> (\<open>mtbl_crc32c\<close> of the host) are arguments. With a thread pool, blocks wait in
  \<open>w_queue\<close> and \<open>mtbl_writer_deliver\<close> is the result handler taking the next one, in order.
\<close>

subsection \<open>Writing to a file descriptor\<close>

datatype write_result = Written nat | Interrupted | Write_error

record fdesc =
  f_bytes :: bytes
  f_sched :: "write_result list"

definition os_write :: "fdesc \<Rightarrow> bytes \<Rightarrow> write_result \<times> fdesc" where
  "os_write fd buf =
     (case f_sched fd of
        [] \<Rightarrow> (Written (length buf), fd\<lparr>f_bytes := f_bytes fd @ buf\<rparr>)
      | Written n # s \<Rightarrow>
          (let n = min n (length buf)
           in (Written n, fd\<lparr>f_bytes := f_bytes fd @ take n buf, f_sched := s\<rparr>))
      | r # s \<Rightarrow> (r, fd\<lparr>f_sched := s\<rparr>))"

function write_all_loop :: "fdesc \<Rightarrow> bytes \<Rightarrow> fdesc option" where
  "write_all_loop fd buf =
     (if buf = [] then Some fd
      else (case os_write fd buf of
          (Interrupted, fd') \<Rightarrow> write_all_loop fd' buf
        | (Write_error, fd') \<Rightarrow> None
        | (Written n, fd') \<Rightarrow> if n = 0 then None else write_all_loop fd' (drop n buf)))"
  by pat_completeness auto

termination
  by (relation "measure (\<lambda>(fd, buf). length (f_sched fd) + length buf)")
    (auto simp: os_write_def Let_def split: list.splits write_result.splits)

declare write_all_loop.simps [simp del]

definition write_all :: "fdesc \<Rightarrow> bytes \<Rightarrow> fdesc option" where
  "write_all fd buf = do {
     ensure (length buf > 0);
     write_all_loop fd buf
   }"

subsection \<open>Options\<close>

definition DEFAULT_COMPRESSION_LEVEL :: int where "DEFAULT_COMPRESSION_LEVEL = - 10000"
definition DEFAULT_BLOCK_RESTART_INTERVAL :: nat where "DEFAULT_BLOCK_RESTART_INTERVAL = 16"
definition DEFAULT_BLOCK_SIZE :: nat where "DEFAULT_BLOCK_SIZE = 8192"
definition MIN_BLOCK_SIZE :: nat where "MIN_BLOCK_SIZE = 1024"

record mtbl_writer_options =
  wo_compression_type :: mtbl_compression_type
  wo_compression_level :: int
  wo_block_size :: nat
  wo_block_restart_interval :: nat
  wo_pool :: bool

definition mtbl_writer_options_init :: mtbl_writer_options where
  "mtbl_writer_options_init =
     \<lparr>wo_compression_type = MTBL_COMPRESSION_ZLIB,
      wo_compression_level = DEFAULT_COMPRESSION_LEVEL,
      wo_block_size = DEFAULT_BLOCK_SIZE,
      wo_block_restart_interval = DEFAULT_BLOCK_RESTART_INTERVAL,
      wo_pool = False\<rparr>"

definition mtbl_writer_options_set_compression ::
  "mtbl_writer_options \<Rightarrow> mtbl_compression_type \<Rightarrow> mtbl_writer_options option" where
  "mtbl_writer_options_set_compression opt compression_type =
     (case compression_type of
        MTBL_COMPRESSION_OTHER n \<Rightarrow> None
      | _ \<Rightarrow> Some (opt\<lparr>wo_compression_type := compression_type\<rparr>))"

definition mtbl_writer_options_set_compression_level ::
  "mtbl_writer_options \<Rightarrow> int \<Rightarrow> mtbl_writer_options" where
  "mtbl_writer_options_set_compression_level opt compression_level =
     opt\<lparr>wo_compression_level := compression_level\<rparr>"

definition mtbl_writer_options_set_block_size ::
  "mtbl_writer_options \<Rightarrow> nat \<Rightarrow> mtbl_writer_options" where
  "mtbl_writer_options_set_block_size opt block_size =
     (let block_size = (if block_size < MIN_BLOCK_SIZE then MIN_BLOCK_SIZE else block_size)
      in opt\<lparr>wo_block_size := block_size\<rparr>)"

definition mtbl_writer_options_set_block_restart_interval ::
  "mtbl_writer_options \<Rightarrow> nat \<Rightarrow> mtbl_writer_options" where
  "mtbl_writer_options_set_block_restart_interval opt block_restart_interval =
     opt\<lparr>wo_block_restart_interval := block_restart_interval\<rparr>"

definition mtbl_writer_options_set_threadpool ::
  "mtbl_writer_options \<Rightarrow> bool \<Rightarrow> mtbl_writer_options" where
  "mtbl_writer_options_set_threadpool opt pool = opt\<lparr>wo_pool := pool\<rparr>"

subsection \<open>The writer\<close>

record data_block =
  db_comp_type :: mtbl_compression_type
  db_comp_level :: int
  db_data :: bytes
  db_last_key :: bytes
  db_crc :: u32

record mtbl_writer =
  w_fd :: fdesc
  w_m :: mtbl_metadata
  w_data :: block_builder
  w_index :: block_builder
  w_opt :: mtbl_writer_options
  w_last_key :: ubuf
  w_last_offset :: u64
  w_closed :: bool
  w_pending_offset :: u64
  w_queue :: "data_block list"

definition mtbl_writer_init_fd ::
  "fdesc \<Rightarrow> mtbl_writer_options option \<Rightarrow> mtbl_writer option" where
  "mtbl_writer_init_fd fd opt = do {
     let opt = (case opt of None \<Rightarrow> mtbl_writer_options_init | Some opt \<Rightarrow> opt);
     let last_offset = of_nat (length (f_bytes fd));
     data \<leftarrow> block_builder_init (wo_block_restart_interval opt);
     index \<leftarrow> block_builder_init (wo_block_restart_interval opt);
     Some \<lparr>w_fd = fd,
       w_m = \<lparr>file_version = MTBL_FORMAT_V2, index_block_offset = 0,
         data_block_size = of_nat (wo_block_size opt),
         compression_algorithm = ucast (compression_code (wo_compression_type opt)),
         count_entries = 0, count_data_blocks = 0, bytes_data_blocks = 0,
         bytes_index_block = 0, bytes_keys = 0, bytes_values = 0\<rparr>,
       w_data = data, w_index = index, w_opt = opt, w_last_key = vec_init 256,
       w_last_offset = last_offset, w_closed = False, w_pending_offset = last_offset,
       w_queue = []\<rparr>
   }"

text \<open>The file \<open>open\<close> creates, or \<open>None\<close> when it fails; NULL is the inner \<open>None\<close>.\<close>

definition mtbl_writer_init ::
  "fdesc option \<Rightarrow> mtbl_writer_options option \<Rightarrow> mtbl_writer option option" where
  "mtbl_writer_init opened opt =
     (case opened of
        None \<Rightarrow> Some None
      | Some fd \<Rightarrow> do {
          w \<leftarrow> mtbl_writer_init_fd fd opt;
          Some (Some w)
        })"

definition mtbl_writer_compress_block ::
  "'z complib \<Rightarrow> (bytes \<Rightarrow> u32) \<Rightarrow> data_block \<Rightarrow> data_block option" where
  "mtbl_writer_compress_block L crc b = do {
     res \<leftarrow>
       (if db_comp_type b = MTBL_COMPRESSION_NONE then Some (Some (db_data b))
        else if db_comp_level b = DEFAULT_COMPRESSION_LEVEL
        then mtbl_compress L (db_comp_type b) (db_data b)
        else mtbl_compress_level L (db_comp_type b) (db_comp_level b) (db_data b));
     ensure (res \<noteq> None);
     let b = (if db_comp_type b \<noteq> MTBL_COMPRESSION_NONE then b\<lparr>db_data := the res\<rparr> else b);
     Some (b\<lparr>db_crc := crc (db_data b)\<rparr>)
   }"

definition mtbl_writer_write_block :: "fdesc \<Rightarrow> data_block \<Rightarrow> (nat \<times> fdesc) option" where
  "mtbl_writer_write_block fd b = do {
     let len = mtbl_varint_encode64 (of_nat (length (db_data b)));
     fd \<leftarrow> write_all fd len;
     fd \<leftarrow> write_all fd (mtbl_fixed_encode32 (db_crc b));
     fd \<leftarrow> write_all fd (db_data b);
     let bytes_written = length len + 4 + length (db_data b);
     Some (bytes_written, fd)
   }"

definition mtbl_writer_write_data_block ::
  "mtbl_writer \<Rightarrow> data_block \<Rightarrow> mtbl_writer option" where
  "mtbl_writer_write_data_block w b = do {
     (bytes_written, fd) \<leftarrow> mtbl_writer_write_block (w_fd w) b;
     let last_offset = w_pending_offset w;
     let m = (w_m w)\<lparr>bytes_data_blocks := bytes_data_blocks (w_m w) + of_nat bytes_written,
       count_data_blocks := count_data_blocks (w_m w) + 1\<rparr>;
     index \<leftarrow> block_builder_add (w_index w) (db_last_key b) (mtbl_varint_encode64 last_offset);
     Some (w\<lparr>w_fd := fd, w_m := m, w_index := index, w_last_offset := last_offset,
       w_pending_offset := w_pending_offset w + of_nat bytes_written\<rparr>)
   }"

definition mtbl_writer_flush ::
  "'z complib \<Rightarrow> (bytes \<Rightarrow> u32) \<Rightarrow> mtbl_writer \<Rightarrow> mtbl_writer option" where
  "mtbl_writer_flush L crc w = do {
     ensure (\<not> w_closed w);
     ensure (file_version (w_m w) = MTBL_FORMAT_V2);
     if block_builder_empty (w_data w) then Some w
     else do {
       (buf, data) \<leftarrow> block_builder_finish (w_data w);
       data \<leftarrow> block_builder_reset data;
       let b = \<lparr>db_comp_type = wo_compression_type (w_opt w),
         db_comp_level = wo_compression_level (w_opt w), db_data = buf,
         db_last_key = vec_data (w_last_key w), db_crc = 0\<rparr>;
       let w = w\<lparr>w_data := data\<rparr>;
       if wo_pool (w_opt w) then Some (w\<lparr>w_queue := w_queue w @ [b]\<rparr>)
       else do {
         b \<leftarrow> mtbl_writer_compress_block L crc b;
         mtbl_writer_write_data_block w b
       }
     }
   }"

text \<open>The result handler of the thread pool writes the next finished block.\<close>

definition mtbl_writer_deliver ::
  "'z complib \<Rightarrow> (bytes \<Rightarrow> u32) \<Rightarrow> mtbl_writer \<Rightarrow> mtbl_writer option" where
  "mtbl_writer_deliver L crc w =
     (case w_queue w of
        [] \<Rightarrow> Some w
      | b # queue \<Rightarrow> do {
          b \<leftarrow> mtbl_writer_compress_block L crc b;
          mtbl_writer_write_data_block (w\<lparr>w_queue := queue\<rparr>) b
        })"

text \<open>\<open>result_handler_destroy\<close> waits until every dispatched block is written.\<close>

primrec deliver_all ::
  "'z complib \<Rightarrow> (bytes \<Rightarrow> u32) \<Rightarrow> nat \<Rightarrow> mtbl_writer \<Rightarrow> mtbl_writer option" where
  "deliver_all L crc 0 w = Some w"
| "deliver_all L crc (Suc n) w = mtbl_writer_deliver L crc w \<bind> deliver_all L crc n"

definition mtbl_writer_add ::
  "'z complib \<Rightarrow> (bytes \<Rightarrow> u32) \<Rightarrow> mtbl_writer \<Rightarrow> bytes \<Rightarrow> bytes \<Rightarrow> (bool \<times> mtbl_writer) option" where
  "mtbl_writer_add L crc w key val = do {
     ensure (\<not> w_closed w);
     if count_entries (w_m w) > 0 \<and> \<not> bytes_compare key (vec_data (w_last_key w)) > 0
     then Some (False, w)
     else do {
       let estimated_block_size = block_builder_current_size_estimate (w_data w);
       let estimated_block_size = estimated_block_size + 3 * 5 + length key + length val;
       w \<leftarrow>
         (if estimated_block_size \<ge> wo_block_size (w_opt w) then do {
            sep \<leftarrow> bytes_shortest_separator (vec_data (w_last_key w)) key;
            mtbl_writer_flush L crc (w\<lparr>w_last_key := (w_last_key w)\<lparr>v_elems := sep\<rparr>\<rparr>)
          } else Some w);
       last_key \<leftarrow> vec_append (vec_reset (w_last_key w)) key;
       let m = (w_m w)\<lparr>count_entries := count_entries (w_m w) + 1,
         bytes_keys := bytes_keys (w_m w) + of_nat (length key),
         bytes_values := bytes_values (w_m w) + of_nat (length val)\<rparr>;
       data \<leftarrow> block_builder_add (w_data w) key val;
       Some (True, w\<lparr>w_last_key := last_key, w_m := m, w_data := data\<rparr>)
     }
   }"

definition mtbl_writer_finish ::
  "'z complib \<Rightarrow> (bytes \<Rightarrow> u32) \<Rightarrow> mtbl_writer \<Rightarrow> mtbl_writer option" where
  "mtbl_writer_finish L crc w = do {
     w \<leftarrow> mtbl_writer_flush L crc w;
     w \<leftarrow> deliver_all L crc (length (w_queue w)) w;
     ensure (\<not> w_closed w);
     (buf, index) \<leftarrow> block_builder_finish (w_index w);
     let b = \<lparr>db_comp_type = MTBL_COMPRESSION_NONE, db_comp_level = 0, db_data = buf,
       db_last_key = [], db_crc = crc buf\<rparr>;
     (bytes_written, fd) \<leftarrow> mtbl_writer_write_block (w_fd w) b;
     let m = (w_m w)\<lparr>index_block_offset := w_pending_offset w,
       bytes_index_block := of_nat bytes_written\<rparr>;
     fd \<leftarrow> write_all fd (metadata_write m);
     index \<leftarrow> block_builder_reset index;
     Some (w\<lparr>w_closed := True, w_fd := fd, w_m := m, w_index := index,
       w_last_offset := w_pending_offset w,
       w_pending_offset := w_pending_offset w + of_nat bytes_written\<rparr>)
   }"

text \<open>What is left on disk when the writer is destroyed.\<close>

definition mtbl_writer_destroy ::
  "'z complib \<Rightarrow> (bytes \<Rightarrow> u32) \<Rightarrow> mtbl_writer \<Rightarrow> fdesc option" where
  "mtbl_writer_destroy L crc w =
     (if \<not> w_closed w then do {
        w \<leftarrow> mtbl_writer_finish L crc w;
        Some (w_fd w)
      } else Some (w_fd w))"

text \<open>
  A run of the writer: calls of \<open>mtbl_writer_add\<close> and deliveries of the result handler, in any
  order; the results of the calls, and the writer.
\<close>

datatype writer_event = Add bytes bytes | Deliver

fun writer_run ::
  "'z complib \<Rightarrow> (bytes \<Rightarrow> u32) \<Rightarrow> mtbl_writer \<Rightarrow> writer_event list \<Rightarrow> (bool list \<times> mtbl_writer) option" where
  "writer_run L crc w [] = Some ([], w)"
| "writer_run L crc w (Add key val # evs) = do {
     (res, w) \<leftarrow> mtbl_writer_add L crc w key val;
     (rs, w) \<leftarrow> writer_run L crc w evs;
     Some (res # rs, w)
   }"
| "writer_run L crc w (Deliver # evs) = do {
     w \<leftarrow> mtbl_writer_deliver L crc w;
     writer_run L crc w evs
   }"

end
