(* ===== verification/Table.thy ===== *)
theory Table
  imports Writer
begin

text \<open>
  The specification of the writer and its refinement. \<open>table_add\<close> decides, for a sequence of
  keys, which are accepted and how they are split into data blocks with which separators, as a
  function of the options only; \<open>table_image\<close> is the file that stands for the result. The
  invariant \<open>writer_inv\<close> ties a writer in the middle of its work, with any number of blocks
  still with the thread pool, to the specification's state.
\<close>

subsection \<open>Writing everything\<close>

definition f_ok :: "fdesc \<Rightarrow> bool" where
  "f_ok fd \<longleftrightarrow> (\<forall>r\<in>set (f_sched fd). r \<noteq> Write_error \<and> r \<noteq> Written 0)"

lemma write_all_loop_ok:
  "f_ok fd \<Longrightarrow> \<exists>fd'. write_all_loop fd buf = Some fd' \<and> f_ok fd' \<and> f_bytes fd' = f_bytes fd @ buf"
proof (induction "length (f_sched fd) + length buf" arbitrary: fd buf rule: less_induct)
  case less
  show ?case
  proof (cases "buf = []")
    case True
    then show ?thesis using less.prems by (subst write_all_loop.simps) simp
  next
    case ne: False
    show ?thesis
    proof (cases "f_sched fd")
      case Nil
      then have "os_write fd buf = (Written (length buf), fd\<lparr>f_bytes := f_bytes fd @ buf\<rparr>)"
        by (simp add: os_write_def)
      then show ?thesis
        using ne less.prems
        by (subst write_all_loop.simps) (simp add: write_all_loop.simps [of _ "[]"] f_ok_def)
    next
      case (Cons r s)
      show ?thesis
      proof (cases r)
        case (Written n)
        let ?n = "min n (length buf)"
        let ?fd = "fd\<lparr>f_bytes := f_bytes fd @ take ?n buf, f_sched := s\<rparr>"
        have n: "0 < ?n" using Written Cons less.prems ne by (auto simp: f_ok_def)
        have "\<exists>fd'. write_all_loop ?fd (drop ?n buf) = Some fd' \<and> f_ok fd' \<and>
            f_bytes fd' = f_bytes ?fd @ drop ?n buf"
          using Cons less.prems n by (intro less.hyps) (auto simp: f_ok_def)
        moreover have "os_write fd buf = (Written ?n, ?fd)"
          using Written Cons by (simp add: os_write_def Let_def)
        ultimately show ?thesis using ne n by (subst write_all_loop.simps) auto
      next
        case Interrupted
        have "\<exists>fd'. write_all_loop (fd\<lparr>f_sched := s\<rparr>) buf = Some fd' \<and> f_ok fd' \<and>
            f_bytes fd' = f_bytes (fd\<lparr>f_sched := s\<rparr>) @ buf"
          using Cons less.prems by (intro less.hyps) (auto simp: f_ok_def)
        then show ?thesis
          using ne Cons Interrupted by (subst write_all_loop.simps) (simp add: os_write_def)
      next
        case Write_error
        then show ?thesis using Cons less.prems by (simp add: f_ok_def)
      qed
    qed
  qed
qed

lemma write_all_ok:
  "f_ok fd \<Longrightarrow> buf \<noteq> [] \<Longrightarrow>
   \<exists>fd'. write_all fd buf = Some fd' \<and> f_ok fd' \<and> f_bytes fd' = f_bytes fd @ buf"
  using write_all_loop_ok by (simp add: write_all_def)

lemma write_all_all: "write_all_loop fd buf = Some fd' \<Longrightarrow> f_bytes fd' = f_bytes fd @ buf"
proof (induction "length (f_sched fd) + length buf" arbitrary: fd buf rule: less_induct)
  case less
  show ?case
  proof (cases "buf = []")
    case False
    then show ?thesis
      using less.prems less.hyps
      by (subst (asm) write_all_loop.simps)
        (force simp: os_write_def Let_def split: list.splits write_result.splits if_splits)
  qed (use less.prems in \<open>simp add: write_all_loop.simps [of _ "[]"]\<close>)
qed

text \<open>
  The outcomes the calls of \<open>write\<close> are going to have fail a write of \<open>n\<close> bytes: an error, or a
  write of nothing, comes before the short writes ahead of it have made up \<open>n\<close> bytes.
\<close>

fun written_by :: "write_result \<Rightarrow> nat" where
  "written_by (Written n) = n"
| "written_by Interrupted = 0"
| "written_by Write_error = 0"

definition write_fails :: "write_result list \<Rightarrow> nat \<Rightarrow> bool" where
  "write_fails sched n \<longleftrightarrow>
     (\<exists>k<length sched. sched ! k \<in> {Write_error, Written 0} \<and>
        sum_list (map written_by (take k sched)) < n)"

lemma write_fails_simps [simp]:
  "\<not> write_fails [] n"
  "write_fails (r # s) n \<longleftrightarrow> 0 < n \<and> r \<in> {Write_error, Written 0} \<or> write_fails s (n - written_by r)"
  by (auto simp: write_fails_def Ex_less_Suc2 less_diff_conv ac_simps)

lemma write_fails_0 [simp]: "\<not> write_fails s 0"
  by (simp add: write_fails_def)

lemma write_all_loop_none:
  "write_all_loop fd buf = None \<longleftrightarrow> write_fails (f_sched fd) (length buf)"
proof (induction "length (f_sched fd) + length buf" arbitrary: fd buf rule: less_induct)
  case less
  show ?case
  proof (cases "buf = []")
    case True
    then show ?thesis by (simp add: write_all_loop.simps)
  next
    case ne: False
    show ?thesis
    proof (cases "f_sched fd")
      case Nil
      then show ?thesis
        using ne by (subst write_all_loop.simps) (simp add: os_write_def write_all_loop.simps [of _ "[]"])
    next
      case (Cons r s)
      have IH: "write_all_loop (fd\<lparr>f_bytes := x, f_sched := s\<rparr>) (drop n buf) = None \<longleftrightarrow>
          write_fails s (length buf - n)" for x n
        using less.hyps [of "fd\<lparr>f_bytes := x, f_sched := s\<rparr>" "drop n buf"] Cons by simp
      have IH0: "write_all_loop (fd\<lparr>f_sched := s\<rparr>) buf = None \<longleftrightarrow> write_fails s (length buf)"
        using less.hyps [of "fd\<lparr>f_sched := s\<rparr>" buf] Cons by simp
      show ?thesis
        using ne Cons
        by (subst write_all_loop.simps, cases r)
          (auto simp: os_write_def Let_def IH IH0 min_def)
    qed
  qed
qed

lemma write_all_none:
  "write_all fd buf = None \<longleftrightarrow> buf = [] \<or> write_fails (f_sched fd) (length buf)"
  using write_all_loop_none [of fd buf] by (auto simp: write_all_def ensure_def)

lemma write_fails_set:
  assumes "write_fails s n"
  shows "Write_error \<in> set s \<or> Written 0 \<in> set s"
proof -
  have "\<exists>r\<in>set s. r \<in> {Write_error, Written 0}"
    using assms nth_mem unfolding write_fails_def by blast
  then show ?thesis by blast
qed

subsection \<open>Blocks in the file\<close>

text \<open>A stored block: its length, its checksum, its bytes.\<close>

definition frame :: "(bytes \<Rightarrow> u32) \<Rightarrow> bytes \<Rightarrow> bytes" where
  "frame crc p =
     mtbl_varint_encode64 (of_nat (length p)) @ mtbl_fixed_encode32 (crc p) @ p"

lemma write_block_ok:
  assumes "f_ok fd" and "db_data b \<noteq> []" and "db_crc b = crc (db_data b)"
  shows "\<exists>fd'. mtbl_writer_write_block fd b = Some (length (frame crc (db_data b)), fd') \<and> f_ok fd' \<and>
    f_bytes fd' = f_bytes fd @ frame crc (db_data b)"
proof -
  have ne: "mtbl_fixed_encode32 v \<noteq> []" for v using length_fixed_encode(1) [of v] by fastforce
  obtain f1 where f1: "write_all fd (mtbl_varint_encode64 (of_nat (length (db_data b)))) = Some f1"
      "f_ok f1" "f_bytes f1 = f_bytes fd @ mtbl_varint_encode64 (of_nat (length (db_data b)))"
    using write_all_ok [OF assms(1) encode64_nonempty] by blast
  obtain f2 where f2: "write_all f1 (mtbl_fixed_encode32 (db_crc b)) = Some f2" "f_ok f2"
      "f_bytes f2 = f_bytes f1 @ mtbl_fixed_encode32 (db_crc b)"
    using write_all_ok [OF f1(2) ne] by blast
  obtain f3 where f3: "write_all f2 (db_data b) = Some f3" "f_ok f3"
      "f_bytes f3 = f_bytes f2 @ db_data b"
    using write_all_ok [OF f2(2) assms(2)] by blast
  show ?thesis
    using f1 f2 f3 assms(3) by (simp add: mtbl_writer_write_block_def frame_def)
qed

text \<open>The bytes stored for a block under the options, when the compressor does its work.\<close>

definition stored :: "'z complib \<Rightarrow> mtbl_writer_options \<Rightarrow> bytes \<Rightarrow> bytes option option" where
  "stored L opt raw =
     (if wo_compression_type opt = MTBL_COMPRESSION_NONE then Some (Some raw)
      else if wo_compression_level opt = DEFAULT_COMPRESSION_LEVEL
      then mtbl_compress L (wo_compression_type opt) raw
      else mtbl_compress_level L (wo_compression_type opt) (wo_compression_level opt) raw)"

definition lossless :: "'z complib \<Rightarrow> mtbl_writer_options \<Rightarrow> bytes \<Rightarrow> bool" where
  "lossless L opt raw \<longleftrightarrow> (\<exists>c. stored L opt raw = Some (Some c) \<and> c \<noteq> [] \<and>
     (wo_compression_type opt \<noteq> MTBL_COMPRESSION_NONE \<longrightarrow>
        mtbl_decompress L (wo_compression_type opt) c = Some (Some raw)))"

definition payload :: "'z complib \<Rightarrow> mtbl_writer_options \<Rightarrow> bytes \<Rightarrow> bytes" where
  "payload L opt raw = the (the (stored L opt raw))"

lemma payload_nonempty: "lossless L opt raw \<Longrightarrow> payload L opt raw \<noteq> []"
  by (auto simp: lossless_def payload_def)

lemma payload_decompress:
  "lossless L opt raw \<Longrightarrow> wo_compression_type opt \<noteq> MTBL_COMPRESSION_NONE \<Longrightarrow>
   mtbl_decompress L (wo_compression_type opt) (payload L opt raw) = Some (Some raw)"
  by (auto simp: lossless_def payload_def)

lemma payload_plain: "wo_compression_type opt = MTBL_COMPRESSION_NONE \<Longrightarrow> payload L opt raw = raw"
  by (simp add: payload_def stored_def)

type_synonym tblock = "entry list \<times> bytes"

definition raw_block :: "mtbl_writer_options \<Rightarrow> tblock \<Rightarrow> data_block" where
  "raw_block opt b =
     \<lparr>db_comp_type = wo_compression_type opt, db_comp_level = wo_compression_level opt,
      db_data = block_image (wo_block_restart_interval opt) (fst b), db_last_key = snd b, db_crc = 0\<rparr>"

definition block_payload :: "'z complib \<Rightarrow> mtbl_writer_options \<Rightarrow> tblock \<Rightarrow> bytes" where
  "block_payload L opt b = payload L opt (block_image (wo_block_restart_interval opt) (fst b))"

lemma compress_block_ok:
  assumes "lossless L opt (block_image (wo_block_restart_interval opt) (fst b))"
  shows "\<exists>db. mtbl_writer_compress_block L crc (raw_block opt b) = Some db \<and>
    db_data db = block_payload L opt b \<and> db_last_key db = snd b \<and> db_crc db = crc (db_data db)"
  using assms
  by (auto simp: mtbl_writer_compress_block_def raw_block_def block_payload_def payload_def
      lossless_def stored_def)

definition block_frames :: "'z complib \<Rightarrow> (bytes \<Rightarrow> u32) \<Rightarrow> mtbl_writer_options \<Rightarrow> tblock list \<Rightarrow> bytes" where
  "block_frames L crc opt bs = concat (map (\<lambda>b. frame crc (block_payload L opt b)) bs)"

text \<open>The entry of the index block for each data block: its separator and its offset.\<close>

primrec index_entries ::
  "'z complib \<Rightarrow> (bytes \<Rightarrow> u32) \<Rightarrow> mtbl_writer_options \<Rightarrow> nat \<Rightarrow> tblock list \<Rightarrow> entry list" where
  "index_entries L crc opt offset [] = []"
| "index_entries L crc opt offset (b # bs) =
     (snd b, mtbl_varint_encode64 (of_nat offset)) #
     index_entries L crc opt (offset + length (frame crc (block_payload L opt b))) bs"

lemma block_frames_simps [simp]:
  "block_frames L crc opt [] = []"
  "block_frames L crc opt (b # bs) = frame crc (block_payload L opt b) @ block_frames L crc opt bs"
  "block_frames L crc opt (bs @ bs') = block_frames L crc opt bs @ block_frames L crc opt bs'"
  by (simp_all add: block_frames_def)

lemma index_entries_append:
  "index_entries L crc opt offset (bs @ bs') = index_entries L crc opt offset bs @
     index_entries L crc opt (offset + length (block_frames L crc opt bs)) bs'"
  by (induction bs arbitrary: offset) (simp_all add: add.assoc)

lemma length_index_entries [simp]: "length (index_entries L crc opt offset bs) = length bs"
  by (induction bs arbitrary: offset) simp_all

lemma fst_index_entries: "map fst (index_entries L crc opt offset bs) = map snd bs"
  by (induction bs arbitrary: offset) simp_all

subsection \<open>The specification: which keys are accepted, and the splitting into blocks\<close>

text \<open>
  The state is the finished blocks and the entries of the current one. A key that is not greater
  than the last accepted one is rejected; a block ends when the next entry might take it to the
  block size, with the shortest separator as its index key.
\<close>

type_synonym table_state = "tblock list \<times> entry list"

definition separator :: "bytes \<Rightarrow> bytes \<Rightarrow> bytes" where
  "separator prev key = the (bytes_shortest_separator prev key)"

fun table_add :: "mtbl_writer_options \<Rightarrow> table_state \<Rightarrow> entry \<Rightarrow> bool \<times> table_state" where
  "table_add opt (done, cur) (key, val) =
     (if cur \<noteq> [] \<and> \<not> fst (last cur) < key then (False, (done, cur))
      else if cur \<noteq> [] \<and> wo_block_size opt \<le>
          length (block_image (wo_block_restart_interval opt) cur) + 15 + length key + length val
      then (True, (done @ [(cur, separator (fst (last cur)) key)], [(key, val)]))
      else (True, (done, cur @ [(key, val)])))"

primrec table_adds :: "mtbl_writer_options \<Rightarrow> table_state \<Rightarrow> entry list \<Rightarrow> bool list \<times> table_state" where
  "table_adds opt st [] = ([], st)"
| "table_adds opt st (e # es) =
     (let (r, st) = table_add opt st e; (rs, st) = table_adds opt st es in (r # rs, st))"

text \<open>The last block is closed with its last key as the separator.\<close>

definition table_close :: "table_state \<Rightarrow> tblock list" where
  "table_close st =
     (case st of (done, cur) \<Rightarrow> if cur = [] then done else done @ [(cur, fst (last cur))])"

definition table_entries :: "table_state \<Rightarrow> entry list" where
  "table_entries st = (case st of (done, cur) \<Rightarrow> concat (map fst done) @ cur)"

definition table_meta ::
  "'z complib \<Rightarrow> (bytes \<Rightarrow> u32) \<Rightarrow> mtbl_writer_options \<Rightarrow> entry list \<Rightarrow> tblock list \<Rightarrow> mtbl_metadata" where
  "table_meta L crc opt es written =
     \<lparr>file_version = MTBL_FORMAT_V2, index_block_offset = 0,
      data_block_size = of_nat (wo_block_size opt),
      compression_algorithm = ucast (compression_code (wo_compression_type opt)),
      count_entries = of_nat (length es), count_data_blocks = of_nat (length written),
      bytes_data_blocks = of_nat (length (block_frames L crc opt written)),
      bytes_index_block = 0, bytes_keys = of_nat (\<Sum>e\<leftarrow>es. length (fst e)),
      bytes_values = of_nat (\<Sum>e\<leftarrow>es. length (snd e))\<rparr>"

text \<open>The file: what was there, the data blocks, the index block, the trailer.\<close>

definition table_index :: "'z complib \<Rightarrow> (bytes \<Rightarrow> u32) \<Rightarrow> mtbl_writer_options \<Rightarrow> nat \<Rightarrow> tblock list \<Rightarrow> bytes" where
  "table_index L crc opt start bs =
     block_image (wo_block_restart_interval opt) (index_entries L crc opt start bs)"

definition table_image ::
  "'z complib \<Rightarrow> (bytes \<Rightarrow> u32) \<Rightarrow> mtbl_writer_options \<Rightarrow> bytes \<Rightarrow> entry list \<Rightarrow> tblock list \<Rightarrow> bytes" where
  "table_image L crc opt pre es bs =
     (let frames = block_frames L crc opt bs;
          index = frame crc (table_index L crc opt (length pre) bs);
          m = table_meta L crc opt es bs
      in pre @ frames @ index @
         metadata_write (m\<lparr>index_block_offset := of_nat (length pre + length frames),
           bytes_index_block := of_nat (length index)\<rparr>))"

subsection \<open>The invariant of a writer\<close>

definition writer_core ::
  "'z complib \<Rightarrow> (bytes \<Rightarrow> u32) \<Rightarrow> mtbl_writer_options \<Rightarrow> bytes \<Rightarrow> mtbl_writer \<Rightarrow>
   tblock list \<Rightarrow> tblock list \<Rightarrow> entry list \<Rightarrow> entry list \<Rightarrow> bool" where
  "writer_core L crc opt pre w written queued cur es \<longleftrightarrow>
     w_opt w = opt \<and> \<not> w_closed w \<and> f_ok (w_fd w) \<and> (\<not> wo_pool opt \<longrightarrow> queued = []) \<and>
     w_queue w = map (raw_block opt) queued \<and>
     f_bytes (w_fd w) = pre @ block_frames L crc opt written \<and>
     bb_inv (w_data w) (wo_block_restart_interval opt) cur \<and>
     bb_inv (w_index w) (wo_block_restart_interval opt)
       (index_entries L crc opt (length pre) written) \<and>
     vec_inv (w_last_key w) \<and>
     w_pending_offset w = of_nat (length (f_bytes (w_fd w))) \<and>
     w_m w = table_meta L crc opt es written \<and>
     (\<forall>b\<in>set queued. lossless L opt (block_image (wo_block_restart_interval opt) (fst b)))"

definition writer_inv ::
  "'z complib \<Rightarrow> (bytes \<Rightarrow> u32) \<Rightarrow> mtbl_writer_options \<Rightarrow> bytes \<Rightarrow> mtbl_writer \<Rightarrow>
   tblock list \<Rightarrow> tblock list \<Rightarrow> entry list \<Rightarrow> bool" where
  "writer_inv L crc opt pre w written queued cur \<longleftrightarrow>
     writer_core L crc opt pre w written queued cur (table_entries (written @ queued, cur)) \<and>
     v_elems (w_last_key w) = (if cur = [] then [] else fst (last cur)) \<and>
     (cur = [] \<longrightarrow> written @ queued = [])"

lemma size_estimate:
  assumes "bb_inv b n es"
  shows "block_builder_current_size_estimate b = length (block_image n es)"
  using assms
  by (auto simp: bb_inv_def block_builder_current_size_estimate_def vec_bytes_def length_block_image
      body_def restart_width_def restart_offsets_def)

lemma writer_init_ok:
  assumes "0 < wo_block_restart_interval opt" and "f_ok fd"
  shows "\<exists>w. mtbl_writer_init_fd fd (Some opt) = Some w \<and>
    writer_inv L crc opt (f_bytes fd) w [] [] []"
proof -
  obtain b where "block_builder_init (wo_block_restart_interval opt) = Some b"
      "bb_inv b (wo_block_restart_interval opt) []"
    using builder_init [OF assms(1)] by blast
  then show ?thesis
    using assms(2)
    by (simp add: mtbl_writer_init_fd_def writer_inv_def writer_core_def table_meta_def
        table_entries_def Let_def)
qed

text \<open>One block is written: by \<open>flush\<close> itself, or by the result handler.\<close>

lemma write_data_block_ok:
  assumes ok: "lossless L opt (block_image (wo_block_restart_interval opt) (fst b))"
    and f: "f_ok (w_fd w)" "f_bytes (w_fd w) = pre @ block_frames L crc opt written"
    and ix: "bb_inv (w_index w) (wo_block_restart_interval opt) (index_entries L crc opt (length pre) written)"
    and off: "w_pending_offset w = of_nat (length (f_bytes (w_fd w)))"
    and m: "w_m w = table_meta L crc opt es written"
  shows "\<exists>w'. (do {
        db \<leftarrow> mtbl_writer_compress_block L crc (raw_block opt b);
        mtbl_writer_write_data_block w db }) = Some w' \<and>
    w_opt w' = w_opt w \<and> w_closed w' = w_closed w \<and> w_data w' = w_data w \<and>
    w_last_key w' = w_last_key w \<and> w_queue w' = w_queue w \<and>
    f_ok (w_fd w') \<and> f_bytes (w_fd w') = pre @ block_frames L crc opt (written @ [b]) \<and>
    bb_inv (w_index w') (wo_block_restart_interval opt) (index_entries L crc opt (length pre) (written @ [b])) \<and>
    w_pending_offset w' = of_nat (length (f_bytes (w_fd w'))) \<and>
    w_m w' = table_meta L crc opt es (written @ [b])"
proof -
  obtain db where db: "mtbl_writer_compress_block L crc (raw_block opt b) = Some db"
      "db_data db = block_payload L opt b" "db_last_key db = snd b" "db_crc db = crc (db_data db)"
    using compress_block_ok [OF ok] by blast
  have ne: "db_data db \<noteq> []"
    using payload_nonempty [OF ok] by (simp add: db block_payload_def)
  obtain fd where fd: "mtbl_writer_write_block (w_fd w) db = Some (length (frame crc (db_data db)), fd)"
      "f_ok fd" "f_bytes fd = f_bytes (w_fd w) @ frame crc (db_data db)"
    using write_block_ok [of "w_fd w" db crc, OF f(1) ne db(4)] by blast
  obtain index where index: "block_builder_add (w_index w) (snd b) (mtbl_varint_encode64 (w_pending_offset w)) = Some index"
      "bb_inv index (wo_block_restart_interval opt) (index_entries L crc opt (length pre) written @
        [(snd b, mtbl_varint_encode64 (w_pending_offset w))])"
    using builder_add [OF ix] by blast
  have "index_entries L crc opt (length pre) (written @ [b]) =
      index_entries L crc opt (length pre) written @ [(snd b, mtbl_varint_encode64 (w_pending_offset w))]"
    by (simp add: index_entries_append off f(2))
  moreover have "(w_m w)\<lparr>bytes_data_blocks := bytes_data_blocks (w_m w) + of_nat (length (frame crc (db_data db))),
       count_data_blocks := count_data_blocks (w_m w) + 1\<rparr> = table_meta L crc opt es (written @ [b])"
    by (simp add: m table_meta_def db(2) add.commute)
  moreover have "w_pending_offset w + of_nat (length (frame crc (db_data db))) = of_nat (length (f_bytes fd))"
    by (simp add: off fd(3))
  ultimately show ?thesis
    using db fd index by (simp add: mtbl_writer_write_data_block_def f(2) Let_def)
qed

lemma flush_ok:
  assumes core: "writer_core L crc opt pre w written queued cur es" and cur: "cur \<noteq> []"
    and ok: "lossless L opt (block_image (wo_block_restart_interval opt) cur)"
  defines "b \<equiv> (cur, v_elems (w_last_key w))"
  shows "\<exists>w' written' queued'. mtbl_writer_flush L crc w = Some w' \<and>
    written' @ queued' = written @ queued @ [b] \<and> w_last_key w' = w_last_key w \<and>
    writer_core L crc opt pre w' written' queued' [] es"
proof -
  let ?n = "wo_block_restart_interval opt"
  note c = core [unfolded writer_core_def]
  have n: "0 < ?n" using c by (simp add: bb_inv_def)
  obtain d where d: "block_builder_finish (w_data w) = Some (block_image ?n cur, d)"
      "bb_interval d = ?n" "vec_inv (bb_buf d)" "vec_inv (bb_last_key d)" "vec_inv (bb_restarts d)"
    using builder_finish [of "w_data w" ?n cur] c by blast
  obtain d' where d': "block_builder_reset d = Some d'" "bb_inv d' ?n []"
    using builder_reset [OF d(3-5)] d(2) n by auto
  have ne: "\<not> block_builder_empty (w_data w)"
    using builder_empty [of "w_data w" ?n cur] c cur by blast
  have raw: "\<lparr>db_comp_type = wo_compression_type (w_opt w), db_comp_level = wo_compression_level (w_opt w),
      db_data = block_image ?n cur, db_last_key = vec_data (w_last_key w), db_crc = 0\<rparr> = raw_block opt b"
    using c by (simp add: raw_block_def b_def vec_data_def)
  have v2: "file_version (w_m w) = MTBL_FORMAT_V2" using c by (simp add: table_meta_def)
  show ?thesis
  proof (cases "wo_pool opt")
    case True
    let ?w = "w\<lparr>w_data := d', w_queue := w_queue w @ [raw_block opt b]\<rparr>"
    have "mtbl_writer_flush L crc w = Some ?w"
      using c ne d(1) d'(1) raw v2 True by (simp add: mtbl_writer_flush_def Let_def)
    moreover have "writer_core L crc opt pre ?w written (queued @ [b]) [] es"
      using c d'(2) ok True by (auto simp: writer_core_def b_def)
    ultimately show ?thesis by fastforce
  next
    case False
    then have q: "queued = []" using c by simp
    let ?w0 = "w\<lparr>w_data := d'\<rparr>"
    have h: "f_ok (w_fd ?w0)" "f_bytes (w_fd ?w0) = pre @ block_frames L crc opt written"
        "bb_inv (w_index ?w0) ?n (index_entries L crc opt (length pre) written)"
        "w_pending_offset ?w0 = of_nat (length (f_bytes (w_fd ?w0)))"
        "w_m ?w0 = table_meta L crc opt es written"
      using c by (simp_all del: of_nat_add)
    have okb: "lossless L opt (block_image ?n (fst b))" using ok by (simp add: b_def)
    from write_data_block_ok [OF okb h] obtain w' where wr: "(do {
        db \<leftarrow> mtbl_writer_compress_block L crc (raw_block opt b);
        mtbl_writer_write_data_block ?w0 db }) = Some w'"
      and w': "w_opt w' = w_opt ?w0" "w_closed w' = w_closed ?w0" "w_data w' = w_data ?w0"
        "w_last_key w' = w_last_key ?w0" "w_queue w' = w_queue ?w0" "f_ok (w_fd w')"
        "f_bytes (w_fd w') = pre @ block_frames L crc opt (written @ [b])"
        "bb_inv (w_index w') ?n (index_entries L crc opt (length pre) (written @ [b]))"
        "w_pending_offset w' = of_nat (length (f_bytes (w_fd w')))"
        "w_m w' = table_meta L crc opt es (written @ [b])"
      by blast
    have "\<not> w_closed w" "w_opt w = opt" using c by simp_all
    then have "mtbl_writer_flush L crc w = (do {
        db \<leftarrow> mtbl_writer_compress_block L crc (raw_block opt b);
        mtbl_writer_write_data_block ?w0 db })"
      using ne v2 False unfolding raw [symmetric] mtbl_writer_flush_def Let_def by (simp add: d(1) d'(1))
    then have "mtbl_writer_flush L crc w = Some w'" using wr by (rule trans)
    moreover have "writer_core L crc opt pre w' (written @ [b]) [] [] es"
      unfolding writer_core_def using c d'(2) w' q by (simp del: of_nat_add)
    moreover have "w_last_key w' = w_last_key w" using w' by simp
    moreover have "(written @ [b]) @ [] = written @ queued @ [b]" using q by simp
    ultimately show ?thesis by blast
  qed
qed

lemma deliver_ok:
  assumes core: "writer_core L crc opt pre w written (b # queued) cur es"
  shows "\<exists>w'. mtbl_writer_deliver L crc w = Some w' \<and> w_last_key w' = w_last_key w \<and>
    writer_core L crc opt pre w' (written @ [b]) queued cur es"
proof -
  note c = core [unfolded writer_core_def]
  let ?w0 = "w\<lparr>w_queue := map (raw_block opt) queued\<rparr>"
  have h: "f_ok (w_fd ?w0)" "f_bytes (w_fd ?w0) = pre @ block_frames L crc opt written"
      "bb_inv (w_index ?w0) (wo_block_restart_interval opt) (index_entries L crc opt (length pre) written)"
      "w_pending_offset ?w0 = of_nat (length (f_bytes (w_fd ?w0)))"
      "w_m ?w0 = table_meta L crc opt es written"
    using c by (simp_all del: of_nat_add)
  have okb: "lossless L opt (block_image (wo_block_restart_interval opt) (fst b))" using c by simp
  from write_data_block_ok [OF okb h] obtain w' where wr: "(do {
      db \<leftarrow> mtbl_writer_compress_block L crc (raw_block opt b);
      mtbl_writer_write_data_block ?w0 db }) = Some w'"
    and w': "w_opt w' = w_opt ?w0" "w_closed w' = w_closed ?w0" "w_data w' = w_data ?w0"
      "w_last_key w' = w_last_key ?w0" "w_queue w' = w_queue ?w0" "f_ok (w_fd w')"
      "f_bytes (w_fd w') = pre @ block_frames L crc opt (written @ [b])"
      "bb_inv (w_index w') (wo_block_restart_interval opt) (index_entries L crc opt (length pre) (written @ [b]))"
      "w_pending_offset w' = of_nat (length (f_bytes (w_fd w')))"
      "w_m w' = table_meta L crc opt es (written @ [b])"
    by blast
  have "w_queue w = raw_block opt b # map (raw_block opt) queued" using c by simp
  then have "mtbl_writer_deliver L crc w = Some w'" using wr by (simp add: mtbl_writer_deliver_def)
  moreover have "writer_core L crc opt pre w' (written @ [b]) queued cur es"
    unfolding writer_core_def using c w' by (simp del: of_nat_add)
  ultimately show ?thesis using w'(4) by simp
qed

lemma deliver_all_ok:
  "writer_core L crc opt pre w written queued cur es \<Longrightarrow>
   \<exists>w'. deliver_all L crc (length queued) w = Some w' \<and> w_last_key w' = w_last_key w \<and>
     writer_core L crc opt pre w' (written @ queued) [] cur es"
proof (induction queued arbitrary: w written)
  case (Cons b queued)
  obtain w1 where "mtbl_writer_deliver L crc w = Some w1" "w_last_key w1 = w_last_key w"
      "writer_core L crc opt pre w1 (written @ [b]) queued cur es"
    using deliver_ok [OF Cons.prems] by blast
  with Cons.IH [of w1 "written @ [b]"] show ?case by auto
qed simp

text \<open>The end of \<open>mtbl_writer_add\<close>, after the flush it may have made.\<close>

lemma add_tail_ok:
  assumes core: "writer_core L crc opt pre w written queued cur es"
  shows "\<exists>w'. (do {
       last_key \<leftarrow> vec_append (vec_reset (w_last_key w)) key;
       let m = (w_m w)\<lparr>count_entries := count_entries (w_m w) + 1,
         bytes_keys := bytes_keys (w_m w) + of_nat (length key),
         bytes_values := bytes_values (w_m w) + of_nat (length val)\<rparr>;
       data \<leftarrow> block_builder_add (w_data w) key val;
       Some (True, w\<lparr>w_last_key := last_key, w_m := m, w_data := data\<rparr>) }) = Some (True, w') \<and>
    v_elems (w_last_key w') = key \<and>
    writer_core L crc opt pre w' written queued (cur @ [(key, val)]) (es @ [(key, val)])"
proof -
  note c = core [unfolded writer_core_def]
  obtain lk where lk: "vec_append (vec_reset (w_last_key w)) key = Some lk" "vec_inv lk" "v_elems lk = key"
    using vec_append_Some [of "vec_reset (w_last_key w)" key] c by auto
  obtain d where d: "block_builder_add (w_data w) key val = Some d"
      "bb_inv d (wo_block_restart_interval opt) (cur @ [(key, val)])"
    using builder_add c by blast
  have "(w_m w)\<lparr>count_entries := count_entries (w_m w) + 1,
         bytes_keys := bytes_keys (w_m w) + of_nat (length key),
         bytes_values := bytes_values (w_m w) + of_nat (length val)\<rparr> =
      table_meta L crc opt (es @ [(key, val)]) written"
    using c by (simp add: table_meta_def add.commute)
  then show ?thesis
    using lk d c by (simp add: writer_core_def Let_def del: of_nat_add)
qed

lemma separator_le:
  assumes "prev < key"
  shows "bytes_shortest_separator prev key = Some (separator prev key)"
    and "prev \<le> separator prev key" "separator prev key < key" "length (separator prev key) \<le> length prev"
  using separator_between [OF assms] by (auto simp: separator_def)

lemma separator_Nil: "bytes_shortest_separator [] key = Some []"
  by (simp add: bytes_shortest_separator_def Let_def)

lemma table_entries_snoc:
  "table_entries (done, cur @ [e]) = table_entries (done, cur) @ [e]"
  "table_entries (done @ [(cur, s)], [e]) = table_entries (done, cur) @ [e]"
  by (simp_all add: table_entries_def)

lemma flush_empty:
  assumes "writer_core L crc opt pre w written queued [] es"
  shows "mtbl_writer_flush L crc w = Some w"
  using assms builder_empty [of "w_data w" "wo_block_restart_interval opt" "[]"]
  by (auto simp: writer_core_def mtbl_writer_flush_def table_meta_def)

text \<open>Before it, the block is flushed when the entry would make it too big.\<close>

lemma add_flush_ok:
  assumes core: "writer_core L crc opt pre w written queued cur (table_entries (written @ queued, cur))"
    and lk: "v_elems (w_last_key w) = (if cur = [] then [] else fst (last cur))"
    and ok: "cur \<noteq> [] \<Longrightarrow> lossless L opt (block_image (wo_block_restart_interval opt) cur)"
    and add: "table_add opt (written @ queued, cur) (key, val) = (r, (done', cur'))"
    and acc: "\<not> (cur \<noteq> [] \<and> \<not> fst (last cur) < key)"
  shows "\<exists>w1 written1 queued1 cur1.
      (if block_builder_current_size_estimate (w_data w) + 3 * 5 + length key + length val \<ge> wo_block_size (w_opt w)
       then do {
          sep \<leftarrow> bytes_shortest_separator (vec_data (w_last_key w)) key;
          mtbl_writer_flush L crc (w\<lparr>w_last_key := (w_last_key w)\<lparr>v_elems := sep\<rparr>\<rparr>)
        } else Some w) = Some w1 \<and>
      writer_core L crc opt pre w1 written1 queued1 cur1 (table_entries (written @ queued, cur)) \<and>
      written1 @ queued1 = done' \<and> cur1 @ [(key, val)] = cur' \<and> r = True \<and>
      table_entries (done', cur') = (table_entries (written @ queued, cur)) @ [(key, val)]"
proof -
  let ?n = "wo_block_restart_interval opt" and ?es = "table_entries (written @ queued, cur)"
  note c = core [unfolded writer_core_def]
  have est: "block_builder_current_size_estimate (w_data w) = length (block_image ?n cur)"
    using c size_estimate by blast
  let ?big = "wo_block_size opt \<le> length (block_image ?n cur) + 15 + length key + length val"
  show ?thesis
  proof (cases "cur \<noteq> [] \<and> ?big")
    case True
    then have less: "fst (last cur) < key" using acc by simp
    let ?s = "separator (fst (last cur)) key"
    let ?w = "w\<lparr>w_last_key := (w_last_key w)\<lparr>v_elems := ?s\<rparr>\<rparr>"
    have "vec_inv ((w_last_key w)\<lparr>v_elems := ?s\<rparr>)"
      using c lk True separator_le(4) [OF less] by (auto simp: vec_inv_def)
    then have core': "writer_core L crc opt pre ?w written queued cur ?es"
      using c by (simp add: writer_core_def del: of_nat_add)
    obtain w1 written1 queued1 where w1: "mtbl_writer_flush L crc ?w = Some w1"
        "written1 @ queued1 = written @ queued @ [(cur, v_elems (w_last_key ?w))]"
        "writer_core L crc opt pre w1 written1 queued1 [] ?es"
      using flush_ok [OF core'] True ok by blast
    have "done' = written @ queued @ [(cur, ?s)]" "cur' = [(key, val)]" "r = True"
      using add True less by auto
    moreover have "bytes_shortest_separator (vec_data (w_last_key w)) key = Some ?s"
      using separator_le(1) [OF less] lk True by (simp add: vec_data_def)
    moreover have "block_builder_current_size_estimate (w_data w) + 3 * 5 + length key + length val \<ge> wo_block_size (w_opt w)"
      using True est c by simp
    ultimately show ?thesis
      using w1 table_entries_snoc(2) [of "written @ queued" cur ?s "(key, val)"]
      by (simp, blast)
  next
    case False
    then have d: "done' = written @ queued" "cur' = cur @ [(key, val)]" "r = True"
      using add acc by auto
    have "(if block_builder_current_size_estimate (w_data w) + 3 * 5 + length key + length val \<ge> wo_block_size (w_opt w)
       then do {
          sep \<leftarrow> bytes_shortest_separator (vec_data (w_last_key w)) key;
          mtbl_writer_flush L crc (w\<lparr>w_last_key := (w_last_key w)\<lparr>v_elems := sep\<rparr>\<rparr>)
        } else Some w) = Some w"
    proof (cases ?big)
      case True
      then have nil: "cur = []" using False by simp
      then have e: "v_elems (w_last_key w) = []" using lk by simp
      have "(w_last_key w)\<lparr>v_elems := v_elems (w_last_key w)\<rparr> = w_last_key w" by simp
      then have u: "w\<lparr>w_last_key := (w_last_key w)\<lparr>v_elems := []\<rparr>\<rparr> = w" by (simp add: e)
      have fl: "mtbl_writer_flush L crc w = Some w"
        using flush_empty [of L crc opt pre w written queued ?es] core nil by simp
      show ?thesis
        by (simp only: vec_data_def e separator_Nil Option.bind.simps u fl if_cancel)
    next
      case False
      then show ?thesis using est c by simp
    qed
    then show ?thesis using core d table_entries_snoc(1) by blast
  qed
qed

lemma writer_add_ok:
  assumes inv: "writer_inv L crc opt pre w written queued cur"
    and count: "length (table_entries (written @ queued, cur)) < 2 ^ 64"
    and ok: "cur \<noteq> [] \<Longrightarrow> lossless L opt (block_image (wo_block_restart_interval opt) cur)"
    and add: "table_add opt (written @ queued, cur) (key, val) = (r, (done', cur'))"
  shows "\<exists>w' written' queued'. mtbl_writer_add L crc w key val = Some (r, w') \<and>
    written' @ queued' = done' \<and> writer_inv L crc opt pre w' written' queued' cur'"
proof -
  let ?es = "table_entries (written @ queued, cur)"
  have core: "writer_core L crc opt pre w written queued cur ?es"
    and lk: "v_elems (w_last_key w) = (if cur = [] then [] else fst (last cur))"
    and nil: "cur = [] \<Longrightarrow> written @ queued = []"
    using inv by (auto simp: writer_inv_def)
  note c = core [unfolded writer_core_def]
  have es: "?es = [] \<longleftrightarrow> cur = []" using nil by (auto simp: table_entries_def)
  have cnt: "count_entries (w_m w) > 0 \<longleftrightarrow> cur \<noteq> []"
  proof -
    have "unat (of_nat (length ?es) :: u64) = length ?es" using count by (intro unat_of_nat_small) simp
    then show ?thesis using c es by (simp add: table_meta_def word_less_nat_alt)
  qed
  show ?thesis
  proof (cases "cur \<noteq> [] \<and> \<not> fst (last cur) < key")
    case True
    then have "r = False" "done' = written @ queued" "cur' = cur" using add by auto
    moreover have "mtbl_writer_add L crc w key val = Some (False, w)"
      using True cnt c lk by (simp add: mtbl_writer_add_def vec_data_def)
    ultimately show ?thesis using inv by blast
  next
    case acc: False
    have ncmp: "\<not> (count_entries (w_m w) > 0 \<and> \<not> bytes_compare key (vec_data (w_last_key w)) > 0)"
      using acc cnt lk by (auto simp: vec_data_def)
    obtain w1 written1 queued1 cur1 where w1:
        "(if block_builder_current_size_estimate (w_data w) + 3 * 5 + length key + length val \<ge> wo_block_size (w_opt w)
         then do {
            sep \<leftarrow> bytes_shortest_separator (vec_data (w_last_key w)) key;
            mtbl_writer_flush L crc (w\<lparr>w_last_key := (w_last_key w)\<lparr>v_elems := sep\<rparr>\<rparr>)
          } else Some w) = Some w1"
        "writer_core L crc opt pre w1 written1 queued1 cur1 ?es" "written1 @ queued1 = done'"
        "cur1 @ [(key, val)] = cur'" "r = True" "table_entries (done', cur') = ?es @ [(key, val)]"
      using add_flush_ok [OF core lk ok add acc] by blast
    obtain w2 where w2: "(do {
       last_key \<leftarrow> vec_append (vec_reset (w_last_key w1)) key;
       let m = (w_m w1)\<lparr>count_entries := count_entries (w_m w1) + 1,
         bytes_keys := bytes_keys (w_m w1) + of_nat (length key),
         bytes_values := bytes_values (w_m w1) + of_nat (length val)\<rparr>;
       data \<leftarrow> block_builder_add (w_data w1) key val;
       Some (True, w1\<lparr>w_last_key := last_key, w_m := m, w_data := data\<rparr>) }) = Some (True, w2)"
        "v_elems (w_last_key w2) = key"
        "writer_core L crc opt pre w2 written1 queued1 (cur1 @ [(key, val)]) (?es @ [(key, val)])"
      using add_tail_ok [OF w1(2)] by blast
    have "mtbl_writer_add L crc w key val = Some (True, w2)"
      using c ncmp w1(1) w2(1) unfolding mtbl_writer_add_def Let_def by simp
    moreover have "writer_inv L crc opt pre w2 written1 queued1 cur'"
      using w2 w1 by (auto simp: writer_inv_def)
    ultimately show ?thesis using w1 by blast
  qed
qed

lemma table_close_flush:
  "table_close (done, cur) = (if cur = [] then done else done @ [(cur, fst (last cur))])"
  by (simp add: table_close_def)

lemma writer_finish_ok:
  assumes inv: "writer_inv L crc opt pre w written queued cur"
    and ok: "cur \<noteq> [] \<Longrightarrow> lossless L opt (block_image (wo_block_restart_interval opt) cur)"
  shows "\<exists>w'. mtbl_writer_finish L crc w = Some w' \<and> w_closed w' \<and>
    f_bytes (w_fd w') = table_image L crc opt pre (table_entries (written @ queued, cur))
      (table_close (written @ queued, cur))"
proof -
  let ?n = "wo_block_restart_interval opt" and ?es = "table_entries (written @ queued, cur)"
  let ?bs = "table_close (written @ queued, cur)"
  have core: "writer_core L crc opt pre w written queued cur ?es"
    and lk: "v_elems (w_last_key w) = (if cur = [] then [] else fst (last cur))"
    using inv by (auto simp: writer_inv_def)
  have "\<exists>w1 written1 queued1. mtbl_writer_flush L crc w = Some w1 \<and> written1 @ queued1 = ?bs \<and>
      writer_core L crc opt pre w1 written1 queued1 [] ?es"
  proof (cases "cur = []")
    case True
    then have c: "writer_core L crc opt pre w written queued [] ?es" using core by simp
    show ?thesis using flush_empty [OF c] c True by (auto simp: table_close_def)
  next
    case False
    then show ?thesis using flush_ok [OF core False ok] lk by (simp add: table_close_def) blast
  qed
  then obtain w1 written1 queued1 where w1: "mtbl_writer_flush L crc w = Some w1"
      "written1 @ queued1 = ?bs" "writer_core L crc opt pre w1 written1 queued1 [] ?es"
    by blast
  obtain w2 where w2: "deliver_all L crc (length queued1) w1 = Some w2"
      "writer_core L crc opt pre w2 ?bs [] [] ?es"
    using deliver_all_ok [OF w1(3)] w1(2) by metis
  note c = w2(2) [unfolded writer_core_def]
  have len: "length (w_queue w1) = length queued1" using w1(3) by (simp add: writer_core_def)
  let ?ix = "index_entries L crc opt (length pre) ?bs"
  obtain ib where ib: "block_builder_finish (w_index w2) = Some (block_image ?n ?ix, ib)"
      "bb_interval ib = ?n" "vec_inv (bb_buf ib)" "vec_inv (bb_last_key ib)" "vec_inv (bb_restarts ib)"
    using builder_finish [of "w_index w2" ?n ?ix] c by blast
  obtain ib' where ib': "block_builder_reset ib = Some ib'"
    using builder_reset [OF ib(3-5)] ib(2) c by (auto simp: bb_inv_def)
  let ?b = "\<lparr>db_comp_type = MTBL_COMPRESSION_NONE, db_comp_level = 0, db_data = block_image ?n ?ix,
      db_last_key = [], db_crc = crc (block_image ?n ?ix)\<rparr>"
  have ne: "db_data ?b \<noteq> []" using length_block_image [of ?n ?ix] by auto
  obtain fd where fd: "mtbl_writer_write_block (w_fd w2) ?b = Some (length (frame crc (db_data ?b)), fd)"
      "f_ok fd" "f_bytes fd = f_bytes (w_fd w2) @ frame crc (db_data ?b)"
    using write_block_ok [of "w_fd w2" ?b crc, OF _ ne] c by auto
  let ?m = "(w_m w2)\<lparr>index_block_offset := w_pending_offset w2,
       bytes_index_block := of_nat (length (frame crc (db_data ?b)))\<rparr>"
  have mne: "metadata_write ?m \<noteq> []" using length_metadata_write [of ?m] by (metis list.size(3) zero_neq_numeral)
  obtain fd' where fd': "write_all fd (metadata_write ?m) = Some fd'" "f_bytes fd' = f_bytes fd @ metadata_write ?m"
    using write_all_ok [OF fd(2) mne] by blast
  have "\<exists>w'. mtbl_writer_finish L crc w = Some w' \<and> w_closed w' \<and> w_fd w' = fd'"
    using w1(1) w2(1) len c ib ib' fd(1) fd'(1) by (simp add: mtbl_writer_finish_def Let_def del: of_nat_add)
  moreover have "f_bytes fd' = table_image L crc opt pre ?es ?bs"
    using c fd(3) fd'(2) by (simp add: table_image_def table_index_def Let_def)
  ultimately show ?thesis by blast
qed

text \<open>A whole run: the calls of \<open>mtbl_writer_add\<close> of an event list, and what becomes of them.\<close>

fun added :: "writer_event list \<Rightarrow> entry list" where
  "added [] = []"
| "added (Add key val # evs) = (key, val) # added evs"
| "added (Deliver # evs) = added evs"

lemma table_adds_length: "table_adds opt st es = (rs, st') \<Longrightarrow> length (table_entries st') \<le> length (table_entries st) + length es"
proof (induction es arbitrary: st rs)
  case (Cons e es)
  obtain r st1 where s: "table_add opt st e = (r, st1)" by (metis surj_pair)
  obtain rs1 where r: "table_adds opt st1 es = (rs1, st')" using Cons.prems s by (auto split: prod.splits)
  have "length (table_entries st1) \<le> length (table_entries st) + 1"
    using s by (cases st; cases e) (auto simp: table_entries_def split: if_splits)
  with Cons.IH [OF r] show ?case by simp
qed simp

lemma writer_run_ok:
  assumes G: "\<And>st e r st'. G st \<Longrightarrow> e \<in> S \<Longrightarrow> table_add opt st e = (r, st') \<Longrightarrow> G st'"
    and ok: "\<And>done cur. G (done, cur) \<Longrightarrow> cur \<noteq> [] \<Longrightarrow>
      lossless L opt (block_image (wo_block_restart_interval opt) cur)"
  shows "table_adds opt (written @ queued, cur) (added evs) = (rs, st) \<Longrightarrow>
    writer_inv L crc opt pre w written queued cur \<Longrightarrow>
    length (table_entries (written @ queued, cur)) + length (added evs) < 2 ^ 64 \<Longrightarrow>
    G (written @ queued, cur) \<Longrightarrow> set (added evs) \<subseteq> S \<Longrightarrow>
    \<exists>w' written' queued' cur'. writer_run L crc w evs = Some (rs, w') \<and>
      st = (written' @ queued', cur') \<and> writer_inv L crc opt pre w' written' queued' cur' \<and> G st"
proof (induction evs arbitrary: w written queued cur rs)
  case Nil
  then show ?case by auto
next
  case (Cons ev evs)
  show ?case
  proof (cases ev)
    case (Add key val)
    obtain r done1 cur1 where a: "table_add opt (written @ queued, cur) (key, val) = (r, (done1, cur1))"
      by (metis surj_pair)
    obtain rs1 where rs: "table_adds opt (done1, cur1) (added evs) = (rs1, st)" "rs = r # rs1"
      using Cons.prems(1) unfolding Add added.simps table_adds.simps a
      by (cases "table_adds opt (done1, cur1) (added evs)") simp
    have cnt: "length (table_entries (written @ queued, cur)) < 2 ^ 64" using Cons.prems(3) Add by simp
    have "cur \<noteq> [] \<Longrightarrow> lossless L opt (block_image (wo_block_restart_interval opt) cur)"
      using ok Cons.prems(4) by blast
    from writer_add_ok [OF Cons.prems(2) cnt this a]
    obtain w1 written1 queued1 where w1: "mtbl_writer_add L crc w key val = Some (r, w1)"
        "written1 @ queued1 = done1" "writer_inv L crc opt pre w1 written1 queued1 cur1"
      by blast
    have l: "length (table_entries (written1 @ queued1, cur1)) + length (added evs) < 2 ^ 64"
      using table_adds_length [of opt "(written @ queued, cur)" "[(key, val)]" "[r]" "(done1, cur1)"]
        a Cons.prems(3) Add w1(2) by simp
    have g: "G (written1 @ queued1, cur1)" using G [OF Cons.prems(4) _ a] Cons.prems(5) Add w1(2) by simp
    have "set (added evs) \<subseteq> S" using Cons.prems(5) Add by simp
    with Cons.IH [OF _ w1(3) l g] rs(1) w1(2)
    obtain w' written' queued' cur' where "writer_run L crc w1 evs = Some (rs1, w')"
      "st = (written' @ queued', cur')" "writer_inv L crc opt pre w' written' queued' cur'" "G st"
      by blast
    then show ?thesis using w1(1) rs(2) Add by auto
  next
    case Deliver
    have core: "writer_core L crc opt pre w written queued cur (table_entries (written @ queued, cur))"
      using Cons.prems(2) by (simp add: writer_inv_def)
    have "\<exists>w1 written1 queued1. mtbl_writer_deliver L crc w = Some w1 \<and> written1 @ queued1 = written @ queued \<and>
        writer_inv L crc opt pre w1 written1 queued1 cur"
    proof (cases queued)
      case Nil
      then have "mtbl_writer_deliver L crc w = Some w" using core by (simp add: mtbl_writer_deliver_def writer_core_def)
      then show ?thesis using Cons.prems(2) by blast
    next
      case q: (Cons b queued1)
      then obtain w1 where w1: "mtbl_writer_deliver L crc w = Some w1" "w_last_key w1 = w_last_key w"
          "writer_core L crc opt pre w1 (written @ [b]) queued1 cur (table_entries (written @ queued, cur))"
        using deliver_ok core by blast
      then have "writer_inv L crc opt pre w1 (written @ [b]) queued1 cur"
        using Cons.prems(2) q by (simp add: writer_inv_def)
      then show ?thesis using w1(1) q by (metis append.assoc append_Cons append_Nil)
    qed
    then obtain w1 written1 queued1 where w1: "mtbl_writer_deliver L crc w = Some w1"
        "written1 @ queued1 = written @ queued" "writer_inv L crc opt pre w1 written1 queued1 cur"
      by blast
    have p: "table_adds opt (written1 @ queued1, cur) (added evs) = (rs, st)"
        "length (table_entries (written1 @ queued1, cur)) + length (added evs) < 2 ^ 64"
        "G (written1 @ queued1, cur)" "set (added evs) \<subseteq> S"
      using Cons.prems Deliver w1(2) by simp_all
    obtain w' written' queued' cur' where "writer_run L crc w1 evs = Some (rs, w')"
      "st = (written' @ queued', cur')" "writer_inv L crc opt pre w' written' queued' cur'" "G st"
      using Cons.IH [OF p(1) w1(3) p(2-4)] by blast
    then show ?thesis using w1(1) Deliver by auto
  qed
qed

end
