(* ===== verification/Table_Facts.thy ===== *)
theory Table_Facts
  imports Table
begin

text \<open>
  What holds of the blocks the specification \<open>table_add\<close> makes: their keys increase, the
  separators lie between the blocks, no block is empty, and a block of several entries does not
  exceed the block size by more than one restart offset. From this follow the conditions under
  which the block theorems apply to every block of a table.
\<close>

subsection \<open>Order\<close>

definition table_ok :: "tblock list \<Rightarrow> bool" where
  "table_ok bs \<longleftrightarrow>
     (\<forall>b\<in>set bs. fst b \<noteq> [] \<and> strict_keys (fst b) \<and> fst (last (fst b)) \<le> snd b) \<and>
     sorted_wrt (\<lambda>b b'. snd b < fst (hd (fst b'))) bs"

lemma strict_keys_append:
  "strict_keys (xs @ ys) \<longleftrightarrow> strict_keys xs \<and> strict_keys ys \<and>
     (\<forall>x\<in>set xs. \<forall>y\<in>set ys. fst x < fst y)"
  by (auto simp: strict_keys_def sorted_wrt_append)

lemma strict_keys_Nil [simp]: "strict_keys []"
  by (simp add: strict_keys_def)

lemma strict_keys_single [simp]: "strict_keys [e]"
  by (simp add: strict_keys_def)

lemma strict_keys_hd_le: "strict_keys es \<Longrightarrow> e \<in> set es \<Longrightarrow> fst (hd es) \<le> fst e"
  by (cases es) (auto simp: strict_keys_def)

lemma strict_keys_last_ge: "strict_keys es \<Longrightarrow> e \<in> set es \<Longrightarrow> fst e \<le> fst (last es)"
  by (cases es rule: rev_cases) (auto simp: strict_keys_append)

lemma strict_keys_snoc:
  assumes "strict_keys es" and "es \<noteq> []" and "fst (last es) < k"
  shows "strict_keys (es @ [(k, v)])"
  using assms strict_keys_last_ge [OF assms(1)] by (auto simp: strict_keys_append intro: le_less_trans)

definition state_ok :: "table_state \<Rightarrow> bool" where
  "state_ok st \<longleftrightarrow> table_ok (table_close st) \<and> (snd st = [] \<longrightarrow> fst st = [])"

lemma table_ok_snoc:
  "table_ok (bs @ [(es, s)]) \<longleftrightarrow> table_ok bs \<and> es \<noteq> [] \<and> strict_keys es \<and> fst (last es) \<le> s \<and>
     (\<forall>b\<in>set bs. snd b < fst (hd es))"
  by (auto simp: table_ok_def sorted_wrt_append)

lemma table_ok_snoc2:
  "table_ok (bs @ [b, (es, s)]) \<longleftrightarrow> table_ok (bs @ [b]) \<and> es \<noteq> [] \<and> strict_keys es \<and>
     fst (last es) \<le> s \<and> (\<forall>b'\<in>set (bs @ [b]). snd b' < fst (hd es))"
  using table_ok_snoc [of "bs @ [b]" es s] by simp

lemma state_ok_add:
  assumes st: "state_ok st" and add: "table_add opt st e = (r, st')"
  shows "state_ok st'"
proof -
  obtain dn cur where s: "st = (dn, cur)" by fastforce
  obtain k v where e: "e = (k, v)" by fastforce
  show ?thesis
  proof (cases "cur = []")
    case True
    then have "dn = []" using st by (simp add: state_ok_def s)
    then show ?thesis
      using add True by (auto simp: s e state_ok_def table_close_def table_ok_def)
  next
    case False
    then have ok: "table_ok dn" "strict_keys cur" "\<forall>b\<in>set dn. snd b < fst (hd cur)"
      using st by (auto simp: state_ok_def s table_close_def table_ok_snoc)
    show ?thesis
    proof (cases "fst (last cur) < k")
      case False
      then show ?thesis using add st \<open>cur \<noteq> []\<close> by (auto simp: s e)
    next
      case less: True
      note sep = separator_le [OF less]
      have hd_le: "fst (hd cur) \<le> fst (last cur)"
        using strict_keys_hd_le [OF ok(2)] False by simp
      then have "\<forall>b\<in>set dn. snd b < k" using ok(3) less by (meson le_less_trans less_trans)
      moreover have "hd (cur @ [(k, v)]) = hd cur" using False by simp
      ultimately show ?thesis
        using add less False ok sep strict_keys_snoc [OF ok(2) False less, of v]
        by (auto simp: s e state_ok_def table_close_def table_ok_snoc table_ok_snoc2 split: if_splits)
    qed
  qed
qed

lemma table_ok_strict: "table_ok bs \<Longrightarrow> strict_keys (concat (map fst bs))"
proof (induction bs)
  case (Cons b bs)
  have ok: "table_ok bs" and b: "strict_keys (fst b)" "fst b \<noteq> []" "fst (last (fst b)) \<le> snd b"
    and nxt: "\<forall>b'\<in>set bs. snd b < fst (hd (fst b'))" 
    using Cons.prems by (auto simp: table_ok_def)
  have "fst x < fst y" if "x \<in> set (fst b)" "b' \<in> set bs" "y \<in> set (fst b')" for x y b'
  proof -
    have "fst x \<le> fst (last (fst b))" by (rule strict_keys_last_ge [OF b(1) that(1)])
    also have "\<dots> \<le> snd b" by (rule b(3))
    also have "\<dots> < fst (hd (fst b'))" using nxt that(2) by blast
    also have "\<dots> \<le> fst y"
      using strict_keys_hd_le [of "fst b'" y] ok that(2,3) by (auto simp: table_ok_def)
    finally show ?thesis .
  qed
  with Cons.IH [OF ok] b(1) show ?case by (auto simp: strict_keys_append)
qed simp

lemma table_ok_seps: "table_ok bs \<Longrightarrow> sorted_wrt (<) (map snd bs)"
proof -
  assume ok: "table_ok bs"
  have "snd b < snd b'" if "snd b < fst (hd (fst b'))" "b' \<in> set bs" for b b'
  proof -
    have "fst b' \<noteq> []" "strict_keys (fst b')" "fst (last (fst b')) \<le> snd b'"
      using ok that(2) by (auto simp: table_ok_def)
    then show ?thesis using that(1) strict_keys_hd_le [of "fst b'" "last (fst b')"]
      by (meson last_in_set le_less_trans order_less_le_trans)
  qed
  then have "sorted_wrt (\<lambda>b b'. snd b < snd b') bs"
    using ok sorted_wrt_mono_rel [of bs "\<lambda>b b'. snd b < fst (hd (fst b'))" "\<lambda>b b'. snd b < snd b'"]
    by (auto simp: table_ok_def)
  then show ?thesis by (simp add: sorted_wrt_map)
qed

lemma table_entries_close: "table_entries st = concat (map fst (table_close st))"
  by (cases st) (simp add: table_entries_def table_close_def)

subsection \<open>Sizes\<close>

lemma length_enc_entry:
  assumes "s \<le> length k"
  shows "length (enc_entry (s, k, v)) \<le> 15 + length k + length v"
    and "3 + length v \<le> length (enc_entry (s, k, v))"
proof -
  have up: "length (mtbl_varint_encode32 x) \<le> 5" for x by (rule length_encode32_bounds)
  have lo: "1 \<le> length (mtbl_varint_encode32 x)" for x
    using encode32_nonempty [of x] by (metis One_nat_def Suc_leI length_greater_0_conv)
  show "length (enc_entry (s, k, v)) \<le> 15 + length k + length v"
    using up [of "of_nat s"] up [of "of_nat (length k - s)"] up [of "of_nat (length v)"] by simp
  show "3 + length v \<le> length (enc_entry (s, k, v))"
    using lo [of "of_nat s"] lo [of "of_nat (length k - s)"] lo [of "of_nat (length v)"] by simp
qed

lemma length_body_snoc:
  "length (body n (es @ [(k, v)])) \<le> length (body n es) + 15 + length k + length v"
  "length (body n es) + 3 \<le> length (body n (es @ [(k, v)]))"
proof -
  obtain s where s: "block_layout n (es @ [(k, v)]) = block_layout n es @ [(s, k, v)]" "s \<le> length k"
    by (simp add: block_layout_snoc lcp_le2)
  then have "length (body n (es @ [(k, v)])) = length (body n es) + length (enc_entry (s, k, v))"
    by (simp add: body_def del: enc_entry.simps)
  with length_enc_entry [OF s(2), of v]
  show "length (body n (es @ [(k, v)])) \<le> length (body n es) + 15 + length k + length v"
    "length (body n es) + 3 \<le> length (body n (es @ [(k, v)]))" by simp_all
qed

lemma body_Nil [simp]: "body n [] = []"
  by (simp add: body_def)

lemma length_body_ge: "3 * length es \<le> length (body n es)"
proof (induction es rule: rev_induct)
  case (snoc e es)
  then show ?case using length_body_snoc(2) [of n es "fst e" "snd e"] by simp
qed simp

lemma image_snoc:
  assumes "0 < n" and small: "length (block_image n es) + 15 + length k + length v \<le> UINT32_MAX"
  shows "length (block_image n (es @ [(k, v)])) \<le> length (block_image n es) + 15 + length k + length v + 4"
proof -
  have b: "length (body n (es @ [(k, v)])) \<le> length (body n es) + 15 + length k + length v"
    by (rule length_body_snoc)
  have w: "restart_width n es = 4" "restart_width n (es @ [(k, v)]) = 4"
    using b small length_block_image [of n es] by (simp_all add: restart_width_def)
  have "restart_count n (length (es @ [(k, v)])) \<le> restart_count n (length es) + 1"
    using assms(1) by (simp add: restart_count_Suc)
  then show ?thesis using b w by (simp add: length_block_image)
qed

lemma image_single:
  "length (block_image n [(k, v)]) \<le> length k + length v + 27"
  using length_body_snoc(1) [of n "[]" k v]
  by (simp add: length_block_image restart_width_def restart_count_def)

lemma image_ge: "es \<noteq> [] \<Longrightarrow> 11 \<le> length (block_image n es)"
proof -
  assume "es \<noteq> []"
  then have "3 * 1 \<le> length (body n es)" using length_body_ge [of es n] by (cases es) auto
  then show ?thesis by (simp add: length_block_image restart_width_def restart_count_def)
qed

text \<open>
  The bounds under which a table is written: blocks of at most 1 GB, so also entries, and fewer
  than 2^31 - 1 entries in a table that is read.
\<close>

definition entry_fits :: "entry \<Rightarrow> bool" where
  "entry_fits e \<longleftrightarrow> length (fst e) + length (snd e) + 27 \<le> 2 ^ 30"

definition opt_fits :: "mtbl_writer_options \<Rightarrow> bool" where
  "opt_fits opt \<longleftrightarrow> 0 < wo_block_restart_interval opt \<and> wo_block_size opt + 4 \<le> 2 ^ 30"

definition block_small :: "mtbl_writer_options \<Rightarrow> entry list \<Rightarrow> bool" where
  "block_small opt es \<longleftrightarrow> (\<forall>e\<in>set es. entry_fits e) \<and>
     (length es = 1 \<or> length (block_image (wo_block_restart_interval opt) es) < wo_block_size opt + 4)"

definition state_small :: "mtbl_writer_options \<Rightarrow> table_state \<Rightarrow> bool" where
  "state_small opt st \<longleftrightarrow> state_ok st \<and> (\<forall>b\<in>set (table_close st). block_small opt (fst b)) \<and>
     (\<forall>b\<in>set (table_close st). length (snd b) \<le> 2 ^ 30)"

lemma state_small_add:
  assumes opt: "opt_fits opt" and st: "state_small opt st" and e: "entry_fits e"
    and add: "table_add opt st e = (r, st')"
  shows "state_small opt st'"
proof -
  obtain dn cur where s: "st = (dn, cur)" by fastforce
  obtain k v where kv: "e = (k, v)" by fastforce
  let ?n = "wo_block_restart_interval opt"
  have ok: "state_ok st'" using state_ok_add [OF _ add] st by (simp add: state_small_def)
  have single: "block_small opt [(k, v)]" using e by (simp add: block_small_def kv)
  have k30: "length k \<le> 2 ^ 30" using e by (simp add: entry_fits_def kv)
  show ?thesis
  proof (cases "cur = []")
    case True
    then have "dn = []" using st by (simp add: state_small_def state_ok_def s)
    then show ?thesis
      using add True single k30 ok by (auto simp: s kv state_small_def table_close_def)
  next
    case False
    then have c: "block_small opt cur" "length (fst (last cur)) \<le> 2 ^ 30"
        "\<forall>b\<in>set dn. block_small opt (fst b) \<and> length (snd b) \<le> 2 ^ 30"
      using st by (auto simp: state_small_def s table_close_def)
    show ?thesis
    proof (cases "fst (last cur) < k")
      case False
      then show ?thesis using add st \<open>cur \<noteq> []\<close> by (auto simp: s kv)
    next
      case less: True
      show ?thesis
      proof (cases "wo_block_size opt \<le> length (block_image ?n cur) + 15 + length k + length v")
        case True
        then have st': "st' = (dn @ [(cur, separator (fst (last cur)) k)], [(k, v)])"
          using add less False by (simp add: s kv)
        have "length (separator (fst (last cur)) k) \<le> 2 ^ 30" using separator_le(4) [OF less] c(2) by simp
        then show ?thesis
          using c single k30 ok unfolding st' by (auto simp: state_small_def table_close_def)
      next
        case nb: False
        then have st': "st' = (dn, cur @ [(k, v)])" using add less False by (simp add: s kv)
        have "length (block_image ?n (cur @ [(k, v)])) \<le> length (block_image ?n cur) + 15 + length k + length v + 4"
          using opt nb by (intro image_snoc) (auto simp: opt_fits_def UINT32_MAX_def)
        then have "block_small opt (cur @ [(k, v)])"
          using c(1) nb e by (simp add: block_small_def kv)
        then show ?thesis
          using c k30 ok unfolding st' by (auto simp: state_small_def table_close_def)
      qed
    qed
  qed
qed

lemma block_small_image:
  assumes "opt_fits opt" and "block_small opt es" and "es \<noteq> []"
  shows "length (block_image (wo_block_restart_interval opt) es) \<le> 2 ^ 30"
proof (cases "length es = 1")
  case True
  then obtain k v where "es = [(k, v)]" by (cases es) auto
  then show ?thesis
    using assms image_single [of "wo_block_restart_interval opt" k v]
    by (simp add: block_small_def entry_fits_def)
next
  case False
  then show ?thesis using assms by (simp add: block_small_def opt_fits_def)
qed

lemma block_small_fits:
  assumes "opt_fits opt" and "block_small opt es" and "es \<noteq> []"
  shows "block_fits (wo_block_restart_interval opt) es"
proof -
  let ?n = "wo_block_restart_interval opt"
  have im: "length (block_image ?n es) \<le> 2 ^ 30" by (rule block_small_image [OF assms])
  have "3 * length es \<le> length (block_image ?n es)"
    using length_body_ge [of es ?n] by (simp add: length_block_image)
  with im have "length es < 2 ^ 31 - 1" by simp
  moreover have "small_entries es"
    using assms(2) by (auto simp: small_entries_def block_small_def entry_fits_def)
  ultimately show ?thesis using assms(1) im by (simp add: block_fits_def opt_fits_def)
qed

text \<open>
  A compressor that does its work on every block of at most \<open>lim\<close> bytes: the bounds on options and
  entries make every block that small. Libraries that keep their promises are such a compressor
  with the limit of their type.
\<close>

definition compressor_within :: "nat \<Rightarrow> 'z complib \<Rightarrow> mtbl_writer_options \<Rightarrow> bool" where
  "compressor_within lim L opt \<longleftrightarrow> (\<forall>raw. 11 \<le> length raw \<longrightarrow> length raw \<le> lim \<longrightarrow> lossless L opt raw)"

definition compressor_ok :: "'z complib \<Rightarrow> mtbl_writer_options \<Rightarrow> bool" where
  "compressor_ok L opt \<longleftrightarrow> compressor_within (2 ^ 30) L opt"

definition entry_within :: "nat \<Rightarrow> entry \<Rightarrow> bool" where
  "entry_within lim e \<longleftrightarrow> length (fst e) + length (snd e) + 27 \<le> lim"

definition table_fits :: "'z complib \<Rightarrow> mtbl_writer_options \<Rightarrow> entry list \<Rightarrow> bool" where
  "table_fits L opt es \<longleftrightarrow> 0 < wo_block_restart_interval opt \<and>
     (\<exists>lim. 11 \<le> lim \<and> lim \<le> 2 ^ 30 \<and> compressor_within lim L opt \<and> wo_block_size opt + 4 \<le> lim \<and>
        (\<forall>e\<in>set es. entry_within lim e))"

lemma table_fitsI:
  "opt_fits opt \<Longrightarrow> compressor_ok L opt \<Longrightarrow> \<forall>e\<in>set es. entry_fits e \<Longrightarrow> table_fits L opt es"
  unfolding table_fits_def
  by (intro conjI exI [of _ "2 ^ 30"]) (simp_all add: opt_fits_def compressor_ok_def entry_fits_def entry_within_def)

lemma table_fitsD:
  assumes "table_fits L opt es"
  shows "opt_fits opt" "\<forall>e\<in>set es. entry_fits e" "lossless L opt (replicate 11 0)"
  using assms by (auto simp: table_fits_def opt_fits_def entry_fits_def entry_within_def compressor_within_def)

lemma compressor_none: "wo_compression_type opt = MTBL_COMPRESSION_NONE \<Longrightarrow> compressor_ok L opt"
  by (auto simp: compressor_ok_def compressor_within_def lossless_def stored_def)

lemma compressor_complib:
  assumes "complib_ok L" and "\<forall>n. wo_compression_type opt \<noteq> MTBL_COMPRESSION_OTHER n"
  shows "compressor_within (compress_limit (wo_compression_type opt)) L opt"
  unfolding compressor_within_def lossless_def stored_def
  using compression_roundtrip [OF assms(1), of _ "wo_compression_type opt"] assms(2)
  by (fastforce simp del: mtbl_compress.simps mtbl_compress_level.simps mtbl_decompress.simps)

text \<open>The hypothesis, met by the libraries for every compression type.\<close>

lemma table_fits_complib:
  assumes "complib_ok L" and "\<forall>n. wo_compression_type opt \<noteq> MTBL_COMPRESSION_OTHER n"
    and "0 < wo_block_restart_interval opt" and "wo_block_size opt + 4 \<le> compress_limit (wo_compression_type opt)"
    and "\<forall>e\<in>set es. entry_within (compress_limit (wo_compression_type opt)) e"
  shows "table_fits L opt es"
  unfolding table_fits_def
  using compressor_complib [OF assms(1,2)] assms(3-5)
  by (intro conjI exI [of _ "compress_limit (wo_compression_type opt)"]) (simp_all add: compress_limit_def)

text \<open>Every block of a table within the bounds survives its compression.\<close>

definition blocks_lossless :: "'z complib \<Rightarrow> mtbl_writer_options \<Rightarrow> table_state \<Rightarrow> bool" where
  "blocks_lossless L opt st \<longleftrightarrow>
     (\<forall>b\<in>set (table_close st). lossless L opt (block_image (wo_block_restart_interval opt) (fst b)))"

lemma fits_lossless:
  assumes fits: "table_fits L opt (table_entries st)" and st: "state_small opt st"
  shows "blocks_lossless L opt st"
  unfolding blocks_lossless_def
proof
  fix b assume b: "b \<in> set (table_close st)"
  obtain lim where lim: "compressor_within lim L opt" "wo_block_size opt + 4 \<le> lim"
      "\<forall>e\<in>set (table_entries st). entry_within lim e"
    using fits by (auto simp: table_fits_def)
  have small: "block_small opt (fst b)" "fst b \<noteq> []"
    using st b by (auto simp: state_small_def state_ok_def table_ok_def)
  have es: "\<forall>e\<in>set (fst b). entry_within lim e"
    using lim(3) b by (auto simp: table_entries_close)
  have "length (block_image (wo_block_restart_interval opt) (fst b)) \<le> lim"
  proof (cases "length (fst b) = 1")
    case True
    then obtain k v where "fst b = [(k, v)]" by (cases "fst b") auto
    then show ?thesis
      using es image_single [of "wo_block_restart_interval opt" k v] by (simp add: entry_within_def)
  qed (use small lim(2) in \<open>simp add: block_small_def\<close>)
  then show "lossless L opt (block_image (wo_block_restart_interval opt) (fst b))"
    using lim(1) image_ge [OF small(2)] by (simp add: compressor_within_def)
qed

lemma state_small_init [simp]: "state_small opt ([], [])"
  by (simp add: state_small_def state_ok_def table_close_def table_ok_def)

end
