(* ===== verification/Reader.thy ===== *)
theory Reader
  imports Block_Image Compression Metadata
begin

text \<open>
  \<open>mtbl/reader.c\<close>: opening a table file, and its iterators. The file is the mapped bytes; the
  checksum function \<open>crc\<close> and the compression libraries \<open>L\<close> are arguments, as in the writer. NULL
  results are an inner \<open>None\<close>; a failed assertion or a read outside the file is an outer
  \<open>None\<close>. \<open>reader_iter_next\<close> returns the entry for \<open>mtbl_res_success\<close> and \<open>None\<close> for
  \<open>mtbl_res_failure\<close>.
\<close>

record mtbl_reader_options =
  ro_verify_checksums :: bool
  ro_madvise_random :: bool

definition mtbl_reader_options_init :: mtbl_reader_options where
  "mtbl_reader_options_init = \<lparr>ro_verify_checksums = False, ro_madvise_random = False\<rparr>"

definition mtbl_reader_options_set_madvise_random ::
  "mtbl_reader_options \<Rightarrow> bool \<Rightarrow> mtbl_reader_options" where
  "mtbl_reader_options_set_madvise_random opt madvise_random =
     opt\<lparr>ro_madvise_random := madvise_random\<rparr>"

definition mtbl_reader_options_set_verify_checksums ::
  "mtbl_reader_options \<Rightarrow> bool \<Rightarrow> mtbl_reader_options" where
  "mtbl_reader_options_set_verify_checksums opt verify_checksums =
     opt\<lparr>ro_verify_checksums := verify_checksums\<rparr>"

record mtbl_reader =
  r_m :: mtbl_metadata
  r_data :: bytes
  r_opt :: mtbl_reader_options
  r_index :: block

definition mtbl_reader_metadata :: "mtbl_reader \<Rightarrow> mtbl_metadata" where
  "mtbl_reader_metadata r = r_m r"

text \<open>Whether \<open>reader_init_madvise\<close> advises the kernel: the option, unless the environment says.\<close>

definition reader_init_madvise :: "mtbl_reader_options \<Rightarrow> string option \<Rightarrow> bool" where
  "reader_init_madvise opt env =
     (case env of
        None \<Rightarrow> ro_madvise_random opt
      | Some s \<Rightarrow> if s = ''0'' then False else if s = ''1'' then True else ro_madvise_random opt)"

text \<open>The length of a stored block and the size of that length, in either format.\<close>

definition block_length :: "mtbl_file_version \<Rightarrow> bytes \<Rightarrow> nat \<Rightarrow> (nat \<times> u64) option" where
  "block_length version data offset =
     (if version = MTBL_FORMAT_V1 then do {
        n \<leftarrow> mtbl_fixed_decode32 (drop offset data);
        Some (4, ucast n)
      } else mtbl_varint_decode64 (drop offset data))"

definition verify_block :: "(bytes \<Rightarrow> u32) \<Rightarrow> bytes \<Rightarrow> nat \<Rightarrow> nat \<Rightarrow> nat \<Rightarrow> unit option" where
  "verify_block crc data crc_offset offset len = do {
     stored_crc \<leftarrow> mtbl_fixed_decode32 (drop crc_offset data);
     contents \<leftarrow> bytes_at data offset len;
     ensure (stored_crc = crc contents)
   }"

definition mtbl_reader_init_fd ::
  "(bytes \<Rightarrow> u32) \<Rightarrow> bool \<Rightarrow> bytes \<Rightarrow> mtbl_reader_options option \<Rightarrow> mtbl_reader option option" where
  "mtbl_reader_init_fd crc map_failed data opt =
     (if length data < MTBL_METADATA_SIZE then Some None
      else if map_failed then Some None
      else do {
        let opt = (case opt of None \<Rightarrow> mtbl_reader_options_init | Some opt \<Rightarrow> opt);
        let metadata_offset = length data - MTBL_METADATA_SIZE;
        m \<leftarrow> metadata_read (drop metadata_offset data);
        (case m of
           None \<Rightarrow> Some None
         | Some m \<Rightarrow> do {
             let min_block_length = (if file_version m = MTBL_FORMAT_V1 then 16 else 13);
             let limit = index_block_offset m + of_nat MTBL_METADATA_SIZE + min_block_length;
             if limit > of_nat (length data) \<or> limit < index_block_offset m then Some None
             else do {
               let offset = unat (index_block_offset m);
               (index_len_len, index_len) \<leftarrow> block_length (file_version m) data offset;
               let index_data = offset + index_len_len + 4;
               (if ro_verify_checksums opt
                then verify_block crc data (offset + index_len_len) index_data (unat index_len)
                else Some ());
               index \<leftarrow> block_init (drop index_data data) index_len False;
               Some (Some \<lparr>r_m = m, r_data = data, r_opt = opt, r_index = index\<rparr>)
             }
           })
      })"

text \<open>\<open>open\<close> gives the file's bytes, or fails.\<close>

definition mtbl_reader_init ::
  "(bytes \<Rightarrow> u32) \<Rightarrow> bool \<Rightarrow> bytes option \<Rightarrow> mtbl_reader_options option \<Rightarrow> mtbl_reader option option" where
  "mtbl_reader_init crc map_failed opened opt =
     (case opened of
        None \<Rightarrow> Some None
      | Some data \<Rightarrow> mtbl_reader_init_fd crc map_failed data opt)"

definition get_block ::
  "(bytes \<Rightarrow> u32) \<Rightarrow> 'z complib \<Rightarrow> mtbl_reader \<Rightarrow> u64 \<Rightarrow> block option" where
  "get_block crc L r offset = do {
     ensure (unat offset < length (r_data r));
     (size_len, size) \<leftarrow> block_length (file_version (r_m r)) (r_data r) (unat offset);
     let raw = unat offset + size_len + 4;
     (if ro_verify_checksums (r_opt r)
      then verify_block crc (r_data r) (unat offset + size_len) raw (unat size)
      else Some ());
     if compression_algorithm (r_m r) = 0 then block_init (drop raw (r_data r)) size False
     else do {
       raw_contents \<leftarrow> bytes_at (r_data r) raw (unat size);
       res \<leftarrow> mtbl_decompress L (compression_of_code (ucast (compression_algorithm (r_m r)))) raw_contents;
       block_contents \<leftarrow> res;
       block_init block_contents (of_nat (length block_contents)) True
     }
   }"

text \<open>The offset is decoded at the value's address in the index block.\<close>

definition index_offset :: "block_iter \<Rightarrow> u64 option" where
  "index_offset index_iter =
     map_option snd (mtbl_varint_decode64 (drop (bi_val index_iter) (bi_data index_iter)))"

definition get_block_at_index ::
  "(bytes \<Rightarrow> u32) \<Rightarrow> 'z complib \<Rightarrow> mtbl_reader \<Rightarrow> block_iter \<Rightarrow> block option option" where
  "get_block_at_index crc L r index_iter = do {
     e \<leftarrow> block_iter_get index_iter;
     case e of
       None \<Rightarrow> Some None
     | Some _ \<Rightarrow> do {
         offset \<leftarrow> index_offset index_iter;
         b \<leftarrow> get_block crc L r offset;
         Some (Some b)
       }
   }"

subsection \<open>Iterators\<close>

datatype reader_iter_type =
    READER_ITER_TYPE_ITER
  | READER_ITER_TYPE_GET
  | READER_ITER_TYPE_GET_PREFIX
  | READER_ITER_TYPE_GET_RANGE

record reader_iter_state =
  it_block_offset :: u64
  it_b :: "block option"
  it_bi :: "block_iter option"
  it_index_iter :: block_iter
  it_k :: bytes
  it_first :: bool
  it_valid :: bool
  it_type :: reader_iter_type

definition reader_iter ::
  "(bytes \<Rightarrow> u32) \<Rightarrow> 'z complib \<Rightarrow> mtbl_reader \<Rightarrow> reader_iter_state option option" where
  "reader_iter crc L r = do {
     index_iter \<leftarrow> block_iter_init (r_index r);
     index_iter \<leftarrow> block_iter_seek_to_first index_iter;
     b \<leftarrow> get_block_at_index crc L r index_iter;
     case b of
       None \<Rightarrow> Some None
     | Some b \<Rightarrow> do {
         bi \<leftarrow> block_iter_init b;
         bi \<leftarrow> block_iter_seek_to_first bi;
         Some (Some \<lparr>it_block_offset = 0, it_b = Some b, it_bi = Some bi,
           it_index_iter = index_iter, it_k = [], it_first = True, it_valid = True,
           it_type = READER_ITER_TYPE_ITER\<rparr>)
       }
   }"

definition reader_iter_init ::
  "(bytes \<Rightarrow> u32) \<Rightarrow> 'z complib \<Rightarrow> mtbl_reader \<Rightarrow> bytes \<Rightarrow> reader_iter_state option option" where
  "reader_iter_init crc L r key = do {
     index_iter \<leftarrow> block_iter_init (r_index r);
     index_iter \<leftarrow> block_iter_seek index_iter key;
     b \<leftarrow> get_block_at_index crc L r index_iter;
     case b of
       None \<Rightarrow> Some None
     | Some b \<Rightarrow> do {
         bi \<leftarrow> block_iter_init b;
         bi \<leftarrow> block_iter_seek bi key;
         Some (Some \<lparr>it_block_offset = 0, it_b = Some b, it_bi = Some bi,
           it_index_iter = index_iter, it_k = [], it_first = True, it_valid = True,
           it_type = READER_ITER_TYPE_ITER\<rparr>)
       }
   }"

definition reader_get ::
  "(bytes \<Rightarrow> u32) \<Rightarrow> 'z complib \<Rightarrow> mtbl_reader \<Rightarrow> bytes \<Rightarrow> reader_iter_state option option" where
  "reader_get crc L r key =
     map_option (map_option (\<lambda>it. it\<lparr>it_k := key, it_type := READER_ITER_TYPE_GET\<rparr>))
       (reader_iter_init crc L r key)"

definition reader_get_prefix ::
  "(bytes \<Rightarrow> u32) \<Rightarrow> 'z complib \<Rightarrow> mtbl_reader \<Rightarrow> bytes \<Rightarrow> reader_iter_state option option" where
  "reader_get_prefix crc L r key =
     map_option (map_option (\<lambda>it. it\<lparr>it_k := key, it_type := READER_ITER_TYPE_GET_PREFIX\<rparr>))
       (reader_iter_init crc L r key)"

definition reader_get_range ::
  "(bytes \<Rightarrow> u32) \<Rightarrow> 'z complib \<Rightarrow> mtbl_reader \<Rightarrow> bytes \<Rightarrow> bytes \<Rightarrow> reader_iter_state option option" where
  "reader_get_range crc L r key0 key1 =
     map_option (map_option (\<lambda>it. it\<lparr>it_k := key1, it_type := READER_ITER_TYPE_GET_RANGE\<rparr>))
       (reader_iter_init crc L r key0)"

definition needs_index_seek :: "reader_iter_state \<Rightarrow> bytes \<Rightarrow> bool option" where
  "needs_index_seek it seek_key =
     (if it_first it \<or> it_b it = None then Some True
      else do {
        bi \<leftarrow> it_bi it;
        e \<leftarrow> block_iter_get bi;
        case e of
          None \<Rightarrow> Some True
        | Some (key, val) \<Rightarrow>
            if bytes_compare key seek_key > 0 then Some True
            else do {
              e \<leftarrow> block_iter_get (it_index_iter it);
              case e of
                None \<Rightarrow> Some True
              | Some (key, val) \<Rightarrow> Some (bytes_compare key seek_key < 0)
            }
      })"

definition reader_iter_seek ::
  "(bytes \<Rightarrow> u32) \<Rightarrow> 'z complib \<Rightarrow> mtbl_reader \<Rightarrow> reader_iter_state \<Rightarrow> bytes \<Rightarrow> reader_iter_state option" where
  "reader_iter_seek crc L r it key = do {
     needs \<leftarrow> needs_index_seek it key;
     index_iter \<leftarrow>
       (if needs then block_iter_seek (it_index_iter it) key else Some (it_index_iter it));
     let it = it\<lparr>it_index_iter := index_iter\<rparr>;
     e \<leftarrow> block_iter_get index_iter;
     case e of
       None \<Rightarrow> Some (it\<lparr>it_valid := False\<rparr>)
     | Some _ \<Rightarrow> do {
         new_offset \<leftarrow> index_offset index_iter;
         it \<leftarrow>
           (if it_b it = None \<or> it_block_offset it \<noteq> new_offset then do {
              b \<leftarrow> get_block crc L r new_offset;
              bi \<leftarrow> block_iter_init b;
              Some (it\<lparr>it_block_offset := new_offset, it_b := Some b, it_bi := Some bi\<rparr>)
            } else Some it);
         bi \<leftarrow> it_bi it;
         bi \<leftarrow> block_iter_seek bi key;
         Some (it\<lparr>it_bi := Some bi, it_first := True, it_valid := True\<rparr>)
       }
   }"

text \<open>The type test at the end of \<open>reader_iter_next\<close>.\<close>

fun iter_accepts :: "reader_iter_type \<Rightarrow> bytes \<Rightarrow> bytes \<Rightarrow> bool" where
  "iter_accepts READER_ITER_TYPE_ITER k key \<longleftrightarrow> True"
| "iter_accepts READER_ITER_TYPE_GET k key \<longleftrightarrow> \<not> bytes_compare key k \<noteq> 0"
| "iter_accepts READER_ITER_TYPE_GET_PREFIX k key \<longleftrightarrow>
     length k \<le> length key \<and> memcmp k key (length k) = 0"
| "iter_accepts READER_ITER_TYPE_GET_RANGE k key \<longleftrightarrow> \<not> bytes_compare key k > 0"

definition reader_iter_next ::
  "(bytes \<Rightarrow> u32) \<Rightarrow> 'z complib \<Rightarrow> mtbl_reader \<Rightarrow> reader_iter_state \<Rightarrow> (entry option \<times> reader_iter_state) option" where
  "reader_iter_next crc L r it =
     (if \<not> it_valid it then Some (None, it)
      else do {
        bi \<leftarrow> it_bi it;
        bi \<leftarrow> (if \<not> it_first it then map_option snd (block_iter_next bi) else Some bi);
        let it = it\<lparr>it_bi := Some bi, it_first := False\<rparr>;
        e \<leftarrow> block_iter_get bi;
        (e, it) \<leftarrow>
          (case e of
             Some e \<Rightarrow> Some (Some e, it\<lparr>it_valid := True\<rparr>)
           | None \<Rightarrow> do {
               let it = it\<lparr>it_valid := False, it_b := None, it_bi := None\<rparr>;
               (more, index_iter) \<leftarrow> block_iter_next (it_index_iter it);
               let it = it\<lparr>it_index_iter := index_iter\<rparr>;
               if \<not> more then Some (None, it)
               else do {
                 b \<leftarrow> get_block_at_index crc L r index_iter;
                 b \<leftarrow> b;
                 bi \<leftarrow> block_iter_init b;
                 bi \<leftarrow> block_iter_seek_to_first bi;
                 e \<leftarrow> block_iter_get bi;
                 Some (e, it\<lparr>it_b := Some b, it_bi := Some bi, it_valid := (e \<noteq> None)\<rparr>)
               }
             });
        case e of
          None \<Rightarrow> Some (None, it)
        | Some (key, val) \<Rightarrow>
            if iter_accepts (it_type it) (it_k it) key then Some (Some (key, val), it)
            else Some (None, it\<lparr>it_valid := False\<rparr>)
      })"

end
