(* ===== verification/Table_Reader.thy ===== *)
theory Table_Reader
  imports Table_Facts Reader
begin

text \<open>
  What a reader does on the file a writer left: it opens, every block the index names loads, and
  the iterators deliver the entries of the table. \<open>opens\<close> is what the iterators rely on;
  \<open>loads\<close> the same for one block.
\<close>

subsection \<open>Reading a stored block\<close>

lemma frame_at:
  assumes "data = pre @ frame crc p @ rest" and "offset = length pre"
  shows "block_length MTBL_FORMAT_V2 data offset =
      Some (length (mtbl_varint_encode64 (of_nat (length p))), of_nat (length p))"
    and "drop (offset + length (mtbl_varint_encode64 (of_nat (length p))) + 4) data = p @ rest"
    and "mtbl_fixed_decode32 (drop (offset + length (mtbl_varint_encode64 (of_nat (length p)))) data) = Some (crc p)"
  using assms by (simp_all add: frame_def block_length_def wire_simps)

lemma verify_frame:
  assumes "data = pre @ frame crc p @ rest" and "offset = length pre"
  shows "verify_block crc data (offset + length (mtbl_varint_encode64 (of_nat (length p))))
    (offset + length (mtbl_varint_encode64 (of_nat (length p))) + 4) (length p) = Some ()"
proof -
  have "bytes_at data (offset + length (mtbl_varint_encode64 (of_nat (length p))) + 4) (length p) = Some p"
    using bytes_at_at [of _ "pre @ mtbl_varint_encode64 (of_nat (length p)) @ mtbl_fixed_encode32 (crc p)" _ p rest]
      assms by (simp add: frame_def add.assoc)
  then show ?thesis using frame_at(3) [OF assms] by (simp add: verify_block_def)
qed

text \<open>A block is loaded: its iterator starts at the end of the block, as \<open>block_iter_init\<close> leaves it.\<close>

definition loads :: "block \<Rightarrow> nat \<Rightarrow> entry list \<Rightarrow> bool" where
  "loads b n es \<longleftrightarrow> (\<exists>bi. block_iter_init b = Some bi \<and> at_end bi n es)"

lemma block_init_loads:
  assumes "block_fits n es"
  shows "\<exists>b. block_init (block_image n es @ rest) (of_nat (length (block_image n es))) f = Some b \<and>
    loads b n es"
  using block_iter_image [OF assms, of rest f] by (auto simp: loads_def)

lemma compression_of_code_code:
  "\<forall>n. t \<noteq> MTBL_COMPRESSION_OTHER n \<Longrightarrow> compression_of_code (compression_code t) = t"
  by (cases t) (simp_all add: compression_of_code_def)

lemma lossless_known:
  assumes "lossless L opt raw"
  shows "\<forall>n. wo_compression_type opt \<noteq> MTBL_COMPRESSION_OTHER n"
  using assms by (auto simp: lossless_def stored_def)

lemma code_zero_iff:
  assumes "\<forall>n. t \<noteq> MTBL_COMPRESSION_OTHER n"
  shows "(ucast (compression_code t) :: u64) = 0 \<longleftrightarrow> t = MTBL_COMPRESSION_NONE"
  using assms by (cases t) simp_all

lemma get_block_ok:
  assumes data: "r_data r = pre @ frame crc (payload L opt (block_image n es)) @ rest"
    and off: "length pre < 2 ^ 63" and v: "file_version (r_m r) = MTBL_FORMAT_V2"
    and alg: "compression_algorithm (r_m r) = ucast (compression_code (wo_compression_type opt))"
    and fits: "block_fits n es" and ok: "lossless L opt (block_image n es)"
    and small: "length (r_data r) < 2 ^ 63"
  shows "\<exists>b. get_block crc L r (of_nat (length pre)) = Some b \<and> loads b n es"
proof -
  let ?p = "payload L opt (block_image n es)"
  let ?lv = "length (mtbl_varint_encode64 (of_nat (length ?p)))"
  have un: "unat (of_nat (length pre) :: u64) = length pre"
    using off by (intro unat_of_nat_small) simp
  have ne: "frame crc ?p \<noteq> []" by (simp add: frame_def)
  note at = frame_at [OF data refl] and vf = verify_frame [OF data refl]
  have lt: "length pre < length (r_data r)" using data ne by simp
  have plen: "unat (of_nat (length ?p) :: u64) = length ?p"
  proof -
    have "length ?p < 2 ^ 63" using small data by (simp add: frame_def)
    then show ?thesis by (intro unat_of_nat_small) simp
  qed
  show ?thesis
  proof (cases "wo_compression_type opt = MTBL_COMPRESSION_NONE")
    case True
    then have "compression_algorithm (r_m r) = 0" and p: "?p = block_image n es"
      using alg by (simp_all add: payload_plain)
    then show ?thesis
      using block_init_loads [OF fits, of rest False] at vf lt un plen v
      by (simp add: get_block_def p)
  next
    case False
    have known: "\<forall>n. wo_compression_type opt \<noteq> MTBL_COMPRESSION_OTHER n" by (rule lossless_known [OF ok])
    then have nz: "compression_algorithm (r_m r) \<noteq> 0" using alg code_zero_iff False by simp
    have cc: "compression_of_code (ucast (compression_algorithm (r_m r))) = wo_compression_type opt"
      using alg compression_of_code_code [OF known] by simp
    have raw: "bytes_at (r_data r) (length pre + ?lv + 4) (length ?p) = Some ?p"
      using bytes_at_at [of _ "pre @ mtbl_varint_encode64 (of_nat (length ?p)) @ mtbl_fixed_encode32 (crc ?p)" _ ?p rest]
        data by (simp add: frame_def add.assoc)
    show ?thesis
      using block_init_loads [OF fits, of "[]" True] at vf lt un plen v nz cc raw
        payload_decompress [OF ok False]
      by (simp add: get_block_def)
  qed
qed

subsection \<open>The blocks of a table\<close>

definition block_offset :: "'z complib \<Rightarrow> (bytes \<Rightarrow> u32) \<Rightarrow> mtbl_writer_options \<Rightarrow> bytes \<Rightarrow> tblock list \<Rightarrow> nat \<Rightarrow> nat" where
  "block_offset L crc opt pre bs i = length pre + length (block_frames L crc opt (take i bs))"

lemma index_entries_nth:
  "i < length bs \<Longrightarrow> index_entries L crc opt offset bs ! i =
     (snd (bs ! i), mtbl_varint_encode64 (of_nat (offset + length (block_frames L crc opt (take i bs)))))"
proof (induction bs arbitrary: offset i)
  case (Cons b bs)
  then show ?case by (cases i) (simp_all add: add.assoc)
qed simp

lemma block_frames_split:
  assumes "i < length bs"
  shows "block_frames L crc opt bs = block_frames L crc opt (take i bs) @
    frame crc (block_payload L opt (bs ! i)) @ block_frames L crc opt (drop (Suc i) bs)"
proof -
  have "bs = take i bs @ bs ! i # drop (Suc i) bs" using assms by (simp add: id_take_nth_drop)
  then show ?thesis by (metis block_frames_simps(2,3))
qed

text \<open>What the iterators rely on: the index, and loading any block of it.\<close>

definition opens ::
  "(bytes \<Rightarrow> u32) \<Rightarrow> 'z complib \<Rightarrow> mtbl_reader \<Rightarrow> nat \<Rightarrow> tblock list \<Rightarrow> (nat \<Rightarrow> u64) \<Rightarrow> entry list \<Rightarrow> bool" where
  "opens crc L r n bs offs ix \<longleftrightarrow> table_ok bs \<and> loads (r_index r) n ix \<and> length ix = length bs \<and>
     (\<forall>i<length bs. ix ! i = (snd (bs ! i), mtbl_varint_encode64 (offs i)) \<and>
        (\<exists>b. get_block crc L r (offs i) = Some b \<and> loads b n (fst (bs ! i)))) \<and>
     (\<forall>i j. i < j \<longrightarrow> j < length bs \<longrightarrow> offs i < offs j)"

lemma frame_pos: "0 < length (frame crc p)"
  by (simp add: frame_def)

lemma block_offset_mono:
  assumes "i < j" and "j \<le> length bs"
  shows "block_offset L crc opt pre bs i < block_offset L crc opt pre bs j"
proof -
  have "take j bs = take i bs @ bs ! i # drop (Suc i) (take j bs)"
    using assms id_take_nth_drop [of i "take j bs"] by (simp add: min_def)
  then have "block_frames L crc opt (take j bs) =
      block_frames L crc opt (take i bs @ bs ! i # drop (Suc i) (take j bs))"
    by (rule arg_cong)
  then have "length (block_frames L crc opt (take j bs)) =
      length (block_frames L crc opt (take i bs)) + (length (frame crc (block_payload L opt (bs ! i))) +
      length (block_frames L crc opt (drop (Suc i) (take j bs))))"
    by (simp only: block_frames_simps length_append)
  then show ?thesis using frame_pos [of crc "block_payload L opt (bs ! i)"] by (simp add: block_offset_def)
qed

text \<open>No more blocks than entries, so the index fits its block.\<close>

lemma blocks_le_entries: "\<forall>b\<in>set bs. fst b \<noteq> [] \<Longrightarrow> length bs \<le> length (concat (map fst bs))"
proof (induction bs)
  case (Cons b bs)
  then have "1 \<le> length (fst b)" by (cases "fst b") auto
  then show ?case using Cons by simp
qed simp

lemma index_fits:
  assumes fits: "opt_fits opt" "state_small opt st" and cnt: "length (table_entries st) < 2 ^ 31 - 1"
    and bs: "bs = table_close st"
    and len: "length (block_image (wo_block_restart_interval opt) (index_entries L crc opt n bs)) < 2 ^ 63"
  shows "block_fits (wo_block_restart_interval opt) (index_entries L crc opt n bs)"
proof -
  have blocks: "\<forall>b\<in>set bs. fst b \<noteq> [] \<and> length (snd b) \<le> 2 ^ 30"
    using fits(2) by (auto simp: state_small_def state_ok_def table_ok_def bs)
  then have few: "length bs \<le> length (table_entries st)"
    using blocks_le_entries [of bs] by (simp add: table_entries_close bs)
  have "length (snd (bs ! i)) + length (mtbl_varint_encode64 (x :: u64)) < 4294967296" if i: "i < length bs" for i x
  proof -
    have "length (snd (bs ! i)) \<le> 2 ^ 30" using blocks i by simp
    moreover have "length (mtbl_varint_encode64 x) \<le> 10" by (rule length_encode64_bounds)
    ultimately show ?thesis by simp
  qed
  then have "small_entries (index_entries L crc opt n bs)"
    by (clarsimp simp: small_entries_def in_set_conv_nth index_entries_nth)
  then show ?thesis using few cnt fits(1) len by (simp add: block_fits_def opt_fits_def)
qed

text \<open>A reader of such a file finds every block.\<close>

lemma image_opens:
  fixes crc :: "bytes \<Rightarrow> u32" and L :: "'z complib"
  assumes fits: "opt_fits opt" "state_small opt st" and comp: "blocks_lossless L opt st" and bs: "bs = table_close st"
    and r: "r_data r = pre @ block_frames L crc opt bs @ rest" "length (r_data r) < 2 ^ 63"
      "file_version (r_m r) = MTBL_FORMAT_V2" "compression_algorithm (r_m r) = compression_algorithm (table_meta L crc opt es bs)"
    and ix: "loads (r_index r) (wo_block_restart_interval opt) (index_entries L crc opt (length pre) bs)"
  shows "opens crc L r (wo_block_restart_interval opt) bs (\<lambda>i. of_nat (block_offset L crc opt pre bs i))
    (index_entries L crc opt (length pre) bs)"
  unfolding opens_def
proof (intro conjI allI impI)
  show "table_ok bs" using fits(2) by (simp add: state_small_def state_ok_def bs)
  fix i assume i: "i < length bs"
  show "index_entries L crc opt (length pre) bs ! i =
      (snd (bs ! i), mtbl_varint_encode64 (of_nat (block_offset L crc opt pre bs i)))"
    using i by (simp add: index_entries_nth block_offset_def)
  have small: "block_small opt (fst (bs ! i))" "fst (bs ! i) \<noteq> []"
    using fits(2) i by (auto simp: state_small_def state_ok_def table_ok_def bs)
  have ll: "lossless L opt (block_image (wo_block_restart_interval opt) (fst (bs ! i)))"
    using comp i by (simp add: blocks_lossless_def bs)
  have "r_data r = (pre @ block_frames L crc opt (take i bs)) @
      frame crc (payload L opt (block_image (wo_block_restart_interval opt) (fst (bs ! i)))) @
      block_frames L crc opt (drop (Suc i) bs) @ rest"
    using block_frames_split [OF i, of L crc opt] by (simp add: r(1) block_payload_def)
  moreover have "length (pre @ block_frames L crc opt (take i bs)) < 2 ^ 63"
    using r(2) calculation by simp
  ultimately have "\<exists>b. get_block crc L r (of_nat (length (pre @ block_frames L crc opt (take i bs)))) = Some b \<and>
      loads b (wo_block_restart_interval opt) (fst (bs ! i))"
    using r(2-4) block_small_fits [OF fits(1) small] ll
    by (intro get_block_ok) (simp_all add: table_meta_def)
  then show "\<exists>b. get_block crc L r (of_nat (block_offset L crc opt pre bs i)) = Some b \<and>
      loads b (wo_block_restart_interval opt) (fst (bs ! i))"
    by (simp add: block_offset_def)
next
  fix i j assume ij: "i < j" "j < length bs"
  have "block_offset L crc opt pre bs j < 2 ^ 63"
    using block_offset_mono [of j "length bs" bs L crc opt pre] ij r(1,2) by (simp add: block_offset_def)
  with block_offset_mono [of i j bs L crc opt pre] ij
  show "(of_nat (block_offset L crc opt pre bs i) :: u64) < of_nat (block_offset L crc opt pre bs j)"
    by (simp add: word_less_nat_alt unat_of_nat_small)
qed (use ix in simp_all)

text \<open>Opening any file that ends in an index block and its metadata.\<close>

lemma init_fd_ok:
  assumes tf: "tf = blocks @ frame crc ip @ metadata_write m" and len: "length tf < 2 ^ 63"
    and m: "file_version m = MTBL_FORMAT_V2" "index_block_offset m = of_nat (length blocks)" and ip: "8 \<le> length ip"
    and index: "block_init (ip @ metadata_write m) (of_nat (length ip)) False = Some index"
    and meta: "metadata_read (metadata_write m) = Some (Some m)"
  shows "mtbl_reader_init_fd crc False tf ropt = Some (Some \<lparr>r_m = m, r_data = tf,
    r_opt = (case ropt of None \<Rightarrow> mtbl_reader_options_init | Some opt \<Rightarrow> opt), r_index = index\<rparr>)"
proof -
  note at = frame_at [of tf blocks crc ip "metadata_write m", OF tf refl]
  note vf = verify_frame [of tf blocks crc ip "metadata_write m", OF tf refl]
  have tot: "length tf = length blocks + length (frame crc ip) + 512" using tf by simp
  have flen: "13 \<le> length (frame crc ip)"
  proof -
    have "0 < length (mtbl_varint_encode64 (of_nat (length ip)))" by simp
    then show ?thesis using ip by (simp only: frame_def length_append length_fixed_encode)
  qed
  have off: "unat (index_block_offset m) = length blocks"
    unfolding m(2) using len tot by (intro unat_of_nat_small) simp
  have lim: "unat (index_block_offset m + of_nat MTBL_METADATA_SIZE + 13) = length blocks + 525"
  proof -
    have "index_block_offset m + of_nat MTBL_METADATA_SIZE + 13 = of_nat (length blocks + 525)"
      by (simp add: m(2) MTBL_METADATA_SIZE_def)
    moreover have "length blocks + 525 < 2 ^ LENGTH(64)" using len tot by simp
    ultimately show ?thesis by (simp only: unat_of_nat_small)
  qed
  have fl: "unat (of_nat (length tf) :: u64) = length tf" using len by (intro unat_of_nat_small) simp
  have nolim: "\<not> (index_block_offset m + of_nat MTBL_METADATA_SIZE + 13 > of_nat (length tf) \<or>
      index_block_offset m + of_nat MTBL_METADATA_SIZE + 13 < index_block_offset m)"
    unfolding word_less_nat_alt lim fl off using tot flen by simp
  have plen: "unat (of_nat (length ip) :: u64) = length ip"
  proof -
    have "length ip < 2 ^ 63" using len tf by (simp add: frame_def)
    then show ?thesis by (intro unat_of_nat_small) simp
  qed
  have "drop (length tf - MTBL_METADATA_SIZE) tf = metadata_write m"
    using tf by (simp add: MTBL_METADATA_SIZE_def)
  then have "metadata_read (drop (length tf - MTBL_METADATA_SIZE) tf) = Some (Some m)" using meta by simp
  then show ?thesis
    unfolding mtbl_reader_init_fd_def
    using nolim m(1) off at vf index plen tot
    by (simp add: Let_def MTBL_METADATA_SIZE_def del: of_nat_numeral)
qed

lemma reader_opens:
  fixes pre :: bytes and es :: "entry list" and crc :: "bytes \<Rightarrow> u32" and L :: "'z complib"
  assumes fits: "opt_fits opt" "state_small opt st" and comp: "blocks_lossless L opt st"
    and cnt: "length (table_entries st) < 2 ^ 31 - 1"
  defines "bs \<equiv> table_close st"
  defines "tf \<equiv> table_image L crc opt pre es bs"
  assumes len: "length tf < 2 ^ 63"
  shows "\<exists>r. mtbl_reader_init_fd crc False tf ropt = Some (Some r) \<and>
    opens crc L r (wo_block_restart_interval opt) bs (\<lambda>i. of_nat (block_offset L crc opt pre bs i))
      (index_entries L crc opt (length pre) bs) \<and>
    r_m r = (table_meta L crc opt es bs)\<lparr>
      index_block_offset := of_nat (length pre + length (block_frames L crc opt bs)),
      bytes_index_block := of_nat (length (frame crc (table_index L crc opt (length pre) bs)))\<rparr>"
proof -
  let ?n = "wo_block_restart_interval opt" and ?ix = "index_entries L crc opt (length pre) bs"
  let ?fr = "block_frames L crc opt bs" and ?ip = "table_index L crc opt (length pre) bs"
  define m where "m = (table_meta L crc opt es bs)\<lparr>
      index_block_offset := of_nat (length pre + length ?fr),
      bytes_index_block := of_nat (length (frame crc ?ip))\<rparr>"
  have tf: "tf = (pre @ ?fr) @ frame crc ?ip @ metadata_write m"
    by (simp add: tf_def table_image_def Let_def m_def)
  have v2: "file_version m = MTBL_FORMAT_V2" by (simp add: m_def table_meta_def)
  have ifits: "block_fits ?n ?ix"
    by (rule index_fits [OF fits cnt]) (use len tf in \<open>simp_all add: bs_def frame_def table_index_def\<close>)
  obtain index where index: "block_init (?ip @ metadata_write m) (of_nat (length ?ip)) False = Some index"
      "loads index ?n ?ix"
    using block_init_loads [OF ifits, of "metadata_write m" False] by (auto simp: table_index_def)
  have ilen: "8 \<le> length ?ip"
    using length_block_image [of ?n ?ix] by (simp add: table_index_def restart_width_def restart_count_def)
  have meta: "metadata_read (metadata_write m) = Some (Some m)"
    using metadata_read_write [of m "[]"] v2 by (simp add: m_def table_meta_def)
  have off: "index_block_offset m = of_nat (length (pre @ ?fr))" by (simp add: m_def)
  let ?r = "\<lparr>r_m = m, r_data = tf, r_opt = (case ropt of None \<Rightarrow> mtbl_reader_options_init | Some opt \<Rightarrow> opt), r_index = index\<rparr>"
  have "mtbl_reader_init_fd crc False tf ropt = Some (Some ?r)"
    by (rule init_fd_ok [OF tf len v2 off ilen index(1) meta])
  moreover have "opens crc L ?r ?n bs (\<lambda>i. of_nat (block_offset L crc opt pre bs i)) ?ix"
  proof (rule image_opens [OF fits comp])
    show "bs = table_close st" by (simp add: bs_def)
    show "r_data ?r = pre @ ?fr @ frame crc ?ip @ metadata_write m" using tf by simp
    show "compression_algorithm (r_m ?r) = compression_algorithm (table_meta L crc opt es bs)" by (simp add: m_def)
  qed (use len v2 index(2) in simp_all)
  ultimately show ?thesis by (auto simp: m_def)
qed

end
