(* ===== verification/Reader_Iter.thy ===== *)
theory Reader_Iter
  imports Table_Reader
begin

text \<open>
  The iterators of \<open>mtbl/reader.c\<close> on an opened table. \<open>it_at\<close> places an iterator: its index
  iterator at index entry \<open>i\<close>, block \<open>c\<close> loaded, its block iterator at entry \<open>j\<close> of that
  block. \<open>reader_pending\<close> gives the block loaded and the entries still to come. The iterator is interpreted as a
  \<open>cursor\<close>; \<open>reader_seek_ok\<close> says when a seek goes to the first entry at least the target.
\<close>

subsection \<open>Positions\<close>

definition entries_from :: "tblock list \<Rightarrow> nat \<Rightarrow> nat \<Rightarrow> entry list" where
  "entries_from bs i j = drop j (fst (bs ! i)) @ concat (map fst (drop (Suc i) bs))"

lemma entries_from_start: "bs \<noteq> [] \<Longrightarrow> entries_from bs 0 0 = concat (map fst bs)"
  by (cases bs) (simp_all add: entries_from_def)

lemma entries_from_step:
  "j < length (fst (bs ! i)) \<Longrightarrow> entries_from bs i j = fst (bs ! i) ! j # entries_from bs i (Suc j)"
  by (simp add: entries_from_def Cons_nth_drop_Suc [symmetric])

lemma entries_from_next:
  "length (fst (bs ! i)) \<le> j \<Longrightarrow> Suc i < length bs \<Longrightarrow> entries_from bs i j = entries_from bs (Suc i) 0"
  by (simp add: entries_from_def Cons_nth_drop_Suc [symmetric])

lemma entries_from_end:
  "length (fst (bs ! i)) \<le> j \<Longrightarrow> \<not> Suc i < length bs \<Longrightarrow> entries_from bs i j = []"
  by (simp add: entries_from_def)

definition it_at ::
  "nat \<Rightarrow> tblock list \<Rightarrow> entry list \<Rightarrow> reader_iter_state \<Rightarrow> nat \<Rightarrow> nat \<Rightarrow> nat \<Rightarrow> bool" where
  "it_at n bs ix it i c j \<longleftrightarrow> i \<le> length bs \<and> positioned (it_index_iter it) n ix i \<and>
     (it_b it \<noteq> None \<longrightarrow> c < length bs \<and>
        (\<exists>bi. it_bi it = Some bi \<and> positioned bi n (fst (bs ! c)) j) \<and>
        (\<not> it_first it \<longrightarrow> i = c \<or> i = length bs))"

definition reader_pending ::
  "nat \<Rightarrow> tblock list \<Rightarrow> entry list \<Rightarrow> reader_iter_state \<Rightarrow> nat \<Rightarrow> entry list \<Rightarrow> bool" where
  "reader_pending n bs ix it c rest \<longleftrightarrow> (\<exists>i j. it_at n bs ix it i c j \<and>
     (if it_valid it then it_b it \<noteq> None \<and> i = c \<and>
        (if it_first it then rest = entries_from bs i j
         else j < length (fst (bs ! i)) \<and> rest = entries_from bs i (Suc j))
      else rest = []))"

lemma loads_first:
  assumes "loads b n es"
  shows "\<exists>bi0 bi. block_iter_init b = Some bi0 \<and> block_iter_seek_to_first bi0 = Some bi \<and> positioned bi n es 0"
proof -
  obtain bi0 where "block_iter_init b = Some bi0" "iter_of bi0 n es"
    using assms by (auto simp: loads_def at_end_def)
  with block_iter_seek_to_first_ok show ?thesis by blast
qed

lemma loads_seek:
  assumes "loads b n es" and "strict_keys es"
  shows "\<exists>bi0 bi. block_iter_init b = Some bi0 \<and> block_iter_seek bi0 t = Some bi \<and>
    positioned bi n es (seek_pos es t)"
proof -
  obtain bi0 where "block_iter_init b = Some bi0" "at_end bi0 n es" using assms(1) by (auto simp: loads_def)
  with block_iter_seek_ok [OF assms(2)] show ?thesis by blast
qed

lemma positioned_seek:
  assumes "positioned bi n es i" and "strict_keys es"
  shows "\<exists>bi'. block_iter_seek bi t = Some bi' \<and> positioned bi' n es (seek_pos es t)"
  using assms(1) by (intro block_iter_seek_ok [OF assms(2)]) (auto simp: positioned_def split: if_splits)

lemma index_offset_at:
  assumes at: "at_entry ii n ix i" and v: "snd (ix ! i) = mtbl_varint_encode64 ofs"
  shows "index_offset ii = Some ofs"
proof -
  have "block_iter_get ii = Some (Some (ix ! i))" by (rule block_iter_get_at [OF at])
  then have "bytes_at (bi_data ii) (bi_val ii) (bi_val_len ii) = Some (mtbl_varint_encode64 ofs)"
    using at_entry_valid [OF at] v
    by (cases "ix ! i") (auto simp: block_iter_get_def split: Option.bind_splits)
  then have "take (bi_val_len ii) (drop (bi_val ii) (bi_data ii)) = mtbl_varint_encode64 ofs"
    by (auto simp: bytes_at_def split: if_splits)
  then have eq: "drop (bi_val ii) (bi_data ii) = mtbl_varint_encode64 ofs @ drop (bi_val_len ii) (drop (bi_val ii) (bi_data ii))"
    by (metis append_take_drop_id)
  show ?thesis unfolding index_offset_def by (subst eq) (simp add: decode64_encode64)
qed

text \<open>What the index says at each position.\<close>

lemma opens_index:
  assumes "opens crc L r n bs offs ix"
  shows "length ix = length bs" and "strict_keys ix"
    and "i < length bs \<Longrightarrow> fst (ix ! i) = snd (bs ! i)"
    and "i < length bs \<Longrightarrow> fst (bs ! i) \<noteq> [] \<and> strict_keys (fst (bs ! i)) \<and> fst (last (fst (bs ! i))) \<le> snd (bs ! i)"
    and "i < length bs \<Longrightarrow> \<exists>b. get_block crc L r (offs i) = Some b \<and> loads b n (fst (bs ! i))"
    and "i < length bs \<Longrightarrow> j < length bs \<Longrightarrow> offs i = offs j \<longleftrightarrow> i = j"
    and "i < j \<Longrightarrow> j < length bs \<Longrightarrow> snd (bs ! i) < fst (hd (fst (bs ! j)))"
    and "i < j \<Longrightarrow> j < length bs \<Longrightarrow> offs i < offs j"
proof -
  have ok: "table_ok bs" using assms by (simp add: opens_def)
  show len: "length ix = length bs" using assms by (simp add: opens_def)
  show key: "fst (ix ! i) = snd (bs ! i)" if "i < length bs" for i using assms that by (simp add: opens_def)
  have "map fst ix = map snd bs" using len key by (simp add: list_eq_iff_nth_eq)
  then show "strict_keys ix" using table_ok_seps [OF ok] by (simp add: strict_keys_def)
  show "i < length bs \<Longrightarrow> fst (bs ! i) \<noteq> [] \<and> strict_keys (fst (bs ! i)) \<and> fst (last (fst (bs ! i))) \<le> snd (bs ! i)"
    using ok by (simp add: table_ok_def)
  show "i < length bs \<Longrightarrow> \<exists>b. get_block crc L r (offs i) = Some b \<and> loads b n (fst (bs ! i))"
    using assms by (simp add: opens_def)
  show "i < length bs \<Longrightarrow> j < length bs \<Longrightarrow> offs i = offs j \<longleftrightarrow> i = j"
    using assms unfolding opens_def by (metis less_irrefl linorder_neqE_nat)
  show "i < j \<Longrightarrow> j < length bs \<Longrightarrow> snd (bs ! i) < fst (hd (fst (bs ! j)))"
    using ok by (auto simp: table_ok_def sorted_wrt_iff_nth_less)
  show "i < j \<Longrightarrow> j < length bs \<Longrightarrow> offs i < offs j" using assms by (simp add: opens_def)
qed

lemma get_block_at_index_ok:
  assumes op: "opens crc L r n bs offs ix" and at: "positioned ii n ix i"
  shows "if i < length bs
    then index_offset ii = Some (offs i) \<and> block_iter_get ii = Some (Some (ix ! i)) \<and>
      (\<exists>b. get_block crc L r (offs i) = Some b \<and> get_block_at_index crc L r ii = Some (Some b) \<and>
         loads b n (fst (bs ! i)))
    else block_iter_get ii = Some None \<and> get_block_at_index crc L r ii = Some None"
proof (cases "i < length bs")
  case True
  then have a: "at_entry ii n ix i" using at opens_index(1) [OF op] by (simp add: positioned_def)
  have "ix ! i = (snd (bs ! i), mtbl_varint_encode64 (offs i))" using op True by (simp add: opens_def)
  then have io: "index_offset ii = Some (offs i)" using index_offset_at [OF a] by simp
  with True op block_iter_get_at [OF a] show ?thesis by (auto simp: opens_def get_block_at_index_def)
next
  case False
  then have "at_end ii n ix" using at opens_index(1) [OF op] by (simp add: positioned_def)
  with False show ?thesis by (simp add: get_block_at_index_def block_iter_get_end)
qed

subsection \<open>\<open>reader_iter_next\<close>\<close>

text \<open>The move to the entry to be returned, before its key is tested: within the block, or on to the next one.\<close>

definition accepted :: "reader_iter_state \<Rightarrow> entry list \<Rightarrow> entry list" where
  "accepted it rest = takeWhile (\<lambda>e. iter_accepts (it_type it) (it_k it) (fst e)) rest"

lemma next_in_block:
  assumes "it_bi it = Some bi" and "positioned bi n (fst (bs ! i)) j"
    and "\<not> it_first it \<longrightarrow> j < length (fst (bs ! i))"
  shows "\<exists>bi'. (if \<not> it_first it then map_option snd (block_iter_next bi) else Some bi) = Some bi' \<and>
    positioned bi' n (fst (bs ! i)) (if it_first it then j else Suc j)"
proof (cases "it_first it")
  case False
  then have "at_entry bi n (fst (bs ! i)) j" using assms(2,3) by (simp add: positioned_def)
  from block_iter_next_ok [OF this] False show ?thesis by auto
qed (use assms in auto)

lemma next_index:
  assumes op: "opens crc L r n bs offs ix" and at: "positioned ii n ix i" and i: "i < length bs"
  shows "\<exists>ii'. block_iter_next ii = Some (Suc i < length bs, ii') \<and> positioned ii' n ix (Suc i)"
  using block_iter_next_ok [of ii n ix i] at i opens_index(1) [OF op] by (auto simp: positioned_def)

lemma reader_next_ok:
  assumes op: "opens crc L r n bs offs ix" and p: "reader_pending n bs ix it c rest"
  shows "\<exists>it' c'. reader_iter_next crc L r it =
      Some (if accepted it rest = [] then None else Some (hd rest), it') \<and>
    it_type it' = it_type it \<and> it_k it' = it_k it \<and> it_block_offset it' = it_block_offset it \<and>
    reader_pending n bs ix it' c' (if accepted it rest = [] then [] else tl rest) \<and>
    c \<le> c' \<and>
    (if accepted it rest = []
     then it_type it = READER_ITER_TYPE_ITER \<longrightarrow> it_b it' = None \<or> c' = c
     else it_valid it' \<and> c' < length bs \<and> hd rest \<in> set (fst (bs ! c')))"
proof (cases "it_valid it")
  case False
  then have "rest = []" "reader_iter_next crc L r it = Some (None, it)"
    using p by (auto simp: reader_pending_def reader_iter_next_def)
  then show ?thesis using p by (auto simp: accepted_def)
next
  case True
  define i where "i = c"
  from True obtain j where at: "it_at n bs ix it i i j" and b: "it_b it \<noteq> None"
    and r: "if it_first it then rest = entries_from bs i j
      else j < length (fst (bs ! i)) \<and> rest = entries_from bs i (Suc j)"
    using p by (auto simp: reader_pending_def i_def)
  then obtain bi where bi: "it_bi it = Some bi" "positioned bi n (fst (bs ! i)) j"
    and i: "i < length bs" "positioned (it_index_iter it) n ix i"
    by (auto simp: it_at_def)
  have j: "\<not> it_first it \<longrightarrow> j < length (fst (bs ! i))"
    and rest: "rest = entries_from bs i (if it_first it then j else Suc j)"
    using r by (auto split: if_splits)
  let ?j = "if it_first it then j else Suc j"
  obtain bi' where bi': "(if \<not> it_first it then map_option snd (block_iter_next bi) else Some bi) = Some bi'"
      "positioned bi' n (fst (bs ! i)) ?j"
    using next_in_block [OF bi j] by blast
  let ?acc = "\<lambda>e. iter_accepts (it_type it) (it_k it) (fst e)"
  show ?thesis
  proof (cases "?j < length (fst (bs ! i))")
    case in_block: True
    obtain e where e: "fst (bs ! i) ! ?j = e" by blast
    have r: "rest = e # entries_from bs i (Suc ?j)" using entries_from_step [OF in_block] rest e by simp
    define it' where "it' = it\<lparr>it_bi := Some bi', it_first := False, it_valid := ?acc e\<rparr>"
    have "reader_iter_next crc L r it = Some (if ?acc e then Some e else None, it')"
      using True bi(1) bi'(1) block_iter_get_positioned [OF bi'(2)] in_block e
      by (cases e) (simp add: reader_iter_next_def it'_def)
    moreover have "reader_pending n bs ix it' i (if ?acc e then entries_from bs i (Suc ?j) else [])"
      unfolding reader_pending_def
      using i bi'(2) in_block b by (intro exI [of _ i] exI [of _ ?j]) (auto simp: it_at_def it'_def)
    moreover have "e \<in> set (fst (bs ! i))" using in_block e nth_mem by blast
    ultimately show ?thesis using i(1)
      by (intro exI [of _ it'] exI [of _ i]) (auto simp: r accepted_def it'_def i_def)
  next
    case False
    obtain ii' where ii': "block_iter_next (it_index_iter it) = Some (Suc i < length bs, ii')"
        "positioned ii' n ix (Suc i)"
      using next_index [OF op i(2,1)] by blast
    show ?thesis
    proof (cases "Suc i < length bs")
      case last: False
      define it' where "it' = it\<lparr>it_bi := None, it_first := False, it_valid := False, it_b := None, it_index_iter := ii'\<rparr>"
      have "rest = []" using rest entries_from_end [OF _ last] False by simp
      moreover have "reader_iter_next crc L r it = Some (None, it')"
        using True bi(1) bi'(1) block_iter_get_positioned [OF bi'(2)] False ii' last
        by (simp add: reader_iter_next_def it'_def)
      moreover have "reader_pending n bs ix it' i []"
        unfolding reader_pending_def using ii'(2) i
        by (intro exI [of _ "Suc i"]) (simp add: it_at_def it'_def)
      ultimately show ?thesis
        by (intro exI [of _ it'] exI [of _ i]) (auto simp: accepted_def it'_def i_def)
    next
      case more: True
      have rest': "rest = entries_from bs (Suc i) 0" using rest entries_from_next [OF _ more] False by simp
      obtain b where b: "get_block_at_index crc L r ii' = Some (Some b)" "loads b n (fst (bs ! Suc i))"
        using get_block_at_index_ok [OF op ii'(2)] more by auto
      obtain bi0 bi2 where bi2: "block_iter_init b = Some bi0" "block_iter_seek_to_first bi0 = Some bi2"
          "positioned bi2 n (fst (bs ! Suc i)) 0"
        using loads_first [OF b(2)] by blast
      have ne: "0 < length (fst (bs ! Suc i))" using opens_index(4) [OF op more] by simp
      obtain e where e: "fst (bs ! Suc i) ! 0 = e" by blast
      have r: "rest = e # entries_from bs (Suc i) (Suc 0)" using entries_from_step [OF ne] rest' e by simp
      define it' where "it' = it\<lparr>it_bi := Some bi2, it_first := False, it_b := Some b,
        it_index_iter := ii', it_valid := ?acc e\<rparr>"
      have "reader_iter_next crc L r it = Some (if ?acc e then Some e else None, it')"
        using True bi(1) bi'(1) block_iter_get_positioned [OF bi'(2)] False ii' more b(1) bi2
          block_iter_get_positioned [OF bi2(3)] ne e
        by (cases e) (simp add: reader_iter_next_def it'_def)
      moreover have "reader_pending n bs ix it' (Suc i) (if ?acc e then entries_from bs (Suc i) (Suc 0) else [])"
        unfolding reader_pending_def
        using more ii'(2) bi2(3) ne by (intro exI [of _ "Suc i"] exI [of _ 0]) (auto simp: it_at_def it'_def)
      moreover have "e \<in> set (fst (bs ! Suc i))" using ne e nth_mem by blast
      moreover have "it_type it = READER_ITER_TYPE_ITER \<Longrightarrow> ?acc e" by simp
      ultimately show ?thesis using more
        by (intro exI [of _ it'] exI [of _ "Suc i"]) (auto simp: r accepted_def it'_def i_def)
    qed
  qed
qed

text \<open>What a client of the iterator sees.\<close>

definition reader_remaining ::
  "(bytes \<Rightarrow> u32) \<Rightarrow> 'z complib \<Rightarrow> mtbl_reader \<Rightarrow> reader_iter_state \<Rightarrow> entry list \<Rightarrow> bool" where
  "reader_remaining crc L r it es \<longleftrightarrow> (\<exists>n bs offs ix c rest. opens crc L r n bs offs ix \<and>
     reader_pending n bs ix it c rest \<and> es = accepted it rest)"

lemma reader_remainingI:
  "opens crc L r n bs offs ix \<Longrightarrow> reader_pending n bs ix it c rest \<Longrightarrow> accepted it rest = es \<Longrightarrow>
   reader_remaining crc L r it es"
  unfolding reader_remaining_def by blast

lemma accepted_iter: "it_type it = READER_ITER_TYPE_ITER \<Longrightarrow> accepted it rest = rest"
  by (simp add: accepted_def)

interpretation reader: cursor "reader_iter_next crc L r" "reader_remaining crc L r" for crc L r
proof unfold_locales
  fix it e es
  assume "reader_remaining crc L r it (e # es)"
  then obtain n bs offs ix c rest where op: "opens crc L r n bs offs ix"
    and p: "reader_pending n bs ix it c rest" and acc: "accepted it rest = e # es"
    by (auto simp: reader_remaining_def)
  from acc have "hd rest = e" "accepted it (tl rest) = es" "accepted it rest \<noteq> []"
    by (cases rest; simp add: accepted_def split: if_splits)+
  with reader_next_ok [OF op p] op
  show "\<exists>it'. reader_iter_next crc L r it = Some (Some e, it') \<and> reader_remaining crc L r it' es"
    by (fastforce simp: reader_remaining_def accepted_def)
next
  fix it
  assume "reader_remaining crc L r it []"
  then obtain n bs offs ix c rest where op: "opens crc L r n bs offs ix"
    and p: "reader_pending n bs ix it c rest" and acc: "accepted it rest = []"
    by (auto simp: reader_remaining_def)
  with reader_next_ok [OF op p]
  show "\<exists>it'. reader_iter_next crc L r it = Some (None, it') \<and> reader_remaining crc L r it' []"
    by (fastforce simp: reader_remaining_def accepted_def)
qed

subsection \<open>\<open>reader_iter_seek\<close>\<close>

lemma in_concat_map_nth: "x \<in> set (concat (map f ys)) \<longleftrightarrow> (\<exists>i<length ys. x \<in> set (f (ys ! i)))"
  by (induction ys) (auto simp: nth_Cons Ex_less_Suc2)

text \<open>The position of a key in the table: the block the index gives, and the entry in it.\<close>

lemma seek_entries:
  fixes t :: bytes
  assumes op: "opens crc L r n bs offs ix"
  defines "m \<equiv> seek_pos ix t"
  shows "filter (\<lambda>e. t \<le> fst e) (concat (map fst bs)) =
    (if m < length bs then entries_from bs m (seek_pos (fst (bs ! m)) t) else [])"
proof -
  have before: "filter (\<lambda>e. t \<le> fst e) (concat (map fst (take m bs))) = []"
  proof -
    have "\<not> t \<le> fst e" if e: "e \<in> set (fst (bs ! i))" and i: "i < m" "i < length bs" for e i
    proof -
      have "fst e \<le> fst (last (fst (bs ! i)))" using opens_index(4) [OF op i(2)] strict_keys_last_ge e by blast
      also have "\<dots> \<le> snd (bs ! i)" using opens_index(4) [OF op i(2)] by blast
      also have "\<dots> < t" using before_seek_pos [of i ix t] i opens_index(3) [OF op i(2)] by (simp add: m_def)
      finally show ?thesis by simp
    qed
    moreover have "\<exists>i<m. i < length bs \<and> e \<in> set (fst (bs ! i))"
      if e: "e \<in> set (concat (map fst (take m bs)))" for e
    proof -
      obtain i where "i < length (take m bs)" "e \<in> set (fst (take m bs ! i))"
        using e unfolding in_concat_map_nth by blast
      then show ?thesis by (intro exI [of _ i]) simp
    qed
    ultimately show ?thesis unfolding filter_empty_conv by blast
  qed
  show ?thesis
  proof (cases "m < length bs")
    case False
    then show ?thesis using before by simp
  next
    case True
    have le: "t \<le> snd (bs ! m)"
      using at_seek_pos [of ix t] True opens_index(1,3) [OF op] by (simp add: m_def)
    have "t \<le> fst e" if e: "e \<in> set (fst (bs ! j))" and j: "m < j" "j < length bs" for e j
    proof -
      have "snd (bs ! m) < fst (hd (fst (bs ! j)))" by (rule opens_index(7) [OF op j])
      also have "\<dots> \<le> fst e" using opens_index(4) [OF op j(2)] strict_keys_hd_le e by blast
      finally show ?thesis using le by simp
    qed
    moreover have "\<exists>j>m. j < length bs \<and> e \<in> set (fst (bs ! j))"
      if e: "e \<in> set (concat (map fst (drop (Suc m) bs)))" for e
    proof -
      obtain i where "i < length (drop (Suc m) bs)" "e \<in> set (fst (drop (Suc m) bs ! i))"
        using e unfolding in_concat_map_nth by blast
      then show ?thesis by (intro exI [of _ "Suc m + i"]) simp
    qed
    ultimately have after: "filter (\<lambda>e. t \<le> fst e) (concat (map fst (drop (Suc m) bs))) = concat (map fst (drop (Suc m) bs))"
      unfolding filter_id_conv by blast
    have split: "bs = take m bs @ bs ! m # drop (Suc m) bs" using True by (simp add: id_take_nth_drop)
    have "filter (\<lambda>e. t \<le> fst e) (concat (map fst bs)) =
        filter (\<lambda>e. t \<le> fst e) (fst (bs ! m)) @ concat (map fst (drop (Suc m) bs))"
      by (subst split) (simp add: before after)
    also have "filter (\<lambda>e. t \<le> fst e) (fst (bs ! m)) = drop (seek_pos (fst (bs ! m)) t) (fst (bs ! m))"
      using opens_index(4) [OF op True] filter_ge_drop by blast
    finally show ?thesis using True by (simp add: entries_from_def)
  qed
qed

text \<open>When no index seek is needed the index is already where it would go.\<close>

lemma no_index_seek:
  assumes op: "opens crc L r n bs offs ix" and at: "it_at n bs ix it i c j"
  shows "\<exists>b. needs_index_seek it t = Some b \<and> (\<not> b \<longrightarrow> i = seek_pos ix t)"
proof (cases "it_first it \<or> it_b it = None")
  case False
  then obtain bi where c: "c < length bs" "it_bi it = Some bi" "positioned bi n (fst (bs ! c)) j"
      "i = c \<or> i = length bs"
    using at by (auto simp: it_at_def)
  have ii: "positioned (it_index_iter it) n ix i" using at by (simp add: it_at_def)
  show ?thesis
  proof (cases "j < length (fst (bs ! c)) \<and> \<not> t < fst (fst (bs ! c) ! j) \<and> i < length bs \<and> \<not> snd (bs ! i) < t")
    case True
    then have ic: "i = c" and le: "fst (fst (bs ! c) ! j) \<le> t" "t \<le> snd (bs ! i)" using c(4) by auto
    have "\<not> seek_pos ix t < i"
    proof
      assume less: "seek_pos ix t < i"
      then have "t \<le> snd (bs ! seek_pos ix t)"
        using at_seek_pos [of ix t] opens_index(1,3) [OF op] True by simp
      also have "\<dots> < fst (hd (fst (bs ! i)))" using opens_index(7) [OF op less] True by simp
      also have "\<dots> \<le> fst (fst (bs ! c) ! j)"
        using opens_index(4) [OF op c(1)] strict_keys_hd_le True ic nth_mem by blast
      finally show False using le(1) by simp
    qed
    moreover have "\<not> i < seek_pos ix t"
      using before_seek_pos [of i ix t] le(2) opens_index(3) [OF op] True by fastforce
    ultimately show ?thesis
      using False c ii True opens_index(1,3) [OF op]
      by (cases "ix ! i"; cases "fst (bs ! c) ! j")
        (auto simp: needs_index_seek_def block_iter_get_positioned [OF c(3)] block_iter_get_positioned [OF ii])
  next
    case no: False
    have "fst (ix ! i) = snd (bs ! i)" if "i < length bs" using opens_index(3) [OF op that] .
    then have "needs_index_seek it t = Some True"
      using False c ii no opens_index(1) [OF op]
      by (cases "ix ! i"; cases "fst (bs ! c) ! j")
        (auto simp: needs_index_seek_def block_iter_get_positioned [OF c(3)] block_iter_get_positioned [OF ii])
    then show ?thesis by (intro exI [of _ True]) simp
  qed
qed (auto simp: needs_index_seek_def)

text \<open>
  A seek works when the remembered offset does not make it reuse a block that is not the one the
  index gives: \<open>it_block_offset\<close> is the offset of the loaded block, or of none that the seek
  goes to.
\<close>

lemma reader_seek_ok:
  fixes t :: bytes
  assumes op: "opens crc L r n bs offs ix" and at: "it_at n bs ix it i c j"
  defines "m \<equiv> seek_pos ix t"
  assumes fresh: "it_b it \<noteq> None \<Longrightarrow> m < length bs \<Longrightarrow> it_block_offset it = offs m \<Longrightarrow> c = m"
  shows "\<exists>it'. reader_iter_seek crc L r it t = Some it' \<and>
    it_type it' = it_type it \<and> it_k it' = it_k it \<and>
    it_block_offset it' = (if m < length bs then offs m else it_block_offset it) \<and>
    (it_valid it' \<longleftrightarrow> m < length bs) \<and>
    (m < length bs \<or> it_b it' = it_b it) \<and>
    reader_pending n bs ix it' (if m < length bs then m else c)
      (filter (\<lambda>e. t \<le> fst e) (concat (map fst bs)))"
proof -
  have ii: "positioned (it_index_iter it) n ix i" using at by (simp add: it_at_def)
  obtain needs where needs: "needs_index_seek it t = Some needs" "\<not> needs \<longrightarrow> i = m"
    using no_index_seek [OF op at, of t] by (auto simp: m_def)
  obtain ii' where ii': "(if needs then block_iter_seek (it_index_iter it) t else Some (it_index_iter it)) = Some ii'"
      "positioned ii' n ix m"
    using positioned_seek [OF ii opens_index(2) [OF op], of t] needs(2) ii
    by (cases needs) (auto simp: m_def)
  note idx = get_block_at_index_ok [OF op ii'(2)]
  have mle: "m \<le> length bs" using seek_pos_le [of ix t] opens_index(1) [OF op] by (simp add: m_def)
  show ?thesis
  proof (cases "m < length bs")
    case False
    define it' where "it' = it\<lparr>it_index_iter := ii', it_valid := False\<rparr>"
    have "reader_iter_seek crc L r it t = Some it'"
      using needs ii' idx False by (simp add: reader_iter_seek_def it'_def)
    moreover have "it_at n bs ix it' m c j" using at ii'(2) False mle by (auto simp: it_at_def it'_def)
    ultimately show ?thesis
      using seek_entries [OF op, of t] False by (auto simp: reader_pending_def it'_def m_def)
  next
    case True
    let ?j = "seek_pos (fst (bs ! m)) t"
    have sk: "strict_keys (fst (bs ! m))" using opens_index(4) [OF op True] by blast
    have "\<exists>it1 bi. (if it_b it = None \<or> it_block_offset it \<noteq> offs m then do {
              b \<leftarrow> get_block crc L r (offs m);
              bi \<leftarrow> block_iter_init b;
              Some (it\<lparr>it_index_iter := ii', it_block_offset := offs m, it_b := Some b, it_bi := Some bi\<rparr>)
            } else Some (it\<lparr>it_index_iter := ii'\<rparr>)) = Some it1 \<and> it_bi it1 = Some bi \<and>
        it_block_offset it1 = offs m \<and> it_b it1 \<noteq> None \<and> it_type it1 = it_type it \<and> it_k it1 = it_k it \<and>
        it_index_iter it1 = ii' \<and>
        (\<exists>bi'. block_iter_seek bi t = Some bi' \<and> positioned bi' n (fst (bs ! m)) ?j)"
    proof (cases "it_b it = None \<or> it_block_offset it \<noteq> offs m")
      case True
      obtain b where "get_block crc L r (offs m) = Some b" "loads b n (fst (bs ! m))"
        using opens_index(5) [OF op \<open>m < length bs\<close>] by blast
      with loads_seek [OF _ sk] True show ?thesis by fastforce
    next
      case False
      then have "c = m" using fresh True by simp
      then obtain bi where "it_bi it = Some bi" "positioned bi n (fst (bs ! m)) j"
        using at False by (auto simp: it_at_def)
      with positioned_seek [OF this(2) sk, of t] False show ?thesis by auto
    qed
    then obtain it1 bi bi' where it1: "(if it_b it = None \<or> it_block_offset it \<noteq> offs m then do {
              b \<leftarrow> get_block crc L r (offs m);
              bi \<leftarrow> block_iter_init b;
              Some (it\<lparr>it_index_iter := ii', it_block_offset := offs m, it_b := Some b, it_bi := Some bi\<rparr>)
            } else Some (it\<lparr>it_index_iter := ii'\<rparr>)) = Some it1"
        "it_bi it1 = Some bi" "it_block_offset it1 = offs m" "it_b it1 \<noteq> None" "it_type it1 = it_type it"
        "it_k it1 = it_k it" "it_index_iter it1 = ii'"
      and bi': "block_iter_seek bi t = Some bi'" "positioned bi' n (fst (bs ! m)) ?j"
      by blast
    define it' where "it' = it1\<lparr>it_bi := Some bi', it_first := True, it_valid := True\<rparr>"
    have io: "index_offset ii' = Some (offs m)" "block_iter_get ii' = Some (Some (ix ! m))" using idx True by simp_all
    have "reader_iter_seek crc L r it t = Some it'"
      unfolding reader_iter_seek_def needs(1) using ii'(1) io it1(1,2) bi'(1)
      by (auto simp: it'_def Let_def)
    moreover have "it_at n bs ix it' m m ?j"
      using True ii'(2) bi'(2) it1 by (auto simp: it_at_def it'_def)
    ultimately show ?thesis
      using seek_entries [OF op, of t] True it1 unfolding reader_pending_def m_def [symmetric]
      by (intro exI [of _ it']) (auto simp: it'_def)
  qed
qed

subsection \<open>Opening an iterator\<close>

lemma pending_first:
  "it_at n bs ix it i i j \<Longrightarrow> it_valid it \<Longrightarrow> it_b it \<noteq> None \<Longrightarrow> it_first it \<Longrightarrow>
   reader_pending n bs ix it i (entries_from bs i j)"
  by (auto simp: reader_pending_def)

lemma index_iter_ok:
  assumes "opens crc L r n bs offs ix"
  shows "\<exists>ii. block_iter_init (r_index r) = Some ii \<and> at_end ii n ix"
  using assms by (auto simp: opens_def loads_def)

lemma reader_iter_ok:
  assumes op: "opens crc L r n bs offs ix"
  shows "if bs = [] then reader_iter crc L r = Some None
    else \<exists>it. reader_iter crc L r = Some (Some it) \<and> it_type it = READER_ITER_TYPE_ITER \<and>
      it_block_offset it = 0 \<and> it_first it \<and> it_at n bs ix it 0 0 0 \<and>
      reader_pending n bs ix it 0 (concat (map fst bs))"
proof -
  obtain ii where ii: "block_iter_init (r_index r) = Some ii" "at_end ii n ix"
    using index_iter_ok [OF op] by blast
  then obtain ii' where ii': "block_iter_seek_to_first ii = Some ii'" "positioned ii' n ix 0"
    using block_iter_seek_to_first_ok [of ii n ix] by (auto simp: at_end_def)
  note idx = get_block_at_index_ok [OF op ii'(2)]
  show ?thesis
  proof (cases "bs = []")
    case True
    then show ?thesis using ii ii' idx by (simp add: reader_iter_def)
  next
    case False
    then obtain b where b: "get_block_at_index crc L r ii' = Some (Some b)" "loads b n (fst (bs ! 0))"
      using idx by auto
    obtain bi0 bi where bi: "block_iter_init b = Some bi0" "block_iter_seek_to_first bi0 = Some bi"
        "positioned bi n (fst (bs ! 0)) 0"
      using loads_first [OF b(2)] by blast
    define it where "it = \<lparr>it_block_offset = 0, it_b = Some b, it_bi = Some bi, it_index_iter = ii',
      it_k = [], it_first = True, it_valid = True, it_type = READER_ITER_TYPE_ITER\<rparr>"
    have "reader_iter crc L r = Some (Some it)" using ii ii' b bi by (simp add: reader_iter_def it_def)
    moreover have "it_at n bs ix it 0 0 0" using ii' bi False by (simp add: it_at_def it_def)
    ultimately show ?thesis
      using pending_first [of n bs ix it 0 0] False entries_from_start [OF False] by (simp add: it_def)
  qed
qed

lemma reader_iter_init_ok:
  fixes t :: bytes
  assumes op: "opens crc L r n bs offs ix"
  defines "m \<equiv> seek_pos ix t"
  shows "if m < length bs then \<exists>it. reader_iter_init crc L r t = Some (Some it) \<and>
      it_type it = READER_ITER_TYPE_ITER \<and> it_block_offset it = 0 \<and> it_first it \<and>
      it_at n bs ix it m m (seek_pos (fst (bs ! m)) t) \<and>
      reader_pending n bs ix it m (filter (\<lambda>e. t \<le> fst e) (concat (map fst bs)))
    else reader_iter_init crc L r t = Some None \<and> filter (\<lambda>e. t \<le> fst e) (concat (map fst bs)) = []"
proof -
  obtain ii where ii: "block_iter_init (r_index r) = Some ii" "at_end ii n ix"
    using index_iter_ok [OF op] by blast
  then obtain ii' where ii': "block_iter_seek ii t = Some ii'" "positioned ii' n ix m"
    using block_iter_seek_ok [OF opens_index(2) [OF op], of ii n t] by (auto simp: m_def)
  note idx = get_block_at_index_ok [OF op ii'(2)]
  note ent = seek_entries [OF op, of t, folded m_def]
  show ?thesis
  proof (cases "m < length bs")
    case False
    then show ?thesis using ii ii' idx ent by (simp add: reader_iter_init_def)
  next
    case True
    then obtain b where b: "get_block_at_index crc L r ii' = Some (Some b)" "loads b n (fst (bs ! m))"
      using idx by auto
    obtain bi0 bi where bi: "block_iter_init b = Some bi0" "block_iter_seek bi0 t = Some bi"
        "positioned bi n (fst (bs ! m)) (seek_pos (fst (bs ! m)) t)"
      using loads_seek [OF b(2), of t] opens_index(4) [OF op True] by blast
    define it where "it = \<lparr>it_block_offset = 0, it_b = Some b, it_bi = Some bi, it_index_iter = ii',
      it_k = [], it_first = True, it_valid = True, it_type = READER_ITER_TYPE_ITER\<rparr>"
    have "reader_iter_init crc L r t = Some (Some it)" using ii ii' b bi by (simp add: reader_iter_init_def it_def)
    moreover have "it_at n bs ix it m m (seek_pos (fst (bs ! m)) t)"
      using ii' bi True by (simp add: it_at_def it_def)
    ultimately show ?thesis
      unfolding ent using pending_first [of n bs ix it m] True by (simp add: it_def)
  qed
qed

text \<open>The type and the key of an iterator do not matter for where it is.\<close>

lemma pending_type:
  "reader_pending n bs ix (it\<lparr>it_k := k, it_type := ty\<rparr>) c rest \<longleftrightarrow> reader_pending n bs ix it c rest"
  by (simp add: reader_pending_def it_at_def)

subsection \<open>What the three queries select\<close>

lemma takeWhile_filter_closed:
  assumes "strict_keys es"
    and "\<And>x y. x \<in> set es \<Longrightarrow> y \<in> set es \<Longrightarrow> Q x \<Longrightarrow> P y \<Longrightarrow> fst x < fst y \<Longrightarrow> P x"
  shows "takeWhile P (filter Q es) = filter (\<lambda>e. Q e \<and> P e) es"
  using assms
proof (induction es)
  case (Cons e es)
  have sk: "strict_keys es" and less: "\<forall>y\<in>set es. fst e < fst y"
    using Cons.prems(1) by (auto simp: strict_keys_def)
  have IH: "takeWhile P (filter Q es) = filter (\<lambda>e. Q e \<and> P e) es"
    using Cons.prems(2) by (intro Cons.IH [OF sk]) auto
  show ?case
  proof (cases "Q e \<and> \<not> P e")
    case True
    then have "\<forall>y\<in>set es. \<not> P y" using Cons.prems(2) [of e] less by auto
    then show ?thesis using True by (auto simp: filter_empty_conv)
  qed (use IH in auto)
qed simp

lemma memcmp_prefix: "length k \<le> length key \<Longrightarrow> memcmp k key (length k) = 0 \<longleftrightarrow> take (length k) key = k"
proof (induction k arbitrary: key)
  case (Cons b k)
  then show ?case by (cases key) (auto simp: word_uint_eq_iff)
qed simp

lemma accepts_prefix:
  "iter_accepts READER_ITER_TYPE_GET_PREFIX k key \<longleftrightarrow> take (length k) key = k"
proof (cases "length k \<le> length key")
  case False
  then have "take (length k) key \<noteq> k" by (metis length_take min.absorb_iff2 min.cobounded2)
  then show ?thesis using False by simp
qed (simp add: memcmp_prefix)

lemma prefix_between:
  fixes k a b :: bytes
  assumes "k \<le> a" and "a < b" and "take (length k) b = k"
  shows "take (length k) a = k"
  using assms
proof (induction k arbitrary: a b)
  case (Cons x k)
  obtain y b' where b: "b = y # b'" using Cons.prems(3) by (cases b) auto
  obtain z a' where a: "a = z # a'" using Cons.prems(1) by (cases a) auto
  show ?case
    using Cons.IH [of a' b'] Cons.prems unfolding a b by (auto split: if_splits)
qed simp

text \<open>The three lookups and the full iteration, and the keys each is meant to yield.\<close>

fun reader_open ::
  "(bytes \<Rightarrow> u32) \<Rightarrow> 'z complib \<Rightarrow> mtbl_reader \<Rightarrow> reader_iter_type \<Rightarrow> bytes \<Rightarrow> bytes \<Rightarrow> reader_iter_state option option" where
  "reader_open crc L r READER_ITER_TYPE_ITER key0 key1 = reader_iter crc L r"
| "reader_open crc L r READER_ITER_TYPE_GET key0 key1 = reader_get crc L r key0"
| "reader_open crc L r READER_ITER_TYPE_GET_PREFIX key0 key1 = reader_get_prefix crc L r key0"
| "reader_open crc L r READER_ITER_TYPE_GET_RANGE key0 key1 = reader_get_range crc L r key0 key1"

fun wanted :: "reader_iter_type \<Rightarrow> bytes \<Rightarrow> bytes \<Rightarrow> bytes \<Rightarrow> bool" where
  "wanted READER_ITER_TYPE_ITER key0 key1 key \<longleftrightarrow> True"
| "wanted READER_ITER_TYPE_GET key0 key1 key \<longleftrightarrow> key = key0"
| "wanted READER_ITER_TYPE_GET_PREFIX key0 key1 key \<longleftrightarrow> take (length key0) key = key0"
| "wanted READER_ITER_TYPE_GET_RANGE key0 key1 key \<longleftrightarrow> key0 \<le> key \<and> key \<le> key1"

lemma take_le: "take m key = k \<Longrightarrow> k \<le> (key :: bytes)"
proof (induction key arbitrary: m k)
  case (Cons b key)
  then show ?case by (cases m) auto
qed simp

lemma wanted_iff:
  assumes "ty \<noteq> READER_ITER_TYPE_ITER"
  shows "wanted ty key0 key1 key \<longleftrightarrow> key0 \<le> key \<and>
    iter_accepts ty (if ty = READER_ITER_TYPE_GET_RANGE then key1 else key0) key"
  using assms take_le [of "length key0" key key0]
  by (cases ty) (auto simp: accepts_prefix simp del: iter_accepts.simps(3))

lemma accepted_wanted:
  fixes key0 key1 :: bytes
  assumes "strict_keys es" and ty: "ty \<noteq> READER_ITER_TYPE_ITER"
  defines "k \<equiv> (if ty = READER_ITER_TYPE_GET_RANGE then key1 else key0)"
  shows "takeWhile (\<lambda>e. iter_accepts ty k (fst e)) (filter (\<lambda>e. key0 \<le> fst e) es) =
    filter (\<lambda>e. wanted ty key0 key1 (fst e)) es"
proof -
  have "takeWhile (\<lambda>e. iter_accepts ty k (fst e)) (filter (\<lambda>e. key0 \<le> fst e) es) =
      filter (\<lambda>e. key0 \<le> fst e \<and> iter_accepts ty k (fst e)) es"
  proof (rule takeWhile_filter_closed [OF assms(1)])
    fix x y :: entry
    assume "key0 \<le> fst x" "iter_accepts ty k (fst y)" "fst x < fst y"
    then show "iter_accepts ty k (fst x)"
      using ty prefix_between [of key0 "fst x" "fst y"]
      by (cases ty) (auto simp: k_def accepts_prefix simp del: iter_accepts.simps(3))
  qed
  then show ?thesis by (simp add: wanted_iff [OF ty] k_def)
qed

lemma reader_open_ok:
  assumes op: "opens crc L r n bs offs ix"
  shows "\<exists>opened. reader_open crc L r ty key0 key1 = Some opened \<and>
    (case opened of
       None \<Rightarrow> filter (\<lambda>e. wanted ty key0 key1 (fst e)) (concat (map fst bs)) = []
     | Some it \<Rightarrow> reader_remaining crc L r it (filter (\<lambda>e. wanted ty key0 key1 (fst e)) (concat (map fst bs))))"
proof (cases "ty = READER_ITER_TYPE_ITER")
  case True
  show ?thesis
    using reader_iter_ok [OF op] op True
    by (cases "bs = []") (auto intro!: reader_remainingI [OF op] accepted_iter)
next
  case False
  let ?es = "concat (map fst bs)" and ?k = "if ty = READER_ITER_TYPE_GET_RANGE then key1 else key0"
  have opened: "reader_open crc L r ty key0 key1 =
      map_option (map_option (\<lambda>it. it\<lparr>it_k := ?k, it_type := ty\<rparr>)) (reader_iter_init crc L r key0)"
    using False by (cases ty) (simp_all add: reader_get_def reader_get_prefix_def reader_get_range_def)
  have sk: "strict_keys ?es" using op table_ok_strict by (simp add: opens_def)
  show ?thesis
  proof (cases "seek_pos ix key0 < length bs")
    case True
    then obtain it where it: "reader_iter_init crc L r key0 = Some (Some it)"
        "reader_pending n bs ix it (seek_pos ix key0) (filter (\<lambda>e. key0 \<le> fst e) ?es)"
      using reader_iter_init_ok [OF op, of key0] by auto
    let ?it = "it\<lparr>it_k := ?k, it_type := ty\<rparr>"
    have "accepted ?it (filter (\<lambda>e. key0 \<le> fst e) ?es) = filter (\<lambda>e. wanted ty key0 key1 (fst e)) ?es"
      using accepted_wanted [OF sk False, of key1 key0] by (simp add: accepted_def)
    then have "reader_remaining crc L r ?it (filter (\<lambda>e. wanted ty key0 key1 (fst e)) ?es)"
      unfolding reader_remaining_def using op it(2) pending_type by metis
    then show ?thesis by (simp add: opened it(1))
  next
    case False
    then have "reader_iter_init crc L r key0 = Some None" "filter (\<lambda>e. key0 \<le> fst e) ?es = []"
      using reader_iter_init_ok [OF op, of key0] by auto
    moreover from this(2) have "filter (\<lambda>e. wanted ty key0 key1 (fst e)) ?es = []"
      by (auto simp: filter_empty_conv wanted_iff [OF \<open>ty \<noteq> READER_ITER_TYPE_ITER\<close>])
    ultimately show ?thesis by (simp add: opened)
  qed
qed

end
