(* ===== verification/Reader_Run.thy ===== *)
theory Reader_Run
  imports Reader_Iter
begin

text \<open>
  Sequences of \<open>next\<close> and \<open>seek\<close> on one iterator. \<open>iter_spec\<close> is what they should return,
  given the entries of the table and those still to come. The iterator does that as long as every
  seek goes forward; a seek backwards after the iteration crossed into another block does not
  (\<open>reader_next\<close> does not update \<open>block_offset\<close>).
\<close>

datatype iter_op = Next | Seek bytes

primrec reader_run ::
  "(bytes \<Rightarrow> u32) \<Rightarrow> 'z complib \<Rightarrow> mtbl_reader \<Rightarrow> reader_iter_state \<Rightarrow> iter_op list \<Rightarrow> (entry option list \<times> reader_iter_state) option" where
  "reader_run crc L r it [] = Some ([], it)"
| "reader_run crc L r it (oper # ops) = (case oper of
      Next \<Rightarrow> do {
        (e, it) \<leftarrow> reader_iter_next crc L r it;
        (es, it) \<leftarrow> reader_run crc L r it ops;
        Some (e # es, it)
      }
    | Seek key \<Rightarrow> do {
        it \<leftarrow> reader_iter_seek crc L r it key;
        reader_run crc L r it ops
      })"

primrec iter_spec :: "entry list \<Rightarrow> entry list \<Rightarrow> iter_op list \<Rightarrow> entry option list" where
  "iter_spec all rest [] = []"
| "iter_spec all rest (oper # ops) = (case oper of
      Next \<Rightarrow> (if rest = [] then None else Some (hd rest)) # iter_spec all (tl rest) ops
    | Seek key \<Rightarrow> iter_spec all (filter (\<lambda>e. key \<le> fst e) all) ops)"

text \<open>Every seek goes to a key at least the last one returned or sought.\<close>

primrec forward :: "entry list \<Rightarrow> entry list \<Rightarrow> bytes \<Rightarrow> iter_op list \<Rightarrow> bool" where
  "forward all rest bound [] \<longleftrightarrow> True"
| "forward all rest bound (oper # ops) \<longleftrightarrow> (case oper of
      Next \<Rightarrow> forward all (tl rest) (if rest = [] then bound else fst (hd rest)) ops
    | Seek key \<Rightarrow> bound \<le> key \<and> forward all (filter (\<lambda>e. key \<le> fst e) all) key ops)"

definition reader_fwd ::
  "nat \<Rightarrow> tblock list \<Rightarrow> (nat \<Rightarrow> u64) \<Rightarrow> entry list \<Rightarrow> reader_iter_state \<Rightarrow> bytes \<Rightarrow> entry list \<Rightarrow> bool" where
  "reader_fwd n bs offs ix it bound rest \<longleftrightarrow> it_type it = READER_ITER_TYPE_ITER \<and>
     (\<exists>c. reader_pending n bs ix it c rest \<and>
       (it_b it \<noteq> None \<longrightarrow> (\<forall>m<length bs. it_block_offset it = offs m \<longrightarrow> m \<le> c) \<and>
          c < length bs \<and> (0 < c \<longrightarrow> snd (bs ! (c - 1)) < bound)))"

lemma reader_fwd_start:
  assumes op: "opens crc L r n bs offs ix" and ne: "bs \<noteq> []"
  shows "\<exists>it. reader_iter crc L r = Some (Some it) \<and> reader_fwd n bs offs ix it [] (concat (map fst bs))"
proof -
  obtain it where it: "reader_iter crc L r = Some (Some it)" "it_type it = READER_ITER_TYPE_ITER"
      "it_block_offset it = 0" "reader_pending n bs ix it 0 (concat (map fst bs))"
    using reader_iter_ok [OF op] ne by auto
  have "m = 0" if "m < length bs" "offs m = 0" for m
  proof (rule ccontr)
    assume "m \<noteq> 0"
    then have "offs 0 < offs m" using opens_index(8) [OF op, of 0 m] that(1) by simp
    then show False using that(2) by simp
  qed
  with it ne show ?thesis by (auto simp: reader_fwd_def)
qed

lemma reader_fwd_next:
  assumes op: "opens crc L r n bs offs ix" and f: "reader_fwd n bs offs ix it bound rest"
  shows "\<exists>it'. reader_iter_next crc L r it = Some (if rest = [] then None else Some (hd rest), it') \<and>
    reader_fwd n bs offs ix it' (if rest = [] then bound else fst (hd rest)) (tl rest)"
proof -
  obtain c where ty: "it_type it = READER_ITER_TYPE_ITER" and p: "reader_pending n bs ix it c rest"
    and coh: "it_b it \<noteq> None \<Longrightarrow> (\<forall>m<length bs. it_block_offset it = offs m \<longrightarrow> m \<le> c) \<and>
          c < length bs \<and> (0 < c \<longrightarrow> snd (bs ! (c - 1)) < bound)"
    using f by (auto simp: reader_fwd_def)
  have acc: "accepted it rest = rest" using ty by (simp add: accepted_def)
  obtain it' c' where n: "reader_iter_next crc L r it = Some (if rest = [] then None else Some (hd rest), it')"
      "it_type it' = it_type it" "it_block_offset it' = it_block_offset it" "reader_pending n bs ix it' c' (tl rest)"
      "c \<le> c'" "if rest = [] then it_b it' = None \<or> c' = c
        else it_valid it' \<and> c' < length bs \<and> hd rest \<in> set (fst (bs ! c'))"
    using reader_next_ok [OF op p] ty unfolding acc by (cases "rest = []") auto
  show ?thesis
  proof (cases "rest = []")
    case True
    have "it_b it' \<noteq> None \<Longrightarrow> it_b it \<noteq> None"
    proof -
      assume b': "it_b it' \<noteq> None"
      show "it_b it \<noteq> None"
      proof
        assume "it_b it = None"
        then have "\<not> it_valid it" using p by (auto simp: reader_pending_def)
        then have "it' = it" using n(1) by (simp add: reader_iter_next_def)
        then show False using b' \<open>it_b it = None\<close> by simp
      qed
    qed
    then show ?thesis using n ty coh True by (auto simp: reader_fwd_def)
  next
    case False
    have "it_b it \<noteq> None" using p False by (auto simp: reader_pending_def split: if_splits)
    note coh = coh [OF this]
    have "snd (bs ! (c' - 1)) < fst (hd rest)" if "0 < c'"
    proof -
      have "snd (bs ! (c' - 1)) < fst (hd (fst (bs ! c')))"
        using opens_index(7) [OF op, of "c' - 1" c'] that n(6) False by simp
      also have "\<dots> \<le> fst (hd rest)"
        using opens_index(4) [OF op, of c'] strict_keys_hd_le n(6) False by simp
      finally show ?thesis .
    qed
    then show ?thesis using n ty coh False by (auto simp: reader_fwd_def dest: le_trans)
  qed
qed

lemma reader_fwd_seek:
  fixes t :: bytes
  assumes op: "opens crc L r n bs offs ix" and f: "reader_fwd n bs offs ix it bound rest" and t: "bound \<le> t"
  shows "\<exists>it'. reader_iter_seek crc L r it t = Some it' \<and>
    reader_fwd n bs offs ix it' t (filter (\<lambda>e. t \<le> fst e) (concat (map fst bs)))"
proof -
  let ?m = "seek_pos ix t"
  obtain c where ty: "it_type it = READER_ITER_TYPE_ITER" and p: "reader_pending n bs ix it c rest"
    and coh: "it_b it \<noteq> None \<Longrightarrow> (\<forall>m<length bs. it_block_offset it = offs m \<longrightarrow> m \<le> c) \<and>
          c < length bs \<and> (0 < c \<longrightarrow> snd (bs ! (c - 1)) < bound)"
    using f by (auto simp: reader_fwd_def)
  obtain i j where at: "it_at n bs ix it i c j" using p by (auto simp: reader_pending_def)
  have low: "c \<le> ?m" if b: "it_b it \<noteq> None"
  proof (cases "0 < c")
    case True
    then have "fst (ix ! (c - 1)) < t" using coh [OF b] t opens_index(3) [OF op, of "c - 1"] by force
    then have "c - 1 < ?m"
      using less_seek_pos [OF opens_index(2) [OF op], of "c - 1" t] opens_index(1) [OF op] coh [OF b] by force
    then show ?thesis by simp
  qed simp
  have "c = ?m" if "it_b it \<noteq> None" "?m < length bs" "it_block_offset it = offs ?m"
    using low [OF that(1)] coh [OF that(1)] that(2,3) by force
  then obtain it' where s: "reader_iter_seek crc L r it t = Some it'" "it_type it' = it_type it"
      "it_block_offset it' = (if ?m < length bs then offs ?m else it_block_offset it)"
      "?m < length bs \<or> it_b it' = it_b it"
      "reader_pending n bs ix it' (if ?m < length bs then ?m else c) (filter (\<lambda>e. t \<le> fst e) (concat (map fst bs)))"
    using reader_seek_ok [OF op at, of t] by auto
  show ?thesis
  proof (cases "?m < length bs")
    case True
    have "snd (bs ! (?m - 1)) < t" if "0 < ?m"
      using before_seek_pos [of "?m - 1" ix t] that opens_index(3) [OF op, of "?m - 1"] True by simp
    moreover have "m \<le> ?m" if "m < length bs" "offs ?m = offs m" for m
      using opens_index(6) [OF op True that(1)] that(2) by simp
    ultimately show ?thesis using s ty True by (auto simp: reader_fwd_def)
  next
    case False
    have "0 < c \<longrightarrow> snd (bs ! (c - 1)) < t" if "it_b it \<noteq> None"
      using coh [OF that] t by (auto intro: less_le_trans)
    then show ?thesis using s ty coh False by (auto simp: reader_fwd_def)
  qed
qed

lemma reader_run_ok:
  assumes op: "opens crc L r n bs offs ix"
  shows "reader_fwd n bs offs ix it bound rest \<Longrightarrow> forward (concat (map fst bs)) rest bound ops \<Longrightarrow>
    \<exists>it'. reader_run crc L r it ops = Some (iter_spec (concat (map fst bs)) rest ops, it')"
proof (induction ops arbitrary: it bound rest)
  case (Cons oper ops)
  show ?case
  proof (cases oper)
    case Next
    obtain it1 where "reader_iter_next crc L r it = Some (if rest = [] then None else Some (hd rest), it1)"
        "reader_fwd n bs offs ix it1 (if rest = [] then bound else fst (hd rest)) (tl rest)"
      using reader_fwd_next [OF op Cons.prems(1)] by blast
    with Cons.IH [OF this(2)] Cons.prems(2) Next show ?thesis by auto
  next
    case (Seek t)
    then obtain it1 where "reader_iter_seek crc L r it t = Some it1"
        "reader_fwd n bs offs ix it1 t (filter (\<lambda>e. t \<le> fst e) (concat (map fst bs)))"
      using reader_fwd_seek [OF op Cons.prems(1), of t] Cons.prems(2) by auto
    with Cons.IH [OF this(2)] Cons.prems(2) Seek show ?thesis by auto
  qed
qed simp

subsection \<open>Seeking back\<close>

lemma reader_run_append:
  "reader_run crc L r it (xs @ ys) = do {
     (es, it) \<leftarrow> reader_run crc L r it xs;
     (es', it) \<leftarrow> reader_run crc L r it ys;
     Some (es @ es', it)
   }"
proof (induction xs arbitrary: it)
  case Nil
  show ?case by (cases "reader_run crc L r it ys") auto
next
  case (Cons oper xs)
  show ?case by (cases oper) (auto simp: Cons.IH split: Option.bind_split)
qed

lemma reader_nexts:
  assumes op: "opens crc L r n bs offs ix"
  shows "reader_pending n bs ix it c rest \<Longrightarrow> it_type it = READER_ITER_TYPE_ITER \<Longrightarrow> k \<le> length rest \<Longrightarrow>
    \<exists>it' c'. reader_run crc L r it (replicate k Next) = Some (map Some (take k rest), it') \<and>
      it_type it' = READER_ITER_TYPE_ITER \<and> it_block_offset it' = it_block_offset it \<and>
      reader_pending n bs ix it' c' (drop k rest) \<and>
      (if k = 0 then it' = it \<and> c' = c
       else it_valid it' \<and> c' < length bs \<and> rest ! (k - 1) \<in> set (fst (bs ! c')))"
proof (induction k arbitrary: it c rest)
  case (Suc k)
  obtain e es where rest: "rest = e # es" using Suc.prems(3) by (cases rest) auto
  obtain it1 c1 where n: "reader_iter_next crc L r it = Some (Some e, it1)"
      "it_type it1 = it_type it" "it_block_offset it1 = it_block_offset it" "reader_pending n bs ix it1 c1 es"
      "it_valid it1 \<and> c1 < length bs \<and> e \<in> set (fst (bs ! c1))"
    using reader_next_ok [OF op Suc.prems(1)] Suc.prems(2) rest by (auto simp: accepted_iter)
  have "k \<le> length es" "it_type it1 = READER_ITER_TYPE_ITER" using Suc.prems(2,3) rest n(2) by auto
  from Suc.IH [OF n(4) this(2,1)]
  obtain it' c' where k: "reader_run crc L r it1 (replicate k Next) = Some (map Some (take k es), it')"
      "it_type it' = READER_ITER_TYPE_ITER" "it_block_offset it' = it_block_offset it1"
      "reader_pending n bs ix it' c' (drop k es)"
      "if k = 0 then it' = it1 \<and> c' = c1
       else it_valid it' \<and> c' < length bs \<and> es ! (k - 1) \<in> set (fst (bs ! c'))"
    by blast
  have "it_valid it' \<and> c' < length bs \<and> rest ! k \<in> set (fst (bs ! c'))"
    using k(5) n(5) rest by (cases k) auto
  then show ?case using n k rest by auto
qed simp

lemma block_of_entry:
  assumes op: "opens crc L r n bs offs ix" and c: "c < length bs" "d < length bs"
    and e: "e \<in> set (fst (bs ! c))" "e \<in> set (fst (bs ! d))"
  shows "c = d"
proof -
  have False if cd: "c < d" "d < length bs" and e: "e \<in> set (fst (bs ! c))" "e \<in> set (fst (bs ! d))" for c d
  proof -
    have "c < length bs" using cd by simp
    then have "fst e \<le> snd (bs ! c)"
      using opens_index(4) [OF op] strict_keys_last_ge e(1) by (meson order_trans)
    also have "\<dots> < fst (hd (fst (bs ! d)))" by (rule opens_index(7) [OF op cd])
    also have "\<dots> \<le> fst e" using opens_index(4) [OF op cd(2)] strict_keys_hd_le e(2) by blast
    finally show False by simp
  qed
  with c e show ?thesis by (metis linorder_neqE_nat)
qed

lemma seek_to_front:
  assumes "strict_keys es" and "\<forall>e\<in>set es. t \<le> fst e"
  shows "seek_pos es t = 0"
  using assms by (cases es) (auto simp: seek_pos_def)

lemma reader_stale_seek:
  assumes op: "opens crc L r n bs offs ix" and two: "1 < length bs" and zero: "offs 0 = 0"
  shows "\<exists>it it'. reader_iter crc L r = Some (Some it) \<and>
    reader_run crc L r it (replicate (length (fst (bs ! 0)) + 1) Next @ [Seek (fst (hd (fst (bs ! 0)))), Next]) =
      Some (map Some (fst (bs ! 0) @ [hd (fst (bs ! 1))]) @ [Some (hd (fst (bs ! 1)))], it')"
proof -
  let ?t = "fst (hd (fst (bs ! 0)))" and ?all = "concat (map fst bs)" and ?k = "length (fst (bs ! 0)) + 1"
  obtain b0 b1 bs' where bs: "bs = b0 # b1 # bs'" using two by (cases bs; cases "tl bs") auto
  have "0 < length bs" using two by linarith
  note block0 = opens_index(4) [OF op this] and block1 = opens_index(4) [OF op two]
  have ne: "fst (bs ! 0) \<noteq> []" "fst (bs ! 1) \<noteq> []"
    and sk: "strict_keys (fst (bs ! 0))" "strict_keys (fst (bs ! 1))" using block0 block1 by blast+
  obtain it where it: "reader_iter crc L r = Some (Some it)" "it_type it = READER_ITER_TYPE_ITER"
      "it_block_offset it = 0" "reader_pending n bs ix it 0 ?all"
    using reader_iter_ok [OF op] two by (auto simp: split: if_splits)
  obtain e1 es1 where e1: "fst b1 = e1 # es1" using ne(2) bs by (cases "fst b1") auto
  have take: "take ?k ?all = fst (bs ! 0) @ [hd (fst (bs ! 1))]" "?all ! (?k - 1) = hd (fst (bs ! 1))"
    by (simp_all add: bs e1 nth_append)
  have "?k \<le> length ?all" by (simp add: bs e1)
  from reader_nexts [OF op it(4,2) this]
  obtain it1 c where it1: "reader_run crc L r it (replicate ?k Next) = Some (map Some (fst (bs ! 0) @ [hd (fst (bs ! 1))]), it1)"
      "it_block_offset it1 = 0" "it_type it1 = READER_ITER_TYPE_ITER" "reader_pending n bs ix it1 c (drop ?k ?all)"
      "it_valid it1" "c < length bs" "hd (fst (bs ! 1)) \<in> set (fst (bs ! c))"
    unfolding take it(3) by auto
  have "c = 1" using block_of_entry [OF op it1(6) two it1(7)] ne(2) by simp
  then obtain i j where at: "it_at n bs ix it1 i 1 j" and b: "it_b it1 \<noteq> None"
    using it1(4,5) by (auto simp: reader_pending_def)
  have ii: "positioned (it_index_iter it1) n ix i" using at by (simp add: it_at_def)
  obtain bi where bi: "it_bi it1 = Some bi" "positioned bi n (fst (bs ! 1)) j" using at b by (auto simp: it_at_def)
  have "?t \<le> fst (last (fst (bs ! 0)))" using strict_keys_hd_le [OF sk(1)] ne(1) by simp
  then have t0: "\<not> snd (bs ! 0) < ?t" using block0 by (meson not_less order_trans)
  have m: "seek_pos ix ?t = 0"
  proof -
    obtain x xs where "ix = x # xs" using opens_index(1) [OF op] two by (cases ix) auto
    then show ?thesis using t0 opens_index(3) [OF op \<open>0 < length bs\<close>] by (auto simp: seek_pos_def)
  qed
  have s1: "seek_pos (fst (bs ! 1)) ?t = 0"
  proof (rule seek_to_front [OF sk(2)], rule)
    fix e assume "e \<in> set (fst (bs ! 1))"
    then have "fst (hd (fst (bs ! 1))) \<le> fst e" by (rule strict_keys_hd_le [OF sk(2)])
    moreover have "?t \<le> snd (bs ! 0)" using t0 by simp
    moreover have "snd (bs ! 0) < fst (hd (fst (bs ! 1)))" using opens_index(7) [OF op, of 0 1] two by simp
    ultimately show "?t \<le> fst e" by simp
  qed
  obtain needs where needs: "needs_index_seek it1 ?t = Some needs" "\<not> needs \<longrightarrow> i = 0"
    using no_index_seek [OF op at, of ?t] m by auto
  obtain ii' where ii': "(if needs then block_iter_seek (it_index_iter it1) ?t else Some (it_index_iter it1)) = Some ii'"
      "positioned ii' n ix 0"
    using positioned_seek [OF ii opens_index(2) [OF op], of ?t] needs(2) ii m by (cases needs) auto
  have idx: "index_offset ii' = Some 0" "block_iter_get ii' = Some (Some (ix ! 0))"
    using get_block_at_index_ok [OF op ii'(2)] bs zero by auto
  obtain bi' where bi': "block_iter_seek bi ?t = Some bi'" "positioned bi' n (fst (bs ! 1)) 0"
    using positioned_seek [OF bi(2) sk(2), of ?t] s1 by auto
  define it2 where "it2 = it1\<lparr>it_index_iter := ii', it_bi := Some bi', it_first := True, it_valid := True\<rparr>"
  have "reader_iter_seek crc L r it1 ?t = Some it2"
    unfolding reader_iter_seek_def needs(1) using ii'(1) idx b bi(1) bi'(1) it1(2)
    by (auto simp: it2_def Let_def)
  moreover have "\<exists>it3. reader_iter_next crc L r it2 = Some (Some (hd (fst (bs ! 1))), it3)"
    using block_iter_get_positioned [OF bi'(2)] ne(2) it1(3)
    by (cases "hd (fst (bs ! 1))") (auto simp: reader_iter_next_def it2_def hd_conv_nth)
  ultimately show ?thesis
    using it(1) it1(1) by (auto simp: reader_run_append simp del: replicate_Suc)
qed

end
