(* ===== verification/Crc32c.thy ===== *)
theory Crc32c
  imports Crc32c_Tables Fixed
begin

text \<open>
  \<open>libmy/crc32c.c\<close>, \<open>crc32c-slicing.c\<close>, \<open>crc32c-sse42.c\<close> and \<open>mtbl/crc32c_wrap.c\<close>: the block
  checksum. The specification \<open>crc32c\<close> is the bitwise CRC-32C; the three implementations
  (slicing by 8 on little-endian hosts, on big-endian hosts, and the SSE 4.2 instructions)
  compute it, at whatever address the buffer lies. The CRC instructions are a parameter.
\<close>

subsection \<open>The specification\<close>

definition crc_byte :: "u32 \<Rightarrow> u8 \<Rightarrow> u32" where
  "crc_byte c b = crc_bits 8 (c XOR ucast b)"

definition crc32c :: "bytes \<Rightarrow> u32" where
  "crc32c data = NOT (foldl crc_byte 0xFFFFFFFF data)"

subsection \<open>Slicing by 8\<close>

definition crc_slice_byte :: "bool \<Rightarrow> u32 \<Rightarrow> u8 \<Rightarrow> u32" where
  "crc_slice_byte big_endian crc b =
     (if big_endian
      then g_crc_slicing_be_0 ! unat ((drop_bit 24 crc XOR ucast b) AND 0xFF) XOR push_bit 8 crc
      else g_crc_slicing_0 ! unat ((crc XOR ucast b) AND 0xFF) XOR drop_bit 8 crc)"

text \<open>One byte at a time to the first 4-byte boundary; the address is that of the first byte.\<close>

fun crc_to_boundary :: "bool \<Rightarrow> u64 \<Rightarrow> u32 \<Rightarrow> bytes \<Rightarrow> u32 \<times> bytes" where
  "crc_to_boundary big_endian addr crc [] = (crc, [])"
| "crc_to_boundary big_endian addr crc (b # p) =
     (if addr AND 3 \<noteq> 0
      then crc_to_boundary big_endian (addr + 1) (crc_slice_byte big_endian crc b) p
      else (crc, b # p))"

text \<open>\<open>*(uint32_t *)p\<close> in the host's byte order.\<close>

definition load32 :: "bool \<Rightarrow> bytes \<Rightarrow> u32" where
  "load32 big_endian p =
     (if big_endian then le_load (rev (take 4 p)) else le_load (take 4 p))"

definition crc_slice_8 :: "bool \<Rightarrow> u32 \<Rightarrow> u32 \<Rightarrow> u32" where
  "crc_slice_8 big_endian crc next =
     (if big_endian then
        g_crc_slicing_be_4 ! unat (crc AND 0xFF) XOR
        g_crc_slicing_be_5 ! unat (drop_bit 8 crc AND 0xFF) XOR
        g_crc_slicing_be_6 ! unat (drop_bit 16 crc AND 0xFF) XOR
        g_crc_slicing_be_7 ! unat (drop_bit 24 crc) XOR
        g_crc_slicing_be_0 ! unat (next AND 0xFF) XOR
        g_crc_slicing_be_1 ! unat (drop_bit 8 next AND 0xFF) XOR
        g_crc_slicing_be_2 ! unat (drop_bit 16 next AND 0xFF) XOR
        g_crc_slicing_be_3 ! unat (drop_bit 24 next)
      else
        g_crc_slicing_7 ! unat (crc AND 0xFF) XOR
        g_crc_slicing_6 ! unat (drop_bit 8 crc AND 0xFF) XOR
        g_crc_slicing_5 ! unat (drop_bit 16 crc AND 0xFF) XOR
        g_crc_slicing_4 ! unat (drop_bit 24 crc) XOR
        g_crc_slicing_3 ! unat (next AND 0xFF) XOR
        g_crc_slicing_2 ! unat (drop_bit 8 next AND 0xFF) XOR
        g_crc_slicing_1 ! unat (drop_bit 16 next AND 0xFF) XOR
        g_crc_slicing_0 ! unat (drop_bit 24 next))"

primrec crc_qwords :: "bool \<Rightarrow> nat \<Rightarrow> u32 \<Rightarrow> bytes \<Rightarrow> u32 \<times> bytes" where
  "crc_qwords big_endian 0 crc p = (crc, p)"
| "crc_qwords big_endian (Suc nqwords) crc p =
     (let crc = crc XOR load32 big_endian p;
          p = drop 4 p;
          next = load32 big_endian p;
          p = drop 4 p
      in crc_qwords big_endian nqwords (crc_slice_8 big_endian crc next) p)"

definition my_crc32c_slicing :: "bool \<Rightarrow> u64 \<Rightarrow> bytes \<Rightarrow> u32" where
  "my_crc32c_slicing big_endian addr chunk =
     (let crc = 0xFFFFFFFF;
          (crc, p) = crc_to_boundary big_endian addr crc chunk;
          (crc, p) = crc_qwords big_endian (length p div 8) crc p;
          crc = foldl (crc_slice_byte big_endian) crc p;
          crc = (if big_endian then byte_swap crc else crc)
      in NOT crc)"

subsection \<open>The CRC instructions\<close>

record crc_insns =
  crc32q :: "u64 \<Rightarrow> u64 \<Rightarrow> u64"
  crc32l :: "u32 \<Rightarrow> u32 \<Rightarrow> u32"
  crc32w :: "u32 \<Rightarrow> u16 \<Rightarrow> u32"
  crc32b :: "u32 \<Rightarrow> u8 \<Rightarrow> u32"

primrec sse42_qwords :: "crc_insns \<Rightarrow> nat \<Rightarrow> u64 \<Rightarrow> bytes \<Rightarrow> u64 \<times> bytes" where
  "sse42_qwords cpu 0 crc p = (crc, p)"
| "sse42_qwords cpu (Suc n) crc p =
     sse42_qwords cpu n (crc32q cpu crc (le_load (take 8 p))) (drop 8 p)"

text \<open>The \<open>switch\<close> on the remaining length; its cases fall through as in the code.\<close>

definition sse42_tail :: "crc_insns \<Rightarrow> u32 \<Rightarrow> bytes \<Rightarrow> u32" where
  "sse42_tail cpu crc p =
     (let u8 = (\<lambda>crc p. crc32b cpu crc (le_load (take 1 p)));
          u16 = (\<lambda>crc p. crc32w cpu crc (le_load (take 2 p)));
          u32 = (\<lambda>crc p. crc32l cpu crc (le_load (take 4 p)));
          case4 = u32;
          case6 = (\<lambda>crc p. case4 (u16 crc p) (drop 2 p));
          case7 = (\<lambda>crc p. case6 (u8 crc p) (drop 1 p));
          case2 = u16;
          case3 = (\<lambda>crc p. case2 (u8 crc p) (drop 1 p));
          case1 = u8;
          case5 = (\<lambda>crc p. case1 (u32 crc p) (drop 4 p));
          len = length p
      in if len = 7 then case7 crc p
         else if len = 6 then case6 crc p
         else if len = 4 then case4 crc p
         else if len = 3 then case3 crc p
         else if len = 2 then case2 crc p
         else if len = 5 then case5 crc p
         else if len = 1 then case1 crc p
         else crc)"

definition my_crc32c_sse42 :: "crc_insns \<Rightarrow> bytes \<Rightarrow> u32" where
  "my_crc32c_sse42 cpu buf =
     (let (crc64bit, p) = sse42_qwords cpu (length buf div 8) 0xFFFFFFFF buf
      in NOT (sse42_tail cpu (ucast crc64bit) p))"

definition my_crc32c_sse42_supported :: "u32 \<Rightarrow> bool" where
  "my_crc32c_sse42_supported ecx \<longleftrightarrow> ecx AND push_bit 20 1 \<noteq> 0"

text \<open>
  A host: whether it is an x86-64 and what \<open>cpuid\<close> leaves in \<open>ecx\<close> there, its instructions and
  its byte order. \<open>my_crc32c\<close> is the function the detection selects, applied.
\<close>

record host =
  host_x86_64 :: bool
  host_ecx :: u32
  host_insns :: crc_insns
  host_big_endian :: bool

definition my_crc32c :: "host \<Rightarrow> u64 \<Rightarrow> bytes \<Rightarrow> u32" where
  "my_crc32c h addr buf =
     (if host_x86_64 h then
        (if my_crc32c_sse42_supported (host_ecx h) then my_crc32c_sse42 (host_insns h) buf
         else my_crc32c_slicing (host_big_endian h) addr buf)
      else my_crc32c_slicing (host_big_endian h) addr buf)"

definition mtbl_crc32c :: "host \<Rightarrow> u64 \<Rightarrow> bytes \<Rightarrow> u32" where
  "mtbl_crc32c h addr buf = my_crc32c h addr buf"

text \<open>What the instructions do: as many CRC steps as the operand has bits.\<close>

definition insns_ok :: "crc_insns \<Rightarrow> bool" where
  "insns_ok cpu \<longleftrightarrow>
     (\<forall>c bs. length bs = 8 \<longrightarrow> crc32q cpu (ucast c) (le_load bs) = ucast (foldl crc_byte c bs)) \<and>
     (\<forall>c bs. length bs = 4 \<longrightarrow> crc32l cpu c (le_load bs) = foldl crc_byte c bs) \<and>
     (\<forall>c bs. length bs = 2 \<longrightarrow> crc32w cpu c (le_load bs) = foldl crc_byte c bs) \<and>
     (\<forall>c b. crc32b cpu c b = crc_byte c b)"

definition host_ok :: "host \<Rightarrow> bool" where
  "host_ok h \<longleftrightarrow> (host_x86_64 h \<longrightarrow> my_crc32c_sse42_supported (host_ecx h) \<longrightarrow> insns_ok (host_insns h))"

subsection \<open>Runs of bytes as words\<close>

lemma crc_bits_push:
  assumes "\<And>i. bit y i \<Longrightarrow> i + m < 32"
  shows "crc_bits (m + n) (push_bit m y) = crc_bits n y"
proof -
  have "crc_bits m (push_bit m y) = drop_bit m (push_bit m y)"
    by (rule crc_bits_zeros) (simp add: bit_simps)
  also have "\<dots> = y"
  proof (rule bit_word_eqI)
    fix n
    assume "n < LENGTH(32)"
    then show "bit (drop_bit m (push_bit m y)) n \<longleftrightarrow> bit y n"
      using assms [of n] by (auto simp: bit_simps add.commute)
  qed
  finally show ?thesis by (simp add: crc_bits_add)
qed

lemma foldl_crc_word:
  "length bs \<le> 4 \<Longrightarrow> foldl crc_byte c bs = crc_bits (8 * length bs) (c XOR le_load bs)"
proof (induction bs arbitrary: c)
  case (Cons b bs)
  have high: "i + 8 < 32" if "bit (le_load bs :: u32) i" for i
    using bit_le_load_bound [OF that] Cons.prems by simp
  have split: "le_load (b # bs) = (ucast b :: u32) XOR push_bit 8 (le_load bs)"
    by (rule bit_word_eqI) (auto simp: bit_simps dest: bit_imp_le_length)
  have "crc_bits (8 * length (b # bs)) (c XOR le_load (b # bs)) =
      crc_bits (8 * length bs) (crc_bits 8 (c XOR ucast b)) XOR
      crc_bits (8 + 8 * length bs) (push_bit 8 (le_load bs))"
    unfolding split by (simp add: crc_bits_xor crc_bits_add xor.assoc [symmetric])
  also have "\<dots> = crc_bits (8 * length bs) (crc_byte c b XOR le_load bs)"
    by (simp add: crc_bits_push [OF high] crc_byte_def crc_bits_xor)
  finally show ?case using Cons by simp
qed simp

lemma foldl_crc_8:
  assumes "8 \<le> length p"
  shows "foldl crc_byte c (take 8 p) =
    crc_bits 64 (c XOR load32 False p) XOR crc_bits 32 (load32 False (drop 4 p))"
proof -
  have "take 8 p = take 4 p @ take 4 (drop 4 p)" by (simp flip: take_add)
  moreover have "length (take 4 p) = 4" and "length (take 4 (drop 4 p)) = 4" using assms by simp_all
  ultimately show ?thesis
    using crc_bits_add [of 32 32]
    by (simp add: foldl_crc_word load32_def crc_bits_xor)
qed

lemma low_mask: "(0xFF :: u32) = mask 8"
  by (simp add: mask_eq_exp_minus_1)

lemma low_byte_high: "(y :: u32) AND 0xFF = y \<Longrightarrow> bit y i \<Longrightarrow> i < 8"
  unfolding low_mask by (metis bit_and_iff bit_mask_iff)

lemma low_byte: "(x AND 0xFF) AND 0xFF = (x AND 0xFF :: u32)" "drop_bit 24 x AND 0xFF = (drop_bit 24 x :: u32)"
  unfolding low_mask
  by (rule bit_word_eqI; auto simp: bit_simps dest: bit_imp_le_length)+

lemma word_bytes_xor:
  "(x :: u32) = (x AND 0xFF) XOR push_bit 8 (drop_bit 8 x AND 0xFF) XOR
     push_bit 16 (drop_bit 16 x AND 0xFF) XOR push_bit 24 (drop_bit 24 x)"
  unfolding low_mask by (rule bit_word_eqI) (auto simp: bit_simps)

lemma crc_bits_word:
  "crc_bits (24 + n) x =
     crc_bits (24 + n) (x AND 0xFF) XOR crc_bits (16 + n) (drop_bit 8 x AND 0xFF) XOR
     crc_bits (8 + n) (drop_bit 16 x AND 0xFF) XOR crc_bits n (drop_bit 24 x)"
proof -
  have h: "i + 24 < 32" if "bit (y AND 0xFF :: u32) i" for y i
    using low_byte_high [OF low_byte(1) that] by simp
  have h24: "i + 24 < 32" if "bit (drop_bit 24 x) i" for i
    using low_byte_high [OF low_byte(2) that] by simp
  have "crc_bits (24 + n) x =
     crc_bits (24 + n) (x AND 0xFF) XOR crc_bits (8 + (16 + n)) (push_bit 8 (drop_bit 8 x AND 0xFF)) XOR
     crc_bits (16 + (8 + n)) (push_bit 16 (drop_bit 16 x AND 0xFF)) XOR
     crc_bits (24 + n) (push_bit 24 (drop_bit 24 x))"
    by (subst word_bytes_xor) (simp add: crc_bits_xor add.assoc [symmetric])
  also have "\<dots> = crc_bits (24 + n) (x AND 0xFF) XOR crc_bits (16 + n) (drop_bit 8 x AND 0xFF) XOR
     crc_bits (8 + n) (drop_bit 16 x AND 0xFF) XOR crc_bits n (drop_bit 24 x)"
    by (subst crc_bits_push, use h in fastforce)+ (subst crc_bits_push, use h24 in fastforce, rule refl)
  finally show ?thesis .
qed

subsection \<open>Slicing by 8 on a little-endian host\<close>

lemma slice_byte_le: "crc_slice_byte False c b = crc_byte c b"
proof -
  have h: "i + 8 < 32" if "bit (drop_bit 8 y :: u32) i" for y i
    using that by (auto simp: bit_simps dest: bit_imp_le_length)
  have split: "crc_bits 8 x = crc_bits 8 (x AND 0xFF) XOR drop_bit 8 x" for x
  proof -
    have "x = (x AND 0xFF) XOR push_bit 8 (drop_bit 8 x)"
      unfolding low_mask by (rule bit_word_eqI) (auto simp: bit_simps)
    then have "crc_bits 8 x = crc_bits 8 (x AND 0xFF) XOR crc_bits (8 + 0) (push_bit 8 (drop_bit 8 x))"
      using crc_bits_xor [of 8 "x AND 0xFF" "push_bit 8 (drop_bit 8 x)"] by simp
    also have "crc_bits (8 + 0) (push_bit 8 (drop_bit 8 x)) = crc_bits 0 (drop_bit 8 x)"
      by (rule crc_bits_push [OF h])
    finally show ?thesis by (simp only: crc_bits.simps)
  qed
  have "drop_bit 8 (c XOR ucast b) = drop_bit 8 c"
    by (rule bit_word_eqI) (auto simp: bit_simps dest: bit_imp_le_length)
  then show ?thesis
    using split [of "c XOR ucast b"] by (simp add: crc_slice_byte_def crc_byte_def table_lookup [OF low_byte(1)])
qed

lemma slice_8_le: "crc_slice_8 False crc next = crc_bits 64 crc XOR crc_bits 32 next"
  using crc_bits_word [of 40 crc] crc_bits_word [of 8 "next"]
  by (simp add: crc_slice_8_def table_lookup [OF low_byte(1)] table_lookup [OF low_byte(2)] xor.assoc)

lemma boundary_le: "crc_to_boundary False a c p = (c', q) \<Longrightarrow> foldl crc_byte c p = foldl crc_byte c' q"
  by (induction p arbitrary: a c) (auto simp: slice_byte_le split: if_splits)

lemma qwords_le:
  "8 * n \<le> length p \<Longrightarrow> crc_qwords False n c p = (c', q) \<Longrightarrow> foldl crc_byte c p = foldl crc_byte c' q"
proof (induction n arbitrary: c p)
  case (Suc n)
  have "foldl crc_byte c p = foldl crc_byte (foldl crc_byte c (take 8 p)) (drop 8 p)"
    by (simp flip: foldl_append)
  then show ?case
    using Suc foldl_crc_8 [of p c] by (simp add: Let_def slice_8_le)
qed simp

lemma slicing_le: "my_crc32c_slicing False addr chunk = crc32c chunk"
proof -
  obtain c p where b: "crc_to_boundary False addr 0xFFFFFFFF chunk = (c, p)" by fastforce
  obtain c' q where q: "crc_qwords False (length p div 8) c p = (c', q)" by fastforce
  have "crc_slice_byte False = crc_byte" by (simp add: fun_eq_iff slice_byte_le)
  then show ?thesis
    using boundary_le [OF b] qwords_le [OF _ q]
    by (simp add: my_crc32c_slicing_def crc32c_def b q)
qed

subsection \<open>Slicing by 8 on a big-endian host\<close>

text \<open>The big-endian code computes the byte-swapped state at every step.\<close>

lemma byte_swap_swap [simp]: "byte_swap (byte_swap x) = x"
  by (rule bit_word_eqI) (auto simp: bit_byte_swap)

lemma swap_bytes:
  "drop_bit 24 (byte_swap x) = x AND 0xFF"
  "drop_bit 16 (byte_swap x) AND 0xFF = drop_bit 8 x AND 0xFF"
  "drop_bit 8 (byte_swap x) AND 0xFF = drop_bit 16 x AND 0xFF"
  "byte_swap x AND 0xFF = drop_bit 24 x"
  "push_bit 8 (byte_swap x) = byte_swap (drop_bit 8 x)"
  unfolding low_mask
  by (rule bit_word_eqI; auto simp: bit_simps bit_byte_swap add.commute dest: bit_imp_le_length)+

lemma slice_byte_be: "crc_slice_byte True (byte_swap c) b = byte_swap (crc_byte c b)"
proof -
  have "(drop_bit 24 (byte_swap c) XOR ucast b) AND 0xFF = (c XOR ucast b) AND 0xFF"
    unfolding low_mask by (rule bit_word_eqI) (auto simp: bit_simps bit_byte_swap add.commute)
  then show ?thesis
    unfolding slice_byte_le [symmetric]
    by (simp add: crc_slice_byte_def table_lookup [OF low_byte(1)] byte_swap_xor swap_bytes)
qed

lemma slice_8_be:
  "crc_slice_8 True (byte_swap crc) (byte_swap next) = byte_swap (crc_slice_8 False crc next)"
  by (simp add: crc_slice_8_def swap_bytes byte_swap_xor table_lookup [OF low_byte(1)]
      table_lookup [OF low_byte(2)] xor.assoc xor.commute xor.left_commute)

lemma load32_be:
  assumes "4 \<le> length p"
  shows "load32 True p = byte_swap (load32 False p)"
proof -
  obtain a b c d where t: "take 4 p = [a, b, c, d]"
    using assms by (auto simp: eval_nat_numeral Suc_le_length_iff)
  show ?thesis
    unfolding load32_def t
    by (rule bit_word_eqI) (auto simp: bit_byte_swap bit_simps dest: bit_imp_le_length)
qed

lemma boundary_be:
  "crc_to_boundary True a (byte_swap c) p =
     (case crc_to_boundary False a c p of (c', q) \<Rightarrow> (byte_swap c', q))"
  by (induction p arbitrary: a c) (auto simp: slice_byte_be slice_byte_le)

lemma qwords_be:
  "8 * n \<le> length p \<Longrightarrow> crc_qwords True n (byte_swap c) p =
     (case crc_qwords False n c p of (c', q) \<Rightarrow> (byte_swap c', q))"
  by (induction n arbitrary: c p)
    (simp_all add: Let_def load32_be slice_8_be flip: byte_swap_xor)

lemma foldl_be: "foldl (crc_slice_byte True) (byte_swap c) p = byte_swap (foldl (crc_slice_byte False) c p)"
  by (induction p arbitrary: c) (simp_all add: slice_byte_be slice_byte_le)

lemma slicing_be: "my_crc32c_slicing True addr chunk = my_crc32c_slicing False addr chunk"
proof -
  have s: "(0xFFFFFFFF :: u32) = byte_swap 0xFFFFFFFF" by (simp add: byte_swap_def)
  obtain c p where b: "crc_to_boundary False addr 0xFFFFFFFF chunk = (c, p)" by fastforce
  obtain c' q where q: "crc_qwords False (length p div 8) c p = (c', q)" by fastforce
  have "crc_to_boundary True addr 0xFFFFFFFF chunk = (byte_swap c, p)"
    by (subst s) (simp add: boundary_be b)
  moreover have "crc_qwords True (length p div 8) (byte_swap c) p = (byte_swap c', q)"
    by (simp add: qwords_be q)
  ultimately show ?thesis
    by (simp add: my_crc32c_slicing_def b q foldl_be)
qed

subsection \<open>The instructions\<close>

lemma sse42_qwords_ok:
  assumes "insns_ok cpu"
  shows "8 * n \<le> length p \<Longrightarrow>
    sse42_qwords cpu n (ucast c) p = (ucast (foldl crc_byte c (take (8 * n) p)), drop (8 * n) p)"
proof (induction n arbitrary: c p)
  case (Suc n)
  have "crc32q cpu (ucast c) (le_load (take 8 p)) = ucast (foldl crc_byte c (take 8 p))"
    using assms Suc.prems by (simp add: insns_ok_def)
  moreover have "take (8 * Suc n) p = take 8 p @ take (8 * n) (drop 8 p)"
    by (simp add: take_add [symmetric] add.commute)
  ultimately show ?case using Suc by (simp add: add.commute)
qed simp

lemma sse42_tail_ok:
  assumes "insns_ok cpu" and "length p < 8"
  shows "sse42_tail cpu c p = foldl crc_byte c p"
proof -
  have i: "crc32l cpu c (le_load [a, b, d, e]) = foldl crc_byte c [a, b, d, e]"
      "crc32w cpu c (le_load [a, b]) = foldl crc_byte c [a, b]"
      "crc32b cpu c a = crc_byte c a" for c a b d e
  proof -
    have "length [a, b, d, e] = 4" and "length [a, b] = 2" by simp_all
    then show "crc32l cpu c (le_load [a, b, d, e]) = foldl crc_byte c [a, b, d, e]"
        "crc32w cpu c (le_load [a, b]) = foldl crc_byte c [a, b]" "crc32b cpu c a = crc_byte c a"
      using assms(1) unfolding insns_ok_def by blast+
  qed
  have one: "le_load [b] = (b :: u8)" for b by simp
  show ?thesis
    using assms(2)
    by (auto simp: sse42_tail_def Let_def length_Suc_conv less_Suc_eq eval_nat_numeral i one
        simp del: le_load.simps)
qed

lemma sse42_ok: "insns_ok cpu \<Longrightarrow> my_crc32c_sse42 cpu buf = crc32c buf"
proof -
  assume i: "insns_ok cpu"
  have u: "(0xFFFFFFFF :: u64) = ucast (0xFFFFFFFF :: u32)" by simp
  have q: "sse42_qwords cpu (length buf div 8) 0xFFFFFFFF buf =
      (ucast (foldl crc_byte 0xFFFFFFFF (take (8 * (length buf div 8)) buf)), drop (8 * (length buf div 8)) buf)"
    unfolding u by (rule sse42_qwords_ok [OF i]) simp
  have l: "length (drop (8 * (length buf div 8)) buf) < 8" by simp
  have "foldl crc_byte (foldl crc_byte 0xFFFFFFFF (take (8 * (length buf div 8)) buf)) (drop (8 * (length buf div 8)) buf) =
      foldl crc_byte 0xFFFFFFFF buf"
    by (simp flip: foldl_append)
  then show ?thesis
    by (simp add: my_crc32c_sse42_def q sse42_tail_ok [OF i l] crc32c_def)
qed

lemma mtbl_crc32c_ok: "host_ok h \<Longrightarrow> mtbl_crc32c h addr buf = crc32c buf"
  by (cases "host_big_endian h")
     (auto simp: mtbl_crc32c_def my_crc32c_def host_ok_def sse42_ok slicing_be slicing_le)

lemma crc_bits_8:
  "crc_bits 8 c = crc_bit (crc_bit (crc_bit (crc_bit (crc_bit (crc_bit (crc_bit (crc_bit c)))))))"
  by (simp add: numeral_eq_Suc)

subsection \<open>Properties\<close>

text \<open>
  C27: slicing by 8 with the literal tables computes CRC-32C (reflected polynomial 0x82F63B78,
  initial value and final complement all ones), for every buffer, at every alignment of its
  address, with the little-endian and with the big-endian tables and code.
\<close>

theorem crc32c_slicing_correct: "my_crc32c_slicing big_endian addr chunk = crc32c chunk"
  by (cases big_endian) (simp_all add: slicing_be slicing_le)

text \<open>
  C28: whichever implementation the runtime detection selects, the checksum is the same: any two
  hosts whose CRC instructions do what their manual says agree on every buffer, and with the
  published check value of CRC-32C.
\<close>

theorem crc32c_portable:
  assumes "host_ok h" and "host_ok h'"
  shows "mtbl_crc32c h addr buf = mtbl_crc32c h' addr' buf \<and>
    mtbl_crc32c h addr [49, 50, 51, 52, 53, 54, 55, 56, 57] = 0xE3069283"
proof -
  have "crc32c [49, 50, 51, 52, 53, 54, 55, 56, 57] = 0xE3069283"
    by (simp add: crc32c_def crc_byte_def crc_bits_8 crc_bit_def)
  then show ?thesis by (simp add: mtbl_crc32c_ok assms)
qed

definition reference_insns :: crc_insns where
  "reference_insns =
     \<lparr>crc32q = (\<lambda>c v. ucast (foldl crc_byte (ucast c) (le_store 8 v))),
      crc32l = (\<lambda>c v. foldl crc_byte c (le_store 4 v)),
      crc32w = (\<lambda>c v. foldl crc_byte c (le_store 2 v)),
      crc32b = crc_byte\<rparr>"

lemma reference_insns_ok: "insns_ok reference_insns"
proof -
  have "le_store 8 (le_load bs :: u64) = bs" if "length bs = 8" for bs
    using le_store_load [of bs, where 'a = 64] that by simp
  moreover have "le_store 4 (le_load bs :: u32) = bs" if "length bs = 4" for bs
    using le_store_load [of bs, where 'a = 32] that by simp
  moreover have "le_store 2 (le_load bs :: u16) = bs" if "length bs = 2" for bs
    using le_store_load [of bs, where 'a = 16] that by simp
  ultimately show ?thesis by (simp add: insns_ok_def reference_insns_def)
qed

theorem crc32c_portable_witness:
  "mtbl_crc32c \<lparr>host_x86_64 = True, host_ecx = 0x100000, host_insns = reference_insns, host_big_endian = False\<rparr> 3 [1, 2, 3] =
   mtbl_crc32c \<lparr>host_x86_64 = False, host_ecx = 0, host_insns = reference_insns, host_big_endian = True\<rparr> 2 [1, 2, 3]"
proof -
  have "host_ok \<lparr>host_x86_64 = b, host_ecx = e, host_insns = reference_insns, host_big_endian = g\<rparr>" for b e g
    by (simp add: host_ok_def reference_insns_ok)
  from crc32c_portable [OF this this] show ?thesis by blast
qed

end
