(* ===== verification/Writer_Reader.thy ===== *)
theory Writer_Reader
  imports Reader_Run Crc32c
begin

text \<open>
  From the calls of a writer to the iterators of a reader of its file: the facts the properties
  of the whole share. \<open>increasing\<close> is the answer the writer gives to each call,
  \<open>kept\<close> the entries it keeps; \<open>run_fits\<close> collects the bounds.
\<close>

subsection \<open>What a writer keeps\<close>

primrec increasing :: "bytes option \<Rightarrow> entry list \<Rightarrow> bool list" where
  "increasing prev [] = []"
| "increasing prev (e # es) =
     (let r = (case prev of None \<Rightarrow> True | Some k \<Rightarrow> k < fst e)
      in r # increasing (if r then Some (fst e) else prev) es)"

primrec kept :: "bytes option \<Rightarrow> entry list \<Rightarrow> entry list" where
  "kept prev [] = []"
| "kept prev (e # es) =
     (if case prev of None \<Rightarrow> True | Some k \<Rightarrow> k < fst e then e # kept (Some (fst e)) es
      else kept prev es)"

lemma kept_strict:
  "strict_keys (kept prev es) \<and> (\<forall>k. prev = Some k \<longrightarrow> (\<forall>e\<in>set (kept prev es). k < fst e))"
proof (induction es arbitrary: prev)
  case (Cons e es)
  show ?case
    using Cons.IH [of "Some (fst e)"] Cons.IH [of prev]
    by (auto simp: strict_keys_def split: option.splits intro: less_trans)
qed simp

lemma kept_all:
  "strict_keys es \<Longrightarrow> (\<And>k. prev = Some k \<Longrightarrow> \<forall>e\<in>set es. k < fst e) \<Longrightarrow>
   kept prev es = es \<and> increasing prev es = replicate (length es) True"
proof (induction es arbitrary: prev)
  case (Cons e es)
  have "strict_keys es" "\<forall>x\<in>set es. fst e < fst x" using Cons.prems(1) by (auto simp: strict_keys_def)
  with Cons.IH [of "Some (fst e)"] Cons.prems(2) show ?case by (auto split: option.splits)
qed simp

lemma kept_length: "length (kept prev es) \<le> length es"
  by (induction es arbitrary: prev) (auto intro: le_SucI split: option.splits)

lemma sum_list_le: "(\<And>x. x \<in> set xs \<Longrightarrow> g x \<le> (c::nat)) \<Longrightarrow> (\<Sum>x\<leftarrow>xs. g x) \<le> length xs * c"
  by (induction xs) (simp_all add: add_le_mono)

lemma kept_subset: "set (kept prev es) \<subseteq> set es"
  by (induction es arbitrary: prev) (auto split: option.splits if_splits)

lemma table_adds_kept:
  "(snd st = [] \<longrightarrow> fst st = []) \<Longrightarrow>
   fst (table_adds opt st es) = increasing (if snd st = [] then None else Some (fst (last (snd st)))) es \<and>
   table_entries (snd (table_adds opt st es)) =
     table_entries st @ kept (if snd st = [] then None else Some (fst (last (snd st)))) es"
proof (induction es arbitrary: st)
  case (Cons e es)
  obtain dn cur where st: "st = (dn, cur)" by fastforce
  obtain k v where e: "e = (k, v)" by fastforce
  obtain r st' where a: "table_add opt st e = (r, st')" by (metis surj_pair)
  have ne: "snd st' = [] \<longrightarrow> fst st' = []" using a Cons.prems by (auto simp: st e split: if_splits)
  have keys: "r = (case if cur = [] then None else Some (fst (last cur)) of None \<Rightarrow> True | Some p \<Rightarrow> p < k)"
      "(if snd st' = [] then None else Some (fst (last (snd st')))) =
         (if r then Some k else if cur = [] then None else Some (fst (last cur)))"
      "table_entries st' = table_entries st @ (if r then [e] else [])"
    using a Cons.prems by (auto simp: st e table_entries_def split: if_splits)
  obtain rs st2 where b: "table_adds opt st' es = (rs, st2)" by (metis surj_pair)
  show ?case
    using Cons.IH [OF ne] keys a b by (auto simp: st e Let_def split: option.splits if_splits)
qed simp

subsection \<open>The written file\<close>

definition run_fits :: "'z complib \<Rightarrow> mtbl_writer_options \<Rightarrow> fdesc \<Rightarrow> entry list \<Rightarrow> bool" where
  "run_fits L opt fd es \<longleftrightarrow> table_fits L opt es \<and> f_ok fd \<and> length es < 2 ^ 31 - 1"

lemma run_fitsI:
  "opt_fits opt \<Longrightarrow> compressor_ok L opt \<Longrightarrow> f_ok fd \<Longrightarrow> \<forall>e\<in>set es. entry_fits e \<Longrightarrow> length es < 2 ^ 31 - 1 \<Longrightarrow>
   run_fits L opt fd es"
  by (simp add: run_fits_def table_fitsI)

lemma run_fitsD:
  assumes "run_fits L opt fd es"
  shows "opt_fits opt" "f_ok fd" "\<forall>e\<in>set es. entry_fits e" "length es < 2 ^ 31 - 1" "table_fits L opt es"
  using assms table_fitsD [of L opt es] by (simp_all add: run_fits_def)

lemma table_fits_subset: "table_fits L opt es \<Longrightarrow> set es' \<subseteq> set es \<Longrightarrow> table_fits L opt es'"
  unfolding table_fits_def by blast

definition final_state :: "mtbl_writer_options \<Rightarrow> entry list \<Rightarrow> table_state" where
  "final_state opt es = snd (table_adds opt ([], []) es)"

lemma final_entries: "table_entries (final_state opt es) = kept None es"
  using table_adds_kept [of "([], [])" opt es] by (simp add: final_state_def table_entries_def)

lemma write_table:
  assumes fits: "run_fits L opt fd (added evs)"
  shows "\<exists>w w' fd'. mtbl_writer_init_fd fd (Some opt) = Some w \<and>
    writer_run L crc w evs = Some (increasing None (added evs), w') \<and>
    mtbl_writer_destroy L crc w' = Some fd' \<and>
    f_bytes fd' = table_image L crc opt (f_bytes fd) (kept None (added evs))
      (table_close (final_state opt (added evs))) \<and>
    state_small opt (final_state opt (added evs))"
proof -
  let ?es = "added evs" and ?st = "final_state opt (added evs)"
  let ?G = "\<lambda>st. state_small opt st \<and> set (table_entries st) \<subseteq> set ?es"
  note opt = run_fitsD [OF fits]
  have n: "0 < wo_block_restart_interval opt" using opt(1) by (simp add: opt_fits_def)
  obtain w where w: "mtbl_writer_init_fd fd (Some opt) = Some w"
      "writer_inv L crc opt (f_bytes fd) w [] [] []"
    using writer_init_ok [OF n opt(2), of L crc] by blast
  have ll: "lossless L opt (block_image (wo_block_restart_interval opt) cur)"
    if "?G (dn, cur)" "cur \<noteq> []" for dn cur
  proof -
    have "blocks_lossless L opt (dn, cur)"
      using that(1) table_fits_subset [OF opt(5)] by (intro fits_lossless) auto
    then show ?thesis using that(2) by (simp add: blocks_lossless_def table_close_def)
  qed
  have "\<exists>w' wr qu cur. writer_run L crc w evs = Some (increasing None ?es, w') \<and>
      ?st = (wr @ qu, cur) \<and> writer_inv L crc opt (f_bytes fd) w' wr qu cur \<and> ?G ?st"
  proof (rule writer_run_ok [where G = ?G and S = "set ?es"
        and written = "[]" and queued = "[]" and cur = "[]"])
    fix st e r st'
    assume G: "?G st" and e: "e \<in> set ?es" and a: "table_add opt st e = (r, st')"
    have "table_entries st' = table_entries st @ (if r then [e] else [])"
      using a by (cases st; cases e) (auto simp: table_entries_def split: if_splits)
    then show "?G st'" using G e state_small_add [OF opt(1) _ _ a] opt(3) by auto
  next
    show "table_adds opt ([] @ [], []) ?es = (increasing None ?es, ?st)"
      using table_adds_kept [of "([], [])" opt ?es] by (simp add: final_state_def prod_eq_iff)
    show "writer_inv L crc opt (f_bytes fd) w [] [] []" by (rule w(2))
    show "length (table_entries ([] @ [], [])) + length ?es < 2 ^ 64"
      using opt(4) by (simp add: table_entries_def)
  qed (use ll in \<open>simp_all add: table_entries_def\<close>)
  then obtain w' wr qu cur where w': "writer_run L crc w evs = Some (increasing None ?es, w')"
      "?st = (wr @ qu, cur)" "writer_inv L crc opt (f_bytes fd) w' wr qu cur" "state_small opt ?st"
      "set (table_entries ?st) \<subseteq> set ?es"
    by blast
  obtain w2 where w2: "mtbl_writer_finish L crc w' = Some w2"
      "f_bytes (w_fd w2) = table_image L crc opt (f_bytes fd) (table_entries ?st) (table_close ?st)"
    using writer_finish_ok [OF w'(3)] ll [of "wr @ qu" cur] w'(2,4,5) by auto
  have "\<not> w_closed w'" using w'(3) by (simp add: writer_inv_def writer_core_def)
  then have "mtbl_writer_destroy L crc w' = Some (w_fd w2)" using w2(1) by (simp add: mtbl_writer_destroy_def)
  then show ?thesis using w(1) w' w2(2) final_entries by metis
qed

subsection \<open>The checksums of the hosts\<close>

text \<open>The checksum of a buffer on a host that holds it at the address \<open>addr\<close> gives.\<close>

definition host_crc :: "host \<Rightarrow> (bytes \<Rightarrow> u64) \<Rightarrow> bytes \<Rightarrow> u32" where
  "host_crc h addr buf = mtbl_crc32c h (addr buf) buf"

lemma host_crc_eq: "host_ok h \<Longrightarrow> host_crc h addr = crc32c"
  by (rule ext) (simp add: host_crc_def mtbl_crc32c_ok)

subsection \<open>The reader of the written file\<close>

definition block_offsets ::
  "'z complib \<Rightarrow> (bytes \<Rightarrow> u32) \<Rightarrow> mtbl_writer_options \<Rightarrow> bytes \<Rightarrow> tblock list \<Rightarrow> nat \<Rightarrow> u64" where
  "block_offsets L crc opt pre bs i = of_nat (block_offset L crc opt pre bs i)"

lemma final_lossless:
  assumes "run_fits L opt fd es" and "state_small opt (final_state opt es)"
  shows "blocks_lossless L opt (final_state opt es)"
  using table_fits_subset [OF run_fitsD(5) [OF assms(1)] kept_subset [of None]] assms(2)
  by (intro fits_lossless) (simp_all add: final_entries)

lemma read_table:
  fixes opt :: mtbl_writer_options and L :: "'z complib" and crc :: "bytes \<Rightarrow> u32"
    and fd :: fdesc and evs :: "writer_event list"
  assumes fits: "run_fits L opt fd (added evs)"
  shows "\<exists>w w' fd'. mtbl_writer_init_fd fd (Some opt) = Some w \<and>
    writer_run L crc w evs = Some (increasing None (added evs), w') \<and>
    mtbl_writer_destroy L crc w' = Some fd' \<and>
    (length (f_bytes fd') < 2 ^ 63 \<longrightarrow> (\<exists>r.
       mtbl_reader_init_fd crc False (f_bytes fd') ropt = Some (Some r) \<and>
       opens crc L r (wo_block_restart_interval opt) (table_close (final_state opt (added evs)))
         (block_offsets L crc opt (f_bytes fd) (table_close (final_state opt (added evs))))
         (index_entries L crc opt (length (f_bytes fd)) (table_close (final_state opt (added evs)))) \<and>
       (\<exists>i j. r_m r = (table_meta L crc opt (kept None (added evs)) (table_close (final_state opt (added evs))))\<lparr>
          index_block_offset := i, bytes_index_block := j\<rparr>)))"
proof -
  let ?es = "added evs" and ?st = "final_state opt (added evs)"
  obtain w w' fd' where w: "mtbl_writer_init_fd fd (Some opt) = Some w"
      "writer_run L crc w evs = Some (increasing None ?es, w')" "mtbl_writer_destroy L crc w' = Some fd'"
      "f_bytes fd' = table_image L crc opt (f_bytes fd) (kept None ?es) (table_close ?st)" "state_small opt ?st"
    using write_table [OF fits] by blast
  have opt: "opt_fits opt" "blocks_lossless L opt ?st"
    using run_fitsD(1) [OF fits] final_lossless [OF fits w(5)] by simp_all
  have cnt: "length (table_entries ?st) < 2 ^ 31 - 1"
    using fits kept_length unfolding final_entries run_fits_def by (meson order_le_less_trans)
  show ?thesis
  proof (rule exI [of _ w], rule exI [of _ w'], rule exI [of _ fd'], intro conjI impI)
    assume "length (f_bytes fd') < 2 ^ 63"
    from reader_opens [OF opt(1) w(5) opt(2) cnt this [unfolded w(4)], of ropt]
    show "\<exists>r. mtbl_reader_init_fd crc False (f_bytes fd') ropt = Some (Some r) \<and>
       opens crc L r (wo_block_restart_interval opt) (table_close ?st)
         (block_offsets L crc opt (f_bytes fd) (table_close ?st))
         (index_entries L crc opt (length (f_bytes fd)) (table_close ?st)) \<and>
       (\<exists>i j. r_m r = (table_meta L crc opt (kept None ?es) (table_close ?st))\<lparr>
          index_block_offset := i, bytes_index_block := j\<rparr>)"
      unfolding block_offsets_def w(4) by blast
  qed (rule w)+
qed

subsection \<open>Sessions\<close>

text \<open>A writer from \<open>mtbl_writer_init_fd\<close> to \<open>mtbl_writer_destroy\<close>: the answers and the file left.\<close>

definition write_file ::
  "'z complib \<Rightarrow> (bytes \<Rightarrow> u32) \<Rightarrow> mtbl_writer_options \<Rightarrow> fdesc \<Rightarrow> writer_event list \<Rightarrow> (bool list \<times> bytes) option" where
  "write_file L crc opt fd evs = do {
     w \<leftarrow> mtbl_writer_init_fd fd (Some opt);
     (rs, w) \<leftarrow> writer_run L crc w evs;
     fd \<leftarrow> mtbl_writer_destroy L crc w;
     Some (rs, f_bytes fd)
   }"

text \<open>A reader of a file, one query, and a client that takes entries until there is none.\<close>

definition read_file ::
  "'z complib \<Rightarrow> (bytes \<Rightarrow> u32) \<Rightarrow> mtbl_reader_options option \<Rightarrow> bytes \<Rightarrow> reader_iter_type \<Rightarrow> bytes \<Rightarrow> bytes \<Rightarrow> nat \<Rightarrow>
   entry list option option" where
  "read_file L crc ropt data ty key0 key1 fuel = do {
     r \<leftarrow> mtbl_reader_init_fd crc False data ropt;
     case r of
       None \<Rightarrow> Some None
     | Some r \<Rightarrow> do {
         it \<leftarrow> reader_open crc L r ty key0 key1;
         case it of
           None \<Rightarrow> Some (Some [])
         | Some it \<Rightarrow> do {
             (es, _) \<leftarrow> drain (reader_iter_next crc L r) fuel it;
             Some (Some es)
           }
       }
   }"

text \<open>The same with one iterator over the whole table and a sequence of steps and seeks.\<close>

definition run_file ::
  "'z complib \<Rightarrow> (bytes \<Rightarrow> u32) \<Rightarrow> mtbl_reader_options option \<Rightarrow> bytes \<Rightarrow> iter_op list \<Rightarrow> entry option list option option" where
  "run_file L crc ropt data ops = do {
     r \<leftarrow> mtbl_reader_init_fd crc False data ropt;
     case r of
       None \<Rightarrow> Some None
     | Some r \<Rightarrow> do {
         it \<leftarrow> reader_iter crc L r;
         case it of
           None \<Rightarrow> Some None
         | Some it \<Rightarrow> do {
             (es, _) \<leftarrow> reader_run crc L r it ops;
             Some (Some es)
           }
       }
   }"

lemma session:
  fixes L :: "'z complib"
  assumes "run_fits L opt fd (added evs)"
  defines "bs \<equiv> table_close (final_state opt (added evs))"
  shows "\<exists>data. write_file L crc opt fd evs = Some (increasing None (added evs), data) \<and>
    data = table_image L crc opt (f_bytes fd) (kept None (added evs)) bs \<and>
    concat (map fst bs) = kept None (added evs) \<and>
    (length data < 2 ^ 63 \<longrightarrow> (\<exists>r offs ix.
       mtbl_reader_init_fd crc False data ropt = Some (Some r) \<and>
       opens crc L r (wo_block_restart_interval opt) bs offs ix \<and>
       (f_bytes fd = [] \<longrightarrow> offs 0 = 0) \<and>
       (\<exists>i j. r_m r = (table_meta L crc opt (kept None (added evs)) bs)\<lparr>
          index_block_offset := i, bytes_index_block := j\<rparr>)))"
proof -
  obtain w w' fd' where w: "mtbl_writer_init_fd fd (Some opt) = Some w"
      "writer_run L crc w evs = Some (increasing None (added evs), w')"
      "mtbl_writer_destroy L crc w' = Some fd'"
    and rd: "length (f_bytes fd') < 2 ^ 63 \<longrightarrow> (\<exists>r.
       mtbl_reader_init_fd crc False (f_bytes fd') ropt = Some (Some r) \<and>
       opens crc L r (wo_block_restart_interval opt) bs (block_offsets L crc opt (f_bytes fd) bs)
         (index_entries L crc opt (length (f_bytes fd)) bs) \<and>
       (\<exists>i j. r_m r = (table_meta L crc opt (kept None (added evs)) bs)\<lparr>
          index_block_offset := i, bytes_index_block := j\<rparr>))"
    using read_table [OF assms(1)] unfolding bs_def by blast
  have "f_bytes fd' = table_image L crc opt (f_bytes fd) (kept None (added evs)) bs"
    using write_table [OF assms(1), of crc] w unfolding bs_def by auto
  moreover have "write_file L crc opt fd evs = Some (increasing None (added evs), f_bytes fd')"
    using w by (simp add: write_file_def)
  moreover have "concat (map fst bs) = kept None (added evs)"
    unfolding bs_def table_entries_close [symmetric] by (rule final_entries)
  moreover have "f_bytes fd = [] \<longrightarrow> block_offsets L crc opt (f_bytes fd) bs 0 = 0"
    by (simp add: block_offsets_def block_offset_def)
  ultimately show ?thesis using rd by blast
qed

text \<open>The metadata of a written file.\<close>

definition written_meta ::
  "'z complib \<Rightarrow> (bytes \<Rightarrow> u32) \<Rightarrow> mtbl_writer_options \<Rightarrow> bytes \<Rightarrow> entry list \<Rightarrow> tblock list \<Rightarrow> mtbl_metadata" where
  "written_meta L crc opt pre es bs = (table_meta L crc opt es bs)\<lparr>
     index_block_offset := of_nat (length pre + length (block_frames L crc opt bs)),
     bytes_index_block := of_nat (length (frame crc (table_index L crc opt (length pre) bs)))\<rparr>"

lemma written_metadata:
  assumes fits: "run_fits L opt fd (added evs)" and wr: "write_file L crc opt fd evs = Some (rs, data)"
    and small: "length data < 2 ^ 63"
  shows "\<exists>r. mtbl_reader_init_fd crc False data ropt = Some (Some r) \<and>
    r_m r = written_meta L crc opt (f_bytes fd) (kept None (added evs)) (table_close (final_state opt (added evs)))"
proof -
  have data: "data = table_image L crc opt (f_bytes fd) (kept None (added evs)) (table_close (final_state opt (added evs)))"
    using session [OF fits, of crc None] wr by auto
  have st: "state_small opt (final_state opt (added evs))" using write_table [OF fits, of crc] by blast
  have cnt: "length (table_entries (final_state opt (added evs))) < 2 ^ 31 - 1"
    using fits kept_length unfolding final_entries run_fits_def by (meson order_le_less_trans)
  have opt: "opt_fits opt" "blocks_lossless L opt (final_state opt (added evs))"
    using run_fitsD(1) [OF fits] final_lossless [OF fits st] by simp_all
  show ?thesis
    using reader_opens [OF opt(1) st opt(2) cnt small [unfolded data], of ropt] unfolding data written_meta_def by blast
qed

lemma session_read:
  assumes "run_fits L opt fd (added evs)"
  shows "\<exists>data. write_file L crc opt fd evs = Some (increasing None (added evs), data) \<and>
    (length data < 2 ^ 63 \<longrightarrow>
     read_file L crc ropt data ty key0 key1 (length (added evs) + 1) =
       Some (Some (filter (\<lambda>e. wanted ty key0 key1 (fst e)) (kept None (added evs)))))"
proof -
  let ?want = "filter (\<lambda>e. wanted ty key0 key1 (fst e)) (kept None (added evs))"
  obtain data where data: "write_file L crc opt fd evs = Some (increasing None (added evs), data)"
    and rd: "length data < 2 ^ 63 \<Longrightarrow> \<exists>r offs ix. mtbl_reader_init_fd crc False data ropt = Some (Some r) \<and>
       opens crc L r (wo_block_restart_interval opt) (table_close (final_state opt (added evs))) offs ix"
    and cc: "concat (map fst (table_close (final_state opt (added evs)))) = kept None (added evs)"
    using session [OF assms, of crc ropt] by blast
  have "read_file L crc ropt data ty key0 key1 (length (added evs) + 1) = Some (Some ?want)"
    if small: "length data < 2 ^ 63"
  proof -
    obtain r offs ix where r: "mtbl_reader_init_fd crc False data ropt = Some (Some r)"
       "opens crc L r (wo_block_restart_interval opt) (table_close (final_state opt (added evs))) offs ix"
      using rd [OF small] by blast
    obtain opened where o: "reader_open crc L r ty key0 key1 = Some opened"
      "case opened of None \<Rightarrow> ?want = [] | Some it \<Rightarrow> reader_remaining crc L r it ?want"
      using reader_open_ok [OF r(2), of ty key0 key1] unfolding cc by blast
    have "length ?want \<le> length (added evs)" using kept_length by (meson length_filter_le order_trans)
    then have len: "length ?want < length (added evs) + 1" by simp
    show ?thesis
    proof (cases opened)
      case None
      then show ?thesis using r(1) o by (simp add: read_file_def)
    next
      case (Some it)
      then have "reader_remaining crc L r it ?want" using o(2) by simp
      then obtain it' where "drain (reader_iter_next crc L r) (length (added evs) + 1) it = Some (?want, it')"
        using reader.drain_all [OF _ len] by blast
      then show ?thesis using r(1) o(1) Some unfolding read_file_def by (simp del: drain.simps add_Suc_right add_Suc)
    qed
  qed
  with data show ?thesis by blast
qed

lemma closed_empty: "table_ok bs \<Longrightarrow> concat (map fst bs) = [] \<longleftrightarrow> bs = []"
  by (cases bs) (auto simp: table_ok_def)

lemma session_run:
  assumes fits: "run_fits L opt fd (added evs)" and fwd: "forward (kept None (added evs)) (kept None (added evs)) [] ops"
  shows "\<exists>data. write_file L crc opt fd evs = Some (increasing None (added evs), data) \<and>
    (length data < 2 ^ 63 \<longrightarrow> run_file L crc ropt data ops =
       Some (if kept None (added evs) = [] then None
         else Some (iter_spec (kept None (added evs)) (kept None (added evs)) ops)))"
proof -
  let ?es = "kept None (added evs)" and ?bs = "table_close (final_state opt (added evs))"
  obtain data where data: "write_file L crc opt fd evs = Some (increasing None (added evs), data)"
    and rd: "length data < 2 ^ 63 \<Longrightarrow> \<exists>r offs ix. mtbl_reader_init_fd crc False data ropt = Some (Some r) \<and>
       opens crc L r (wo_block_restart_interval opt) ?bs offs ix"
    and cc: "concat (map fst ?bs) = ?es"
    using session [OF fits, of crc ropt] by blast
  have "run_file L crc ropt data ops = Some (if ?es = [] then None else Some (iter_spec ?es ?es ops))"
    if small: "length data < 2 ^ 63"
  proof -
    obtain r offs ix where r: "mtbl_reader_init_fd crc False data ropt = Some (Some r)"
       "opens crc L r (wo_block_restart_interval opt) ?bs offs ix"
      using rd [OF small] by blast
    have "?es = [] \<longleftrightarrow> ?bs = []" using r(2) closed_empty [of ?bs] unfolding cc by (auto simp: opens_def)
    then show ?thesis
      using r(1) reader_iter_ok [OF r(2)] reader_fwd_start [OF r(2)] reader_run_ok [OF r(2)] fwd
      unfolding cc by (cases "?es = []") (fastforce simp: run_file_def)+
  qed
  with data show ?thesis by blast
qed

lemma session_stale:
  fixes L :: "'z complib"
  assumes fits: "run_fits L opt fd (added evs)" and start: "f_bytes fd = []"
  defines "bs \<equiv> table_close (final_state opt (added evs))"
  assumes two: "1 < length bs"
  shows "\<exists>data. write_file L crc opt fd evs = Some (increasing None (added evs), data) \<and>
    (length data < 2 ^ 63 \<longrightarrow>
     run_file L crc ropt data (replicate (length (fst (bs ! 0)) + 1) Next @ [Seek (fst (hd (kept None (added evs)))), Next]) =
       Some (Some (map Some (fst (bs ! 0) @ [hd (fst (bs ! 1))]) @ [Some (hd (fst (bs ! 1)))])))"
proof -
  obtain data where data: "write_file L crc opt fd evs = Some (increasing None (added evs), data)"
    and rd: "length data < 2 ^ 63 \<Longrightarrow> \<exists>r offs ix. mtbl_reader_init_fd crc False data ropt = Some (Some r) \<and>
       opens crc L r (wo_block_restart_interval opt) bs offs ix \<and> offs 0 = 0"
    and cc: "concat (map fst bs) = kept None (added evs)"
    using session [OF fits, of crc ropt] start unfolding bs_def by blast
  have "run_file L crc ropt data (replicate (length (fst (bs ! 0)) + 1) Next @ [Seek (fst (hd (kept None (added evs)))), Next]) =
       Some (Some (map Some (fst (bs ! 0) @ [hd (fst (bs ! 1))]) @ [Some (hd (fst (bs ! 1)))]))"
    if small: "length data < 2 ^ 63"
  proof -
    obtain r offs ix where r: "mtbl_reader_init_fd crc False data ropt = Some (Some r)"
       "opens crc L r (wo_block_restart_interval opt) bs offs ix" "offs 0 = 0"
      using rd [OF small] by blast
    obtain b bs' where bs: "bs = b # bs'" using two by (cases bs) auto
    then have "fst b \<noteq> []" using r(2) by (auto simp: opens_def table_ok_def)
    then have hd: "hd (kept None (added evs)) = hd (fst (bs ! 0))" unfolding cc [symmetric] bs by simp
    show ?thesis
      using r(1) reader_stale_seek [OF r(2) two r(3)] unfolding hd run_file_def by (auto simp del: replicate_Suc)
  qed
  with data show ?thesis by blast
qed

subsection \<open>The thread pool makes no difference to the file\<close>

lemma payload_pool [simp]: "block_payload L (opt\<lparr>wo_pool := p\<rparr>) b = block_payload L opt b"
  by (simp add: block_payload_def payload_def stored_def)

lemma frames_pool [simp]: "block_frames L crc (opt\<lparr>wo_pool := p\<rparr>) bs = block_frames L crc opt bs"
  by (simp add: block_frames_def)

lemma index_pool [simp]: "index_entries L crc (opt\<lparr>wo_pool := p\<rparr>) ofs bs = index_entries L crc opt ofs bs"
  by (induction bs arbitrary: ofs) simp_all

lemma image_pool [simp]: "table_image L crc (opt\<lparr>wo_pool := p\<rparr>) pre es bs = table_image L crc opt pre es bs"
  by (simp add: table_image_def table_index_def table_meta_def Let_def)

lemma add_pool [simp]: "table_add (opt\<lparr>wo_pool := p\<rparr>) st e = table_add opt st e"
  by (cases st; cases e) simp

lemma adds_pool [simp]: "table_adds (opt\<lparr>wo_pool := p\<rparr>) st es = table_adds opt st es"
  by (induction es arbitrary: st) simp_all

lemma final_pool [simp]: "final_state (opt\<lparr>wo_pool := p\<rparr>) es = final_state opt es"
  by (simp add: final_state_def)

lemma fits_pool [simp]: "run_fits L (opt\<lparr>wo_pool := p\<rparr>) fd es = run_fits L opt fd es"
  by (simp add: run_fits_def table_fits_def compressor_within_def lossless_def stored_def)

subsection \<open>A bound on the size of a file\<close>

lemma frame_length: "length (frame crc p) \<le> length p + 14"
  using length_encode64_bounds [of "of_nat (length p)"] by (simp add: frame_def)

lemma body_length: "length (body n es) \<le> (\<Sum>e\<leftarrow>es. 15 + length (fst e) + length (snd e))"
proof (induction es rule: rev_induct)
  case (snoc e es)
  then show ?case using length_body_snoc(1) [of n es "fst e" "snd e"] by simp
qed simp

lemma image_length: "length (block_image n es) \<le> (\<Sum>e\<leftarrow>es. 23 + length (fst e) + length (snd e)) + 12"
proof -
  have "restart_count n (length es) \<le> length es + 1"
    by (simp add: restart_count_def le_trans [OF div_le_dividend])
  moreover have "restart_width n es \<le> 8" by (simp add: restart_width_def)
  ultimately have "restart_count n (length es) * restart_width n es \<le> (length es + 1) * 8" by (rule mult_le_mono)
  moreover have "(\<Sum>e\<leftarrow>es. 23 + length (fst e) + length (snd e)) =
      (\<Sum>e\<leftarrow>es. 15 + length (fst e) + length (snd e)) + 8 * length es"
    by (induction es) simp_all
  ultimately show ?thesis using body_length [of n es] by (simp add: length_block_image)
qed

text \<open>Bytes per block and entry, for uncompressed tables.\<close>

definition size_bound :: "bytes \<Rightarrow> tblock list \<Rightarrow> nat" where
  "size_bound pre bs = length pre + 538 + (\<Sum>b\<leftarrow>bs. 60 + length (snd b) +
     (\<Sum>e\<leftarrow>fst b. 23 + length (fst e) + length (snd e)))"

lemma index_length:
  "(\<Sum>e\<leftarrow>index_entries L crc opt ofs bs. 23 + length (fst e) + length (snd e)) \<le>
   (\<Sum>b\<leftarrow>bs. 33 + length (snd b))"
proof (induction bs arbitrary: ofs)
  case (Cons b bs)
  have "length (mtbl_varint_encode64 (of_nat ofs)) \<le> 10" by (rule length_encode64_bounds)
  with Cons.IH show ?case by (simp add: add_le_mono)
qed simp

lemma image_size_bound:
  assumes "wo_compression_type opt = MTBL_COMPRESSION_NONE"
  shows "length (table_image L crc opt pre es bs) \<le> size_bound pre bs"
proof -
  let ?n = "wo_block_restart_interval opt"
  have frames: "length (block_frames L crc opt bs) \<le>
      (\<Sum>b\<leftarrow>bs. 26 + (\<Sum>e\<leftarrow>fst b. 23 + length (fst e) + length (snd e)))"
  proof (induction bs)
    case (Cons b bs)
    have "length (frame crc (block_payload L opt b)) \<le> length (block_image ?n (fst b)) + 14"
      using frame_length [of crc "block_payload L opt b"] by (simp add: block_payload_def payload_plain assms)
    with Cons image_length [of ?n "fst b"] show ?case by simp
  qed simp
  have "length (frame crc (table_index L crc opt (length pre) bs)) \<le> (\<Sum>b\<leftarrow>bs. 33 + length (snd b)) + 26"
    using frame_length [of crc "table_index L crc opt (length pre) bs"]
      image_length [of ?n "index_entries L crc opt (length pre) bs"] index_length [of L crc opt "length pre" bs]
    by (simp add: table_index_def)
  moreover have "(\<Sum>b\<leftarrow>bs. 26 + (\<Sum>e\<leftarrow>fst b. 23 + length (fst e) + length (snd e))) + (\<Sum>b\<leftarrow>bs. 33 + length (snd b))
      \<le> (\<Sum>b\<leftarrow>bs. 60 + length (snd b) + (\<Sum>e\<leftarrow>fst b. 23 + length (fst e) + length (snd e)))"
    by (induction bs) simp_all
  ultimately show ?thesis using frames by (simp add: table_image_def Let_def size_bound_def)
qed

subsection \<open>A small table, for the examples\<close>

definition plain_options :: mtbl_writer_options where
  "plain_options =
     mtbl_writer_options_set_block_size
       (mtbl_writer_options_init\<lparr>wo_compression_type := MTBL_COMPRESSION_NONE\<rparr>) 0"

definition empty_fd :: fdesc where
  "empty_fd = \<lparr>f_bytes = [], f_sched = [Interrupted, Written 3]\<rparr>"

definition portable_host :: host where
  "portable_host = \<lparr>host_x86_64 = False, host_ecx = 0, host_insns = reference_insns, host_big_endian = True\<rparr>"

lemma portable_host_ok: "host_ok portable_host"
  by (simp add: portable_host_def host_ok_def)

lemma plain_options_ok: "opt_fits plain_options" "compressor_ok L plain_options" "f_ok empty_fd"
  by (simp_all add: opt_fits_def compressor_none plain_options_def f_ok_def empty_fd_def
      mtbl_writer_options_init_def mtbl_writer_options_set_block_size_def MIN_BLOCK_SIZE_def
      DEFAULT_BLOCK_RESTART_INTERVAL_def)

lemma plain_fits:
  "(\<forall>e\<in>set es. entry_fits e) \<Longrightarrow> length es < 1000 \<Longrightarrow> run_fits store_lib plain_options empty_fd es"
  by (rule run_fitsI [OF plain_options_ok]) simp_all

lemma plain_small:
  assumes "run_fits store_lib plain_options empty_fd (added evs)"
    and "write_file store_lib crc plain_options empty_fd evs = Some (rs, data)"
    and "size_bound [] (table_close (final_state plain_options (added evs))) < 2 ^ 63"
  shows "length data < 2 ^ 63"
proof -
  have none: "wo_compression_type plain_options = MTBL_COMPRESSION_NONE"
    by (simp add: plain_options_def mtbl_writer_options_set_block_size_def Let_def)
  have "f_bytes empty_fd = []" by (simp add: empty_fd_def)
  then have "data = table_image store_lib crc plain_options [] (kept None (added evs))
      (table_close (final_state plain_options (added evs)))"
    using session [OF assms(1), of crc None] assms(2) by auto
  then have "length data \<le> size_bound [] (table_close (final_state plain_options (added evs)))"
    using image_size_bound [OF none] by blast
  then show ?thesis using assms(3) by (rule le_less_trans)
qed

lemmas layout_simps = final_state_def table_close_def plain_options_def mtbl_writer_options_init_def
  mtbl_writer_options_set_block_size_def MIN_BLOCK_SIZE_def DEFAULT_BLOCK_RESTART_INTERVAL_def
  length_block_image body_def block_layout_def lay_bytes_def restart_count_def restart_width_def
  UINT32_MAX_def encode32_small size_bound_def

end
