(* ===== verification/Heap.thy ===== *)
theory Heap
  imports Bytes "HOL-Library.Multiset"
begin

text \<open>
  \<open>libmy/heap.c\<close>: a binary heap in a vector, ordered by a comparison function. The heap is the
  list of the items in the vector; \<open>cmp\<close> is \<open>h->cmp\<close> with its closure applied. The array
  is updated in place with a hole that moves (\<open>siftup\<close>, \<open>siftdown\<close>), as in the code.
  NULL is an inner \<open>None\<close>, a failed assertion an outer one.

  \<open>heap_order\<close> is what the heap relies on: that the comparison is a total preorder.
\<close>

subsection \<open>The operations\<close>

definition heap_init :: "'a list" where
  "heap_init = []"

definition heap_reset :: "'a list \<Rightarrow> 'a list" where
  "heap_reset h = []"

definition heap_clip :: "'a list \<Rightarrow> nat \<Rightarrow> 'a list" where
  "heap_clip h n_elems = (if n_elems < length h then take n_elems h else h)"

fun siftup_loop :: "('a \<Rightarrow> 'a \<Rightarrow> int) \<Rightarrow> 'a \<Rightarrow> 'a list \<Rightarrow> nat \<Rightarrow> 'a list" where
  "siftup_loop cmp newitem h pos =
     (if pos > 0 then
        (let parentpos = (pos - 1) div 2;
             parent = h ! parentpos
         in if cmp parent newitem \<le> 0 then h[pos := newitem]
            else siftup_loop cmp newitem (h[pos := parent]) parentpos)
      else h[pos := newitem])"

declare siftup_loop.simps [simp del]

definition siftup :: "('a \<Rightarrow> 'a \<Rightarrow> int) \<Rightarrow> 'a list \<Rightarrow> 'a list option" where
  "siftup cmp h = do {
     ensure (0 < length h);
     let pos = length h - 1;
     Some (siftup_loop cmp (h ! pos) h pos)
   }"

text \<open>The smaller of the children, the right one when they are equal.\<close>

definition smaller_child :: "('a \<Rightarrow> 'a \<Rightarrow> int) \<Rightarrow> 'a list \<Rightarrow> nat \<Rightarrow> nat" where
  "smaller_child cmp h childpos =
     (let rightpos = childpos + 1
      in if rightpos < length h \<and> cmp (h ! rightpos) (h ! childpos) \<le> 0 then rightpos else childpos)"

function siftdown_loop :: "('a \<Rightarrow> 'a \<Rightarrow> int) \<Rightarrow> 'a \<Rightarrow> 'a list \<Rightarrow> nat \<Rightarrow> 'a list" where
  "siftdown_loop cmp newitem h pos =
     (let childpos = 2 * pos + 1
      in if childpos < length h then
           (let childpos = smaller_child cmp h childpos;
                childval = h ! childpos
            in if cmp newitem childval \<le> 0 then h[pos := newitem]
               else siftdown_loop cmp newitem (h[pos := childval]) childpos)
         else h[pos := newitem])"
  by pat_completeness auto

termination
  by (relation "measure (\<lambda>(cmp, newitem, h, pos). length h - pos)")
    (auto simp: smaller_child_def Let_def)

declare siftdown_loop.simps [simp del]

definition siftdown :: "('a \<Rightarrow> 'a \<Rightarrow> int) \<Rightarrow> 'a list \<Rightarrow> nat \<Rightarrow> 'a list option" where
  "siftdown cmp h pos = do {
     ensure (pos < length h);
     Some (siftdown_loop cmp (h ! pos) h pos)
   }"

primrec heapify_loop :: "('a \<Rightarrow> 'a \<Rightarrow> int) \<Rightarrow> 'a list \<Rightarrow> nat \<Rightarrow> 'a list option" where
  "heapify_loop cmp h 0 = Some h"
| "heapify_loop cmp h (Suc i) = do {
     h \<leftarrow> siftdown cmp h i;
     heapify_loop cmp h i
   }"

definition heap_heapify :: "('a \<Rightarrow> 'a \<Rightarrow> int) \<Rightarrow> 'a list \<Rightarrow> 'a list option" where
  "heap_heapify cmp h = heapify_loop cmp h (length h div 2)"

definition heap_add :: "'a list \<Rightarrow> 'a \<Rightarrow> 'a list" where
  "heap_add h item = h @ [item]"

definition heap_push :: "('a \<Rightarrow> 'a \<Rightarrow> int) \<Rightarrow> 'a list \<Rightarrow> 'a \<Rightarrow> 'a list option" where
  "heap_push cmp h item = siftup cmp (h @ [item])"

definition heap_pop :: "('a \<Rightarrow> 'a \<Rightarrow> int) \<Rightarrow> 'a list \<Rightarrow> ('a option \<times> 'a list) option" where
  "heap_pop cmp h =
     (if length h < 1 then Some (None, h)
      else do {
        let lastelt = h ! (length h - 1);
        let h = take (length h - 1) h;
        if length h > 0 then do {
          let returnitem = h ! 0;
          h \<leftarrow> siftdown cmp (h[0 := lastelt]) 0;
          Some (Some returnitem, h)
        } else Some (Some lastelt, h)
      })"

definition heap_replace :: "('a \<Rightarrow> 'a \<Rightarrow> int) \<Rightarrow> 'a list \<Rightarrow> 'a \<Rightarrow> ('a option \<times> 'a list) option" where
  "heap_replace cmp h item =
     (if length h < 1 then Some (None, h)
      else do {
        let returnitem = h ! 0;
        h \<leftarrow> siftdown cmp (h[0 := item]) 0;
        Some (Some returnitem, h)
      })"

definition heap_peek :: "'a list \<Rightarrow> 'a option" where
  "heap_peek h = (if length h < 1 then None else Some (h ! 0))"

text \<open>With no elements \<open>size - 1\<close> wraps, so the index is never too large and the vector's own check fails.\<close>

definition heap_get :: "'a list \<Rightarrow> nat \<Rightarrow> 'a option option" where
  "heap_get h i =
     (if length h > 0 \<and> i > length h - 1 then Some None
      else do {
        ensure (i < length h);
        Some (Some (h ! i))
      })"

definition heap_size :: "'a list \<Rightarrow> nat" where
  "heap_size h = length h"

subsection \<open>Holes\<close>

lemma mset_move:
  assumes "i < length h" and "j < length h" and "i \<noteq> j"
  shows "mset (h[i := h ! j, j := x]) = mset (h[i := x])"
proof -
  have "h[i := h ! j, j := x] = (h[i := x])[i := h[i := x] ! j, j := h[i := x] ! i]"
    using assms by (intro nth_equalityI) (auto simp: nth_list_update)
  also have "mset \<dots> = mset (h[i := x])" using assms by (intro mset_swap) simp_all
  finally show ?thesis .
qed

lemma length_siftup_loop [simp]: "length (siftup_loop cmp x h pos) = length h"
  by (induction cmp x h pos rule: siftup_loop.induct)
    (subst siftup_loop.simps, simp add: Let_def)

lemma mset_siftup_loop:
  "pos < length h \<Longrightarrow> mset (siftup_loop cmp x h pos) = mset (h[pos := x])"
proof (induction cmp x h pos rule: siftup_loop.induct)
  case (1 cmp x h pos)
  let ?p = "(pos - 1) div 2"
  have "0 < pos \<Longrightarrow> ?p < length h \<and> ?p \<noteq> pos" using "1.prems" by auto
  then show ?case
    using "1.IH" [OF _ refl refl] "1.prems" mset_move [of pos h ?p x]
    by (subst siftup_loop.simps) (auto simp: Let_def)
qed

lemma smaller_child_cases:
  "smaller_child cmp h c = c \<or> smaller_child cmp h c = c + 1 \<and> c + 1 < length h"
  by (simp add: smaller_child_def Let_def)

lemma length_siftdown_loop [simp]: "length (siftdown_loop cmp x h pos) = length h"
  by (induction cmp x h pos rule: siftdown_loop.induct)
    (subst siftdown_loop.simps, simp add: Let_def)

lemma mset_siftdown_loop:
  "pos < length h \<Longrightarrow> mset (siftdown_loop cmp x h pos) = mset (h[pos := x])"
proof (induction cmp x h pos rule: siftdown_loop.induct)
  case (1 cmp x h pos)
  let ?c = "smaller_child cmp h (2 * pos + 1)"
  have c: "?c < length h \<and> ?c \<noteq> pos" if "2 * pos + 1 < length h"
    using smaller_child_cases [of cmp h "2 * pos + 1"] that by auto
  show ?case
    using "1.IH" [OF refl _ refl refl] "1.prems" mset_move [of pos h ?c x] c
    by (subst siftdown_loop.simps) (auto simp: Let_def)
qed

subsection \<open>The heap property\<close>

text \<open>Every item at a child of a position from \<open>p\<close> on is at least its parent.\<close>

definition heap_from :: "('a \<Rightarrow> 'a \<Rightarrow> int) \<Rightarrow> 'a list \<Rightarrow> nat \<Rightarrow> bool" where
  "heap_from cmp h p \<longleftrightarrow>
     (\<forall>i. 0 < i \<longrightarrow> i < length h \<longrightarrow> p \<le> (i - 1) div 2 \<longrightarrow> cmp (h ! ((i - 1) div 2)) (h ! i) \<le> 0)"

abbreviation is_heap :: "('a \<Rightarrow> 'a \<Rightarrow> int) \<Rightarrow> 'a list \<Rightarrow> bool" where
  "is_heap cmp h \<equiv> heap_from cmp h 0"

lemma heap_from_edge:
  "heap_from cmp h p \<Longrightarrow> 0 < i \<Longrightarrow> i < length h \<Longrightarrow> p \<le> (i - 1) div 2 \<Longrightarrow> cmp (h ! ((i - 1) div 2)) (h ! i) \<le> 0"
  by (simp add: heap_from_def)

lemma heap_from_leaves: "length h div 2 \<le> p \<Longrightarrow> heap_from cmp h p"
  by (auto simp: heap_from_def)

text \<open>The hole at \<open>pos\<close> is filled with \<open>x\<close>.\<close>

lemma fill_hole:
  assumes pos: "pos < length h"
    and edge: "\<And>i. 0 < i \<Longrightarrow> i < length h \<Longrightarrow> p \<le> (i - 1) div 2 \<Longrightarrow> i \<noteq> pos \<Longrightarrow> (i - 1) div 2 \<noteq> pos \<Longrightarrow>
      cmp (h ! ((i - 1) div 2)) (h ! i) \<le> 0"
    and kids: "\<And>i. 0 < i \<Longrightarrow> i < length h \<Longrightarrow> (i - 1) div 2 = pos \<Longrightarrow> cmp x (h ! i) \<le> 0"
    and new: "0 < pos \<Longrightarrow> p \<le> (pos - 1) div 2 \<Longrightarrow> cmp (h ! ((pos - 1) div 2)) x \<le> 0"
  shows "heap_from cmp (h[pos := x]) p"
  unfolding heap_from_def
proof (intro allI impI)
  fix i assume i: "0 < i" "i < length (h[pos := x])" "p \<le> (i - 1) div 2"
  have len: "i < length h" using i(2) by simp
  have ne: "(i - 1) div 2 \<noteq> i" using i(1) by auto
  consider "i = pos" | "i \<noteq> pos" "(i - 1) div 2 = pos" | "i \<noteq> pos" "(i - 1) div 2 \<noteq> pos" by blast
  then show "cmp (h[pos := x] ! ((i - 1) div 2)) (h[pos := x] ! i) \<le> 0"
  proof cases
    case 1
    with ne have "(i - 1) div 2 \<noteq> pos" by metis
    then show ?thesis using new i(1,3) pos 1 by simp
  next
    case 2
    then show ?thesis using kids [OF i(1) len 2(2)] pos by simp
  next
    case 3
    then show ?thesis using edge [OF i(1) len i(3) 3] by simp
  qed
qed

lemma parent_less: "0 < i \<Longrightarrow> (i - 1) div 2 < (i :: nat)"
  by simp

lemma heap_from_take:
  assumes "heap_from cmp h p"
  shows "heap_from cmp (take n h) p"
  unfolding heap_from_def
proof (intro allI impI)
  fix i assume i: "0 < i" "i < length (take n h)" "p \<le> (i - 1) div 2"
  then have "(i - 1) div 2 < n" "i < n" using parent_less [OF i(1)] by simp_all
  then show "cmp (take n h ! ((i - 1) div 2)) (take n h ! i) \<le> 0"
    using heap_from_edge [OF assms i(1) _ i(3)] i(2) by simp
qed

lemma heap_from_top: "heap_from cmp h 1 \<Longrightarrow> heap_from cmp (h[0 := x]) 1"
  by (simp add: heap_from_def nth_list_update)

locale heap_order =
  fixes cmp :: "'a \<Rightarrow> 'a \<Rightarrow> int"
  assumes total: "cmp a b \<le> 0 \<or> cmp b a \<le> 0"
    and trans: "cmp a b \<le> 0 \<Longrightarrow> cmp b c \<le> 0 \<Longrightarrow> cmp a c \<le> 0"
begin

lemma refl: "cmp a a \<le> 0"
  using total [of a a] by simp

lemma smaller_child_least:
  assumes "2 * pos + 1 < length h" and "j = 2 * pos + 1 \<or> j = 2 * pos + 2" and "j < length h"
  shows "cmp (h ! smaller_child cmp h (2 * pos + 1)) (h ! j) \<le> 0"
  using assms total [of "h ! (2 * pos + 2)" "h ! (2 * pos + 1)"] refl
  by (auto simp: smaller_child_def Let_def)

text \<open>
  The loop with a hole at \<open>pos\<close>: the edges that do not touch the hole hold, the parent of the
  hole is at most its children and at most the item to be placed.
\<close>

lemma siftdown_loop_heap:
  assumes "pos < length h" and "p \<le> pos"
    and "\<And>i. 0 < i \<Longrightarrow> i < length h \<Longrightarrow> p \<le> (i - 1) div 2 \<Longrightarrow> i \<noteq> pos \<Longrightarrow> (i - 1) div 2 \<noteq> pos \<Longrightarrow>
      cmp (h ! ((i - 1) div 2)) (h ! i) \<le> 0"
    and "\<And>i. 0 < pos \<Longrightarrow> p \<le> (pos - 1) div 2 \<Longrightarrow> 0 < i \<Longrightarrow> i < length h \<Longrightarrow> (i - 1) div 2 = pos \<Longrightarrow>
      cmp (h ! ((pos - 1) div 2)) (h ! i) \<le> 0"
    and "0 < pos \<Longrightarrow> p \<le> (pos - 1) div 2 \<Longrightarrow> cmp (h ! ((pos - 1) div 2)) x \<le> 0"
  shows "heap_from cmp (siftdown_loop cmp x h pos) p"
  using assms
proof (induction "length h - pos" arbitrary: h pos rule: less_induct)
  case less
  note edge = less.prems(3) and up = less.prems(4) and new = less.prems(5)
  let ?l = "2 * pos + 1" let ?c = "smaller_child cmp h ?l"
  have child: "i = ?l \<or> i = 2 * pos + 2" if "0 < i" "(i - 1) div 2 = pos" for i using that by auto
  have place: "heap_from cmp (h[pos := x]) p"
    if "\<And>i. 0 < i \<Longrightarrow> i < length h \<Longrightarrow> (i - 1) div 2 = pos \<Longrightarrow> cmp x (h ! i) \<le> 0"
    by (rule fill_hole [where cmp = cmp, OF less.prems(1) edge that new])
  show ?case
  proof (cases "?l < length h")
    case False
    then have "heap_from cmp (h[pos := x]) p" by (intro place) (auto dest: child)
    then show ?thesis using False by (subst siftdown_loop.simps) (simp add: Let_def)
  next
    case True
    have c: "?c < length h" "pos < ?c" "(?c - 1) div 2 = pos" "0 < ?c"
      using smaller_child_cases [of cmp h ?l] True by auto
    have least: "cmp (h ! ?c) (h ! i) \<le> 0" if "0 < i" "i < length h" "(i - 1) div 2 = pos" for i
      using smaller_child_least [OF True child [OF that(1,3)]] that(2) by blast
    show ?thesis
    proof (cases "cmp x (h ! ?c) \<le> 0")
      case stop: True
      then have "heap_from cmp (h[pos := x]) p" using least by (intro place) (rule trans)
      then show ?thesis using True stop by (subst siftdown_loop.simps) (simp add: Let_def)
    next
      case go: False
      let ?h = "h[pos := h ! ?c]"
      have "heap_from cmp (siftdown_loop cmp x ?h ?c) p"
      proof (rule less.hyps)
        show "length ?h - ?c < length h - pos" using c less.prems(1) by simp
        show "?c < length ?h" "p \<le> ?c" using c less.prems(2) by simp_all
      next
        fix i assume i: "0 < i" "i < length ?h" "p \<le> (i - 1) div 2" "i \<noteq> ?c" "(i - 1) div 2 \<noteq> ?c"
        define q where "q = (i - 1) div 2"
        have ne: "q \<noteq> i" "q < length h" unfolding q_def using i(1,2) by simp_all
        consider "i = pos" | "i \<noteq> pos" "q = pos" | "i \<noteq> pos" "q \<noteq> pos" by blast
        then show "cmp (?h ! ((i - 1) div 2)) (?h ! i) \<le> 0"
        proof cases
          case 1
          then have "cmp (h ! q) (h ! ?c) \<le> 0" using up [OF _ _ c(4,1,3)] i(1,3) by (simp add: q_def)
          then show ?thesis unfolding q_def [symmetric] using 1 ne less.prems(1) by simp
        next
          case 2
          then have "cmp (h ! ?c) (h ! i) \<le> 0" using least [of i] i by (simp add: q_def)
          then show ?thesis unfolding q_def [symmetric] using 2 ne less.prems(1) by simp
        next
          case 3
          then have "cmp (h ! q) (h ! i) \<le> 0" using edge [of i] i by (simp add: q_def)
          then show ?thesis unfolding q_def [symmetric] using 3 by simp
        qed
      next
        fix i assume i: "0 < i" "i < length ?h" "(i - 1) div 2 = ?c" "0 < ?c" "p \<le> (?c - 1) div 2"
        have "cmp (h ! ?c) (h ! i) \<le> 0" using edge [of i] i c less.prems(2) by auto
        moreover have "i \<noteq> pos" using i(1,3) c(2) by auto
        ultimately show "cmp (?h ! ((?c - 1) div 2)) (?h ! i) \<le> 0"
          using c less.prems(1) by (simp add: nth_list_update)
      next
        have "cmp (h ! ?c) x \<le> 0" using total go by blast
        then show "cmp (?h ! ((?c - 1) div 2)) x \<le> 0" using c less.prems(1) by simp
      qed
      then show ?thesis using True go by (subst siftdown_loop.simps) (simp add: Let_def)
    qed
  qed
qed

lemma siftdown_heap:
  assumes "pos < length h" and "heap_from cmp h (Suc pos)"
  shows "\<exists>h'. siftdown cmp h pos = Some h' \<and> heap_from cmp h' pos \<and> mset h' = mset h \<and> length h' = length h"
proof -
  have "heap_from cmp (siftdown_loop cmp (h ! pos) h pos) pos"
    using assms by (intro siftdown_loop_heap) (auto simp: heap_from_def)
  then show ?thesis using assms(1) by (simp add: siftdown_def mset_siftdown_loop)
qed

lemma heapify_heap:
  shows "\<exists>h'. heap_heapify cmp h = Some h' \<and> is_heap cmp h' \<and> mset h' = mset h"
proof -
  have "heap_from cmp h n \<Longrightarrow> n \<le> length h \<Longrightarrow>
      \<exists>h'. heapify_loop cmp h n = Some h' \<and> is_heap cmp h' \<and> mset h' = mset h" for n
  proof (induction n arbitrary: h)
    case (Suc n)
    obtain h1 where h1: "siftdown cmp h n = Some h1" "heap_from cmp h1 n" "mset h1 = mset h" "length h1 = length h"
      using siftdown_heap [of n h] Suc.prems by auto
    with Suc.IH [of h1] Suc.prems(2) show ?case by auto
  qed simp
  then show ?thesis by (simp add: heap_heapify_def heap_from_leaves)
qed

lemma siftup_loop_heap:
  assumes "pos < length h"
    and "\<And>i. 0 < i \<Longrightarrow> i < length h \<Longrightarrow> i \<noteq> pos \<Longrightarrow> (i - 1) div 2 \<noteq> pos \<Longrightarrow> cmp (h ! ((i - 1) div 2)) (h ! i) \<le> 0"
    and "\<And>i. 0 < i \<Longrightarrow> i < length h \<Longrightarrow> (i - 1) div 2 = pos \<Longrightarrow> cmp x (h ! i) \<le> 0"
    and "\<And>i. 0 < pos \<Longrightarrow> 0 < i \<Longrightarrow> i < length h \<Longrightarrow> (i - 1) div 2 = pos \<Longrightarrow> cmp (h ! ((pos - 1) div 2)) (h ! i) \<le> 0"
  shows "is_heap cmp (siftup_loop cmp x h pos)"
  using assms
proof (induction pos arbitrary: h rule: less_induct)
  case (less pos)
  note edge = less.prems(2) and kids = less.prems(3) and up = less.prems(4)
  let ?p = "(pos - 1) div 2"
  have place: "is_heap cmp (h[pos := x])" if "0 < pos \<Longrightarrow> cmp (h ! ?p) x \<le> 0"
    by (rule fill_hole [where cmp = cmp, OF less.prems(1) edge kids that])
  show ?case
  proof (cases "0 < pos \<and> \<not> cmp (h ! ?p) x \<le> 0")
    case False
    then have "is_heap cmp (h[pos := x])" by (intro place) blast
    then show ?thesis using False by (subst siftup_loop.simps) (auto simp: Let_def)
  next
    case True
    then have p: "?p < pos" "0 < pos" and le: "cmp x (h ! ?p) \<le> 0" using total by auto
    let ?h = "h[pos := h ! ?p]"
    have "is_heap cmp (siftup_loop cmp x ?h ?p)"
    proof (rule less.IH [OF p(1)])
      show "?p < length ?h" using p less.prems(1) by simp
    next
      fix i assume i: "0 < i" "i < length ?h" "i \<noteq> ?p" "(i - 1) div 2 \<noteq> ?p"
      define q where "q = (i - 1) div 2"
      have ne: "q \<noteq> i" "q \<noteq> ?p" using i(1,4) by (auto simp: q_def)
      have "i \<noteq> pos" using i(4) by auto
      consider "q = pos" | "q \<noteq> pos" by blast
      then show "cmp (?h ! ((i - 1) div 2)) (?h ! i) \<le> 0"
      proof cases
        case 1
        then have "cmp (h ! ?p) (h ! i) \<le> 0" using up [of i] i p by (simp add: q_def)
        then show ?thesis unfolding q_def [symmetric] using 1 \<open>i \<noteq> pos\<close> less.prems(1) by simp
      next
        case 2
        then have "cmp (h ! q) (h ! i) \<le> 0" using edge [of i] i \<open>i \<noteq> pos\<close> by (simp add: q_def)
        then show ?thesis unfolding q_def [symmetric] using 2 \<open>i \<noteq> pos\<close> by simp
      qed
    next
      fix i assume i: "0 < i" "i < length ?h" "(i - 1) div 2 = ?p"
      show "cmp x (?h ! i) \<le> 0"
      proof (cases "i = pos")
        case True
        then show ?thesis using le less.prems(1) by simp
      next
        case False
        have "?p \<noteq> pos" using p(1) by simp
        then have "cmp (h ! ?p) (h ! i) \<le> 0" using edge [OF i(1) _ False] i by simp
        then show ?thesis using False trans [OF le] by simp
      qed
    next
      fix i assume i: "0 < ?p" "0 < i" "i < length ?h" "(i - 1) div 2 = ?p"
      have ne: "(?p - 1) div 2 \<noteq> pos" "?p \<noteq> pos" using p by linarith+
      have "?p < length h" using p(1) less.prems(1) by (rule less_trans)
      then have g: "cmp (h ! ((?p - 1) div 2)) (h ! ?p) \<le> 0" by (rule edge [OF i(1) _ ne(2,1)])
      show "cmp (?h ! ((?p - 1) div 2)) (?h ! i) \<le> 0"
      proof (cases "i = pos")
        case True
        then show ?thesis using g ne less.prems(1) by simp
      next
        case False
        have "cmp (h ! ?p) (h ! i) \<le> 0" using edge [OF i(2) _ False] i ne by simp
        then show ?thesis using False ne trans [OF g] by simp
      qed
    qed
    then show ?thesis using True by (subst siftup_loop.simps) (simp add: Let_def)
  qed
qed

lemma push_heap:
  assumes "is_heap cmp h"
  shows "\<exists>h'. heap_push cmp h x = Some h' \<and> is_heap cmp h' \<and> mset h' = add_mset x (mset h)"
proof -
  have "is_heap cmp (siftup_loop cmp x (h @ [x]) (length h))"
  proof (rule siftup_loop_heap)
    fix i assume i: "0 < i" "i < length (h @ [x])" "i \<noteq> length h"
    then have "i < length h" "(i - 1) div 2 < length h" by auto
    then show "cmp ((h @ [x]) ! ((i - 1) div 2)) ((h @ [x]) ! i) \<le> 0"
      using heap_from_edge [OF assms i(1)] by (simp add: nth_append)
  qed auto
  then show ?thesis by (simp add: heap_push_def siftup_def mset_siftup_loop)
qed

lemma heap_top:
  assumes "is_heap cmp h" and "i < length h"
  shows "cmp (h ! 0) (h ! i) \<le> 0"
  using assms(2)
proof (induction i rule: less_induct)
  case (less i)
  show ?case
  proof (cases "i = 0")
    case False
    then have "cmp (h ! 0) (h ! ((i - 1) div 2)) \<le> 0" using less.prems by (intro less.IH) auto
    moreover have "cmp (h ! ((i - 1) div 2)) (h ! i) \<le> 0" using heap_from_edge [OF assms(1)] False less.prems by simp
    ultimately show ?thesis by (rule trans)
  qed (simp add: refl)
qed

lemma peek_least: "is_heap cmp h \<Longrightarrow> heap_peek h = Some x \<Longrightarrow> y \<in> set h \<Longrightarrow> cmp x y \<le> 0"
  using heap_top [of h] by (auto simp: heap_peek_def in_set_conv_nth split: if_splits)

text \<open>Only the children of the top need be in order: the top may have changed in place.\<close>

lemma replace_heap:
  assumes "heap_from cmp h 1" and "h \<noteq> []"
  shows "\<exists>h'. heap_replace cmp h x = Some (Some (h ! 0), h') \<and> is_heap cmp h' \<and> mset h' = mset (h[0 := x])"
proof -
  have "heap_from cmp (h[0 := x]) (Suc 0)" using heap_from_top [OF assms(1)] by simp
  then show ?thesis
    using siftdown_heap [of 0 "h[0 := x]"] assms(2) by (auto simp: heap_replace_def)
qed

lemma pop_heap:
  assumes "heap_from cmp h 1" and "h \<noteq> []"
  shows "\<exists>h'. heap_pop cmp h = Some (Some (h ! 0), h') \<and> is_heap cmp h' \<and> mset h = add_mset (h ! 0) (mset h')"
proof (cases "length h = 1")
  case True
  then obtain x where "h = [x]" by (cases h) auto
  then show ?thesis by (simp add: heap_pop_def heap_from_def)
next
  case False
  then obtain a t where h: "h = a # t" "t \<noteq> []" using assms(2) by (cases h; cases "tl h") auto
  let ?h = "last t # butlast t"
  have parts: "h ! (length h - 1) = last t" "(take (length h - 1) h)[0 := last t] = ?h"
      "0 < length (take (length h - 1) h)" "take (length h - 1) h ! 0 = a"
    using h by (simp_all add: last_conv_nth butlast_conv_take take_Cons' nth_Cons')
  have "take (length h - 1) (h[0 := last t]) = ?h"
    using h by (simp add: butlast_conv_take take_Cons')
  then have "heap_from cmp ?h (Suc 0)"
    using heap_from_take [OF heap_from_top [OF assms(1), of "last t"], of "length h - 1"] by simp
  then obtain h' where h': "siftdown cmp ?h 0 = Some h'" "is_heap cmp h'" "mset h' = mset ?h"
    using siftdown_heap [of 0 ?h] by auto
  have "mset t = add_mset (last t) (mset (butlast t))"
    using arg_cong [OF append_butlast_last_id [OF h(2)], of mset] by simp
  then show ?thesis
    using h' parts h assms(2) False by (simp add: heap_pop_def Let_def)
qed

end

text \<open>The order of the keys is one such comparison.\<close>

interpretation key_heap: heap_order bytes_compare
  by unfold_locales auto

text \<open>Everything pushed, then popped until the heap is empty.\<close>

primrec push_all :: "('a \<Rightarrow> 'a \<Rightarrow> int) \<Rightarrow> 'a list \<Rightarrow> 'a list \<Rightarrow> 'a list option" where
  "push_all cmp h [] = Some h"
| "push_all cmp h (x # xs) = do {
     h \<leftarrow> heap_push cmp h x;
     push_all cmp h xs
   }"

primrec pop_all :: "('a \<Rightarrow> 'a \<Rightarrow> int) \<Rightarrow> nat \<Rightarrow> 'a list \<Rightarrow> 'a list option" where
  "pop_all cmp 0 h = None"
| "pop_all cmp (Suc fuel) h = do {
     (x, h) \<leftarrow> heap_pop cmp h;
     case x of
       None \<Rightarrow> Some []
     | Some x \<Rightarrow> do {
         xs \<leftarrow> pop_all cmp fuel h;
         Some (x # xs)
       }
   }"

context heap_order begin

lemma push_all_heap:
  "is_heap cmp h \<Longrightarrow> \<exists>h'. push_all cmp h xs = Some h' \<and> is_heap cmp h' \<and> mset h' = mset h + mset xs"
proof (induction xs arbitrary: h)
  case (Cons x xs)
  obtain h1 where "heap_push cmp h x = Some h1" "is_heap cmp h1" "mset h1 = add_mset x (mset h)"
    using push_heap [OF Cons.prems] by blast
  with Cons.IH [of h1] show ?case by auto
qed simp

lemma pop_all_sorted:
  "is_heap cmp h \<Longrightarrow> length h < fuel \<Longrightarrow>
   \<exists>xs. pop_all cmp fuel h = Some xs \<and> mset xs = mset h \<and> sorted_wrt (\<lambda>x y. cmp x y \<le> 0) xs"
proof (induction fuel arbitrary: h)
  case (Suc fuel)
  show ?case
  proof (cases "h = []")
    case True
    then show ?thesis by (simp add: heap_pop_def)
  next
    case False
    have "heap_from cmp h 1" using Suc.prems(1) by (simp add: heap_from_def)
    then obtain h1 where h1: "heap_pop cmp h = Some (Some (h ! 0), h1)" "is_heap cmp h1"
        "mset h = add_mset (h ! 0) (mset h1)"
      using pop_heap False by blast
    have "length h = Suc (length h1)" using arg_cong [OF h1(3), of size] by simp
    then obtain xs where xs: "pop_all cmp fuel h1 = Some xs" "mset xs = mset h1"
        "sorted_wrt (\<lambda>x y. cmp x y \<le> 0) xs"
      using Suc.IH [OF h1(2)] Suc.prems(2) by auto
    have "cmp (h ! 0) y \<le> 0" if y: "y \<in> set xs" for y
    proof -
      have "y \<in># mset h" using y xs(2) h1(3) by (metis set_mset_mset union_iff add_mset_add_single)
      then show ?thesis using heap_top [OF Suc.prems(1)] by (auto simp: in_set_conv_nth)
    qed
    then show ?thesis using h1 xs by simp
  qed
qed simp

end

subsection \<open>Properties\<close>

text \<open>
  C30: with any total preorder as the comparison, items pushed in any order and popped until the
  heap is empty come out as a permutation of themselves, each at most the ones after it;
  \<open>heap_heapify\<close> turns any array into a heap of the same items, on which \<open>heap_peek\<close> is a
  least item.
\<close>

theorem heap_sorts:
  fixes cmp :: "'a \<Rightarrow> 'a \<Rightarrow> int"
  assumes "\<And>a b. cmp a b \<le> 0 \<or> cmp b a \<le> 0"
    and "transp (\<lambda>a b. cmp a b \<le> 0)"
  shows "\<exists>h ys h'. push_all cmp heap_init xs = Some h \<and> pop_all cmp (length xs + 1) h = Some ys \<and>
    mset ys = mset xs \<and> sorted_wrt (\<lambda>x y. cmp x y \<le> 0) ys \<and>
    heap_heapify cmp xs = Some h' \<and> mset h' = mset xs \<and>
    (xs \<noteq> [] \<longrightarrow> (\<exists>x. heap_peek h' = Some x \<and> (\<forall>y\<in>set xs. cmp x y \<le> 0)))"
proof -
  have ord: "heap_order cmp" using assms(1) transpD [OF assms(2)] by (rule heap_order.intro)
  obtain h where h: "push_all cmp heap_init xs = Some h" "is_heap cmp h" "mset h = mset xs"
    using heap_order.push_all_heap [OF ord, of "[]" xs] by (auto simp: heap_init_def heap_from_def)
  obtain ys where ys: "pop_all cmp (length xs + 1) h = Some ys" "mset ys = mset h"
      "sorted_wrt (\<lambda>x y. cmp x y \<le> 0) ys"
    using heap_order.pop_all_sorted [OF ord h(2), of "length xs + 1"] mset_eq_length [OF h(3)]
    by (auto simp del: pop_all.simps)
  obtain h' where h': "heap_heapify cmp xs = Some h'" "is_heap cmp h'" "mset h' = mset xs"
    using heap_order.heapify_heap [OF ord] by blast
  have "xs \<noteq> [] \<longrightarrow> (\<exists>x. heap_peek h' = Some x \<and> (\<forall>y\<in>set xs. cmp x y \<le> 0))"
    using heap_order.peek_least [OF ord h'(2)] mset_eq_setD [OF h'(3)] h'(3)
    by (cases h') (auto simp: heap_peek_def)
  then show ?thesis using h ys h' by auto
qed

theorem heap_sorts_witness:
  "\<exists>h ys h'. push_all bytes_compare heap_init [[2, 1], [7], [], [2]] = Some h \<and>
    pop_all bytes_compare 5 h = Some ys \<and> mset ys = mset [[2, 1], [7], [], [2]] \<and>
    sorted_wrt (\<lambda>x y. bytes_compare x y \<le> 0) ys \<and>
    heap_heapify bytes_compare [[2, 1], [7], [], [2]] = Some h' \<and> mset h' = mset [[2, 1], [7], [], [2]] \<and>
    (\<exists>x. heap_peek h' = Some x \<and> (\<forall>y\<in>set [[2, 1], [7], [], [2]]. bytes_compare x y \<le> 0))"
proof -
  obtain xs :: "bytes list" where xs: "xs = [[2, 1], [7], [], [2]]" by blast
  have len: "length xs + 1 = 5" and ne: "xs \<noteq> []" by (simp_all add: xs)
  have "transp (\<lambda>a b. bytes_compare a b \<le> 0)" by (rule transpI) (rule key_heap.trans)
  note sorts = heap_sorts [of bytes_compare xs, OF key_heap.total this, unfolded len]
  show ?thesis unfolding xs [symmetric] using sorts ne by blast
qed

end
