(* ===== verification/Iter.thy ===== *)
theory Iter
  imports Cursor
begin

text \<open>
  \<open>mtbl/iter.c\<close> and \<open>mtbl/source.c\<close>: the two interfaces every client of the library uses. An
  iterator or a source is a record of the functions it was made with and the closure they are
  applied to; the functions of an iterator return the closure they leave. \<open>None\<close> inside is
  NULL, and \<open>mtbl_res\<close> is a truth value (\<open>True\<close> for \<open>mtbl_res_success\<close>). \<open>mtbl_iter_next\<close> gives
  the entry for success and \<open>None\<close> for failure.
\<close>

subsection \<open>Iterators\<close>

record 's mtbl_iter =
  iter_seek :: "'s \<Rightarrow> bytes \<Rightarrow> (bool \<times> 's) option"
  iter_next :: "'s \<Rightarrow> (entry option \<times> 's) option"
  iter_clos :: 's

definition mtbl_iter_init ::
  "('s \<Rightarrow> bytes \<Rightarrow> (bool \<times> 's) option) \<Rightarrow> ('s \<Rightarrow> (entry option \<times> 's) option) \<Rightarrow> 's \<Rightarrow> 's mtbl_iter" where
  "mtbl_iter_init seek next clos = \<lparr>iter_seek = seek, iter_next = next, iter_clos = clos\<rparr>"

definition mtbl_iter_seek :: "'s mtbl_iter option \<Rightarrow> bytes \<Rightarrow> (bool \<times> 's mtbl_iter option) option" where
  "mtbl_iter_seek it key =
     (case it of
        None \<Rightarrow> Some (False, None)
      | Some i \<Rightarrow> do {
          (res, clos) \<leftarrow> iter_seek i (iter_clos i) key;
          Some (res, Some (i\<lparr>iter_clos := clos\<rparr>))
        })"

definition mtbl_iter_next :: "'s mtbl_iter option \<Rightarrow> (entry option \<times> 's mtbl_iter option) option" where
  "mtbl_iter_next it =
     (case it of
        None \<Rightarrow> Some (None, None)
      | Some i \<Rightarrow> do {
          (e, clos) \<leftarrow> iter_next i (iter_clos i);
          Some (e, Some (i\<lparr>iter_clos := clos\<rparr>))
        })"

subsection \<open>Sources\<close>

record ('c, 's) mtbl_source =
  source_iter :: "'c \<Rightarrow> 's mtbl_iter option option"
  source_get :: "'c \<Rightarrow> bytes \<Rightarrow> 's mtbl_iter option option"
  source_get_prefix :: "'c \<Rightarrow> bytes \<Rightarrow> 's mtbl_iter option option"
  source_get_range :: "'c \<Rightarrow> bytes \<Rightarrow> bytes \<Rightarrow> 's mtbl_iter option option"
  source_clos :: 'c

definition mtbl_source_iter :: "('c, 's) mtbl_source \<Rightarrow> 's mtbl_iter option option" where
  "mtbl_source_iter s = source_iter s (source_clos s)"

definition mtbl_source_get :: "('c, 's) mtbl_source \<Rightarrow> bytes \<Rightarrow> 's mtbl_iter option option" where
  "mtbl_source_get s key = source_get s (source_clos s) key"

definition mtbl_source_get_prefix :: "('c, 's) mtbl_source \<Rightarrow> bytes \<Rightarrow> 's mtbl_iter option option" where
  "mtbl_source_get_prefix s key = source_get_prefix s (source_clos s) key"

definition mtbl_source_get_range :: "('c, 's) mtbl_source \<Rightarrow> bytes \<Rightarrow> bytes \<Rightarrow> 's mtbl_iter option option" where
  "mtbl_source_get_range s key0 key1 = source_get_range s (source_clos s) key0 key1"

text \<open>
  The loop of \<open>mtbl_source_write\<close> (and of \<open>mtbl_sorter_write\<close>, which has the same body); \<open>add\<close>
  is \<open>mtbl_writer_add\<close> on the writer \<open>w\<close>, which is threaded through. The loop ends when
  \<open>mtbl_iter_next\<close> does not succeed or a call of \<open>mtbl_writer_add\<close> does not.
\<close>

partial_function (option) write_loop ::
  "('w \<Rightarrow> bytes \<Rightarrow> bytes \<Rightarrow> (bool \<times> 'w) option) \<Rightarrow> ('s \<Rightarrow> (entry option \<times> 's) option) \<Rightarrow> 's \<Rightarrow> 'w \<Rightarrow> bool \<Rightarrow>
   (bool \<times> 'w) option" where
  "write_loop add next it w res = do {
     (e, it) \<leftarrow> next it;
     case e of
       None \<Rightarrow> Some (res, w)
     | Some (key, val) \<Rightarrow> do {
         (res, w) \<leftarrow> add w key val;
         if \<not> res then Some (res, w) else write_loop add next it w res
       }
   }"

definition mtbl_source_write ::
  "('w \<Rightarrow> bytes \<Rightarrow> bytes \<Rightarrow> (bool \<times> 'w) option) \<Rightarrow> ('c, 's) mtbl_source \<Rightarrow> 'w \<Rightarrow> (bool \<times> 'w) option" where
  "mtbl_source_write add s w = do {
     it \<leftarrow> mtbl_source_iter s;
     case it of
       None \<Rightarrow> Some (False, w)
     | Some _ \<Rightarrow> write_loop add mtbl_iter_next it w True
   }"

subsection \<open>Closures that are cursors\<close>

text \<open>
  An iterator yields what its closure yields: the contract of a cursor passes from the closure
  to the iterator made with it, and NULL is the iterator that has nothing.
\<close>

definition iter_remaining ::
  "('s \<Rightarrow> (entry option \<times> 's) option) \<Rightarrow> ('s \<Rightarrow> entry list \<Rightarrow> bool) \<Rightarrow> 's mtbl_iter option \<Rightarrow> entry list \<Rightarrow> bool" where
  "iter_remaining next rem it es \<longleftrightarrow>
     (case it of None \<Rightarrow> es = [] | Some i \<Rightarrow> iter_next i = next \<and> rem (iter_clos i) es)"

lemma mtbl_iter_next_null [simp]: "mtbl_iter_next None = Some (None, None)"
  by (simp add: mtbl_iter_next_def)

lemma mtbl_iter_seek_null [simp]: "mtbl_iter_seek None key = Some (False, None)"
  by (simp add: mtbl_iter_seek_def)

lemma iter_remaining_null [simp]: "iter_remaining next rem None es \<longleftrightarrow> es = []"
  by (simp add: iter_remaining_def)

lemma iter_remaining_init [simp]:
  "iter_remaining next rem (Some (mtbl_iter_init seek next clos)) es \<longleftrightarrow> rem clos es"
  by (simp add: iter_remaining_def mtbl_iter_init_def)

context cursor begin

lemma iter_step_Cons:
  assumes "iter_remaining step remaining it (e # es)"
  shows "\<exists>it'. mtbl_iter_next it = Some (Some e, it') \<and> iter_remaining step remaining it' es"
proof -
  obtain i where i: "it = Some i" "iter_next i = step" "remaining (iter_clos i) (e # es)"
    using assms by (cases it) (auto simp: iter_remaining_def)
  obtain s where "step (iter_clos i) = Some (Some e, s)" "remaining s es"
    using step_Cons [OF i(3)] by blast
  then show ?thesis using i by (auto simp: mtbl_iter_next_def iter_remaining_def)
qed

lemma iter_step_Nil:
  assumes "iter_remaining step remaining it []"
  shows "\<exists>it'. mtbl_iter_next it = Some (None, it') \<and> iter_remaining step remaining it' []"
proof (cases it)
  case (Some i)
  then have i: "iter_next i = step" "remaining (iter_clos i) []" using assms by (simp_all add: iter_remaining_def)
  obtain s where "step (iter_clos i) = Some (None, s)" "remaining s []"
    using step_Nil [OF i(2)] by blast
  then show ?thesis using i Some by (auto simp: mtbl_iter_next_def iter_remaining_def)
qed simp

lemma iter_cursor: "cursor mtbl_iter_next (iter_remaining step remaining)"
  using iter_step_Cons iter_step_Nil by (rule cursor.intro)

text \<open>The loop that feeds a writer which accepts every entry.\<close>

lemma write_loop_all:
  assumes "remaining s es"
    and "\<And>w es1 e es2. P es1 w \<Longrightarrow> es = es1 @ e # es2 \<Longrightarrow> \<exists>w'. add w (fst e) (snd e) = Some (True, w') \<and> P (es1 @ [e]) w'"
    and "P [] w"
  shows "\<exists>w'. write_loop add step s w True = Some (True, w') \<and> P es w'"
proof -
  have "remaining s es2 \<Longrightarrow> P es1 w \<Longrightarrow> es = es1 @ es2 \<Longrightarrow>
      \<exists>w'. write_loop add step s w True = Some (True, w') \<and> P es w'" for es1 es2 s w
  proof (induction es2 arbitrary: es1 s w)
    case Nil
    then show ?case using step_Nil [OF Nil.prems(1)] by (subst write_loop.simps) auto
  next
    case (Cons e es2)
    obtain s' where s': "step s = Some (Some e, s')" "remaining s' es2"
      using step_Cons [OF Cons.prems(1)] by blast
    obtain w' where w': "add w (fst e) (snd e) = Some (True, w')" "P (es1 @ [e]) w'"
      using assms(2) [OF Cons.prems(2,3)] by blast
    have "\<exists>w''. write_loop add step s' w' True = Some (True, w'') \<and> P es w''"
      using Cons.IH [OF s'(2) w'(2)] Cons.prems(3) by simp
    then show ?case using s'(1) w'(1) by (subst write_loop.simps) (auto split: prod.split)
  qed
  with assms(1,3) show ?thesis by blast
qed

end

end
