(* ===== verification/Merger.thy ===== *)
theory Merger
  imports Heap Iter
begin

text \<open>
  \<open>mtbl/merger.c\<close>: the merge of several sources into one. A merger iterator keeps one entry per
  child iterator and a heap of them; the heap holds pointers, so here it holds the indices of the
  entries, and the entry at the top is changed in place before the heap is put in order again.
  The merge function is an argument (with its closure applied) that gives the merged value or
  NULL; the dupsort function one that gives the order of two values of a key.
\<close>

subsection \<open>Options\<close>

record mtbl_merger_options =
  mo_merge :: "(bytes \<Rightarrow> bytes \<Rightarrow> bytes \<Rightarrow> bytes option) option"
  mo_dupsort :: "(bytes \<Rightarrow> bytes \<Rightarrow> bytes \<Rightarrow> int) option"

definition mtbl_merger_options_init :: mtbl_merger_options where
  "mtbl_merger_options_init = \<lparr>mo_merge = None, mo_dupsort = None\<rparr>"

definition mtbl_merger_options_set_merge_func ::
  "mtbl_merger_options \<Rightarrow> (bytes \<Rightarrow> bytes \<Rightarrow> bytes \<Rightarrow> bytes option) option \<Rightarrow> mtbl_merger_options" where
  "mtbl_merger_options_set_merge_func opt merge = opt\<lparr>mo_merge := merge\<rparr>"

definition mtbl_merger_options_set_dupsort_func ::
  "mtbl_merger_options \<Rightarrow> (bytes \<Rightarrow> bytes \<Rightarrow> bytes \<Rightarrow> int) option \<Rightarrow> mtbl_merger_options" where
  "mtbl_merger_options_set_dupsort_func opt dupsort = opt\<lparr>mo_dupsort := dupsort\<rparr>"

record ('c, 's) mtbl_merger =
  m_sources :: "('c, 's) mtbl_source list"
  m_opt :: mtbl_merger_options

definition mtbl_merger_init :: "mtbl_merger_options option \<Rightarrow> ('c, 's) mtbl_merger option" where
  "mtbl_merger_init opt = do {
     opt \<leftarrow> opt;
     Some \<lparr>m_sources = [], m_opt = opt\<rparr>
   }"

definition mtbl_merger_add_source ::
  "('c, 's) mtbl_merger \<Rightarrow> ('c, 's) mtbl_source \<Rightarrow> ('c, 's) mtbl_merger" where
  "mtbl_merger_add_source m s = m\<lparr>m_sources := m_sources m @ [s]\<rparr>"

subsection \<open>Entries\<close>

record 's merger_entry =
  me_finished :: bool
  me_it :: "'s mtbl_iter option"
  me_key :: "bytes option"
  me_val :: bytes

text \<open>An entry whose key is NULL sorts after the others.\<close>

definition mtbl_merger_compare ::
  "mtbl_merger_options \<Rightarrow> 's merger_entry \<Rightarrow> 's merger_entry \<Rightarrow> int" where
  "mtbl_merger_compare opt a b =
     (case (me_key a, me_key b) of
        (None, None) \<Rightarrow> 0
      | (None, Some _) \<Rightarrow> 1
      | (Some _, None) \<Rightarrow> -1
      | (Some key_a, Some key_b) \<Rightarrow>
          (let res = bytes_compare key_a key_b
           in case mo_dupsort opt of
                None \<Rightarrow> res
              | Some dupsort \<Rightarrow> if res = 0 then dupsort key_a (me_val a) (me_val b) else res))"

definition entry_fill :: "'s merger_entry \<Rightarrow> (bool \<times> 's merger_entry) option" where
  "entry_fill ent = do {
     (e, it) \<leftarrow> mtbl_iter_next (me_it ent);
     let ent = ent\<lparr>me_it := it\<rparr>;
     case e of
       None \<Rightarrow> Some (False, ent\<lparr>me_finished := True\<rparr>)
     | Some (key, val) \<Rightarrow> Some (True, ent\<lparr>me_key := Some key, me_val := val, me_finished := False\<rparr>)
   }"

record 's merger_iter_state =
  mi_m :: mtbl_merger_options
  mi_h :: "nat list"
  mi_entries :: "'s merger_entry list"
  mi_cur_key :: bytes
  mi_cur_val :: bytes
  mi_finished :: bool
  mi_pending :: bool

definition heap_cmp :: "mtbl_merger_options \<Rightarrow> 's merger_entry list \<Rightarrow> nat \<Rightarrow> nat \<Rightarrow> int" where
  "heap_cmp opt es i j = mtbl_merger_compare opt (es ! i) (es ! j)"

subsection \<open>Seeking\<close>

text \<open>The loop that seeks every child and refills the heap.\<close>

primrec seek_entries ::
  "bytes \<Rightarrow> 's merger_entry list \<Rightarrow> nat \<Rightarrow> nat list \<Rightarrow> ('s merger_entry list \<times> nat list) option" where
  "seek_entries key [] i h = Some ([], h)"
| "seek_entries key (ent # es) i h = do {
     (res, it) \<leftarrow> mtbl_iter_seek (me_it ent) key;
     let ent = ent\<lparr>me_it := it\<rparr>;
     (ent, h) \<leftarrow>
       (if \<not> res then Some (ent, h)
        else do {
          (res, ent) \<leftarrow> entry_fill ent;
          Some (ent, if res then heap_add h i else h)
        });
     (es, h) \<leftarrow> seek_entries key es (i + 1) h;
     Some (ent # es, h)
   }"

text \<open>The loop that seeks only the entries behind the key; with it, whether anything changed.\<close>

partial_function (option) seek_forward ::
  "bytes \<Rightarrow> 's merger_iter_state \<Rightarrow> bool \<Rightarrow> (bool \<times> 's merger_iter_state) option" where
  "seek_forward key it changed = do {
     i \<leftarrow> heap_peek (mi_h it);
     let e = mi_entries it ! i;
     e_key \<leftarrow> me_key e;
     if bytes_compare key e_key > 0 then do {
       (res, e_it) \<leftarrow> mtbl_iter_seek (me_it e) key;
       let e = e\<lparr>me_it := e_it\<rparr>;
       (res, e) \<leftarrow> (if res then entry_fill e else Some (False, e));
       let it = it\<lparr>mi_entries := (mi_entries it)[i := e]\<rparr>;
       if res then do {
         (_, h) \<leftarrow> heap_replace (heap_cmp (mi_m it) (mi_entries it)) (mi_h it) i;
         seek_forward key (it\<lparr>mi_h := h\<rparr>) True
       } else do {
         (_, h) \<leftarrow> heap_pop (heap_cmp (mi_m it) (mi_entries it)) (mi_h it);
         let it = it\<lparr>mi_h := h\<rparr>;
         if heap_peek h = None then Some (True, it\<lparr>mi_finished := True\<rparr>)
         else seek_forward key it True
       }
     } else Some (changed, it)
   }"

definition merger_iter_seek :: "'s merger_iter_state \<Rightarrow> bytes \<Rightarrow> (bool \<times> 's merger_iter_state) option" where
  "merger_iter_seek it key = do {
     let it = it\<lparr>mi_finished := False, mi_pending := False\<rparr>;
     if heap_peek (mi_h it) = None \<or> length (mi_cur_key it) = 0 \<or> bytes_compare key (mi_cur_key it) < 0 then do {
       (es, h) \<leftarrow> seek_entries key (mi_entries it) 0 (heap_clip (mi_h it) 0);
       h \<leftarrow> heap_heapify (heap_cmp (mi_m it) es) h;
       Some (True, it\<lparr>mi_entries := es, mi_h := h\<rparr>)
     } else do {
       (changed, it) \<leftarrow> seek_forward key it False;
       Some (True, if changed then it\<lparr>mi_cur_val := [], mi_cur_key := key\<rparr> else it)
     }
   }"

subsection \<open>Stepping\<close>

text \<open>Entries that ended are popped; with an empty heap the iterator has finished.\<close>

partial_function (option) skip_finished :: "'s merger_iter_state \<Rightarrow> 's merger_iter_state option" where
  "skip_finished it =
     (case heap_peek (mi_h it) of
        None \<Rightarrow> Some (it\<lparr>mi_finished := True\<rparr>)
      | Some i \<Rightarrow>
          if me_finished (mi_entries it ! i) then do {
            (_, h) \<leftarrow> heap_pop (heap_cmp (mi_m it) (mi_entries it)) (mi_h it);
            skip_finished (it\<lparr>mi_h := h\<rparr>)
          } else Some it)"

text \<open>\<open>res = entry_fill(e); if (res == mtbl_res_success) heap_replace(it->h, e)\<close>\<close>

definition fill_top :: "'s merger_iter_state \<Rightarrow> nat \<Rightarrow> 's merger_iter_state option" where
  "fill_top it i = do {
     (res, e) \<leftarrow> entry_fill (mi_entries it ! i);
     let it = it\<lparr>mi_entries := (mi_entries it)[i := e]\<rparr>;
     if res then do {
       (_, h) \<leftarrow> heap_replace (heap_cmp (mi_m it) (mi_entries it)) (mi_h it) i;
       Some (it\<lparr>mi_h := h\<rparr>)
     } else Some it
   }"

text \<open>The outer loop. \<open>False\<close> when the merge function gave NULL.\<close>

partial_function (option) merger_loop :: "'s merger_iter_state \<Rightarrow> (bool \<times> 's merger_iter_state) option" where
  "merger_loop it = do {
     it \<leftarrow> skip_finished it;
     if mi_finished it then Some (True, it)
     else do {
       i \<leftarrow> heap_peek (mi_h it);
       let e = mi_entries it ! i;
       key \<leftarrow> me_key e;
       if length (mi_cur_key it) = 0 then do {
         it \<leftarrow> fill_top (it\<lparr>mi_cur_key := key, mi_cur_val := me_val e, mi_pending := True\<rparr>) i;
         merger_loop it
       } else (case mo_merge (mi_m it) of
           None \<Rightarrow> Some (True, it)
         | Some merge \<Rightarrow>
             if bytes_compare (mi_cur_key it) key = 0 then
               (case merge (mi_cur_key it) (mi_cur_val it) (me_val e) of
                  None \<Rightarrow> Some (False, it)
                | Some merged_val \<Rightarrow> do {
                    it \<leftarrow> fill_top (it\<lparr>mi_cur_val := merged_val\<rparr>) i;
                    merger_loop it
                  })
             else Some (True, it))
     }
   }"

definition merger_iter_next :: "'s merger_iter_state \<Rightarrow> (entry option \<times> 's merger_iter_state) option" where
  "merger_iter_next it =
     (if mi_finished it then Some (None, it)
      else do {
        (merged, it) \<leftarrow> merger_loop (it\<lparr>mi_cur_key := [], mi_cur_val := []\<rparr>);
        if \<not> merged then Some (None, it)
        else if mi_pending it then
          Some (Some (mi_cur_key it, mi_cur_val it), it\<lparr>mi_pending := False\<rparr>)
        else Some (None, it)
      })"

subsection \<open>Opening\<close>

definition merger_iter_init :: "mtbl_merger_options \<Rightarrow> 's merger_iter_state" where
  "merger_iter_init opt =
     \<lparr>mi_m = opt, mi_h = heap_init, mi_entries = [], mi_cur_key = [], mi_cur_val = [],
       mi_finished = False, mi_pending = False\<rparr>"

definition merger_iter_add_entry :: "'s merger_iter_state \<Rightarrow> 's mtbl_iter option \<Rightarrow> 's merger_iter_state option" where
  "merger_iter_add_entry it ent_it = do {
     (res, ent) \<leftarrow> entry_fill \<lparr>me_finished = False, me_it = ent_it, me_key = None, me_val = []\<rparr>;
     if \<not> res then Some it
     else do {
       let es = mi_entries it @ [ent];
       h \<leftarrow> heap_push (heap_cmp (mi_m it) es) (mi_h it) (length (mi_entries it));
       Some (it\<lparr>mi_entries := es, mi_h := h\<rparr>)
     }
   }"

primrec add_sources ::
  "(('c, 's) mtbl_source \<Rightarrow> 's mtbl_iter option option) \<Rightarrow> 's merger_iter_state \<Rightarrow> ('c, 's) mtbl_source list \<Rightarrow>
   's merger_iter_state option" where
  "add_sources open_source it [] = Some it"
| "add_sources open_source it (s # ss) = do {
     s_it \<leftarrow> open_source s;
     it \<leftarrow> merger_iter_add_entry it s_it;
     add_sources open_source it ss
   }"

primrec add_found ::
  "(('c, 's) mtbl_source \<Rightarrow> 's mtbl_iter option option) \<Rightarrow> 's merger_iter_state \<Rightarrow> ('c, 's) mtbl_source list \<Rightarrow>
   's merger_iter_state option" where
  "add_found open_source it [] = Some it"
| "add_found open_source it (s # ss) = do {
     s_it \<leftarrow> open_source s;
     it \<leftarrow> (case s_it of None \<Rightarrow> Some it | Some _ \<Rightarrow> merger_iter_add_entry it s_it);
     add_found open_source it ss
   }"

definition merger_mtbl_iter :: "'s merger_iter_state \<Rightarrow> 's merger_iter_state mtbl_iter" where
  "merger_mtbl_iter it = mtbl_iter_init merger_iter_seek merger_iter_next it"

definition merger_iter :: "('c, 's) mtbl_merger \<Rightarrow> 's merger_iter_state mtbl_iter option option" where
  "merger_iter m = do {
     it \<leftarrow> add_sources mtbl_source_iter (merger_iter_init (m_opt m)) (m_sources m);
     Some (Some (merger_mtbl_iter it))
   }"

definition merger_get :: "('c, 's) mtbl_merger \<Rightarrow> bytes \<Rightarrow> 's merger_iter_state mtbl_iter option option" where
  "merger_get m key = do {
     it \<leftarrow> add_found (\<lambda>s. mtbl_source_get_range s key key) (merger_iter_init (m_opt m)) (m_sources m);
     if length (mi_entries it) = 0 then Some None else Some (Some (merger_mtbl_iter it))
   }"

definition merger_get_range ::
  "('c, 's) mtbl_merger \<Rightarrow> bytes \<Rightarrow> bytes \<Rightarrow> 's merger_iter_state mtbl_iter option option" where
  "merger_get_range m key0 key1 = do {
     it \<leftarrow> add_found (\<lambda>s. mtbl_source_get_range s key0 key1) (merger_iter_init (m_opt m)) (m_sources m);
     if length (mi_entries it) = 0 then Some None else Some (Some (merger_mtbl_iter it))
   }"

definition merger_get_prefix :: "('c, 's) mtbl_merger \<Rightarrow> bytes \<Rightarrow> 's merger_iter_state mtbl_iter option option" where
  "merger_get_prefix m key = do {
     it \<leftarrow> add_found (\<lambda>s. mtbl_source_get_prefix s key) (merger_iter_init (m_opt m)) (m_sources m);
     if length (mi_entries it) = 0 then Some None else Some (Some (merger_mtbl_iter it))
   }"

definition mtbl_merger_source :: "('c, 's) mtbl_merger \<Rightarrow> (('c, 's) mtbl_merger, 's merger_iter_state) mtbl_source" where
  "mtbl_merger_source m =
     \<lparr>source_iter = merger_iter, source_get = merger_get, source_get_prefix = merger_get_prefix,
       source_get_range = merger_get_range, source_clos = m\<rparr>"

end
