(* ===== verification/Merge_Spec.thy ===== *)
theory Merge_Spec
  imports Cursor Bytes "HOL-Library.Multiset"
begin

text \<open>
  What a merge of sorted lists is: \<open>takes le Ls g Ls'\<close> takes from the lists \<open>Ls\<close>, one at a time, a
  head that is least among everything that is left, and leaves the lists \<open>Ls'\<close>; between equal
  heads the choice is free. \<open>collapse\<close> combines neighbours with equal keys by the merge function.
\<close>

subsection \<open>Taking the least\<close>

inductive takes :: "('a \<Rightarrow> 'a \<Rightarrow> bool) \<Rightarrow> 'a list list \<Rightarrow> 'a list \<Rightarrow> 'a list list \<Rightarrow> bool"
  for le :: "'a \<Rightarrow> 'a \<Rightarrow> bool" where
  takes_Nil: "takes le Ls [] Ls"
| takes_Cons: "\<lbrakk>i < length Ls; Ls ! i = e # R; \<And>x. x \<in> set (concat Ls) \<Longrightarrow> le e x; takes le (Ls[i := R]) g Ls'\<rbrakk>
    \<Longrightarrow> takes le Ls (e # g) Ls'"

inductive_cases takes_NilE: "takes le Ls [] Ls'"
inductive_cases takes_ConsE: "takes le Ls (e # g) Ls'"

definition merges :: "('a \<Rightarrow> 'a \<Rightarrow> bool) \<Rightarrow> 'a list list \<Rightarrow> 'a list \<Rightarrow> bool" where
  "merges le Ls out \<longleftrightarrow> (\<exists>Ls'. takes le Ls out Ls' \<and> concat Ls' = [])"

lemma takes_one: "i < length Ls \<Longrightarrow> Ls ! i = e # R \<Longrightarrow> (\<And>x. x \<in> set (concat Ls) \<Longrightarrow> le e x) \<Longrightarrow> takes le Ls [e] (Ls[i := R])"
  by (rule takes_Cons [OF _ _ _ takes_Nil])

lemma takes_append: "takes le Ls g Ls' \<Longrightarrow> takes le Ls' g' Ls'' \<Longrightarrow> takes le Ls (g @ g') Ls''"
  by (induction rule: takes.induct) (auto intro: takes_Cons)

lemma takes_length: "takes le Ls g Ls' \<Longrightarrow> length Ls' = length Ls"
  by (induction rule: takes.induct) simp_all

lemma mset_concat_update:
  "i < length Ls \<Longrightarrow> mset (concat (Ls[i := R])) + mset (Ls ! i) = mset (concat Ls) + mset R"
proof (induction Ls arbitrary: i)
  case (Cons L Ls)
  then show ?case by (cases i) (auto simp: ac_simps)
qed simp

lemma mset_take_head:
  "i < length Ls \<Longrightarrow> Ls ! i = e # R \<Longrightarrow> mset (concat Ls) = add_mset e (mset (concat (Ls[i := R])))"
  using mset_concat_update [of i Ls R] by simp

lemma takes_mset: "takes le Ls g Ls' \<Longrightarrow> mset (concat Ls) = mset g + mset (concat Ls')"
  by (induction rule: takes.induct) (simp_all add: mset_take_head)

lemma takes_set: "takes le Ls g Ls' \<Longrightarrow> set (concat Ls) = set g \<union> set (concat Ls')"
  using takes_mset [of le Ls g Ls'] by (metis set_mset_mset set_mset_union mset_append set_append)

lemma takes_sorted:
  assumes "takes le Ls g Ls'"
  shows "sorted_wrt le g \<and> (\<forall>x\<in>set g. \<forall>y\<in>set (concat Ls'). le x y)"
  using assms
proof (induction rule: takes.induct)
  case (takes_Cons i Ls e R g Ls')
  have sub: "set (concat Ls) = insert e (set (concat (Ls[i := R])))"
    using mset_take_head [OF takes_Cons.hyps(1,2)] by (metis set_mset_mset set_mset_add_mset_insert)
  have "set (concat (Ls[i := R])) = set g \<union> set (concat Ls')" by (rule takes_set [OF takes_Cons.hyps(4)])
  with sub have "le e x" if "x \<in> set g \<union> set (concat Ls')" for x
    using that by (intro takes_Cons.hyps(3)) blast
  then have "\<forall>x\<in>set g \<union> set (concat Ls'). le e x" by blast
  then show ?case using takes_Cons.IH by (simp del: set_concat)
qed simp

lemma takes_all: "takes le Ls g Ls' \<Longrightarrow> \<forall>L\<in>set Ls. sorted_wrt r L \<Longrightarrow> \<forall>L\<in>set Ls'. sorted_wrt r L"
proof (induction rule: takes.induct)
  case (takes_Cons i Ls e R g Ls')
  have "sorted_wrt r (e # R)" using takes_Cons.prems takes_Cons.hyps(1,2) by (metis nth_mem)
  then have "\<forall>L\<in>set (Ls[i := R]). sorted_wrt r L"
    using takes_Cons.prems set_update_subset_insert [of Ls i R] by auto
  then show ?case by (rule takes_Cons.IH)
qed simp

lemma merges_mset: "merges le Ls out \<Longrightarrow> mset out = mset (concat Ls)"
  by (auto simp: merges_def dest!: takes_mset)

lemma merges_set: "merges le Ls out \<Longrightarrow> set out = set (concat Ls)"
  using merges_mset mset_eq_setD by blast

lemma merges_sorted: "merges le Ls out \<Longrightarrow> sorted_wrt le out"
  by (auto simp: merges_def dest: takes_sorted)

lemma merges_takes: "takes le Ls g Ls' \<Longrightarrow> merges le Ls' out \<Longrightarrow> merges le Ls (g @ out)"
  unfolding merges_def using takes_append by blast

lemma merges_Nil: "concat Ls = [] \<Longrightarrow> merges le Ls []"
  unfolding merges_def using takes_Nil by blast

text \<open>The order of a merge: by key, and between equal keys by the given order of the values.\<close>

definition entry_le :: "(bytes \<Rightarrow> bytes \<Rightarrow> bytes \<Rightarrow> int) option \<Rightarrow> entry \<Rightarrow> entry \<Rightarrow> bool" where
  "entry_le dupsort a b \<longleftrightarrow>
     fst a < fst b \<or> fst a = fst b \<and> (case dupsort of None \<Rightarrow> True | Some f \<Rightarrow> f (fst a) (snd a) (snd b) \<le> 0)"

lemma entry_le_key: "entry_le dupsort a b \<Longrightarrow> fst a \<le> fst b"
  by (auto simp: entry_le_def)

lemma entry_le_less: "fst a < fst b \<Longrightarrow> entry_le dupsort a b"
  by (simp add: entry_le_def)

subsection \<open>Combining equal keys\<close>

fun collapse :: "(bytes \<Rightarrow> bytes \<Rightarrow> bytes \<Rightarrow> bytes option) \<Rightarrow> entry list \<Rightarrow> entry list" where
  "collapse merge ((k, v) # (k', v') # es) =
     (if k = k' then collapse merge ((k, the (merge k v v')) # es)
      else (k, v) # collapse merge ((k', v') # es))"
| "collapse merge es = es"

definition combined :: "(bytes \<Rightarrow> bytes \<Rightarrow> bytes \<Rightarrow> bytes option) option \<Rightarrow> entry list \<Rightarrow> entry list" where
  "combined merge es = (case merge of None \<Rightarrow> es | Some f \<Rightarrow> collapse f es)"

abbreviation fold_vals :: "(bytes \<Rightarrow> bytes \<Rightarrow> bytes \<Rightarrow> bytes option) \<Rightarrow> bytes \<Rightarrow> bytes \<Rightarrow> entry list \<Rightarrow> bytes" where
  "fold_vals merge k v g \<equiv> foldl (\<lambda>a x. the (merge k a (snd x))) v g"

lemma collapse_group:
  assumes "\<forall>x\<in>set g. fst x = k" and "\<forall>x\<in>set es. fst x \<noteq> k"
  shows "collapse merge ((k, v) # g @ es) = (k, fold_vals merge k v g) # collapse merge es"
  using assms(1)
proof (induction g arbitrary: v)
  case Nil
  show ?case using assms(2) by (cases es) auto
next
  case (Cons x g)
  then show ?case by (cases x) simp
qed

lemma combined_group:
  assumes "merge = None \<Longrightarrow> g = []" and "\<forall>x\<in>set g. fst x = k"
    and "merge \<noteq> None \<Longrightarrow> \<forall>x\<in>set es. fst x \<noteq> k"
  shows "combined merge ((k, v) # g @ es) =
    (k, case merge of None \<Rightarrow> v | Some f \<Rightarrow> fold_vals f k v g) # combined merge es"
  using assms collapse_group [of g k es] by (auto simp: combined_def split: option.splits)

lemma combined_Nil [simp]: "combined merge [] = []"
  by (simp add: combined_def split: option.split)

lemma collapse_keys: "fst ` set (collapse merge es) = fst ` set es"
  by (induction merge es rule: collapse.induct) auto

lemma combined_keys: "fst ` set (combined merge es) = fst ` set es"
  by (simp add: combined_def collapse_keys split: option.split)

lemma combined_length: "length (combined merge es) \<le> length es"
proof -
  have "length (collapse f es) \<le> length es" for f
    by (induction f es rule: collapse.induct) (auto intro: le_SucI)
  then show ?thesis by (simp add: combined_def split: option.split)
qed

lemma collapse_strict:
  "sorted_wrt (\<lambda>a b. fst a \<le> fst b) es \<Longrightarrow> sorted_wrt (\<lambda>a b. fst a < fst b) (collapse merge es)"
proof (induction merge es rule: collapse.induct)
  case (1 merge k v k' v' es)
  show ?case
  proof (cases "k = k'")
    case True
    with 1 show ?thesis by simp
  next
    case False
    have keys: "fst ` set (collapse merge ((k', v') # es)) = fst ` set ((k', v') # es)" by (rule collapse_keys)
    have less: "k < y" if y: "y \<in> fst ` set ((k', v') # es)" for y
    proof -
      have "k < k'" using 1(3) False by (simp add: order.strict_iff_order)
      moreover have "k' \<le> y" using 1(3) y by auto
      ultimately show ?thesis by simp
    qed
    have "k < fst x" if "x \<in> set (collapse merge ((k', v') # es))" for x
      using less keys imageI [OF that, of fst] by simp
    with 1 False show ?thesis by simp
  qed
qed simp_all

lemma collapse_id: "sorted_wrt (\<lambda>a b. fst a < fst b) es \<Longrightarrow> collapse merge es = es"
  by (induction merge es rule: collapse.induct) auto

text \<open>The values at a key, in the order they come.\<close>

definition vals_at :: "bytes \<Rightarrow> entry list \<Rightarrow> bytes list" where
  "vals_at k es = map snd (filter (\<lambda>e. fst e = k) es)"

end
