(* ===== verification/Merger_Facts.thy ===== *)
theory Merger_Facts
  imports Merger Merge_Spec
begin

text \<open>
  The merger iterator against the merge of the lists its children still have to give. \<open>minv\<close>
  relates the state to those lists; every step takes the least heads (\<open>merger_next_ok\<close>), so the
  client's loop gets a merge of the lists with the equal keys combined (\<open>merger_drain\<close>). The
  locale \<open>merger_kids\<close> is what the merger relies on: that its children are cursors.
\<close>

lemma in_tl: "x \<in> set (tl xs) \<Longrightarrow> x \<in> set xs"
  by (cases xs) simp_all

subsection \<open>The order\<close>

definition dupsort_ok :: "mtbl_merger_options \<Rightarrow> bool" where
  "dupsort_ok opt \<longleftrightarrow> (case mo_dupsort opt of
      None \<Rightarrow> True
    | Some f \<Rightarrow> \<forall>k u v w. (f k u v \<le> 0 \<or> f k v u \<le> 0) \<and> (f k u v \<le> 0 \<longrightarrow> f k v w \<le> 0 \<longrightarrow> f k u w \<le> 0))"

definition merge_ok :: "mtbl_merger_options \<Rightarrow> bool" where
  "merge_ok opt \<longleftrightarrow> (\<forall>f k a b. mo_merge opt = Some f \<longrightarrow> f k a b \<noteq> None)"

abbreviation mle :: "mtbl_merger_options \<Rightarrow> entry \<Rightarrow> entry \<Rightarrow> bool" where
  "mle opt \<equiv> entry_le (mo_dupsort opt)"

lemma dupsort_total: "dupsort_ok opt \<Longrightarrow> mo_dupsort opt = Some f \<Longrightarrow> f k u v \<le> 0 \<or> f k v u \<le> 0"
  and dupsort_trans: "dupsort_ok opt \<Longrightarrow> mo_dupsort opt = Some f \<Longrightarrow> f k u v \<le> 0 \<Longrightarrow> f k v w \<le> 0 \<Longrightarrow> f k u w \<le> 0"
  unfolding dupsort_ok_def by (simp; blast)+

lemma mle_total:
  assumes "dupsort_ok opt"
  shows "mle opt a b \<or> mle opt b a"
proof (cases "mo_dupsort opt")
  case None
  then show ?thesis by (auto simp: entry_le_def)
next
  case (Some f)
  then show ?thesis
    using dupsort_total [OF assms Some, of "fst a" "snd a" "snd b"] by (cases "fst a = fst b") (auto simp: entry_le_def)
qed

lemma mle_trans:
  assumes ok: "dupsort_ok opt" and ab: "mle opt a b" and bc: "mle opt b c"
  shows "mle opt a c"
proof -
  have keys: "fst a \<le> fst b" "fst b \<le> fst c" using ab bc entry_le_key by blast+
  show ?thesis
  proof (cases "fst a = fst c")
    case False
    then have "fst a < fst c" using keys by simp
    then show ?thesis by (rule entry_le_less)
  next
    case True
    then have "fst a = fst b" "fst b = fst c" using keys by simp_all
    then show ?thesis
      using ab bc dupsort_trans [OF ok] by (cases "mo_dupsort opt") (auto simp: entry_le_def)
  qed
qed

lemma compare_le:
  "me_key a = Some k \<Longrightarrow> me_key b = Some k' \<Longrightarrow>
   mtbl_merger_compare opt a b \<le> 0 \<longleftrightarrow> mle opt (k, me_val a) (k', me_val b)"
  by (auto simp: mtbl_merger_compare_def entry_le_def Let_def le_less split: option.split)

lemma heap_cmp_order:
  assumes "dupsort_ok opt"
  shows "heap_order (heap_cmp opt es)"
proof
  fix a b
  show "heap_cmp opt es a b \<le> 0 \<or> heap_cmp opt es b a \<le> 0"
  proof (cases "me_key (es ! a)"; cases "me_key (es ! b)")
    fix ka kb assume k: "me_key (es ! a) = Some ka" "me_key (es ! b) = Some kb"
    show ?thesis
      unfolding heap_cmp_def compare_le [OF k] compare_le [OF k(2,1)] by (rule mle_total [OF assms])
  qed (simp_all add: heap_cmp_def mtbl_merger_compare_def)
next
  fix a b c
  assume le: "heap_cmp opt es a b \<le> 0" "heap_cmp opt es b c \<le> 0"
  show "heap_cmp opt es a c \<le> 0"
  proof (cases "me_key (es ! a)"; cases "me_key (es ! b)"; cases "me_key (es ! c)")
    fix ka kb kc assume k: "me_key (es ! a) = Some ka" "me_key (es ! b) = Some kb" "me_key (es ! c) = Some kc"
    show ?thesis
      using le mle_trans [OF assms]
      unfolding heap_cmp_def compare_le [OF k(1,2)] compare_le [OF k(2,3)] compare_le [OF k(1,3)] by blast
  qed (use le in \<open>simp_all add: heap_cmp_def mtbl_merger_compare_def\<close>)
qed

text \<open>The order below the top depends on the entries below the top only.\<close>

lemma heap_from_entries:
  assumes "\<And>i. i \<in> set (drop p h) \<Longrightarrow> es ! i = es' ! i" and "heap_from (heap_cmp opt es) h p"
  shows "heap_from (heap_cmp opt es') h p"
  unfolding heap_from_def
proof (intro allI impI)
  fix i assume i: "0 < i" "i < length h" "p \<le> (i - 1) div 2"
  have in_drop: "h ! j \<in> set (drop p h)" if "p \<le> j" "j < length h" for j
  proof -
    have "drop p h ! (j - p) = h ! j" "j - p < length (drop p h)" using that by simp_all
    then show ?thesis by (metis nth_mem)
  qed
  have "p \<le> i" "(i - 1) div 2 < length h" using i parent_less [OF i(1)] by linarith+
  then have "es ! (h ! i) = es' ! (h ! i)" "es ! (h ! ((i - 1) div 2)) = es' ! (h ! ((i - 1) div 2))"
    using in_drop i assms(1) by blast+
  then show "heap_cmp opt es' (h ! ((i - 1) div 2)) (h ! i) \<le> 0"
    using heap_from_edge [OF assms(2) i] by (simp add: heap_cmp_def)
qed

subsection \<open>The invariant\<close>

definition live :: "('s mtbl_iter option \<Rightarrow> entry list \<Rightarrow> bool) \<Rightarrow> 's merger_entry \<Rightarrow> entry list \<Rightarrow> bool" where
  "live C e L \<longleftrightarrow> (\<exists>k R. \<not> me_finished e \<and> me_key e = Some k \<and> L = (k, me_val e) # R \<and> C (me_it e) R)"

definition ready :: "'s merger_iter_state \<Rightarrow> bool" where
  "ready it \<longleftrightarrow> (\<forall>i\<in>set (mi_h it). \<not> me_finished (mi_entries it ! i))"

definition lists_ok :: "mtbl_merger_options \<Rightarrow> entry list list \<Rightarrow> bool" where
  "lists_ok opt Ls \<longleftrightarrow> (\<forall>L\<in>set Ls. sorted_wrt (mle opt) L) \<and> (\<forall>x\<in>set (concat Ls). fst x \<noteq> [])"

text \<open>
  The entries in the heap that have not ended hold the heads of their lists; every other entry has
  an exhausted child. Below the top the heap is in order, at the top too unless that entry ended.
\<close>

definition minv ::
  "(nat \<Rightarrow> 's mtbl_iter option \<Rightarrow> entry list \<Rightarrow> bool) \<Rightarrow> 's merger_iter_state \<Rightarrow> entry list list \<Rightarrow> bool" where
  "minv C it Ls \<longleftrightarrow> dupsort_ok (mi_m it) \<and> lists_ok (mi_m it) Ls \<and> length Ls = length (mi_entries it) \<and>
     distinct (mi_h it) \<and> set (mi_h it) \<subseteq> {..<length Ls} \<and>
     (\<forall>i<length Ls. if i \<in> set (mi_h it) \<and> \<not> me_finished (mi_entries it ! i) then live (C i) (mi_entries it ! i) (Ls ! i)
        else Ls ! i = [] \<and> C i (me_it (mi_entries it ! i)) []) \<and>
     (\<forall>i\<in>set (tl (mi_h it)). \<not> me_finished (mi_entries it ! i)) \<and>
     heap_from (heap_cmp (mi_m it) (mi_entries it)) (mi_h it) 1 \<and>
     (ready it \<longrightarrow> is_heap (heap_cmp (mi_m it) (mi_entries it)) (mi_h it))"

lemma minv_frame [simp]:
  "minv C (it\<lparr>mi_cur_key := k\<rparr>) Ls = minv C it Ls" "minv C (it\<lparr>mi_cur_val := v\<rparr>) Ls = minv C it Ls"
  "minv C (it\<lparr>mi_pending := p\<rparr>) Ls = minv C it Ls" "minv C (it\<lparr>mi_finished := f\<rparr>) Ls = minv C it Ls"
  "ready (it\<lparr>mi_cur_key := k\<rparr>) = ready it" "ready (it\<lparr>mi_cur_val := v\<rparr>) = ready it"
  "ready (it\<lparr>mi_pending := p\<rparr>) = ready it" "ready (it\<lparr>mi_finished := f\<rparr>) = ready it"
  by (simp_all add: minv_def ready_def)

lemma minvD:
  assumes "minv C it Ls"
  shows "dupsort_ok (mi_m it)" "lists_ok (mi_m it) Ls" "length Ls = length (mi_entries it)"
    "distinct (mi_h it)" "set (mi_h it) \<subseteq> {..<length Ls}"
    "heap_from (heap_cmp (mi_m it) (mi_entries it)) (mi_h it) 1"
    "\<And>i. i \<in> set (tl (mi_h it)) \<Longrightarrow> \<not> me_finished (mi_entries it ! i)"
    "ready it \<Longrightarrow> is_heap (heap_cmp (mi_m it) (mi_entries it)) (mi_h it)"
    "\<And>i. i < length Ls \<Longrightarrow> if i \<in> set (mi_h it) \<and> \<not> me_finished (mi_entries it ! i)
        then live (C i) (mi_entries it ! i) (Ls ! i) else Ls ! i = [] \<and> C i (me_it (mi_entries it ! i)) []"
  using assms unfolding minv_def by blast+

lemma minvI:
  assumes "dupsort_ok (mi_m it)" "lists_ok (mi_m it) Ls" "length Ls = length (mi_entries it)"
    "distinct (mi_h it)" "set (mi_h it) \<subseteq> {..<length Ls}"
    "\<And>i. i < length Ls \<Longrightarrow> if i \<in> set (mi_h it) \<and> \<not> me_finished (mi_entries it ! i)
        then live (C i) (mi_entries it ! i) (Ls ! i) else Ls ! i = [] \<and> C i (me_it (mi_entries it ! i)) []"
    "ready it" "is_heap (heap_cmp (mi_m it) (mi_entries it)) (mi_h it)"
  shows "minv C it Ls"
proof -
  have "heap_from (heap_cmp (mi_m it) (mi_entries it)) (mi_h it) 1"
    using assms(8) by (simp add: heap_from_def)
  moreover have "\<forall>i\<in>set (tl (mi_h it)). \<not> me_finished (mi_entries it ! i)"
    using assms(7) in_tl unfolding ready_def by metis
  ultimately show ?thesis using assms unfolding minv_def by blast
qed

lemma minv_mono:
  assumes "minv C it Ls" and "\<And>i x R. C i x R \<Longrightarrow> C' i x R"
  shows "minv C' it Ls"
proof -
  have "live (C' i) e L" if "live (C i) e L" for i e L
    using that assms(2) unfolding live_def by blast
  then show ?thesis using assms unfolding minv_def by (auto split: if_splits)
qed

lemma minv_order: "minv C it Ls \<Longrightarrow> heap_order (heap_cmp (mi_m it) es)"
  by (simp add: minv_def heap_cmp_order)

lemma minv_empty:
  assumes "minv C it Ls" and "mi_h it = []"
  shows "concat Ls = []"
  using assms by (auto simp: minv_def in_set_conv_nth)

lemma minv_top:
  assumes inv: "minv C it Ls" and r: "ready it" and h: "mi_h it = i # h'"
  shows "\<exists>k R. me_key (mi_entries it ! i) = Some k \<and> Ls ! i = (k, me_val (mi_entries it ! i)) # R \<and>
    C i (me_it (mi_entries it ! i)) R \<and> i < length Ls \<and>
    (\<forall>x\<in>set (concat Ls). mle (mi_m it) (k, me_val (mi_entries it ! i)) x)"
proof -
  let ?e = "\<lambda>i. mi_entries it ! i"
  have i: "i < length Ls" using inv h by (simp add: minv_def)
  have lives: "live (C j) (?e j) (Ls ! j)" if "j \<in> set (mi_h it)" for j
    using inv r that by (auto simp: minv_def ready_def)
  obtain k R where k: "me_key (?e i) = Some k" "Ls ! i = (k, me_val (?e i)) # R" "C i (me_it (?e i)) R"
    using lives [of i] h by (auto simp: live_def)
  have "mle (mi_m it) (k, me_val (?e i)) x" if "x \<in> set (concat Ls)" for x
  proof -
    obtain L where "L \<in> set Ls" "x \<in> set L" using \<open>x \<in> set (concat Ls)\<close> by auto
    then obtain j where j: "j < length Ls" "x \<in> set (Ls ! j)" by (metis in_set_conv_nth)
    have "j \<in> set (mi_h it)"
    proof (rule ccontr)
      assume "j \<notin> set (mi_h it)"
      then have "Ls ! j = []" using inv j(1) by (auto simp: minv_def)
      then show False using j(2) by simp
    qed
    then obtain kj Rj where kj: "me_key (?e j) = Some kj" "Ls ! j = (kj, me_val (?e j)) # Rj"
      using lives [of j] unfolding live_def by blast
    obtain p where p: "p < length (mi_h it)" "mi_h it ! p = j" using \<open>j \<in> set (mi_h it)\<close> by (auto simp: in_set_conv_nth)
    have heap: "is_heap (heap_cmp (mi_m it) (mi_entries it)) (mi_h it)" using inv r by (simp add: minv_def)
    have "heap_cmp (mi_m it) (mi_entries it) i j \<le> 0"
      using heap_order.heap_top [OF minv_order [OF inv] heap p(1)] p(2) h by simp
    then have top: "mle (mi_m it) (k, me_val (?e i)) (kj, me_val (?e j))"
      unfolding heap_cmp_def compare_le [OF k(1) kj(1)] .
    have "sorted_wrt (mle (mi_m it)) (Ls ! j)" using inv j(1) by (auto simp: minv_def lists_ok_def)
    then have "x = (kj, me_val (?e j)) \<or> mle (mi_m it) (kj, me_val (?e j)) x" using j(2) kj(2) by auto
    then show ?thesis using top mle_trans [OF minvD(1) [OF inv] top] by blast
  qed
  then show ?thesis using k i by blast
qed

text \<open>The top entry overwritten: it stays in the heap if its child still has entries.\<close>

lemma minv_top_written:
  assumes inv: "minv C it Ls" and rd: "ready it" and h: "mi_h it = i # h'"
    and ok: "lists_ok (mi_m it) (Ls[i := L])"
    and ent: "if L = [] then C i (me_it ent) [] else live (C i) ent L"
    and h2: "mset h2 = mset (if L = [] then h' else i # h')" "is_heap (heap_cmp (mi_m it) ((mi_entries it)[i := ent])) h2"
  shows "minv C (it\<lparr>mi_entries := (mi_entries it)[i := ent], mi_h := h2\<rparr>) (Ls[i := L])"
    and "ready (it\<lparr>mi_entries := (mi_entries it)[i := ent], mi_h := h2\<rparr>)"
proof -
  let ?es = "(mi_entries it)[i := ent]" and ?it = "it\<lparr>mi_entries := (mi_entries it)[i := ent], mi_h := h2\<rparr>"
  note facts = minvD(1,3-5) [OF inv, unfolded h]
  have i: "i < length (mi_entries it)" "i < length Ls" using facts(2,4) by simp_all
  have mem: "j \<in> set h2 \<longleftrightarrow> j \<in> set h' \<or> j = i \<and> L \<noteq> []" for j
    using mset_eq_setD [OF h2(1)] by auto
  have dist: "distinct h2" using facts(3) mset_eq_imp_distinct_iff [OF h2(1)] by simp
  have slots: "if j \<in> set h2 then live (C j) (?es ! j) (Ls[i := L] ! j)
      else Ls[i := L] ! j = [] \<and> C j (me_it (?es ! j)) []" if j: "j < length Ls" for j
  proof (cases "j = i")
    case True
    have "i \<notin> set h'" using facts(3) by simp
    then show ?thesis unfolding True mem using ent i by (simp split: if_splits)
  next
    case False
    then show ?thesis using minvD(9) [OF inv j] rd h unfolding mem ready_def by (simp split: if_splits)
  qed
  have fin: "\<not> me_finished (?es ! j)" if "j \<in> set h2" for j
  proof -
    have "j < length Ls" using that facts(4) i(2) unfolding mem by auto
    then show ?thesis using slots [of j] that by (auto simp: live_def)
  qed
  show rd2: "ready ?it" using fin by (simp add: ready_def)
  show "minv C ?it (Ls[i := L])"
  proof (rule minvI [OF _ _ _ _ _ _ rd2])
    fix j assume "j < length (Ls[i := L])"
    then show "if j \<in> set (mi_h ?it) \<and> \<not> me_finished (mi_entries ?it ! j)
        then live (C j) (mi_entries ?it ! j) (Ls[i := L] ! j)
        else Ls[i := L] ! j = [] \<and> C j (me_it (mi_entries ?it ! j)) []"
      using slots [of j] fin [of j] by (simp split: if_splits)
  qed (use facts ok dist h2(2) mem in auto)
qed

text \<open>Below an overwritten top the heap is still in order.\<close>

lemma heap_below_top:
  assumes inv: "minv C it Ls" and h: "mi_h it = i # h'"
  shows "heap_from (heap_cmp (mi_m it) ((mi_entries it)[i := ent])) (i # h') 1"
proof (rule heap_from_entries [of 1 _ "mi_entries it"])
  fix j assume "j \<in> set (drop 1 (i # h'))"
  then have "i \<noteq> j" using minvD(4) [OF inv] h by auto
  then show "mi_entries it ! j = (mi_entries it)[i := ent] ! j" by simp
qed (use minvD(6) [OF inv] h in simp)

lemma lists_ok_takes:
  assumes ok: "lists_ok opt Ls" and t: "takes le Ls g Ls'"
  shows "lists_ok opt Ls'"
proof -
  have "\<forall>x\<in>set (concat Ls'). fst x \<noteq> []"
    using ok takes_set [OF t] unfolding lists_ok_def by blast
  then show ?thesis using ok takes_all [OF t, of "mle opt"] by (simp add: lists_ok_def)
qed


subsection \<open>Taking the top entry\<close>

locale merger_kids =
  fixes C :: "nat \<Rightarrow> 's mtbl_iter option \<Rightarrow> entry list \<Rightarrow> bool"
  assumes kids: "cursor mtbl_iter_next (C i)"
begin

lemma entry_fill_ok:
  assumes "C i (me_it e) R"
  shows "\<exists>e'. entry_fill e = Some (R \<noteq> [], e') \<and>
    (if R = [] then me_finished e' \<and> C i (me_it e') [] else live (C i) e' R)"
proof (cases R)
  case Nil
  then obtain it where "mtbl_iter_next (me_it e) = Some (None, it)" "C i it []"
    using cursor.step_Nil [OF kids] assms by blast
  then show ?thesis using Nil by (simp add: entry_fill_def)
next
  case (Cons x R')
  then obtain it where "mtbl_iter_next (me_it e) = Some (Some x, it)" "C i it R'"
    using cursor.step_Cons [OF kids] assms by blast
  then show ?thesis using Cons by (cases x) (simp add: entry_fill_def live_def)
qed

lemma fill_top_ok:
  assumes inv: "minv C it Ls" and r: "ready it" and h: "mi_h it = i # h'"
    and R: "Ls ! i = e # R" "C i (me_it (mi_entries it ! i)) R"
    and ok: "lists_ok (mi_m it) (Ls[i := R])"
  shows "\<exists>it'. fill_top it i = Some it' \<and> minv C it' (Ls[i := R]) \<and> mi_m it' = mi_m it \<and>
    mi_cur_key it' = mi_cur_key it \<and> mi_cur_val it' = mi_cur_val it \<and> mi_pending it' = mi_pending it \<and>
    mi_finished it' = mi_finished it"
proof -
  let ?es = "mi_entries it" and ?cmp = "heap_cmp (mi_m it)"
  obtain ent where ent: "entry_fill (?es ! i) = Some (R \<noteq> [], ent)"
      "if R = [] then me_finished ent \<and> C i (me_it ent) [] else live (C i) ent R"
    using entry_fill_ok [OF R(2)] by blast
  let ?es' = "?es[i := ent]"
  note facts = minvD(1,3-5) [OF inv, unfolded h]
  have i: "i < length ?es" using facts(2,4) by simp
  have rest: "?es' ! j = ?es ! j" if "j \<in> set h'" for j
  proof -
    have "i \<noteq> j" using that facts(3) by auto
    then show ?thesis by simp
  qed
  have heap1: "heap_from (?cmp ?es') (i # h') 1"
    using heap_from_entries [of 1 "i # h'" ?es ?es'] rest inv h by (simp add: minv_def)
  have slots: "if j \<in> set (i # h') \<and> \<not> me_finished (?es' ! j) then live (C j) (?es' ! j) (Ls[i := R] ! j)
        else Ls[i := R] ! j = [] \<and> C j (me_it (?es' ! j)) []" if "j < length Ls" for j
  proof (cases "j = i")
    case True
    then show ?thesis using ent(2) i facts(2) by (auto simp: live_def split: if_splits)
  next
    case False
    then show ?thesis using minvD(9) [OF inv, of j] h that by simp
  qed
  have rest_ready: "\<forall>j\<in>set h'. \<not> me_finished (?es' ! j)" using r h rest by (simp add: ready_def)
  show ?thesis
  proof (cases "R = []")
    case True
    let ?it = "it\<lparr>mi_entries := ?es'\<rparr>"
    have "\<not> ready ?it" using True ent(2) h i by (simp add: ready_def)
    then have "minv C ?it (Ls[i := R])"
      using facts ok slots rest_ready heap1 h by (simp add: minv_def)
    then show ?thesis using ent(1) True by (simp add: fill_top_def)
  next
    case False
    obtain h2 where h2: "heap_replace (?cmp ?es') (i # h') i = Some (Some ((i # h') ! 0), h2)"
        "is_heap (?cmp ?es') h2" "mset h2 = mset ((i # h')[0 := i])"
      using heap_order.replace_heap [OF heap_cmp_order [OF facts(1)] heap1, of i] by auto
    have hs: "set h2 = set (i # h')" "distinct h2"
      using h2(3) facts(3) mset_eq_setD [OF h2(3)] mset_eq_imp_distinct_iff [OF h2(3)] by simp_all
    let ?it = "it\<lparr>mi_entries := ?es', mi_h := h2\<rparr>"
    have "\<forall>j\<in>set (i # h'). \<not> me_finished (?es' ! j)"
      using False ent(2) i rest_ready by (simp add: live_def)
    then have fin: "\<forall>j\<in>set h2. \<not> me_finished (?es' ! j)" using hs(1) by simp
    then have "\<forall>j\<in>set (tl h2). \<not> me_finished (?es' ! j)" by (auto dest: in_tl)
    moreover have "heap_from (?cmp ?es') h2 1" using h2(2) by (simp add: heap_from_def)
    moreover have "set h2 \<subseteq> {..<length Ls}" using hs(1) facts(4) by simp
    ultimately have "minv C ?it (Ls[i := R])"
      using facts(1,2) ok slots hs h2(2) unfolding minv_def by simp
    then show ?thesis using ent(1) False h h2(1) by (simp add: fill_top_def)
  qed
qed

lemma skip_finished_ok:
  assumes inv: "minv C it Ls"
  shows "\<exists>it'. skip_finished it = Some it' \<and> minv C it' Ls \<and> ready it' \<and> mi_m it' = mi_m it \<and>
    mi_cur_key it' = mi_cur_key it \<and> mi_cur_val it' = mi_cur_val it \<and> mi_pending it' = mi_pending it \<and>
    (if mi_h it' = [] then mi_finished it' else mi_finished it' = mi_finished it)"
proof -
  have base: ?thesis if "ready it"
  proof (cases "mi_h it")
    case Nil
    then show ?thesis using inv \<open>ready it\<close> by (subst skip_finished.simps) (simp add: heap_peek_def)
  next
    case (Cons i h')
    then have "\<not> me_finished (mi_entries it ! i)" using \<open>ready it\<close> by (simp add: ready_def)
    then show ?thesis using inv \<open>ready it\<close> Cons by (subst skip_finished.simps) (simp add: heap_peek_def)
  qed
  show ?thesis
  proof (cases "ready it")
    case True
    then show ?thesis by (rule base)
  next
    case False
    then obtain i h' where h: "mi_h it = i # h'" and fin: "me_finished (mi_entries it ! i)"
      using inv by (cases "mi_h it") (auto simp: ready_def minv_def)
    let ?es = "mi_entries it" and ?cmp = "heap_cmp (mi_m it) (mi_entries it)"
    note facts = minvD(4-6) [OF inv, unfolded h] and rest = minvD(7) [OF inv, unfolded h list.sel]
    obtain h2 where h2: "heap_pop ?cmp (i # h') = Some (Some ((i # h') ! 0), h2)" "is_heap ?cmp h2"
        "mset (i # h') = add_mset ((i # h') ! 0) (mset h2)"
      using heap_order.pop_heap [OF minv_order [OF inv] facts(3)] by blast
    have ms: "mset h2 = mset h'" using h2(3) by simp
    have hs: "set h2 = set h'" "distinct h2"
      using facts(1) mset_eq_setD [OF ms] mset_eq_imp_distinct_iff [OF ms] by simp_all
    let ?it = "it\<lparr>mi_h := h2\<rparr>"
    have rd: "ready ?it" using rest hs(1) by (simp add: ready_def)
    have "\<forall>j\<in>set (tl h2). \<not> me_finished (?es ! j)" using rest hs(1) by (auto dest: in_tl)
    moreover have "heap_from ?cmp h2 1" using h2(2) by (simp add: heap_from_def)
    moreover have "set h2 \<subseteq> {..<length Ls}" using hs(1) facts(2) by simp
    moreover have "(if j \<in> set h2 \<and> \<not> me_finished (?es ! j) then live (C j) (?es ! j) (Ls ! j)
        else Ls ! j = [] \<and> C j (me_it (?es ! j)) [])" if "j < length Ls" for j
      using minvD(9) [OF inv that] h hs(1) fin facts(1) by (cases "j = i") simp_all
    ultimately have inv2: "minv C ?it Ls" using minvD(1-3) [OF inv] hs(2) h2(2) by (simp add: minv_def)
    have step: "skip_finished it = skip_finished ?it"
      using h h2(1) fin by (subst skip_finished.simps) (simp add: heap_peek_def)
    show ?thesis
    proof (cases h2)
      case Nil
      then show ?thesis unfolding step using inv2 rd by (subst skip_finished.simps) (simp add: heap_peek_def)
    next
      case (Cons j h3)
      then have "\<not> me_finished (?es ! j)" using rd by (simp add: ready_def)
      then show ?thesis unfolding step using inv2 rd Cons by (subst skip_finished.simps) (simp add: heap_peek_def)
    qed
  qed
qed

text \<open>The top has the least key; taking its entry takes a least head.\<close>

lemma top_least:
  assumes inv: "minv C it Ls" and rd: "ready it" and h: "mi_h it = i # h'"
  shows "\<exists>k. me_key (mi_entries it ! i) = Some k \<and> k \<noteq> [] \<and> concat Ls \<noteq> [] \<and> (\<forall>x\<in>set (concat Ls). k \<le> fst x)"
proof -
  obtain k R where top: "me_key (mi_entries it ! i) = Some k" "Ls ! i = (k, me_val (mi_entries it ! i)) # R" "i < length Ls"
      "\<forall>x\<in>set (concat Ls). mle (mi_m it) (k, me_val (mi_entries it ! i)) x"
    using minv_top [OF inv rd h] by blast
  have "(k, me_val (mi_entries it ! i)) \<in> set (concat Ls)"
    using top(2,3) by (metis list.set_intros(1) nth_mem UN_I set_concat)
  then have "concat Ls \<noteq> []" "k \<noteq> []" using minvD(2) [OF inv] by (force simp: lists_ok_def)+
  moreover have "\<forall>x\<in>set (concat Ls). k \<le> fst x" using top(4) entry_le_key by fastforce
  ultimately show ?thesis using top(1) by blast
qed

lemma take_top_ok:
  assumes inv: "minv C it Ls" and rd: "ready it" and h: "mi_h it = i # h'" and k: "me_key (mi_entries it ! i) = Some k"
  shows "\<exists>Ls' it'. takes (mle (mi_m it)) Ls [(k, me_val (mi_entries it ! i))] Ls' \<and> fill_top it i = Some it' \<and>
    minv C it' Ls' \<and> mi_m it' = mi_m it \<and> mi_cur_key it' = mi_cur_key it \<and> mi_cur_val it' = mi_cur_val it \<and>
    mi_pending it' = mi_pending it \<and> mi_finished it' = mi_finished it"
proof -
  obtain R where top: "Ls ! i = (k, me_val (mi_entries it ! i)) # R" "C i (me_it (mi_entries it ! i)) R" "i < length Ls"
      "\<forall>x\<in>set (concat Ls). mle (mi_m it) (k, me_val (mi_entries it ! i)) x"
    using minv_top [OF inv rd h] k by auto
  have one: "takes (mle (mi_m it)) Ls [(k, me_val (mi_entries it ! i))] (Ls[i := R])"
    using top(4) by (intro takes_one [OF top(3,1)]) blast
  show ?thesis
    using one fill_top_ok [OF inv rd h top(1,2) lists_ok_takes [OF minvD(2) [OF inv] one]] by blast
qed

subsection \<open>One call of next\<close>

text \<open>The loop once the first entry of a group is taken, with \<open>k\<close> the key of the group.\<close>

lemma merger_loop_group:
  assumes "minv C it Ls" and "mi_cur_key it = k" and "k \<noteq> []" and "\<not> mi_finished it" and "mi_pending it"
    and "merge_ok (mi_m it)" and "\<forall>x\<in>set (concat Ls). k \<le> fst x"
  shows "\<exists>g Ls' it'. merger_loop it = Some (True, it') \<and> takes (mle (mi_m it)) Ls g Ls' \<and> minv C it' Ls' \<and>
    ready it' \<and> mi_m it' = mi_m it \<and> mi_cur_key it' = k \<and> mi_pending it' \<and>
    (mi_finished it' \<longrightarrow> concat Ls' = []) \<and> (\<forall>x\<in>set g. fst x = k) \<and>
    (case mo_merge (mi_m it) of
       None \<Rightarrow> g = [] \<and> mi_cur_val it' = mi_cur_val it
     | Some f \<Rightarrow> mi_cur_val it' = fold_vals f k (mi_cur_val it) g \<and> (\<forall>x\<in>set (concat Ls'). fst x \<noteq> k))"
  using assms
proof (induction "length (concat Ls)" arbitrary: it Ls rule: less_induct)
  case less
  obtain it1 where it1: "skip_finished it = Some it1" "minv C it1 Ls" "ready it1" "mi_m it1 = mi_m it"
      "mi_cur_key it1 = k" "mi_cur_val it1 = mi_cur_val it" "mi_pending it1"
      "if mi_h it1 = [] then mi_finished it1 else \<not> mi_finished it1"
    using skip_finished_ok [OF less.prems(1)] less.prems(2,4,5) by (auto split: if_splits)
  show ?case
  proof (cases "mi_h it1")
    case Nil
    then have "concat Ls = []" using minv_empty it1(2) by blast
    moreover have "merger_loop it = Some (True, it1)"
      using it1(1,8) Nil by (subst merger_loop.simps) simp
    ultimately show ?thesis
      using it1 by - (rule exI [of _ "[]"], rule exI [of _ Ls], rule exI [of _ it1], simp add: takes_Nil split: option.split del: concat_eq_Nil_conv set_concat)
  next
    case (Cons i h')
    obtain ki where top: "me_key (mi_entries it1 ! i) = Some ki" "concat Ls \<noteq> []" "\<forall>x\<in>set (concat Ls). ki \<le> fst x"
      using top_least [OF it1(2,3) Cons] by blast
    let ?v = "me_val (mi_entries it1 ! i)"
    show ?thesis
    proof (cases "mo_merge (mi_m it)")
      case None
      then have "merger_loop it = Some (True, it1)"
        using it1 Cons top(1) less.prems(3) by (subst merger_loop.simps) (simp add: heap_peek_def)
      then show ?thesis
        using it1 Cons None by - (rule exI [of _ "[]"], rule exI [of _ Ls], rule exI [of _ it1], simp add: takes_Nil)
    next
      case (Some f)
      show ?thesis
      proof (cases "k = ki")
        case False
        then have "merger_loop it = Some (True, it1)"
          using it1 Cons top(1) less.prems(3) Some by (subst merger_loop.simps) (simp add: heap_peek_def)
        moreover have "k \<le> ki"
        proof -
          obtain x where "x \<in> set (concat Ls)" "fst x = ki"
            using takes_set take_top_ok [OF it1(2,3) Cons top(1)] by fastforce
          then show ?thesis using less.prems(7) by blast
        qed
        then have "\<forall>x\<in>set (concat Ls). fst x \<noteq> k" using top(3) False by (metis order_antisym_conv)
        ultimately show ?thesis
          using it1 Cons Some by - (rule exI [of _ "[]"], rule exI [of _ Ls], rule exI [of _ it1], simp add: takes_Nil)
      next
        case True
        obtain mv where mv: "f k (mi_cur_val it) ?v = Some mv" using less.prems(6) Some unfolding merge_ok_def by blast
        let ?it = "it1\<lparr>mi_cur_val := mv\<rparr>"
        have at: "minv C ?it Ls" "ready ?it" "mi_h ?it = i # h'" "me_key (mi_entries ?it ! i) = Some ki"
          using it1(2,3) Cons top(1) by simp_all
        obtain Ls2 it2 where it2: "takes (mle (mi_m it)) Ls [(ki, ?v)] Ls2" "fill_top ?it i = Some it2" "minv C it2 Ls2"
            "mi_m it2 = mi_m it" "mi_cur_key it2 = k" "mi_cur_val it2 = mv" "mi_pending it2" "\<not> mi_finished it2"
          using take_top_ok [OF at] it1(4-8) Cons by auto
        have "length (concat Ls2) < length (concat Ls)"
          using arg_cong [OF takes_mset [OF it2(1)], of size] by simp
        moreover have "\<forall>x\<in>set (concat Ls2). k \<le> fst x"
          using takes_set [OF it2(1)] less.prems(7) by (simp del: set_concat)
        ultimately obtain g Ls' it' where g: "merger_loop it2 = Some (True, it')"
            "takes (mle (mi_m it)) Ls2 g Ls'" "minv C it' Ls'" "ready it'" "mi_m it' = mi_m it" "mi_cur_key it' = k"
            "mi_pending it'" "mi_finished it' \<longrightarrow> concat Ls' = []" "\<forall>x\<in>set g. fst x = k"
            "mi_cur_val it' = fold_vals f k mv g" "\<forall>x\<in>set (concat Ls'). fst x \<noteq> k"
          using less.hyps [of Ls2 it2] less.prems(3,6) it2 Some by auto
        have "merger_loop it = merger_loop it2"
          using it1 Cons top(1) less.prems(3) Some True mv it2(2)
          by (subst merger_loop.simps) (simp add: heap_peek_def)
        moreover have "takes (mle (mi_m it)) Ls ((ki, ?v) # g) Ls'" using takes_append [OF it2(1) g(2)] by simp
        ultimately show ?thesis
          using g mv True Some
          by - (rule exI [of _ "(ki, ?v) # g"], rule exI [of _ Ls'], rule exI [of _ it'], simp)
      qed
    qed
  qed
qed

end

text \<open>Between two calls.\<close>

definition idle ::
  "(nat \<Rightarrow> 's mtbl_iter option \<Rightarrow> entry list \<Rightarrow> bool) \<Rightarrow> 's merger_iter_state \<Rightarrow> entry list list \<Rightarrow> bool" where
  "idle C it Ls \<longleftrightarrow> minv C it Ls \<and> ready it \<and> merge_ok (mi_m it) \<and> \<not> mi_pending it \<and>
     (mi_finished it \<longrightarrow> concat Ls = [])"

context merger_kids begin

lemma merger_next_ok:
  assumes idle: "idle C it Ls"
  shows "if concat Ls = [] then \<exists>it'. merger_iter_next it = Some (None, it') \<and> idle C it' Ls \<and> mi_m it' = mi_m it \<and>
      (mi_cur_key it' = [] \<or> it' = it)
    else \<exists>k v g Ls' it' v'. merger_iter_next it = Some (Some (k, v'), it') \<and>
      takes (mle (mi_m it)) Ls ((k, v) # g) Ls' \<and> idle C it' Ls' \<and> mi_m it' = mi_m it \<and>
      mi_cur_key it' = k \<and> (\<forall>x\<in>set g. fst x = k) \<and>
      (case mo_merge (mi_m it) of
         None \<Rightarrow> g = [] \<and> v' = v
       | Some f \<Rightarrow> v' = fold_vals f k v g \<and> (\<forall>x\<in>set (concat Ls'). fst x \<noteq> k))"
proof (cases "mi_finished it")
  case True
  then show ?thesis using idle by (simp add: merger_iter_next_def idle_def del: concat_eq_Nil_conv)
next
  case False
  have inv: "minv C it Ls" and mok: "merge_ok (mi_m it)" and np: "\<not> mi_pending it" using idle by (auto simp: idle_def)
  let ?start = "it\<lparr>mi_cur_key := [], mi_cur_val := []\<rparr>"
  have inv0: "minv C ?start Ls" using inv by simp
  obtain it1 where it1: "skip_finished ?start = Some it1" "minv C it1 Ls" "ready it1" "mi_m it1 = mi_m it"
      "mi_cur_key it1 = []" "\<not> mi_pending it1"
      "if mi_h it1 = [] then mi_finished it1 else \<not> mi_finished it1"
    using skip_finished_ok [OF inv0] np False by (auto split: if_splits)
  show ?thesis
  proof (cases "mi_h it1")
    case Nil
    then have empty: "concat Ls = []" using minv_empty it1(2) by blast
    have "merger_loop ?start = Some (True, it1)" using it1(1,7) Nil by (subst merger_loop.simps) simp
    then have "merger_iter_next it = Some (None, it1)" using False it1(6) by (simp add: merger_iter_next_def)
    moreover have "idle C it1 Ls" using it1 mok empty by (simp add: idle_def)
    ultimately show ?thesis using empty it1(4,5) by simp
  next
    case (Cons i h')
    obtain k where top: "me_key (mi_entries it1 ! i) = Some k" "k \<noteq> []" "concat Ls \<noteq> []"
        "\<forall>x\<in>set (concat Ls). k \<le> fst x"
      using top_least [OF it1(2,3) Cons] by blast
    let ?v = "me_val (mi_entries it1 ! i)"
    let ?it = "it1\<lparr>mi_cur_key := k, mi_cur_val := ?v, mi_pending := True\<rparr>"
    have fin: "\<not> mi_finished it1" using it1(7) Cons by simp
    have at: "minv C ?it Ls" "ready ?it" "mi_h ?it = i # h'" "me_key (mi_entries ?it ! i) = Some k"
      using it1(2,3) Cons top(1) by simp_all
    obtain Ls2 it2 where one: "takes (mle (mi_m it)) Ls [(k, ?v)] Ls2"
      and it2: "fill_top ?it i = Some it2" "minv C it2 Ls2" "mi_m it2 = mi_m it"
        "mi_cur_key it2 = k" "mi_cur_val it2 = ?v" "mi_pending it2" "\<not> mi_finished it2"
      using take_top_ok [OF at] it1(4) fin by auto
    have ge: "\<forall>x\<in>set (concat Ls2). k \<le> fst x" using takes_set [OF one] top(4) by (simp del: set_concat)
    have "merge_ok (mi_m it2)" using mok it2(3) by simp
    note loop = merger_loop_group [OF it2(2,4) top(2) it2(7,6) this ge, unfolded it2(3,5)]
    obtain g Ls' it' where g: "merger_loop it2 = Some (True, it')"
        "takes (mle (mi_m it)) Ls2 g Ls'" "minv C it' Ls'" "ready it'" "mi_m it' = mi_m it" "mi_cur_key it' = k"
        "mi_pending it'" "mi_finished it' \<longrightarrow> concat Ls' = []" "\<forall>x\<in>set g. fst x = k"
        "case mo_merge (mi_m it) of
           None \<Rightarrow> g = [] \<and> mi_cur_val it' = ?v
         | Some f \<Rightarrow> mi_cur_val it' = fold_vals f k ?v g \<and> (\<forall>x\<in>set (concat Ls'). fst x \<noteq> k)"
      using loop by blast
    have "merger_loop ?start = merger_loop it2"
      using it1 fin Cons top(1) it2(1) by (subst merger_loop.simps) (simp add: heap_peek_def)
    then have nxt: "merger_iter_next it = Some (Some (k, mi_cur_val it'), it'\<lparr>mi_pending := False\<rparr>)"
      using False g(1,6,7) by (simp add: merger_iter_next_def)
    have "idle C (it'\<lparr>mi_pending := False\<rparr>) Ls'" using g mok by (simp add: idle_def)
    moreover have "takes (mle (mi_m it)) Ls ((k, ?v) # g) Ls'" using takes_append [OF one g(2)] by simp
    ultimately have "\<exists>k v g Ls' it' v'. merger_iter_next it = Some (Some (k, v'), it') \<and>
      takes (mle (mi_m it)) Ls ((k, v) # g) Ls' \<and> idle C it' Ls' \<and> mi_m it' = mi_m it \<and>
      mi_cur_key it' = k \<and> (\<forall>x\<in>set g. fst x = k) \<and>
      (case mo_merge (mi_m it) of
         None \<Rightarrow> g = [] \<and> v' = v
       | Some f \<Rightarrow> v' = fold_vals f k v g \<and> (\<forall>x\<in>set (concat Ls'). fst x \<noteq> k))"
      using nxt g by - (rule exI [of _ k], rule exI [of _ ?v], rule exI [of _ g], rule exI [of _ Ls'], rule exI [of _ "it'\<lparr>mi_pending := False\<rparr>"], rule exI [of _ "mi_cur_val it'"], simp)
    then show ?thesis unfolding if_not_P [OF top(3)] .
  qed
qed

end

subsection \<open>The whole iteration\<close>

definition merger_remaining ::
  "(nat \<Rightarrow> 's mtbl_iter option \<Rightarrow> entry list \<Rightarrow> bool) \<Rightarrow> 's merger_iter_state \<Rightarrow> entry list \<Rightarrow> bool" where
  "merger_remaining C it es \<longleftrightarrow> (\<exists>Ls. idle C it Ls) \<and>
     (\<exists>it'. drain merger_iter_next (Suc (length es)) it = Some (es, it'))"

text \<open>A source opens to an iterator over the list.\<close>

definition opens_to ::
  "('s mtbl_iter option \<Rightarrow> entry list \<Rightarrow> bool) \<Rightarrow> mtbl_merger_options \<Rightarrow> ('x \<Rightarrow> 's mtbl_iter option option) \<Rightarrow>
   'x \<Rightarrow> entry list \<Rightarrow> bool" where
  "opens_to C opt open_source s L \<longleftrightarrow> (\<exists>it. open_source s = Some it \<and> C it L) \<and>
     sorted_wrt (mle opt) L \<and> (\<forall>x\<in>set L. fst x \<noteq> [])"

lemma drain_Suc:
  "step s = Some (Some e, s') \<Longrightarrow> drain step f s' = Some (es, t) \<Longrightarrow> drain step (Suc f) s = Some (e # es, t)"
  by simp

context merger_kids begin

lemma merger_step_Cons:
  assumes "merger_remaining C it (e # es)"
  shows "\<exists>it'. merger_iter_next it = Some (Some e, it') \<and> merger_remaining C it' es"
proof -
  obtain Ls it' where idle: "idle C it Ls" and d: "drain merger_iter_next (Suc (Suc (length es))) it = Some (e # es, it')"
    using assms by (auto simp: merger_remaining_def)
  obtain it1 where n: "merger_iter_next it = Some (Some e, it1)" "drain merger_iter_next (Suc (length es)) it1 = Some (es, it')"
    using d by (subst (asm) drain.simps) (auto split: option.splits Option.bind_splits simp del: drain.simps)
  have "\<exists>Ls'. idle C it1 Ls'"
    using merger_next_ok [OF idle] n(1) by (auto split: if_splits simp del: set_concat concat_eq_Nil_conv)
  then show ?thesis using n by (auto simp: merger_remaining_def simp del: drain.simps)
qed

lemma merger_at_end:
  assumes "idle C it Ls" and "concat Ls = []"
  shows "merger_remaining C it []"
  using merger_next_ok [OF assms(1)] assms by (auto simp: merger_remaining_def simp del: concat_eq_Nil_conv)

lemma merger_step_Nil:
  assumes "merger_remaining C it []"
  shows "\<exists>it'. merger_iter_next it = Some (None, it') \<and> merger_remaining C it' []"
proof -
  obtain Ls it' where idle: "idle C it Ls" and d: "drain merger_iter_next (Suc 0) it = Some ([], it')"
    using assms by (auto simp: merger_remaining_def simp del: drain.simps)
  have n: "merger_iter_next it = Some (None, it')"
    using d by (auto split: option.splits Option.bind_splits)
  have "concat Ls = [] \<and> idle C it' Ls"
    using merger_next_ok [OF idle] n by (auto split: if_splits simp del: set_concat concat_eq_Nil_conv)
  then show ?thesis using n merger_at_end by blast
qed

lemma merger_cursor: "cursor merger_iter_next (merger_remaining C)"
  using merger_step_Cons merger_step_Nil by (rule cursor.intro)

lemma merger_yields:
  "idle C it Ls \<Longrightarrow> \<exists>all. merges (mle (mi_m it)) Ls all \<and> merger_remaining C it (combined (mo_merge (mi_m it)) all)"
proof (induction "length (concat Ls)" arbitrary: it Ls rule: less_induct)
  case less
  show ?case
  proof (cases "concat Ls = []")
    case True
    then have "merger_remaining C it (combined (mo_merge (mi_m it)) [])"
      using merger_at_end [OF less.prems] by simp
    then show ?thesis using merges_Nil [OF True] by blast
  next
    case False
    obtain k v g Ls' it' v' where n: "merger_iter_next it = Some (Some (k, v'), it')"
        "takes (mle (mi_m it)) Ls ((k, v) # g) Ls'" "idle C it' Ls'" "mi_m it' = mi_m it" "\<forall>x\<in>set g. fst x = k"
        "case mo_merge (mi_m it) of
           None \<Rightarrow> g = [] \<and> v' = v
         | Some f \<Rightarrow> v' = fold_vals f k v g \<and> (\<forall>x\<in>set (concat Ls'). fst x \<noteq> k)"
      using merger_next_ok [OF less.prems] unfolding if_not_P [OF False] by blast
    have "length (concat Ls') < length (concat Ls)"
      using arg_cong [OF takes_mset [OF n(2)], of size] by simp
    then obtain all where all: "merges (mle (mi_m it)) Ls' all"
        "merger_remaining C it' (combined (mo_merge (mi_m it)) all)"
      using less.hyps [OF _ n(3)] n(4) by auto
    let ?es = "combined (mo_merge (mi_m it)) all"
    have out: "combined (mo_merge (mi_m it)) ((k, v) # g @ all) = (k, v') # ?es"
      using n(5,6) merges_set [OF all(1)] by (subst combined_group) (auto split: option.splits)
    obtain it2 where "drain merger_iter_next (Suc (length ?es)) it' = Some (?es, it2)"
      using all(2) unfolding merger_remaining_def by blast
    then have "drain merger_iter_next (Suc (Suc (length ?es))) it = Some ((k, v') # ?es, it2)"
      by (rule drain_Suc [where step = merger_iter_next, OF n(1)])
    then have "merger_remaining C it ((k, v') # ?es)"
      using less.prems unfolding merger_remaining_def length_Cons by blast
    then have "merger_remaining C it (combined (mo_merge (mi_m it)) (((k, v) # g) @ all))" using out by simp
    then show ?thesis using merges_takes [OF n(2) all(1)] by blast
  qed
qed

text \<open>One more child.\<close>

lemma add_entry_ok:
  assumes inv: "minv C it Ls" and r: "ready it" and L: "C (length Ls) ent_it L"
    and ok: "sorted_wrt (mle (mi_m it)) L" "\<forall>x\<in>set L. fst x \<noteq> []"
  shows "\<exists>it'. merger_iter_add_entry it ent_it = Some it' \<and>
    minv C it' (if L = [] then Ls else Ls @ [L]) \<and> ready it' \<and> mi_m it' = mi_m it \<and>
    mi_pending it' = mi_pending it \<and> mi_finished it' = mi_finished it \<and>
    (if L = [] then mi_entries it' = mi_entries it
     else \<exists>ent. entry_fill \<lparr>me_finished = False, me_it = ent_it, me_key = None, me_val = []\<rparr> = Some (True, ent) \<and>
       mi_entries it' = mi_entries it @ [ent])"
proof -
  let ?blank = "\<lparr>me_finished = False, me_it = ent_it, me_key = None, me_val = []\<rparr> :: 's merger_entry" and ?N = "length Ls"
  have "C ?N (me_it ?blank) L" using L by simp
  then obtain ent where ent: "entry_fill ?blank = Some (L \<noteq> [], ent)"
      "if L = [] then me_finished ent \<and> C ?N (me_it ent) [] else live (C ?N) ent L"
    using entry_fill_ok by blast
  show ?thesis
  proof (cases "L = []")
    case True
    then show ?thesis using inv r ent by (simp add: merger_iter_add_entry_def)
  next
    case False
    let ?es = "mi_entries it @ [ent]" and ?n = "length (mi_entries it)" and ?h = "mi_h it"
    have same: "?es ! i = mi_entries it ! i" if "i \<in> set ?h" for i
      using minvD(3,5) [OF inv] that by (auto simp: nth_append)
    have "is_heap (heap_cmp (mi_m it) ?es) ?h"
      using heap_from_entries [of 0 ?h "mi_entries it" ?es] same minvD(8) [OF inv r] by simp
    then obtain h where h: "heap_push (heap_cmp (mi_m it) ?es) ?h ?n = Some h"
        "is_heap (heap_cmp (mi_m it) ?es) h" "mset h = add_mset ?n (mset ?h)"
      using heap_order.push_heap [OF minv_order [OF inv]] by blast
    have ms: "mset h = mset (?n # ?h)" using h(3) by simp
    have "distinct (?n # ?h)" using minvD(3-5) [OF inv] by auto
    then have hs: "set h = insert ?n (set ?h)" "distinct h"
      using mset_eq_setD [OF ms] mset_eq_imp_distinct_iff [OF ms] by simp_all
    let ?it = "it\<lparr>mi_entries := ?es, mi_h := h\<rparr>"
    have lv: "live (C ?N) ent L" using ent(2) False by simp
    have fin: "\<not> me_finished (?es ! i)" if "i \<in> set h" for i
      using that hs(1) same r lv by (auto simp: ready_def live_def)
    have slots: "if i \<in> set h \<and> \<not> me_finished (?es ! i) then live (C i) (?es ! i) ((Ls @ [L]) ! i)
        else (Ls @ [L]) ! i = [] \<and> C i (me_it (?es ! i)) []" if i: "i < Suc (length Ls)" for i
    proof (cases "i = length Ls")
      case True
      then show ?thesis using minvD(3) [OF inv] hs(1) lv by (auto simp: nth_append live_def)
    next
      case False
      then have "i < length Ls" using i by simp
      then show ?thesis using minvD(9) [OF inv, of i] minvD(3) [OF inv] hs(1) by (auto simp: nth_append)
    qed
    have "lists_ok (mi_m it) (Ls @ [L])" using minvD(2) [OF inv] ok by (auto simp: lists_ok_def)
    moreover have "set h \<subseteq> {..<length (Ls @ [L])}" using hs(1) minvD(3,5) [OF inv] by auto
    moreover have "heap_from (heap_cmp (mi_m it) ?es) h 1" using h(2) by (simp add: heap_from_def)
    moreover have "\<forall>i\<in>set (tl h). \<not> me_finished (?es ! i)" using fin in_tl by metis
    ultimately have "minv C ?it (Ls @ [L])"
      using minvD(1,3) [OF inv] hs(2) h(2) slots by (simp add: minv_def)
    moreover have "ready ?it" using fin by (simp add: ready_def)
    ultimately show ?thesis using ent(1) h(1) False by (simp add: merger_iter_add_entry_def)
  qed
qed

end

subsection \<open>Opening\<close>

text \<open>The children are opened under one contract.\<close>

locale merger_same = merger_kids "\<lambda>_. C"
  for C :: "'s mtbl_iter option \<Rightarrow> entry list \<Rightarrow> bool"
begin

lemma null_empty: "C None L \<Longrightarrow> L = []"
  using cursor.step_Cons [OF kids, of None] by (cases L) auto

lemma add_sources_ok:
  "minv (\<lambda>_. C) it Ls \<Longrightarrow> ready it \<Longrightarrow> list_all2 (opens_to C (mi_m it) open_source) ss Ks \<Longrightarrow>
   \<exists>it'. add_sources open_source it ss = Some it' \<and> add_found open_source it ss = Some it' \<and>
    minv (\<lambda>_. C) it' (Ls @ filter (\<lambda>L. L \<noteq> []) Ks) \<and> ready it' \<and> mi_m it' = mi_m it \<and>
    mi_pending it' = mi_pending it \<and> mi_finished it' = mi_finished it \<and>
    (mi_entries it' = [] \<longleftrightarrow> mi_entries it = [] \<and> concat Ks = [])"
proof (induction ss arbitrary: it Ls Ks)
  case (Cons s ss)
  obtain L Ks' where Ks: "Ks = L # Ks'" "opens_to C (mi_m it) open_source s L"
      "list_all2 (opens_to C (mi_m it) open_source) ss Ks'"
    using Cons.prems(3) by (cases Ks) auto
  obtain s_it where s_it: "open_source s = Some s_it" "C s_it L" "sorted_wrt (mle (mi_m it)) L" "\<forall>x\<in>set L. fst x \<noteq> []"
    using Ks(2) unfolding opens_to_def by blast
  obtain it1 where it1: "merger_iter_add_entry it s_it = Some it1"
      "minv (\<lambda>_. C) it1 (if L = [] then Ls else Ls @ [L])" "ready it1" "mi_m it1 = mi_m it"
      "mi_pending it1 = mi_pending it" "mi_finished it1 = mi_finished it"
      "mi_entries it1 = [] \<longleftrightarrow> mi_entries it = [] \<and> L = []"
    using add_entry_ok [OF Cons.prems(1,2) s_it(2-4)] by (cases "L = []") auto
  have found: "(case s_it of None \<Rightarrow> Some it | Some _ \<Rightarrow> merger_iter_add_entry it s_it) = Some it1"
    using it1(1) by (cases s_it) (simp_all add: merger_iter_add_entry_def entry_fill_def)
  obtain it' where "add_sources open_source it1 ss = Some it'" "add_found open_source it1 ss = Some it'"
    "minv (\<lambda>_. C) it' ((if L = [] then Ls else Ls @ [L]) @ filter (\<lambda>L. L \<noteq> []) Ks')" "ready it'" "mi_m it' = mi_m it1"
    "mi_pending it' = mi_pending it1" "mi_finished it' = mi_finished it1"
    "mi_entries it' = [] \<longleftrightarrow> mi_entries it1 = [] \<and> concat Ks' = []"
    using Cons.IH [OF it1(2,3)] Ks(3) it1(4) by auto
  then show ?case using it1 found s_it(1) Ks(1) by (cases "L = []") simp_all
qed simp

lemma concat_nonempty: "concat (filter (\<lambda>L. L \<noteq> []) Ks) = concat Ks"
  by (induction Ks) auto

lemma merger_init_ok:
  assumes "dupsort_ok opt"
  shows "minv (\<lambda>_. C) (merger_iter_init opt) [] \<and> ready (merger_iter_init opt)"
  using assms by (simp add: minv_def ready_def merger_iter_init_def heap_init_def lists_ok_def heap_from_def)

text \<open>
  A merger over sources that open to the lists: the iterator it makes (NULL only for a lookup
  that finds nothing) has a sorted merge of the lists with the equal keys combined.
\<close>

lemma merger_open_ok:
  assumes opt: "dupsort_ok opt" "merge_ok opt" and ss: "list_all2 (opens_to C opt open_source) ss Ks"
  shows "\<exists>it all. add_sources open_source (merger_iter_init opt) ss = Some it \<and>
    add_found open_source (merger_iter_init opt) ss = Some it \<and>
    (mi_entries it = [] \<longleftrightarrow> concat Ks = []) \<and> mi_m it = opt \<and>
    idle (\<lambda>_. C) it (filter (\<lambda>L. L \<noteq> []) Ks) \<and>
    mset all = mset (concat Ks) \<and> sorted_wrt (mle opt) all \<and>
    merger_remaining (\<lambda>_. C) it (combined (mo_merge opt) all)"
proof -
  let ?init = "merger_iter_init opt :: 's merger_iter_state"
  have init: "minv (\<lambda>_. C) ?init []" "ready ?init" using merger_init_ok [OF opt(1)] by blast+
  have m: "mi_m ?init = opt" "\<not> mi_pending ?init" "\<not> mi_finished ?init" "mi_entries ?init = []"
    by (simp_all add: merger_iter_init_def)
  obtain it where it: "add_sources open_source ?init ss = Some it" "add_found open_source ?init ss = Some it"
      "minv (\<lambda>_. C) it (filter (\<lambda>L. L \<noteq> []) Ks)" "ready it" "mi_m it = opt" "\<not> mi_pending it" "\<not> mi_finished it"
      "mi_entries it = [] \<longleftrightarrow> concat Ks = []"
    using add_sources_ok [OF init, of open_source ss Ks] ss m by auto
  have idle: "idle (\<lambda>_. C) it (filter (\<lambda>L. L \<noteq> []) Ks)" using it(3-7) opt(2) by (simp add: idle_def)
  obtain all where "merges (mle opt) (filter (\<lambda>L. L \<noteq> []) Ks) all" "merger_remaining (\<lambda>_. C) it (combined (mo_merge opt) all)"
    using merger_yields [OF idle] it(5) by blast
  then show ?thesis
    using it idle merges_mset [of "mle opt" "filter (\<lambda>L. L \<noteq> []) Ks" all] merges_sorted
    unfolding concat_nonempty by blast
qed

end

end
