(* ===== verification/Reader_Source.thy ===== *)
theory Reader_Source
  imports Writer_Reader Merger_Facts
begin

text \<open>
  The reader as a source (\<open>mtbl_reader_source\<close>): the closure of the source is the reader, that of
  an iterator the \<open>struct reader_iter\<close> with its pointer to the reader. The iterators are cursors,
  so the merger's locale \<open>merger_kids\<close> is interpreted on them, and, since the merger's own
  iterators are cursors too, on the iterators of mergers of readers.
\<close>

subsection \<open>The source\<close>

type_synonym reader_clos = "mtbl_reader \<times> reader_iter_state"

definition reader_clos_next ::
  "(bytes \<Rightarrow> u32) \<Rightarrow> 'z complib \<Rightarrow> reader_clos \<Rightarrow> (entry option \<times> reader_clos) option" where
  "reader_clos_next crc L v = do {
     (e, it) \<leftarrow> reader_iter_next crc L (fst v) (snd v);
     Some (e, (fst v, it))
   }"

definition reader_clos_seek ::
  "(bytes \<Rightarrow> u32) \<Rightarrow> 'z complib \<Rightarrow> reader_clos \<Rightarrow> bytes \<Rightarrow> (bool \<times> reader_clos) option" where
  "reader_clos_seek crc L v key = do {
     it \<leftarrow> reader_iter_seek crc L (fst v) (snd v) key;
     Some (True, (fst v, it))
   }"

definition reader_mtbl_iter ::
  "(bytes \<Rightarrow> u32) \<Rightarrow> 'z complib \<Rightarrow> mtbl_reader \<Rightarrow> reader_iter_state option option \<Rightarrow> reader_clos mtbl_iter option option" where
  "reader_mtbl_iter crc L r =
     map_option (map_option (\<lambda>it. mtbl_iter_init (reader_clos_seek crc L) (reader_clos_next crc L) (r, it)))"

definition mtbl_reader_source ::
  "(bytes \<Rightarrow> u32) \<Rightarrow> 'z complib \<Rightarrow> mtbl_reader \<Rightarrow> (mtbl_reader, reader_clos) mtbl_source" where
  "mtbl_reader_source crc L r =
     \<lparr>source_iter = (\<lambda>r. reader_mtbl_iter crc L r (reader_iter crc L r)),
      source_get = (\<lambda>r key. reader_mtbl_iter crc L r (reader_get crc L r key)),
      source_get_prefix = (\<lambda>r key. reader_mtbl_iter crc L r (reader_get_prefix crc L r key)),
      source_get_range = (\<lambda>r key0 key1. reader_mtbl_iter crc L r (reader_get_range crc L r key0 key1)),
      source_clos = r\<rparr>"

text \<open>The four ways to open a source.\<close>

fun source_open ::
  "('c, 's) mtbl_source \<Rightarrow> reader_iter_type \<Rightarrow> bytes \<Rightarrow> bytes \<Rightarrow> 's mtbl_iter option option" where
  "source_open s READER_ITER_TYPE_ITER key0 key1 = mtbl_source_iter s"
| "source_open s READER_ITER_TYPE_GET key0 key1 = mtbl_source_get s key0"
| "source_open s READER_ITER_TYPE_GET_PREFIX key0 key1 = mtbl_source_get_prefix s key0"
| "source_open s READER_ITER_TYPE_GET_RANGE key0 key1 = mtbl_source_get_range s key0 key1"

subsection \<open>Its iterators are cursors\<close>

definition reader_clos_remaining ::
  "(bytes \<Rightarrow> u32) \<Rightarrow> 'z complib \<Rightarrow> reader_clos \<Rightarrow> entry list \<Rightarrow> bool" where
  "reader_clos_remaining crc L v es \<longleftrightarrow> reader_remaining crc L (fst v) (snd v) es"

interpretation reader_clos: cursor "reader_clos_next crc L" "reader_clos_remaining crc L" for crc L
proof unfold_locales
  fix v :: reader_clos and e es
  assume "reader_clos_remaining crc L v (e # es)"
  then show "\<exists>v'. reader_clos_next crc L v = Some (Some e, v') \<and> reader_clos_remaining crc L v' es"
    using reader.step_Cons by (fastforce simp: reader_clos_remaining_def reader_clos_next_def)
next
  fix v :: reader_clos
  assume "reader_clos_remaining crc L v []"
  then show "\<exists>v'. reader_clos_next crc L v = Some (None, v') \<and> reader_clos_remaining crc L v' []"
    using reader.step_Nil by (fastforce simp: reader_clos_remaining_def reader_clos_next_def)
qed

abbreviation reader_kid ::
  "(bytes \<Rightarrow> u32) \<Rightarrow> 'z complib \<Rightarrow> reader_clos mtbl_iter option \<Rightarrow> entry list \<Rightarrow> bool" where
  "reader_kid crc L \<equiv> iter_remaining (reader_clos_next crc L) (reader_clos_remaining crc L)"

interpretation reader_iters: cursor mtbl_iter_next "reader_kid crc L" for crc L
  by (rule reader_clos.iter_cursor)

interpretation readers: merger_same "reader_kid crc L" for crc L
  by (intro merger_same.intro merger_kids.intro reader_clos.iter_cursor)

abbreviation merger_kid ::
  "(bytes \<Rightarrow> u32) \<Rightarrow> 'z complib \<Rightarrow> reader_clos merger_iter_state mtbl_iter option \<Rightarrow> entry list \<Rightarrow> bool" where
  "merger_kid crc L \<equiv> iter_remaining merger_iter_next (merger_remaining (\<lambda>_. reader_kid crc L))"

interpretation merger_clos: cursor merger_iter_next "merger_remaining (\<lambda>_. reader_kid crc L)" for crc L
  by (rule readers.merger_cursor)

interpretation merged: cursor mtbl_iter_next "merger_kid crc L" for crc L
  by (rule merger_clos.iter_cursor)

interpretation mergers: merger_same "merger_kid crc L" for crc L
  by (intro merger_same.intro merger_kids.intro merger_clos.iter_cursor)

lemma reader_source_opens:
  assumes op: "opens crc L r n bs offs ix"
  shows "\<exists>it. source_open (mtbl_reader_source crc L r) ty key0 key1 = Some it \<and>
    reader_kid crc L it (filter (\<lambda>e. wanted ty key0 key1 (fst e)) (concat (map fst bs)))"
proof -
  obtain opened where o: "reader_open crc L r ty key0 key1 = Some opened"
      "case opened of
         None \<Rightarrow> filter (\<lambda>e. wanted ty key0 key1 (fst e)) (concat (map fst bs)) = []
       | Some it \<Rightarrow> reader_remaining crc L r it (filter (\<lambda>e. wanted ty key0 key1 (fst e)) (concat (map fst bs)))"
    using reader_open_ok [OF op] by blast
  have "source_open (mtbl_reader_source crc L r) ty key0 key1 = reader_mtbl_iter crc L r (Some opened)"
    unfolding o(1) [symmetric]
    by (cases ty) (simp_all add: mtbl_reader_source_def mtbl_source_iter_def mtbl_source_get_def
        mtbl_source_get_prefix_def mtbl_source_get_range_def)
  then show ?thesis
    using o(2) by (cases opened) (auto simp: reader_mtbl_iter_def reader_clos_remaining_def)
qed

subsection \<open>A merger of readers\<close>

text \<open>An exact lookup of the merger asks its sources for the range from the key to the key.\<close>

definition merged_type :: "reader_iter_type \<Rightarrow> reader_iter_type" where
  "merged_type ty = (if ty = READER_ITER_TYPE_GET then READER_ITER_TYPE_GET_RANGE else ty)"

definition merged_key :: "reader_iter_type \<Rightarrow> bytes \<Rightarrow> bytes \<Rightarrow> bytes" where
  "merged_key ty key0 key1 = (if ty = READER_ITER_TYPE_GET then key0 else key1)"

lemma wanted_merged: "wanted (merged_type ty) key0 (merged_key ty key0 key1) key = wanted ty key0 key1 key"
  by (cases ty) (auto simp: merged_type_def merged_key_def)

lemma merger_source_open:
  "source_open (mtbl_merger_source m) ty key0 key1 = do {
     it \<leftarrow> (if ty = READER_ITER_TYPE_ITER then add_sources else add_found)
       (\<lambda>s. source_open s (merged_type ty) key0 (merged_key ty key0 key1)) (merger_iter_init (m_opt m)) (m_sources m);
     if ty \<noteq> READER_ITER_TYPE_ITER \<and> mi_entries it = [] then Some None else Some (Some (merger_mtbl_iter it))
   }"
  by (cases ty) (simp_all add: mtbl_merger_source_def mtbl_source_iter_def [abs_def] mtbl_source_get_def
      mtbl_source_get_prefix_def mtbl_source_get_range_def merger_iter_def merger_get_def
      merger_get_prefix_def merger_get_range_def merged_type_def merged_key_def)


lemma strict_mle: "strict_keys es \<Longrightarrow> sorted_wrt (mle opt) es"
  unfolding strict_keys_def sorted_wrt_map by (rule sorted_wrt_mono_rel) (auto intro: entry_le_less)

lemma add_sources_all:
  "foldl mtbl_merger_add_source m ss = m\<lparr>m_sources := m_sources m @ ss\<rparr>"
  by (induction ss arbitrary: m) (simp_all add: mtbl_merger_add_source_def)

definition holds_table :: "(bytes \<Rightarrow> u32) \<Rightarrow> 'z complib \<Rightarrow> mtbl_reader \<Rightarrow> entry list \<Rightarrow> bool" where
  "holds_table crc L r es \<longleftrightarrow> (\<exists>n bs offs ix. opens crc L r n bs offs ix \<and> concat (map fst bs) = es)"

lemma holds_table_strict: "holds_table crc L r es \<Longrightarrow> strict_keys es"
  using table_ok_strict by (auto simp: holds_table_def opens_def)

lemma mset_concat_filter: "concat (map (filter P) Ls) = filter P (concat Ls)"
  by (induction Ls) simp_all

lemma reader_merger_ok:
  assumes opt: "dupsort_ok opt" "merge_ok opt" and rs: "list_all2 (holds_table crc L) rs Ts"
    and keys: "\<forall>e\<in>set (concat Ts). fst e \<noteq> []"
  shows "\<exists>it all. source_open (mtbl_merger_source \<lparr>m_sources = map (mtbl_reader_source crc L) rs, m_opt = opt\<rparr>) ty key0 key1 =
      Some it \<and> (ty = READER_ITER_TYPE_ITER \<longrightarrow> it \<noteq> None) \<and>
    mset all = mset (filter (\<lambda>e. wanted ty key0 key1 (fst e)) (concat Ts)) \<and>
    sorted_wrt (mle opt) all \<and> merger_kid crc L it (combined (mo_merge opt) all)"
proof -
  let ?want = "filter (\<lambda>e. wanted ty key0 key1 (fst e))"
  let ?open = "\<lambda>s. source_open s (merged_type ty) key0 (merged_key ty key0 key1)"
  have "opens_to (reader_kid crc L) opt ?open (mtbl_reader_source crc L r) (?want es)"
    if h: "holds_table crc L r es" "es \<in> set Ts" for r es
  proof -
    have "sorted_wrt (mle opt) (?want es)"
      using holds_table_strict [OF h(1)] by (intro strict_mle) (simp add: strict_keys_def sorted_wrt_map sorted_wrt_filter)
    moreover have "\<forall>x\<in>set (?want es). fst x \<noteq> []" using keys h(2) by auto
    moreover obtain n bs offs ix where "opens crc L r n bs offs ix" "concat (map fst bs) = es"
      using h(1) unfolding holds_table_def by blast
    ultimately show ?thesis
      using reader_source_opens [of crc L r n bs offs ix "merged_type ty" key0 "merged_key ty key0 key1"]
      unfolding wanted_merged opens_to_def by blast
  qed
  then have "list_all2 (opens_to (reader_kid crc L) opt ?open) (map (mtbl_reader_source crc L) rs) (map ?want Ts)"
    using rs by (auto simp: list_all2_conv_all_nth)
  from readers.merger_open_ok [OF opt this, unfolded mset_concat_filter]
  obtain it all where it: "add_sources ?open (merger_iter_init opt) (map (mtbl_reader_source crc L) rs) = Some it"
      "add_found ?open (merger_iter_init opt) (map (mtbl_reader_source crc L) rs) = Some it"
      "mi_entries it = [] \<longleftrightarrow> ?want (concat Ts) = []" "mset all = mset (?want (concat Ts))" "sorted_wrt (mle opt) all"
      "merger_remaining (\<lambda>_. reader_kid crc L) it (combined (mo_merge opt) all)"
    by blast
  let ?opened = "if ty \<noteq> READER_ITER_TYPE_ITER \<and> mi_entries it = [] then None else Some (merger_mtbl_iter it)"
  have "source_open (mtbl_merger_source \<lparr>m_sources = map (mtbl_reader_source crc L) rs, m_opt = opt\<rparr>) ty key0 key1 =
      Some ?opened"
    unfolding merger_source_open using it(1,2) by (cases "ty = READER_ITER_TYPE_ITER") auto
  moreover have "merger_kid crc L ?opened (combined (mo_merge opt) all)"
  proof (cases "ty \<noteq> READER_ITER_TYPE_ITER \<and> mi_entries it = []")
    case True
    then have "all = []" using it(3,4) by simp
    then show ?thesis using True by simp
  next
    case False
    show ?thesis unfolding if_not_P [OF False] using it(6) by (simp add: merger_mtbl_iter_def)
  qed
  moreover have "ty = READER_ITER_TYPE_ITER \<longrightarrow> ?opened \<noteq> None" by simp
  ultimately show ?thesis using it(4,5) by (intro exI conjI)
qed

subsection \<open>Merging files\<close>

primrec open_tables ::
  "(bytes \<Rightarrow> u32) \<Rightarrow> mtbl_reader_options option \<Rightarrow> bytes list \<Rightarrow> mtbl_reader list option option" where
  "open_tables crc ropt [] = Some (Some [])"
| "open_tables crc ropt (data # ds) = do {
     r \<leftarrow> mtbl_reader_init_fd crc False data ropt;
     case r of
       None \<Rightarrow> Some None
     | Some r \<Rightarrow> do {
         rs \<leftarrow> open_tables crc ropt ds;
         Some (map_option ((#) r) rs)
       }
   }"

text \<open>Files opened, given to a merger as sources, and queried through it.\<close>

definition query_merged ::
  "'z complib \<Rightarrow> (bytes \<Rightarrow> u32) \<Rightarrow> mtbl_reader_options option \<Rightarrow> mtbl_merger_options \<Rightarrow> bytes list \<Rightarrow> reader_iter_type \<Rightarrow>
   bytes \<Rightarrow> bytes \<Rightarrow> nat \<Rightarrow> entry list option option" where
  "query_merged L crc ropt mopt datas ty key0 key1 fuel = do {
     rs \<leftarrow> open_tables crc ropt datas;
     case rs of
       None \<Rightarrow> Some None
     | Some rs \<Rightarrow> do {
         m \<leftarrow> mtbl_merger_init (Some mopt);
         let m = foldl mtbl_merger_add_source m (map (mtbl_reader_source crc L) rs);
         it \<leftarrow> source_open (mtbl_merger_source m) ty key0 key1;
         (es, _) \<leftarrow> drain mtbl_iter_next fuel it;
         Some (Some es)
       }
   }"

type_synonym table_run = "mtbl_writer_options \<times> fdesc \<times> writer_event list"

definition run_entries :: "table_run \<Rightarrow> entry list" where
  "run_entries t = kept None (added (snd (snd t)))"

definition run_ok :: "'z complib \<Rightarrow> table_run \<Rightarrow> bool" where
  "run_ok L t \<longleftrightarrow> run_fits L (fst t) (fst (snd t)) (added (snd (snd t)))"

definition run_writes :: "'z complib \<Rightarrow> (bytes \<Rightarrow> u32) \<Rightarrow> table_run \<Rightarrow> bytes \<Rightarrow> bool" where
  "run_writes L crc t data \<longleftrightarrow>
     write_file L crc (fst t) (fst (snd t)) (snd (snd t)) = Some (increasing None (added (snd (snd t))), data)"

lemma run_table:
  assumes "run_ok L t"
  shows "\<exists>data. run_writes L crc t data \<and>
    (length data < 2 ^ 63 \<longrightarrow> (\<exists>r. mtbl_reader_init_fd crc False data ropt = Some (Some r) \<and>
       holds_table crc L r (run_entries t)))"
  using session [of L "fst t" "fst (snd t)" "snd (snd t)" crc ropt] assms
  unfolding run_ok_def run_writes_def run_entries_def holds_table_def by blast

lemma run_tables:
  assumes "\<forall>t\<in>set runs. run_ok L t"
  shows "\<exists>datas. list_all2 (run_writes L crc) runs datas \<and>
    ((\<forall>d\<in>set datas. length d < 2 ^ 63) \<longrightarrow> (\<exists>rs. open_tables crc ropt datas = Some (Some rs) \<and>
       list_all2 (holds_table crc L) rs (map run_entries runs)))"
  using assms
proof (induction runs)
  case Nil
  show ?case by (rule exI [of _ "[]"]) simp
next
  case (Cons t runs)
  obtain data where "run_writes L crc t data"
      "length data < 2 ^ 63 \<longrightarrow> (\<exists>r. mtbl_reader_init_fd crc False data ropt = Some (Some r) \<and>
       holds_table crc L r (run_entries t))"
    using run_table [of L t crc ropt] Cons.prems by auto
  moreover obtain datas where "list_all2 (run_writes L crc) runs datas"
      "(\<forall>d\<in>set datas. length d < 2 ^ 63) \<longrightarrow> (\<exists>rs. open_tables crc ropt datas = Some (Some rs) \<and>
       list_all2 (holds_table crc L) rs (map run_entries runs))"
    using Cons by auto
  ultimately show ?case by (intro exI [of _ "data # datas"]) fastforce
qed

lemma merged_files:
  assumes runs: "\<forall>t\<in>set runs. run_ok L t" and opt: "dupsort_ok mopt" "merge_ok mopt"
    and keys: "\<forall>e\<in>set (concat (map run_entries runs)). fst e \<noteq> []"
  shows "\<exists>datas. list_all2 (run_writes L crc) runs datas \<and>
    ((\<forall>d\<in>set datas. length d < 2 ^ 63) \<longrightarrow> (\<exists>all.
       mset all = mset (filter (\<lambda>e. wanted ty key0 key1 (fst e)) (concat (map run_entries runs))) \<and>
       sorted_wrt (mle mopt) all \<and>
       query_merged L crc ropt mopt datas ty key0 key1 (length (concat (map run_entries runs)) + 1) =
         Some (Some (combined (mo_merge mopt) all))))"
proof -
  let ?all = "concat (map run_entries runs)"
  obtain datas where datas: "list_all2 (run_writes L crc) runs datas"
    and rd: "(\<forall>d\<in>set datas. length d < 2 ^ 63) \<Longrightarrow> \<exists>rs. open_tables crc ropt datas = Some (Some rs) \<and>
       list_all2 (holds_table crc L) rs (map run_entries runs)"
    using run_tables [OF runs, of crc ropt] by blast
  have "\<exists>all. mset all = mset (filter (\<lambda>e. wanted ty key0 key1 (fst e)) ?all) \<and> sorted_wrt (mle mopt) all \<and>
       query_merged L crc ropt mopt datas ty key0 key1 (length ?all + 1) = Some (Some (combined (mo_merge mopt) all))"
    if small: "\<forall>d\<in>set datas. length d < 2 ^ 63"
  proof -
    obtain rs where rs: "open_tables crc ropt datas = Some (Some rs)"
        "list_all2 (holds_table crc L) rs (map run_entries runs)"
      using rd [OF small] by blast
    obtain it all where it: "source_open (mtbl_merger_source \<lparr>m_sources = map (mtbl_reader_source crc L) rs, m_opt = mopt\<rparr>) ty key0 key1 =
        Some it" "mset all = mset (filter (\<lambda>e. wanted ty key0 key1 (fst e)) ?all)"
        "sorted_wrt (mle mopt) all" "merger_kid crc L it (combined (mo_merge mopt) all)"
      using reader_merger_ok [OF opt rs(2) keys] by blast
    have "length (combined (mo_merge mopt) all) \<le> length all" by (rule combined_length)
    also have "\<dots> \<le> length ?all" using mset_eq_length [OF it(2)] length_filter_le by simp
    finally have len: "length (combined (mo_merge mopt) all) < length ?all + 1" by simp
    obtain it' where "drain mtbl_iter_next (length ?all + 1) it = Some (combined (mo_merge mopt) all, it')"
      using merged.drain_all [OF it(4) len] by blast
    then have "query_merged L crc ropt mopt datas ty key0 key1 (length ?all + 1) = Some (Some (combined (mo_merge mopt) all))"
      using rs(1) it(1) by (simp add: query_merged_def mtbl_merger_init_def add_sources_all del: drain.simps)
    then show ?thesis using it(2,3) by blast
  qed
  then show ?thesis using datas by blast
qed

end
