(* ===== verification/Source_Write.thy ===== *)
theory Source_Write
  imports Reader_Source
begin

text \<open>
  Feeding an iterator to a writer (the loop \<open>mtbl_source_write\<close>, \<open>mtbl_sorter_write\<close> and
  \<open>mtbl_merge\<close> share), the table file that results, and a bound on its size.
\<close>

subsection \<open>The loop is a run of the writer\<close>

abbreviation adds :: "entry list \<Rightarrow> writer_event list" where
  "adds \<equiv> map (\<lambda>e. Add (fst e) (snd e))"

lemma added_adds [simp]: "added (adds es) = es"
  by (induction es) simp_all

context cursor begin

lemma write_loop_run:
  "remaining s es \<Longrightarrow> writer_run L crc w (adds es) = Some (replicate (length es) True, w') \<Longrightarrow>
   write_loop (mtbl_writer_add L crc) step s w True = Some (True, w')"
proof (induction es arbitrary: s w)
  case Nil
  then show ?case using step_Nil [OF Nil.prems(1)] by (subst write_loop.simps) auto
next
  case (Cons e es)
  obtain s' where s': "step s = Some (Some e, s')" "remaining s' es" using step_Cons [OF Cons.prems(1)] by blast
  obtain w1 where w1: "mtbl_writer_add L crc w (fst e) (snd e) = Some (True, w1)"
      "writer_run L crc w1 (adds es) = Some (replicate (length es) True, w')"
    using Cons.prems(2) by (auto split: bind_splits)
  have "write_loop (mtbl_writer_add L crc) step s' w1 True = Some (True, w')" by (rule Cons.IH [OF s'(2) w1(2)])
  then show ?case using s'(1) w1(1) by (cases e) (subst write_loop.simps, simp)
qed

end

subsection \<open>The table that results\<close>

lemma chunk_table:
  assumes "run_fits L opt fd (added evs)"
  shows "\<exists>w w' fd'. mtbl_writer_init_fd fd (Some opt) = Some w \<and>
    writer_run L crc w evs = Some (increasing None (added evs), w') \<and>
    mtbl_writer_destroy L crc w' = Some fd' \<and>
    (length (f_bytes fd') < 2 ^ 63 \<longrightarrow> (\<exists>r. mtbl_reader_init_fd crc False (f_bytes fd') ropt = Some (Some r) \<and>
       holds_table crc L r (kept None (added evs))))"
  using read_table [OF assms, of crc ropt] final_entries [of opt "added evs"]
  unfolding holds_table_def table_entries_close by blast

text \<open>Entries with increasing keys, written one after the other, are what a reader finds.\<close>

lemma written_back:
  assumes "strict_keys es" and "run_fits L opt fd es"
  shows "\<exists>w w' fd'. mtbl_writer_init_fd fd (Some opt) = Some w \<and>
    writer_run L crc w (adds es) = Some (replicate (length es) True, w') \<and>
    mtbl_writer_destroy L crc w' = Some fd' \<and>
    (length (f_bytes fd') < 2 ^ 63 \<longrightarrow>
     read_file L crc ropt (f_bytes fd') ty key0 key1 (length es + 1) =
       Some (Some (filter (\<lambda>e. wanted ty key0 key1 (fst e)) es)))"
proof -
  note kept = kept_all [OF assms(1), of None, simplified]
  have fits: "run_fits L opt fd (added (adds es))" using assms(2) by simp
  obtain w w' fd' where w: "mtbl_writer_init_fd fd (Some opt) = Some w"
      "writer_run L crc w (adds es) = Some (replicate (length es) True, w')"
      "mtbl_writer_destroy L crc w' = Some fd'"
    using chunk_table [OF fits, of crc ropt] by (auto simp: kept)
  then have "write_file L crc opt fd (adds es) = Some (replicate (length es) True, f_bytes fd')"
    by (simp add: write_file_def)
  then show ?thesis
    using session_read [OF fits, of crc ropt ty key0 key1] w by (auto simp: kept)
qed

subsection \<open>The size of a compressed file\<close>

text \<open>Compressed blocks do not exceed 2 GiB, when the blocks do not exceed 1 GiB.\<close>

definition coder_small :: "'z complib \<Rightarrow> mtbl_writer_options \<Rightarrow> bool" where
  "coder_small L opt \<longleftrightarrow> (\<forall>raw. 11 \<le> length raw \<longrightarrow> length raw \<le> 2 ^ 30 \<longrightarrow> length (payload L opt raw) \<le> 2 ^ 31)"

lemma image_small:
  assumes opt: "opt_fits opt" and st: "state_small opt st" and co: "coder_small L opt"
    and n: "length (table_entries st) < 2 ^ 30"
  shows "length (table_image L crc opt [] es (table_close st)) < 2 ^ 63"
proof -
  let ?bs = "table_close st" and ?n = "wo_block_restart_interval opt"
  have ok: "\<forall>b\<in>set ?bs. fst b \<noteq> [] \<and> block_small opt (fst b) \<and> length (snd b) \<le> 2 ^ 30"
    using st by (auto simp: state_small_def state_ok_def table_ok_def)
  have "length ?bs \<le> length (concat (map fst ?bs))"
    using ok by (intro blocks_le_entries) simp
  then have blocks: "length ?bs < 2 ^ 30" using n by (simp add: table_entries_close)
  have "length (frame crc (block_payload L opt b)) \<le> 2 ^ 31 + 14" if "b \<in> set ?bs" for b
  proof -
    have "length (block_image ?n (fst b)) \<le> 2 ^ 30" "11 \<le> length (block_image ?n (fst b))"
      using ok that block_small_image [OF opt] image_ge by blast+
    then have "length (block_payload L opt b) \<le> 2 ^ 31" using co by (simp add: coder_small_def block_payload_def)
    then show ?thesis using frame_length [of crc "block_payload L opt b"] by simp
  qed
  then have "length (block_frames L crc opt ?bs) \<le> length ?bs * (2 ^ 31 + 14)"
    unfolding block_frames_def length_concat map_map comp_def by (rule sum_list_le)
  moreover have "(\<Sum>b\<leftarrow>?bs. 33 + length (snd b)) \<le> length ?bs * (2 ^ 30 + 33)"
    using ok by (intro sum_list_le) simp
  moreover have "length (frame crc (table_index L crc opt 0 ?bs)) \<le> (\<Sum>b\<leftarrow>?bs. 33 + length (snd b)) + 26"
    using frame_length [of crc "table_index L crc opt 0 ?bs"]
      image_length [of ?n "index_entries L crc opt 0 ?bs"] index_length [of L crc opt 0 ?bs]
    by (simp add: table_index_def)
  ultimately show ?thesis using blocks by (simp add: table_image_def Let_def)
qed

lemma run_small:
  assumes fits: "run_fits L opt fd (added evs)" and fd: "f_bytes fd = []" and co: "coder_small L opt"
    and n: "length (added evs) < 2 ^ 30" and wr: "write_file L crc opt fd evs = Some (rs, data)"
  shows "length data < 2 ^ 63"
proof -
  have "data = table_image L crc opt [] (kept None (added evs)) (table_close (final_state opt (added evs)))"
    using session [OF fits, of crc None] fd wr by auto
  moreover have "state_small opt (final_state opt (added evs))" using write_table [OF fits, of crc] by blast
  moreover have "length (table_entries (final_state opt (added evs))) < 2 ^ 30"
    unfolding final_entries using kept_length n by (rule le_less_trans)
  ultimately show ?thesis using image_small [OF run_fitsD(1) [OF fits] _ co] by simp
qed

end
