(* ===== verification/Threadpool.thy ===== *)
theory Threadpool
  imports Prelude "HOL-Library.Multiset"
begin

text \<open>
  \<open>mtbl/threadpool.c\<close> as a state machine: a pool of worker threads that any number of clients
  (writers and sorters) share, each with a result handler thread of its own. A step is what one
  thread does between two points where it may be held up: a section under a mutex, or one that
  touches nothing shared. A wait on a condition variable is the guard of the step that follows it.
  An assertion that fails makes the step go to \<open>None\<close>.

  Threads and clients are numbered. \<open>p_next\<close> holds the \<open>next\<close> pointer of every thread, \<open>None\<close> for
  NULL, and \<open>q_ptail\<close> where the tail pointer of a queue points: to the head of the queue (\<open>None\<close>)
  or to the \<open>next\<close> of a thread. The threads that can be reached from a head pointer are also kept
  as a list, \<open>p_head\<close> and \<open>q_head\<close>; the theory Threadpool_Facts shows that the pointers always chain
  just these lists (\<open>linked\<close>). A callback gives \<open>None\<close> for NULL. \<open>c_calls\<close> records the calls of \<open>threadpool_dispatch\<close> with the
  results they are for, \<open>c_out\<close> what the result callback was given.
\<close>

type_synonym tid = nat
type_synonym qid = nat

subsection \<open>The state\<close>

text \<open>
  Where a worker is in \<open>thread_worker\<close>: waiting for \<open>running\<close>, past that wait, past its callback
  (with the queue it read from \<open>rq\<close>), about to enter that queue, returned.
\<close>

datatype worker_pc = W_wait | W_woken | W_ran "qid option" | W_push qid | W_exited

record ('a, 'b) thread =
  t_arg :: "'a option"
  t_res :: "'b option"
  t_cb :: "('a \<Rightarrow> 'b option) option"
  t_rq :: "qid option"
  t_running :: bool
  t_pc :: worker_pc

text \<open>
  Where a client is in \<open>threadpool_dispatch\<close> (before \<open>threadpool_next\<close>; with the thread it got;
  with the thread started but not posted) or \<open>result_handler_destroy\<close> (before the join, after it).
\<close>

datatype ('a, 'b) client_pc =
    C_idle
  | C_next bool "'a \<Rightarrow> 'b option" 'a
  | C_has tid bool "'a \<Rightarrow> 'b option" 'a
  | C_sent tid bool
  | C_join
  | C_joined

text \<open>
  Where a handler is in \<open>resultq_next\<close> and \<open>result_worker\<close>: waiting for a thread in the queue,
  waiting for that thread's result, returning the thread to the pool, calling back, returned.
\<close>

datatype 'b handler_pc = H_wait | H_got tid | H_return tid "'b option" | H_call "'b option" | H_exited

record ('a, 'b) chan =
  c_client :: "('a, 'b) client_pc"
  c_handler :: "'b handler_pc"
  q_finished :: bool
  q_nthreads :: u64
  q_head :: "tid list"
  q_ptail :: "tid option"
  c_calls :: "(bool \<times> 'b option) list"
  c_out :: "'b option list"

text \<open>Where the caller of \<open>threadpool_destroy\<close> is: in its loop, or joining a thread.\<close>

datatype destroyer_pc = X_idle | X_loop | X_join tid | X_destroyed

record ('a, 'b) threadpool =
  p_head :: "tid list"
  p_next :: "tid \<Rightarrow> tid option"
  p_count :: nat
  p_max :: nat
  p_threads :: "tid \<Rightarrow> ('a, 'b) thread"
  p_fresh :: tid
  p_chans :: "qid \<Rightarrow> ('a, 'b) chan"
  p_nchans :: qid
  p_destroyer :: destroyer_pc

definition thread_init :: "('a, 'b) thread" where
  "thread_init = \<lparr>t_arg = None, t_res = None, t_cb = None, t_rq = None, t_running = False, t_pc = W_wait\<rparr>"

definition chan_init :: "('a, 'b) chan" where
  "chan_init = \<lparr>c_client = C_idle, c_handler = H_wait, q_finished = False, q_nthreads = 0, q_head = [], q_ptail = None,
     c_calls = [], c_out = []\<rparr>"

definition threadpool_init :: "nat \<Rightarrow> ('a, 'b) threadpool" where
  "threadpool_init max_threads =
     \<lparr>p_head = [], p_next = (\<lambda>_. None), p_count = 0, p_max = max_threads, p_threads = (\<lambda>_. thread_init), p_fresh = 0,
      p_chans = (\<lambda>_. chan_init), p_nchans = 0, p_destroyer = X_idle\<rparr>"

text \<open>The head pointer of a list of threads.\<close>

primrec head_of :: "tid list \<Rightarrow> tid option" where
  "head_of [] = None"
| "head_of (t # ts) = Some t"

text \<open>The pool of \<open>struct mtbl_threadpool\<close>; \<open>None\<close> is NULL.\<close>

definition mtbl_threadpool_init :: "nat \<Rightarrow> ('a, 'b) threadpool option" where
  "mtbl_threadpool_init thread_count = (if thread_count > 0 then Some (threadpool_init thread_count) else None)"

definition set_thread :: "('a, 'b) threadpool \<Rightarrow> tid \<Rightarrow> ('a, 'b) thread \<Rightarrow> ('a, 'b) threadpool" where
  "set_thread s t thr = s\<lparr>p_threads := (p_threads s)(t := thr)\<rparr>"

definition set_chan :: "('a, 'b) threadpool \<Rightarrow> qid \<Rightarrow> ('a, 'b) chan \<Rightarrow> ('a, 'b) threadpool" where
  "set_chan s q c = s\<lparr>p_chans := (p_chans s)(q := c)\<rparr>"

subsection \<open>The operations of a client\<close>

definition result_handler_init :: "('a, 'b) threadpool \<Rightarrow> ('a, 'b) threadpool" where
  "result_handler_init s = (set_chan s (p_nchans s) chan_init)\<lparr>p_nchans := p_nchans s + 1\<rparr>"

text \<open>The call of \<open>threadpool_dispatch\<close>.\<close>

definition dispatch_call ::
  "('a, 'b) threadpool \<Rightarrow> qid \<Rightarrow> bool \<Rightarrow> ('a \<Rightarrow> 'b option) \<Rightarrow> 'a \<Rightarrow> ('a, 'b) threadpool" where
  "dispatch_call s q ordered cb arg =
     (let c = p_chans s q
      in set_chan s q (c\<lparr>c_client := C_next ordered cb arg, c_calls := c_calls c @ [(ordered, cb arg)]\<rparr>))"

definition threadpool_next ::
  "('a, 'b) threadpool \<Rightarrow> qid \<Rightarrow> bool \<Rightarrow> ('a \<Rightarrow> 'b option) \<Rightarrow> 'a \<Rightarrow> ('a, 'b) threadpool option" where
  "threadpool_next s q ordered cb arg =
     (case p_head s of
        t # ts \<Rightarrow> do {
          ensure (t_cb (p_threads s t) = None);
          ensure (t_res (p_threads s t) = None);
          ensure (\<not> t_running (p_threads s t));
          Some ((set_chan s q ((p_chans s q)\<lparr>c_client := C_has t ordered cb arg\<rparr>))\<lparr>p_head := ts, p_next := (p_next s)(t := None)\<rparr>)
        }
      | [] \<Rightarrow>
          (let t = p_fresh s
           in Some ((set_thread (set_chan s q ((p_chans s q)\<lparr>c_client := C_has t ordered cb arg\<rparr>)) t thread_init)
             \<lparr>p_count := p_count s + 1, p_fresh := t + 1, p_next := (p_next s)(t := None)\<rparr>)))"

definition dispatch_start ::
  "('a, 'b) threadpool \<Rightarrow> qid \<Rightarrow> tid \<Rightarrow> bool \<Rightarrow> ('a \<Rightarrow> 'b option) \<Rightarrow> 'a \<Rightarrow> ('a, 'b) threadpool option" where
  "dispatch_start s q t ordered cb arg = do {
     ensure (\<not> t_running (p_threads s t));
     ensure (p_next s t = None);
     let thr = (p_threads s t)\<lparr>t_rq := (if ordered then None else Some q), t_cb := Some cb, t_arg := Some arg,
       t_running := True\<rparr>;
     Some (set_chan (set_thread s t thr) q ((p_chans s q)\<lparr>c_client := C_sent t ordered\<rparr>))
   }"

text \<open>
  \<open>*rq->ptail = thr; rq->ptail = &thr->next\<close>: what it does to the \<open>next\<close> pointers, and to the queue.
\<close>

definition next_append :: "(tid \<Rightarrow> tid option) \<Rightarrow> tid option \<Rightarrow> tid \<Rightarrow> tid \<Rightarrow> tid option" where
  "next_append nx ptail t = (case ptail of None \<Rightarrow> nx | Some u \<Rightarrow> nx(u := Some t))"

definition chan_append :: "('a, 'b) chan \<Rightarrow> tid \<Rightarrow> ('a, 'b) chan" where
  "chan_append c t =
     c\<lparr>q_head := (case q_ptail c of None \<Rightarrow> [t] | Some u \<Rightarrow> q_head c @ [t]), q_ptail := Some t\<rparr>"

definition dispatch_post :: "('a, 'b) threadpool \<Rightarrow> qid \<Rightarrow> tid \<Rightarrow> bool \<Rightarrow> ('a, 'b) threadpool option" where
  "dispatch_post s q t ordered = do {
     let c = p_chans s q;
     ensure (\<not> q_finished c);
     let nx = (if ordered then next_append (p_next s) (q_ptail c) t else p_next s);
     let c = c\<lparr>q_nthreads := q_nthreads c + 1\<rparr>;
     let c = (if ordered then chan_append c t else c);
     Some ((set_chan s q (c\<lparr>c_client := C_idle\<rparr>))\<lparr>p_next := nx\<rparr>)
   }"

text \<open>\<open>result_handler_destroy\<close>: \<open>resultq_finish\<close>, then the join.\<close>

definition resultq_finish :: "('a, 'b) threadpool \<Rightarrow> qid \<Rightarrow> ('a, 'b) threadpool" where
  "resultq_finish s q = set_chan s q ((p_chans s q)\<lparr>q_finished := True, c_client := C_join\<rparr>)"

definition handler_join :: "('a, 'b) threadpool \<Rightarrow> qid \<Rightarrow> ('a, 'b) threadpool" where
  "handler_join s q = set_chan s q ((p_chans s q)\<lparr>c_client := C_joined\<rparr>)"

subsection \<open>The steps of a worker\<close>

definition worker_wake :: "('a, 'b) threadpool \<Rightarrow> tid \<Rightarrow> ('a, 'b) threadpool" where
  "worker_wake s t = set_thread s t ((p_threads s t)\<lparr>t_pc := W_woken\<rparr>)"

definition worker_run :: "('a, 'b) threadpool \<Rightarrow> tid \<Rightarrow> ('a, 'b) threadpool option" where
  "worker_run s t =
     (let me = p_threads s t
      in case t_cb me of
           None \<Rightarrow> Some (set_thread s t (me\<lparr>t_pc := W_exited\<rparr>))
         | Some cb \<Rightarrow> do {
             arg \<leftarrow> t_arg me;
             Some (set_thread s t (me\<lparr>t_res := cb arg, t_cb := None, t_arg := None, t_rq := None, t_pc := W_ran (t_rq me)\<rparr>))
           })"

definition worker_stop :: "('a, 'b) threadpool \<Rightarrow> tid \<Rightarrow> qid option \<Rightarrow> ('a, 'b) threadpool" where
  "worker_stop s t rq =
     set_thread s t ((p_threads s t)\<lparr>t_running := False, t_pc := (case rq of None \<Rightarrow> W_wait | Some q \<Rightarrow> W_push q)\<rparr>)"

definition worker_push :: "('a, 'b) threadpool \<Rightarrow> tid \<Rightarrow> qid \<Rightarrow> ('a, 'b) threadpool" where
  "worker_push s t q =
     (let c = p_chans s q
      in (set_chan (set_thread s t ((p_threads s t)\<lparr>t_pc := W_wait\<rparr>)) q (chan_append c t))
           \<lparr>p_next := next_append (p_next s) (q_ptail c) t\<rparr>)"

subsection \<open>The steps of a result handler\<close>

definition resultq_take :: "('a, 'b) threadpool \<Rightarrow> qid \<Rightarrow> ('a, 'b) threadpool option" where
  "resultq_take s q =
     (let c = p_chans s q
      in case q_head c of
           t # ts \<Rightarrow> Some ((set_chan s q (c\<lparr>q_head := ts, q_nthreads := q_nthreads c - 1,
               q_ptail := (if ts = [] then None else q_ptail c), c_handler := H_got t\<rparr>))
             \<lparr>p_next := (p_next s)(t := None)\<rparr>)
         | [] \<Rightarrow> do {
             ensure (q_finished c \<and> q_nthreads c = 0);
             Some (set_chan s q (c\<lparr>c_handler := H_exited\<rparr>))
           })"

definition resultq_collect :: "('a, 'b) threadpool \<Rightarrow> qid \<Rightarrow> tid \<Rightarrow> ('a, 'b) threadpool" where
  "resultq_collect s q t =
     set_chan (set_thread s t ((p_threads s t)\<lparr>t_res := None\<rparr>)) q
       ((p_chans s q)\<lparr>c_handler := H_return t (t_res (p_threads s t))\<rparr>)"

definition resultq_return :: "('a, 'b) threadpool \<Rightarrow> qid \<Rightarrow> tid \<Rightarrow> 'b option \<Rightarrow> ('a, 'b) threadpool" where
  "resultq_return s q t res =
     (set_chan s q ((p_chans s q)\<lparr>c_handler := H_call res\<rparr>))
       \<lparr>p_head := t # p_head s, p_next := (p_next s)(t := head_of (p_head s))\<rparr>"

definition result_call :: "('a, 'b) threadpool \<Rightarrow> qid \<Rightarrow> 'b option \<Rightarrow> ('a, 'b) threadpool" where
  "result_call s q res =
     (let c = p_chans s q
      in set_chan s q (c\<lparr>c_handler := H_wait, c_out := c_out c @ [res]\<rparr>))"

subsection \<open>Destroying the pool\<close>

definition destroy_loop :: "('a, 'b) threadpool \<Rightarrow> ('a, 'b) threadpool option" where
  "destroy_loop s =
     (if p_count s > 0 then
        (case p_head s of
           t # ts \<Rightarrow> do {
             ensure (t_cb (p_threads s t) = None);
             Some ((set_thread s t ((p_threads s t)\<lparr>t_running := True\<rparr>))\<lparr>p_head := ts, p_destroyer := X_join t\<rparr>)
           }
         | [] \<Rightarrow> None)
      else Some (s\<lparr>p_destroyer := X_destroyed\<rparr>))"

definition destroy_join :: "('a, 'b) threadpool \<Rightarrow> ('a, 'b) threadpool" where
  "destroy_join s = s\<lparr>p_count := p_count s - 1, p_destroyer := X_loop\<rparr>"

subsection \<open>The steps of the whole\<close>

text \<open>
  What the threads do by themselves, once the clients have made their calls. The wait of
  \<open>threadpool_next\<close>, for instance, lasts while there is no idle thread and no more may be created.
\<close>

inductive pool_work :: "('a, 'b) threadpool \<Rightarrow> ('a, 'b) threadpool option \<Rightarrow> bool" where
  next_thread: "\<lbrakk>q < p_nchans s; c_client (p_chans s q) = C_next ordered cb arg; p_head s \<noteq> [] \<or> p_count s \<noteq> p_max s\<rbrakk>
    \<Longrightarrow> pool_work s (threadpool_next s q ordered cb arg)"
| start_thread: "\<lbrakk>q < p_nchans s; c_client (p_chans s q) = C_has t ordered cb arg\<rbrakk>
    \<Longrightarrow> pool_work s (dispatch_start s q t ordered cb arg)"
| post_thread: "\<lbrakk>q < p_nchans s; c_client (p_chans s q) = C_sent t ordered\<rbrakk> \<Longrightarrow> pool_work s (dispatch_post s q t ordered)"
| wake: "\<lbrakk>t < p_fresh s; t_pc (p_threads s t) = W_wait; t_running (p_threads s t)\<rbrakk> \<Longrightarrow> pool_work s (Some (worker_wake s t))"
| run: "\<lbrakk>t < p_fresh s; t_pc (p_threads s t) = W_woken\<rbrakk> \<Longrightarrow> pool_work s (worker_run s t)"
| stop: "\<lbrakk>t < p_fresh s; t_pc (p_threads s t) = W_ran rq\<rbrakk> \<Longrightarrow> pool_work s (Some (worker_stop s t rq))"
| push: "\<lbrakk>t < p_fresh s; t_pc (p_threads s t) = W_push q\<rbrakk> \<Longrightarrow> pool_work s (Some (worker_push s t q))"
| take: "\<lbrakk>q < p_nchans s; c_handler (p_chans s q) = H_wait;
      q_head (p_chans s q) \<noteq> [] \<or> q_finished (p_chans s q) \<and> q_nthreads (p_chans s q) = 0\<rbrakk>
    \<Longrightarrow> pool_work s (resultq_take s q)"
| collect: "\<lbrakk>q < p_nchans s; c_handler (p_chans s q) = H_got t; \<not> t_running (p_threads s t)\<rbrakk>
    \<Longrightarrow> pool_work s (Some (resultq_collect s q t))"
| return: "\<lbrakk>q < p_nchans s; c_handler (p_chans s q) = H_return t res\<rbrakk> \<Longrightarrow> pool_work s (Some (resultq_return s q t res))"
| callback: "\<lbrakk>q < p_nchans s; c_handler (p_chans s q) = H_call res\<rbrakk> \<Longrightarrow> pool_work s (Some (result_call s q res))"
| join: "\<lbrakk>q < p_nchans s; c_client (p_chans s q) = C_join; c_handler (p_chans s q) = H_exited\<rbrakk>
    \<Longrightarrow> pool_work s (Some (handler_join s q))"
| loop: "\<lbrakk>p_destroyer s = X_loop; p_count s = 0 \<or> p_head s \<noteq> []\<rbrakk> \<Longrightarrow> pool_work s (destroy_loop s)"
| join_thread: "\<lbrakk>p_destroyer s = X_join t; t_pc (p_threads s t) = W_exited\<rbrakk> \<Longrightarrow> pool_work s (Some (destroy_join s))"

text \<open>
  The calls: a new client, a dispatch, \<open>result_handler_destroy\<close>, and \<open>threadpool_destroy\<close>, which
  the pool's user calls when every client is gone. A client makes one call at a time.
\<close>

inductive pool_call :: "('a, 'b) threadpool \<Rightarrow> ('a, 'b) threadpool \<Rightarrow> bool" where
  new_client: "p_destroyer s = X_idle \<Longrightarrow> pool_call s (result_handler_init s)"
| dispatch: "\<lbrakk>q < p_nchans s; c_client (p_chans s q) = C_idle\<rbrakk> \<Longrightarrow> pool_call s (dispatch_call s q ordered cb arg)"
| finish: "\<lbrakk>q < p_nchans s; c_client (p_chans s q) = C_idle\<rbrakk> \<Longrightarrow> pool_call s (resultq_finish s q)"
| destroy: "\<lbrakk>p_destroyer s = X_idle; \<forall>q<p_nchans s. c_client (p_chans s q) = C_joined\<rbrakk>
    \<Longrightarrow> pool_call s (s\<lparr>p_destroyer := X_loop\<rparr>)"

inductive_cases pool_workE: "pool_work s r"
inductive_cases pool_callE: "pool_call s s'"

text \<open>The states a pool of \<open>n\<close> threads can get into.\<close>

inductive pool_reaches :: "nat \<Rightarrow> ('a, 'b) threadpool \<Rightarrow> bool" for n :: nat where
  pool_start: "pool_reaches n (threadpool_init n)"
| pool_works: "\<lbrakk>pool_reaches n s; pool_work s (Some s')\<rbrakk> \<Longrightarrow> pool_reaches n s'"
| pool_called: "\<lbrakk>pool_reaches n s; pool_call s s'\<rbrakk> \<Longrightarrow> pool_reaches n s'"

end
