(* ===== verification/Threadpool_Facts.thy ===== *)
theory Threadpool_Facts
  imports Threadpool
begin

text \<open>
  The invariant of the thread pool. Every thread is in one place: idle in the pool, held by a
  client, in a result queue, away on an unordered job, held by a result handler, or being joined.
  The results a client asked for are the ones delivered, then the one its handler holds, then the
  ones in its queue, and the ones that are away or not posted yet. The \<open>next\<close> pointers chain the lists
  of the model (\<open>linked\<close>), and a thread outside them points nowhere.
\<close>

subsection \<open>Where the threads are\<close>

datatype place = Nowhere | Idle | Held qid | Queued qid | Away qid | Handled qid | Leaving

primrec client_holds :: "('a, 'b) client_pc \<Rightarrow> tid option" where
  "client_holds C_idle = None"
| "client_holds (C_next ordered cb arg) = None"
| "client_holds (C_has t ordered cb arg) = Some t"
| "client_holds (C_sent t ordered) = (if ordered then Some t else None)"
| "client_holds C_join = None"
| "client_holds C_joined = None"

primrec handler_holds :: "'b handler_pc \<Rightarrow> tid option" where
  "handler_holds H_wait = None"
| "handler_holds (H_got t) = Some t"
| "handler_holds (H_return t res) = Some t"
| "handler_holds (H_call res) = None"
| "handler_holds H_exited = None"

definition placed :: "('a, 'b) threadpool \<Rightarrow> (tid \<Rightarrow> place) \<Rightarrow> (qid \<Rightarrow> tid list) \<Rightarrow> bool" where
  "placed s own ws \<longleftrightarrow>
     distinct (p_head s) \<and> (\<forall>t. t \<in> set (p_head s) \<longleftrightarrow> own t = Idle) \<and>
     (\<forall>q. distinct (q_head (p_chans s q))) \<and> (\<forall>q t. t \<in> set (q_head (p_chans s q)) \<longleftrightarrow> own t = Queued q) \<and>
     (\<forall>q. distinct (ws q)) \<and> (\<forall>q t. t \<in> set (ws q) \<longleftrightarrow> own t = Away q) \<and>
     (\<forall>q t. handler_holds (c_handler (p_chans s q)) = Some t \<longleftrightarrow> own t = Handled q) \<and>
     (\<forall>q t. client_holds (c_client (p_chans s q)) = Some t \<longleftrightarrow> own t = Held q) \<and>
     (\<forall>t. p_destroyer s = X_join t \<longleftrightarrow> own t = Leaving) \<and>
     (\<forall>t. own t \<noteq> Nowhere \<longrightarrow> t < p_fresh s) \<and>
     card {t. own t \<noteq> Nowhere} = p_count s \<and> p_count s \<le> p_max s"

subsection \<open>What they are doing there\<close>

definition resting :: "('a, 'b) thread \<Rightarrow> bool" where
  "resting thr \<longleftrightarrow> t_cb thr = None \<and> t_res thr = None \<and> t_rq thr = None \<and> \<not> t_running thr \<and> t_pc thr = W_wait"

definition started :: "('a, 'b) thread \<Rightarrow> bool" where
  "started thr \<longleftrightarrow> t_running thr \<and> t_cb thr \<noteq> None \<and> t_arg thr \<noteq> None \<and> t_res thr = None \<and> t_pc thr \<in> {W_wait, W_woken}"

definition posted :: "('a, 'b) thread \<Rightarrow> bool" where
  "posted thr \<longleftrightarrow> t_rq thr = None \<and> (started thr \<or>
     t_cb thr = None \<and> (t_running thr \<and> t_pc thr = W_ran None \<or> \<not> t_running thr \<and> t_pc thr = W_wait))"

definition away :: "qid \<Rightarrow> ('a, 'b) thread \<Rightarrow> bool" where
  "away q thr \<longleftrightarrow> started thr \<and> t_rq thr = Some q \<or> t_cb thr = None \<and> t_rq thr = None \<and>
     (t_running thr \<and> t_pc thr = W_ran (Some q) \<or> \<not> t_running thr \<and> t_pc thr = W_push q)"

definition leaving :: "('a, 'b) thread \<Rightarrow> bool" where
  "leaving thr \<longleftrightarrow> t_running thr \<and> t_cb thr = None \<and> t_pc thr \<in> {W_wait, W_woken, W_exited}"

definition client_starts :: "('a, 'b) client_pc \<Rightarrow> bool" where
  "client_starts c \<longleftrightarrow> (\<exists>t ordered cb arg. c = C_has t ordered cb arg)"

definition handler_waits :: "'b handler_pc \<Rightarrow> bool" where
  "handler_waits h \<longleftrightarrow> (\<exists>t. h = H_got t)"

lemma pc_tests [simp]:
  "client_starts (C_has t ordered cb arg)" "\<not> client_starts (C_sent t ordered)" "\<not> client_starts C_idle"
  "handler_waits (H_got t)" "\<not> handler_waits (H_return t res)"
  by (auto simp: client_starts_def handler_waits_def)

definition thread_ok :: "('a, 'b) threadpool \<Rightarrow> place \<Rightarrow> ('a, 'b) thread \<Rightarrow> bool" where
  "thread_ok s pl thr = (case pl of
       Nowhere \<Rightarrow> t_pc thr = W_exited
     | Idle \<Rightarrow> resting thr
     | Held q \<Rightarrow> (if client_starts (c_client (p_chans s q)) then resting thr else posted thr)
     | Queued q \<Rightarrow> posted thr
     | Away q \<Rightarrow> away q thr
     | Handled q \<Rightarrow> (if handler_waits (c_handler (p_chans s q)) then posted thr else resting thr)
     | Leaving \<Rightarrow> leaving thr)"

definition threads_ok :: "('a, 'b) threadpool \<Rightarrow> (tid \<Rightarrow> place) \<Rightarrow> bool" where
  "threads_ok s own \<longleftrightarrow> (\<forall>t<p_fresh s. thread_ok s (own t) (p_threads s t))"

subsection \<open>The results\<close>

definition result_of :: "('a, 'b) thread \<Rightarrow> 'b option" where
  "result_of thr = (case t_cb thr of Some cb \<Rightarrow> cb (the (t_arg thr)) | None \<Rightarrow> t_res thr)"

primrec handler_part :: "(tid \<Rightarrow> ('a, 'b) thread) \<Rightarrow> 'b handler_pc \<Rightarrow> 'b option list" where
  "handler_part ths H_wait = []"
| "handler_part ths (H_got t) = [result_of (ths t)]"
| "handler_part ths (H_return t res) = [res]"
| "handler_part ths (H_call res) = [res]"
| "handler_part ths H_exited = []"

primrec client_part :: "(tid \<Rightarrow> ('a, 'b) thread) \<Rightarrow> ('a, 'b) client_pc \<Rightarrow> 'b option list" where
  "client_part ths C_idle = []"
| "client_part ths (C_next ordered cb arg) = [cb arg]"
| "client_part ths (C_has t ordered cb arg) = [cb arg]"
| "client_part ths (C_sent t ordered) = (if ordered then [result_of (ths t)] else [])"
| "client_part ths C_join = []"
| "client_part ths C_joined = []"

primrec client_order :: "('a, 'b) client_pc \<Rightarrow> bool option" where
  "client_order C_idle = None"
| "client_order (C_next ordered cb arg) = Some ordered"
| "client_order (C_has t ordered cb arg) = Some ordered"
| "client_order (C_sent t ordered) = Some ordered"
| "client_order C_join = None"
| "client_order C_joined = None"

definition in_order :: "('a, 'b) chan \<Rightarrow> bool" where
  "in_order c \<longleftrightarrow> (\<forall>x\<in>set (c_calls c). fst x)"

definition contents_ok :: "(tid \<Rightarrow> ('a, 'b) thread) \<Rightarrow> ('a, 'b) chan \<Rightarrow> tid list \<Rightarrow> bool" where
  "contents_ok ths c ws \<longleftrightarrow>
     mset (map snd (c_calls c)) = mset (c_out c @ handler_part ths (c_handler c) @
       map (\<lambda>t. result_of (ths t)) (q_head c) @ map (\<lambda>t. result_of (ths t)) ws @ client_part ths (c_client c)) \<and>
     (in_order c \<longrightarrow> ws = [] \<and> client_order (c_client c) \<noteq> Some False \<and>
        map snd (c_calls c) = c_out c @ handler_part ths (c_handler c) @
          map (\<lambda>t. result_of (ths t)) (q_head c) @ client_part ths (c_client c))"

subsection \<open>The queues and the calls\<close>

primrec unposted :: "('a, 'b) client_pc \<Rightarrow> u64" where
  "unposted C_idle = 0"
| "unposted (C_next ordered cb arg) = 0"
| "unposted (C_has t ordered cb arg) = 0"
| "unposted (C_sent t ordered) = (if ordered then 0 else 1)"
| "unposted C_join = 0"
| "unposted C_joined = 0"

definition chan_ok :: "('a, 'b) chan \<Rightarrow> tid list \<Rightarrow> bool" where
  "chan_ok c ws \<longleftrightarrow>
     q_nthreads c + unposted (c_client c) = of_nat (length (q_head c) + length ws) \<and>
     (q_finished c \<longleftrightarrow> c_client c = C_join \<or> c_client c = C_joined) \<and>
     (c_handler c = H_exited \<longrightarrow> q_finished c \<and> q_head c = [] \<and> ws = []) \<and>
     (c_client c = C_joined \<longrightarrow> c_handler c = H_exited)"

definition pool_inv :: "('a, 'b) threadpool \<Rightarrow> (tid \<Rightarrow> place) \<Rightarrow> (qid \<Rightarrow> tid list) \<Rightarrow> bool" where
  "pool_inv s own ws \<longleftrightarrow> placed s own ws \<and> threads_ok s own \<and>
     (\<forall>q. contents_ok (p_threads s) (p_chans s q) (ws q)) \<and> (\<forall>q. chan_ok (p_chans s q) (ws q)) \<and>
     (\<forall>q\<ge>p_nchans s. p_chans s q = chan_init) \<and>
     (p_destroyer s \<noteq> X_idle \<longrightarrow> (\<forall>q<p_nchans s. c_client (p_chans s q) = C_joined))"

subsection \<open>Frames\<close>

lemma set_fields [simp]:
  "p_threads (set_thread s t thr) = (p_threads s)(t := thr)" "p_chans (set_thread s t thr) = p_chans s"
  "p_head (set_thread s t thr) = p_head s" "p_count (set_thread s t thr) = p_count s" "p_max (set_thread s t thr) = p_max s"
  "p_fresh (set_thread s t thr) = p_fresh s" "p_nchans (set_thread s t thr) = p_nchans s"
  "p_destroyer (set_thread s t thr) = p_destroyer s"
  "p_chans (set_chan s q c) = (p_chans s)(q := c)" "p_threads (set_chan s q c) = p_threads s"
  "p_head (set_chan s q c) = p_head s" "p_count (set_chan s q c) = p_count s" "p_max (set_chan s q c) = p_max s"
  "p_fresh (set_chan s q c) = p_fresh s" "p_nchans (set_chan s q c) = p_nchans s"
  "p_destroyer (set_chan s q c) = p_destroyer s"
  "p_next (set_thread s t thr) = p_next s" "p_next (set_chan s q c) = p_next s"
  by (simp_all add: set_thread_def set_chan_def)

lemma thread_ok_set_thread [simp]: "thread_ok (set_thread s t thr) = thread_ok s"
  by (intro ext) (simp add: thread_ok_def cong: place.case_cong)

text \<open>The \<open>next\<close> pointers are no part of this invariant.\<close>

lemma inv_pointers [simp]:
  "placed (s\<lparr>p_next := nx\<rparr>) = placed s" "pool_inv (s\<lparr>p_next := nx\<rparr>) = pool_inv s"
proof -
  have ok: "thread_ok (s\<lparr>p_next := nx\<rparr>) = thread_ok s"
    by (intro ext) (simp add: thread_ok_def cong: place.case_cong)
  show pl: "placed (s\<lparr>p_next := nx\<rparr>) = placed s" by (intro ext) (simp add: placed_def)
  show "pool_inv (s\<lparr>p_next := nx\<rparr>) = pool_inv s"
    by (intro ext) (simp add: pool_inv_def threads_ok_def ok pl)
qed

lemma contents_frame:
  assumes "\<forall>x. x \<in> set (q_head c) \<or> x \<in> set ws \<or> c_handler c = H_got x \<or>
      (\<exists>ordered. c_client c = C_sent x ordered) \<and> client_holds (c_client c) = Some x \<longrightarrow>
    result_of (ths' x) = result_of (ths x)"
  shows "contents_ok ths' c ws = contents_ok ths c ws"
proof -
  have "handler_part ths' (c_handler c) = handler_part ths (c_handler c)" using assms by (cases "c_handler c") auto
  moreover have "client_part ths' (c_client c) = client_part ths (c_client c)" using assms by (cases "c_client c") auto
  moreover have "map (\<lambda>t. result_of (ths' t)) (q_head c) = map (\<lambda>t. result_of (ths t)) (q_head c)"
    "map (\<lambda>t. result_of (ths' t)) ws = map (\<lambda>t. result_of (ths t)) ws" using assms by auto
  ultimately show ?thesis unfolding contents_ok_def by (simp only:)
qed

lemma placed_queues:
  "placed s own ws \<Longrightarrow> t \<in> set (q_head (p_chans s q)) \<longleftrightarrow> own t = Queued q"
  "placed s own ws \<Longrightarrow> t \<in> set (ws q) \<longleftrightarrow> own t = Away q"
  and placed_handler: "placed s own ws \<Longrightarrow> handler_holds (c_handler (p_chans s q)) = Some t \<longleftrightarrow> own t = Handled q"
  and placed_client: "placed s own ws \<Longrightarrow> client_holds (c_client (p_chans s q)) = Some t \<longleftrightarrow> own t = Held q"
  unfolding placed_def by blast+

text \<open>A thread that changes keeps the contents of every channel that does not have it.\<close>

lemma contents_other:
  assumes pl: "placed s own ws" and c: "contents_ok (p_threads s) (p_chans s q) (ws q)"
    and t: "own t \<notin> {Queued q, Away q, Handled q, Held q} \<or> result_of thr = result_of (p_threads s t)"
  shows "contents_ok ((p_threads s)(t := thr)) (p_chans s q) (ws q)"
proof -
  have got: "c_handler (p_chans s q) = H_got x \<Longrightarrow> own x = Handled q" for x
    using placed_handler [OF pl, of q x] by simp
  have sent: "client_holds (c_client (p_chans s q)) = Some x \<Longrightarrow> own x = Held q" for x
    using placed_client [OF pl, of q x] by simp
  have "contents_ok ((p_threads s)(t := thr)) (p_chans s q) (ws q) = contents_ok (p_threads s) (p_chans s q) (ws q)"
    using t got sent placed_queues [OF pl] by (intro contents_frame) auto
  with c show ?thesis by simp
qed

text \<open>A thread that changes but stays where it is, with the result it stands for.\<close>

lemma inv_thread:
  assumes iv: "pool_inv s own ws" and t: "thread_ok s (own t) thr" "result_of thr = result_of (p_threads s t)"
  shows "pool_inv (set_thread s t thr) own ws"
proof -
  have "placed (set_thread s t thr) own ws" using iv by (simp add: pool_inv_def placed_def)
  moreover have "threads_ok (set_thread s t thr) own"
    using iv t(1) by (simp add: pool_inv_def threads_ok_def)
  moreover have "contents_ok (p_threads (set_thread s t thr)) (p_chans (set_thread s t thr) q) (ws q)" for q
    using contents_other [of s own ws q t thr] iv t(2) by (simp add: pool_inv_def)
  ultimately show ?thesis using iv by (simp add: pool_inv_def)
qed

lemma invD:
  assumes "pool_inv s own ws"
  shows "placed s own ws" "t < p_fresh s \<Longrightarrow> thread_ok s (own t) (p_threads s t)"
    "contents_ok (p_threads s) (p_chans s q) (ws q)" "chan_ok (p_chans s q) (ws q)"
    "q \<ge> p_nchans s \<Longrightarrow> p_chans s q = chan_init"
    "p_destroyer s \<noteq> X_idle \<Longrightarrow> q < p_nchans s \<Longrightarrow> c_client (p_chans s q) = C_joined"
  using assms by (simp_all add: pool_inv_def threads_ok_def)

lemmas state_defs = thread_ok_def resting_def started_def posted_def away_def leaving_def

subsection \<open>The workers\<close>

lemma inv_wake:
  assumes iv: "pool_inv s own ws" and t: "t < p_fresh s" "t_pc (p_threads s t) = W_wait" "t_running (p_threads s t)"
  shows "pool_inv (worker_wake s t) own ws"
  unfolding worker_wake_def using invD(2) [OF iv t(1)] t(2,3)
  by (intro inv_thread [OF iv]) (auto simp: state_defs result_of_def split: place.splits if_splits)

lemma inv_run:
  assumes iv: "pool_inv s own ws" and t: "t < p_fresh s" "t_pc (p_threads s t) = W_woken"
  shows "\<exists>s'. worker_run s t = Some s' \<and> pool_inv s' own ws"
proof (cases "t_cb (p_threads s t)")
  case None
  let ?thr = "(p_threads s t)\<lparr>t_pc := W_exited\<rparr>"
  have "pool_inv (set_thread s t ?thr) own ws"
    using invD(2) [OF iv t(1)] t(2) None
    by (intro inv_thread [OF iv]) (auto simp: state_defs result_of_def split: place.splits if_splits)
  then show ?thesis using None by (simp add: worker_run_def)
next
  case (Some cb)
  have "t_arg (p_threads s t) \<noteq> None"
    using invD(2) [OF iv t(1)] t(2) Some by (auto simp: state_defs split: place.splits if_splits)
  then obtain arg where arg: "t_arg (p_threads s t) = Some arg" by blast
  let ?thr = "(p_threads s t)\<lparr>t_res := cb arg, t_cb := None, t_arg := None, t_rq := None, t_pc := W_ran (t_rq (p_threads s t))\<rparr>"
  have "pool_inv (set_thread s t ?thr) own ws"
    using invD(2) [OF iv t(1)] t(2) Some arg
    by (intro inv_thread [OF iv]) (auto simp: state_defs result_of_def split: place.splits if_splits)
  then show ?thesis using Some arg by (simp add: worker_run_def Let_def)
qed

lemma inv_stop:
  assumes iv: "pool_inv s own ws" and t: "t < p_fresh s" "t_pc (p_threads s t) = W_ran rq"
  shows "pool_inv (worker_stop s t rq) own ws"
  unfolding worker_stop_def using invD(2) [OF iv t(1)] t(2)
  by (intro inv_thread [OF iv]) (auto simp: state_defs result_of_def split: place.splits if_splits option.splits)

subsection \<open>Steps that move a thread\<close>

lemma thread_ok_chan:
  assumes "p_chans s' = (p_chans s)(q := c)"
    and "pl = Held q \<Longrightarrow> client_starts (c_client c) = client_starts (c_client (p_chans s q))"
    and "pl = Handled q \<Longrightarrow> handler_waits (c_handler c) = handler_waits (c_handler (p_chans s q))"
  shows "thread_ok s' pl thr = thread_ok s pl thr"
  using assms by (cases pl) (auto simp: thread_ok_def)

lemma inv_move:
  assumes iv: "pool_inv s own ws" and q: "q < p_nchans s"
    and s': "p_threads s' = (p_threads s)(t := thr)" "p_chans s' = (p_chans s)(q := c)" "p_nchans s' = p_nchans s"
      "p_destroyer s' = p_destroyer s" "\<forall>x<p_fresh s'. x \<noteq> t \<longrightarrow> x < p_fresh s"
    and t: "own t \<in> {Queued q, Away q, Handled q, Held q, Idle, Nowhere}"
    and pl: "placed s' (own(t := pl)) (ws(q := w))"
    and thr: "t < p_fresh s' \<Longrightarrow> thread_ok s' pl thr"
    and held: "\<And>x. x \<noteq> t \<Longrightarrow> own x = Held q \<Longrightarrow> client_starts (c_client c) = client_starts (c_client (p_chans s q))"
    and handled: "\<And>x. x \<noteq> t \<Longrightarrow> own x = Handled q \<Longrightarrow> handler_waits (c_handler c) = handler_waits (c_handler (p_chans s q))"
    and contents: "contents_ok ((p_threads s)(t := thr)) c w"
    and chan: "chan_ok c w" and joined: "c_client (p_chans s q) = C_joined \<longrightarrow> c_client c = C_joined"
  shows "pool_inv s' (own(t := pl)) (ws(q := w))"
proof -
  have pl0: "placed s own ws" using iv by (rule invD)
  have "thread_ok s' ((own(t := pl)) x) (p_threads s' x)" if x: "x < p_fresh s'" for x
  proof (cases "x = t")
    case True
    then show ?thesis using thr x s'(1) by simp
  next
    case False
    have "thread_ok s' (own x) (p_threads s x) = thread_ok s (own x) (p_threads s x)"
      using held [OF False] handled [OF False] by (rule thread_ok_chan [OF s'(2)])
    then show ?thesis using invD(2) [OF iv] s'(1,5) x False by simp
  qed
  then have "threads_ok s' (own(t := pl))" by (simp add: threads_ok_def)
  moreover have "contents_ok (p_threads s') (p_chans s' q') ((ws(q := w)) q')" for q'
  proof (cases "q' = q")
    case True
    then show ?thesis using contents s'(1,2) by simp
  next
    case False
    have "contents_ok ((p_threads s)(t := thr)) (p_chans s q') (ws q')"
      using t False by (intro contents_other [OF pl0] invD(3) [OF iv]) auto
    then show ?thesis using False s'(1,2) by simp
  qed
  moreover have "chan_ok (p_chans s' q') ((ws(q := w)) q')" for q'
    using chan invD(4) [OF iv] s'(2) by simp
  moreover have "\<forall>q'\<ge>p_nchans s'. p_chans s' q' = chan_init" using invD(5) [OF iv] q s'(2,3) by simp
  moreover have "p_destroyer s' \<noteq> X_idle \<longrightarrow> (\<forall>q'<p_nchans s'. c_client (p_chans s' q') = C_joined)"
    using invD(6) [OF iv] s'(2,3,4) joined q by simp
  ultimately show ?thesis using pl by (simp add: pool_inv_def)
qed

lemma inv_chan:
  assumes iv: "pool_inv s own ws" and q: "q < p_nchans s"
    and holds: "client_holds (c_client c) = client_holds (c_client (p_chans s q))"
      "handler_holds (c_handler c) = handler_holds (c_handler (p_chans s q))" "q_head c = q_head (p_chans s q)"
      "client_starts (c_client c) = client_starts (c_client (p_chans s q))"
      "handler_waits (c_handler c) = handler_waits (c_handler (p_chans s q))"
    and contents: "contents_ok (p_threads s) c (ws q)"
    and chan: "chan_ok c (ws q)" and joined: "c_client (p_chans s q) = C_joined \<longrightarrow> c_client c = C_joined"
  shows "pool_inv (set_chan s q c) own ws"
proof -
  have "own (p_fresh s) = Nowhere" using invD(1) [OF iv] by (auto simp: placed_def)
  moreover have "placed (set_chan s q c) own ws" using invD(1) [OF iv] holds by (simp add: placed_def)
  ultimately show ?thesis
    using inv_move [OF iv q, of "set_chan s q c" "p_fresh s" "p_threads s (p_fresh s)" c "Nowhere" "ws q"]
      holds contents chan joined
    by (simp add: fun_upd_idem)
qed

lemma card_place: "own t \<noteq> Nowhere \<Longrightarrow> pl \<noteq> Nowhere \<Longrightarrow> {x. (own(t := pl)) x \<noteq> Nowhere} = {x. own x \<noteq> Nowhere}"
  by auto

subsection \<open>The calls and the client\<close>

lemma inv_dispatch_call:
  assumes iv: "pool_inv s own ws" and q: "q < p_nchans s" and c: "c_client (p_chans s q) = C_idle"
  shows "pool_inv (dispatch_call s q ordered cb arg) own ws"
  unfolding dispatch_call_def Let_def using invD(3,4) [OF iv, of q] c
  by (intro inv_chan [OF iv q]) (auto simp: contents_ok_def chan_ok_def in_order_def client_starts_def)

lemma inv_finish:
  assumes iv: "pool_inv s own ws" and q: "q < p_nchans s" and c: "c_client (p_chans s q) = C_idle"
  shows "pool_inv (resultq_finish s q) own ws"
  unfolding resultq_finish_def using invD(3,4) [OF iv, of q] c
  by (intro inv_chan [OF iv q]) (auto simp: contents_ok_def chan_ok_def in_order_def client_starts_def)

lemma inv_join:
  assumes iv: "pool_inv s own ws" and q: "q < p_nchans s" and c: "c_client (p_chans s q) = C_join" "c_handler (p_chans s q) = H_exited"
  shows "pool_inv (handler_join s q) own ws"
  unfolding handler_join_def using invD(3,4) [OF iv, of q] c
  by (intro inv_chan [OF iv q]) (auto simp: contents_ok_def chan_ok_def in_order_def client_starts_def)

lemma inv_call:
  assumes iv: "pool_inv s own ws" and q: "q < p_nchans s" and h: "c_handler (p_chans s q) = H_call res"
  shows "pool_inv (result_call s q res) own ws"
  unfolding result_call_def Let_def using invD(3,4) [OF iv, of q] h
  by (intro inv_chan [OF iv q]) (auto simp: contents_ok_def chan_ok_def in_order_def handler_waits_def)

lemma placed_facts:
  assumes "placed s own ws"
  shows "distinct (p_head s)" "t \<in> set (p_head s) \<longleftrightarrow> own t = Idle" "distinct (q_head (p_chans s q))"
    "t \<in> set (q_head (p_chans s q)) \<longleftrightarrow> own t = Queued q" "distinct (ws q)" "t \<in> set (ws q) \<longleftrightarrow> own t = Away q"
    "handler_holds (c_handler (p_chans s q)) = Some t \<longleftrightarrow> own t = Handled q"
    "client_holds (c_client (p_chans s q)) = Some t \<longleftrightarrow> own t = Held q"
    "p_destroyer s = X_join t \<longleftrightarrow> own t = Leaving" "own t \<noteq> Nowhere \<Longrightarrow> t < p_fresh s"
    "card {t. own t \<noteq> Nowhere} = p_count s" "p_count s \<le> p_max s"
  using assms unfolding placed_def by blast+

lemma placed_move:
  assumes pl0: "placed s own ws"
    and s': "p_chans s' = (p_chans s)(q := c)" "p_destroyer s' = p_destroyer s" "p_fresh s' = p_fresh s"
      "p_count s' = p_count s" "p_max s' = p_max s"
    and t: "own t \<in> {Queued q, Away q, Handled q, Held q, Idle}" "pl \<in> {Queued q, Away q, Handled q, Held q, Idle}"
    and idle: "distinct (p_head s')" "\<And>x. x \<in> set (p_head s') \<longleftrightarrow> (if x = t then pl = Idle else own x = Idle)"
    and queue: "distinct (q_head c)" "\<And>x. x \<in> set (q_head c) \<longleftrightarrow> (if x = t then pl = Queued q else own x = Queued q)"
    and aw: "distinct w" "\<And>x. x \<in> set w \<longleftrightarrow> (if x = t then pl = Away q else own x = Away q)"
    and handler: "\<And>x. handler_holds (c_handler c) = Some x \<longleftrightarrow> (if x = t then pl = Handled q else own x = Handled q)"
    and client: "\<And>x. client_holds (c_client c) = Some x \<longleftrightarrow> (if x = t then pl = Held q else own x = Held q)"
  shows "placed s' (own(t := pl)) (ws(q := w))"
proof -
  note pl = placed_facts [OF pl0]
  have no: "own t \<noteq> Nowhere" "pl \<noteq> Nowhere" "own t \<noteq> Leaving" "pl \<noteq> Leaving" using t by auto
  have other: "q' \<noteq> q \<Longrightarrow> own t \<notin> {Queued q', Away q', Handled q', Held q'} \<and> pl \<notin> {Queued q', Away q', Handled q', Held q'}" for q'
    using t by auto
  have "card {x. (own(t := pl)) x \<noteq> Nowhere} = p_count s'" unfolding card_place [of own, OF no(1,2)] s'(4) by (rule pl(11))
  moreover have "\<forall>q'. distinct (q_head (p_chans s' q'))" using queue(1) pl(3) s'(1) by simp
  moreover have "\<forall>q' x. x \<in> set (q_head (p_chans s' q')) \<longleftrightarrow> (own(t := pl)) x = Queued q'"
    using queue(2) pl(4) s'(1) other by (auto split: if_splits)
  moreover have "\<forall>q'. distinct ((ws(q := w)) q')" using aw(1) pl(5) by simp
  moreover have "\<forall>q' x. x \<in> set ((ws(q := w)) q') \<longleftrightarrow> (own(t := pl)) x = Away q'"
    using aw(2) pl(6) other by (auto split: if_splits)
  moreover have "\<forall>q' x. handler_holds (c_handler (p_chans s' q')) = Some x \<longleftrightarrow> (own(t := pl)) x = Handled q'"
    using handler pl(7) s'(1) other by (auto split: if_splits)
  moreover have "\<forall>q' x. client_holds (c_client (p_chans s' q')) = Some x \<longleftrightarrow> (own(t := pl)) x = Held q'"
    using client pl(8) s'(1) other by (auto split: if_splits)
  moreover have "\<forall>x. p_destroyer s' = X_join x \<longleftrightarrow> (own(t := pl)) x = Leaving" using pl(9) s'(2) no by simp
  moreover have "\<forall>x. (own(t := pl)) x \<noteq> Nowhere \<longrightarrow> x < p_fresh s'" using pl(10) s'(3) no by simp
  ultimately show ?thesis using idle pl(12) s'(4,5) by (simp add: placed_def)
qed

text \<open>The thread a client holds before it starts it does not count in the contents.\<close>

lemma contents_has:
  assumes pl: "placed s own ws" and c: "contents_ok (p_threads s) (p_chans s q) (ws q)"
    and h: "c_client (p_chans s q) = C_has t ordered cb arg"
  shows "contents_ok ((p_threads s)(t := thr)) (p_chans s q) (ws q)"
proof -
  have "own t = Held q" using placed_facts(8) [OF pl, of q t] h by simp
  then have "contents_ok ((p_threads s)(t := thr)) (p_chans s q) (ws q) = contents_ok (p_threads s) (p_chans s q) (ws q)"
    using placed_facts(4,6) [OF pl, of t q] placed_facts(7) [OF pl, of q t] h by (intro contents_frame) auto
  with c show ?thesis by simp
qed

text \<open>An empty queue has its tail pointer at its head.\<close>

definition tail_ok :: "('a, 'b) chan \<Rightarrow> bool" where
  "tail_ok c \<longleftrightarrow> q_ptail c = (if q_head c = [] then None else Some (last (q_head c)))"

lemma chan_append_tail:
  "tail_ok c \<Longrightarrow> chan_append c t = c\<lparr>q_head := q_head c @ [t], q_ptail := Some t\<rparr>"
  by (simp add: tail_ok_def chan_append_def)

lemma tail_ok_nthreads [simp]: "tail_ok (c\<lparr>q_nthreads := n\<rparr>) = tail_ok c"
  by (simp add: tail_ok_def)

lemma inv_start:
  assumes iv: "pool_inv s own ws" and q: "q < p_nchans s" and c: "c_client (p_chans s q) = C_has t ordered cb arg"
    and nx: "p_next s t = None"
  shows "\<exists>s' own' ws'. dispatch_start s q t ordered cb arg = Some s' \<and> pool_inv s' own' ws'"
proof -
  note pl = placed_facts [OF invD(1) [OF iv]]
  have own: "own t = Held q" using pl(8) [of q t] c by simp
  have held: "x \<noteq> t \<Longrightarrow> own x \<noteq> Held q" for x using pl(8) [of q x] c by auto
  have fresh: "t < p_fresh s" using pl(10) own by simp
  have rest: "resting (p_threads s t)" using invD(2) [OF iv fresh] own c by (simp add: thread_ok_def)
  let ?thr = "(p_threads s t)\<lparr>t_rq := (if ordered then None else Some q), t_cb := Some cb, t_arg := Some arg, t_running := True\<rparr>"
  let ?c = "(p_chans s q)\<lparr>c_client := C_sent t ordered\<rparr>"
  let ?s = "set_chan (set_thread s t ?thr) q ?c"
  let ?pl = "if ordered then Held q else Away q" and ?w = "if ordered then ws q else ws q @ [t]"
  have res: "result_of ?thr = cb arg" by (simp add: result_of_def)
  have step: "dispatch_start s q t ordered cb arg = Some ?s"
    using rest nx by (simp add: dispatch_start_def resting_def)
  have "pool_inv ?s (own(t := ?pl)) (ws(q := ?w))"
  proof (rule inv_move [OF iv q, where thr = ?thr and c = ?c])
    show "placed ?s (own(t := ?pl)) (ws(q := ?w))"
      by (rule placed_move [OF invD(1) [OF iv]]) (use pl(1-8) held own c in \<open>auto split: if_splits\<close>)
    show "contents_ok ((p_threads s)(t := ?thr)) ?c ?w"
      using contents_has [OF invD(1,3) [OF iv] c, of ?thr] res c by (auto simp: contents_ok_def in_order_def)
    show "chan_ok ?c ?w" using invD(4) [OF iv, of q] c by (auto simp: chan_ok_def)
  qed (use own rest c held in \<open>auto simp: state_defs client_starts_def\<close>)
  with step show ?thesis by blast
qed

lemma inv_post:
  assumes iv: "pool_inv s own ws" and q: "q < p_nchans s" and c: "c_client (p_chans s q) = C_sent t ordered"
    and tail: "tail_ok (p_chans s q)"
  shows "\<exists>s' own' ws'. dispatch_post s q t ordered = Some s' \<and> pool_inv s' own' ws'"
proof -
  note pl = placed_facts [OF invD(1) [OF iv]]
  have fin: "\<not> q_finished (p_chans s q)" using invD(4) [OF iv, of q] c by (simp add: chan_ok_def)
  show ?thesis
  proof (cases ordered)
    case True
    have own: "own t = Held q" using pl(8) [of q t] c True by simp
    have held: "x \<noteq> t \<Longrightarrow> own x \<noteq> Held q" for x using pl(8) [of q x] c True by auto
    let ?c = "(p_chans s q)\<lparr>q_nthreads := q_nthreads (p_chans s q) + 1, q_head := q_head (p_chans s q) @ [t],
      q_ptail := Some t, c_client := C_idle\<rparr>"
    have "pool_inv (set_chan s q ?c) (own(t := Queued q)) (ws(q := ws q))"
    proof (rule inv_move [OF iv q, where thr = "p_threads s t" and c = ?c])
      show "placed (set_chan s q ?c) (own(t := Queued q)) (ws(q := ws q))"
        by (rule placed_move [OF invD(1) [OF iv]]) (use pl(1-8) held own c True in \<open>auto split: if_splits\<close>)
      show "contents_ok ((p_threads s)(t := p_threads s t)) ?c (ws q)"
        using invD(3) [OF iv, of q] c True by (auto simp: contents_ok_def in_order_def)
      show "chan_ok ?c (ws q)" using invD(4) [OF iv, of q] c True by (auto simp: chan_ok_def ac_simps)
    qed (use invD(2) [OF iv, of t] pl(10) [of t] own c True held in \<open>auto simp: thread_ok_def client_starts_def\<close>)
    then show ?thesis using fin True tail by (auto simp: dispatch_post_def Let_def chan_append_tail)
  next
    case False
    let ?c = "(p_chans s q)\<lparr>q_nthreads := q_nthreads (p_chans s q) + 1, c_client := C_idle\<rparr>"
    have "pool_inv (set_chan s q ?c) own ws"
      using invD(3,4) [OF iv, of q] c False
      by (intro inv_chan [OF iv q]) (auto simp: contents_ok_def chan_ok_def in_order_def client_starts_def ac_simps)
    then show ?thesis using fin False by (auto simp: dispatch_post_def Let_def)
  qed
qed

lemma inv_next:
  assumes iv: "pool_inv s own ws" and q: "q < p_nchans s" and c: "c_client (p_chans s q) = C_next ordered cb arg"
    and g: "p_head s \<noteq> [] \<or> p_count s \<noteq> p_max s"
  shows "\<exists>s' own' ws'. threadpool_next s q ordered cb arg = Some s' \<and> pool_inv s' own' ws'"
proof (cases "p_head s")
  case (Cons t ts)
  note pl = placed_facts [OF invD(1) [OF iv]]
  have held: "own x \<noteq> Held q" for x using pl(8) [of q x] c by auto
  have idle: "t \<notin> set ts" "distinct ts" "x \<in> set ts \<longleftrightarrow> x \<noteq> t \<and> own x = Idle" for x using pl(1) pl(2) [of x] Cons by auto
  have own: "own t = Idle" using pl(2) [of t] Cons by simp
  have rest: "resting (p_threads s t)" using invD(2) [OF iv, of t] pl(10) [of t] own by (simp add: thread_ok_def)
  let ?c = "(p_chans s q)\<lparr>c_client := C_has t ordered cb arg\<rparr>"
  let ?s = "(set_chan s q ?c)\<lparr>p_head := ts\<rparr>"
  have "pool_inv ?s (own(t := Held q)) (ws(q := ws q))"
  proof (rule inv_move [OF iv q, where thr = "p_threads s t" and c = ?c])
    show "placed ?s (own(t := Held q)) (ws(q := ws q))"
      by (rule placed_move [OF invD(1) [OF iv]]) (use pl(1-8) held own c Cons idle in \<open>auto split: if_splits\<close>)
    show "contents_ok ((p_threads s)(t := p_threads s t)) ?c (ws q)"
      using invD(3) [OF iv, of q] c by (auto simp: contents_ok_def in_order_def)
    show "chan_ok ?c (ws q)" using invD(4) [OF iv, of q] c by (auto simp: chan_ok_def)
  qed (use own rest c held in \<open>auto simp: thread_ok_def\<close>)
  then show ?thesis using Cons rest by (auto simp: threadpool_next_def resting_def)
next
  case Nil
  note pl = placed_facts [OF invD(1) [OF iv]]
  let ?t = "p_fresh s"
  let ?c = "(p_chans s q)\<lparr>c_client := C_has ?t ordered cb arg\<rparr>"
  let ?s = "(set_thread (set_chan s q ?c) ?t thread_init)\<lparr>p_count := p_count s + 1, p_fresh := ?t + 1\<rparr>"
  have own: "own ?t = Nowhere" using pl(10) by blast
  have only: "\<forall>x. own x \<noteq> Held q" using pl(8) [of q] c by auto
  have "{x. own x \<noteq> Nowhere} \<subseteq> {..<?t}" using pl(10) by auto
  then have fin: "finite {x. own x \<noteq> Nowhere}" by (rule finite_subset) simp
  have "{x. (own(?t := Held q)) x \<noteq> Nowhere} = insert ?t {x. own x \<noteq> Nowhere}" by auto
  then have "card {x. (own(?t := Held q)) x \<noteq> Nowhere} = p_count s + 1" using fin own pl(11) by simp
  moreover have "p_count s + 1 \<le> p_max s" using g Nil pl(12) by simp
  moreover have "\<forall>x. own x \<noteq> Nowhere \<longrightarrow> x < Suc ?t" using pl(10) less_SucI by blast
  ultimately have placed: "placed ?s (own(?t := Held q)) (ws(q := ws q))"
    using invD(1) [OF iv] own c Nil only unfolding placed_def by auto
  have "pool_inv ?s (own(?t := Held q)) (ws(q := ws q))"
  proof (rule inv_move [OF iv q, where thr = thread_init and c = ?c])
    have "contents_ok ((p_threads s)(?t := thread_init)) (p_chans s q) (ws q)"
      using own by (intro contents_other [OF invD(1,3) [OF iv]]) simp
    then show "contents_ok ((p_threads s)(?t := thread_init)) ?c (ws q)"
      using c by (auto simp: contents_ok_def in_order_def)
    show "chan_ok ?c (ws q)" using invD(4) [OF iv, of q] c by (auto simp: chan_ok_def)
  qed (use placed own c only in \<open>auto simp: thread_ok_def thread_init_def resting_def less_Suc_eq\<close>)
  then show ?thesis using Nil by (auto simp: threadpool_next_def Let_def)
qed

subsection \<open>The result handler\<close>

lemma inv_push:
  assumes iv: "pool_inv s own ws" and t: "t < p_fresh s" "t_pc (p_threads s t) = W_push q"
    and tail: "tail_ok (p_chans s q)"
  shows "\<exists>own' ws'. pool_inv (worker_push s t q) own' ws'"
proof -
  note pl = placed_facts [OF invD(1) [OF iv]]
  have own: "own t = Away q" and aw: "away q (p_threads s t)"
    using invD(2) [OF iv t(1)] t(2) by (auto simp: state_defs split: place.splits if_splits)
  have mem: "t \<in> set (ws q)" using pl(6) [of t q] own by simp
  have q: "q < p_nchans s"
  proof (rule ccontr)
    assume "\<not> q < p_nchans s"
    then have "p_chans s q = chan_init" using invD(5) [OF iv] by simp
    then have "ws q = []" using invD(3) [OF iv, of q] by (simp add: contents_ok_def chan_init_def)
    with mem show False by simp
  qed
  let ?thr = "(p_threads s t)\<lparr>t_pc := W_wait\<rparr>" and ?w = "remove1 t (ws q)"
  let ?c = "(p_chans s q)\<lparr>q_head := q_head (p_chans s q) @ [t], q_ptail := Some t\<rparr>"
  have res: "result_of ?thr = result_of (p_threads s t)" by (simp add: result_of_def split: option.split)
  have "pool_inv (worker_push s t q) (own(t := Queued q)) (ws(q := ?w))"
    unfolding worker_push_def Let_def inv_pointers chan_append_tail [OF tail]
  proof (rule inv_move [OF iv q, where thr = ?thr and c = ?c])
    show "placed (set_chan (set_thread s t ?thr) q ?c) (own(t := Queued q)) (ws(q := ?w))"
      by (rule placed_move [OF invD(1) [OF iv]]) (use pl(1-8) own in \<open>auto split: if_splits\<close>)
    have "contents_ok ((p_threads s)(t := ?thr)) (p_chans s q) (ws q)"
      using contents_other [OF invD(1,3) [OF iv], of t q ?thr] res by simp
    moreover have w: "mset (ws q) = mset (t # ?w)" using mem by simp
    then have "mset (map g (ws q)) = mset (g t # map g ?w)" for g :: "tid \<Rightarrow> 'b option"
      by (simp only: mset_map list.map [symmetric])
    ultimately show "contents_ok ((p_threads s)(t := ?thr)) ?c ?w"
      using mem by (auto simp: contents_ok_def in_order_def simp del: fun_upd_apply)
    have "length (ws q) = Suc (length ?w)" using mset_eq_length [OF w] by simp
    then show "chan_ok ?c ?w" using invD(4) [OF iv, of q] mem by (auto simp: chan_ok_def)
  qed (use own aw t in \<open>auto simp: state_defs client_starts_def handler_waits_def\<close>)
  then show ?thesis by blast
qed

lemma inv_take:
  assumes iv: "pool_inv s own ws" and q: "q < p_nchans s" and h: "c_handler (p_chans s q) = H_wait" and max: "p_max s < 2 ^ 64"
    and g: "q_head (p_chans s q) \<noteq> [] \<or> q_finished (p_chans s q) \<and> q_nthreads (p_chans s q) = 0"
  shows "\<exists>s' own' ws'. resultq_take s q = Some s' \<and> pool_inv s' own' ws'"
proof (cases "q_head (p_chans s q)")
  case (Cons t ts)
  note pl = placed_facts [OF invD(1) [OF iv]]
  have own: "own t = Queued q" using pl(4) [of t q] Cons by simp
  have none: "own x \<noteq> Handled q" for x using pl(7) [of q x] h by simp
  have post: "posted (p_threads s t)" using invD(2) [OF iv, of t] pl(10) [of t] own by (simp add: thread_ok_def)
  have rest: "t \<notin> set ts" "distinct ts" "x \<in> set ts \<longleftrightarrow> x \<noteq> t \<and> own x = Queued q" for x
    using pl(3) [of q] pl(4) [of x q] Cons by auto
  let ?c = "(p_chans s q)\<lparr>q_head := ts, q_nthreads := q_nthreads (p_chans s q) - 1,
    q_ptail := (if ts = [] then None else q_ptail (p_chans s q)), c_handler := H_got t\<rparr>"
  have "pool_inv (set_chan s q ?c) (own(t := Handled q)) (ws(q := ws q))"
  proof (rule inv_move [OF iv q, where thr = "p_threads s t" and c = ?c])
    show "placed (set_chan s q ?c) (own(t := Handled q)) (ws(q := ws q))"
      by (rule placed_move [OF invD(1) [OF iv]]) (use pl(1-8) none own rest in \<open>auto split: if_splits\<close>)
    show "contents_ok ((p_threads s)(t := p_threads s t)) ?c (ws q)"
      using invD(3) [OF iv, of q] h Cons by (auto simp: contents_ok_def in_order_def)
    show "chan_ok ?c (ws q)" using invD(4) [OF iv, of q] h Cons by (auto simp: chan_ok_def algebra_simps)
  qed (use own post none in \<open>auto simp: thread_ok_def\<close>)
  then have "pool_inv ((set_chan s q ?c)\<lparr>p_next := (p_next s)(t := None)\<rparr>) (own(t := Handled q)) (ws(q := ws q))"
    by (simp only: inv_pointers)
  moreover have "resultq_take s q = Some ((set_chan s q ?c)\<lparr>p_next := (p_next s)(t := None)\<rparr>)"
    using Cons by (simp add: resultq_take_def Let_def)
  ultimately show ?thesis by blast
next
  case Nil
  note pl = placed_facts [OF invD(1) [OF iv]]
  let ?c = "(p_chans s q)\<lparr>c_handler := H_exited\<rparr>"
  have fin: "q_finished (p_chans s q)" "q_nthreads (p_chans s q) = 0" using g Nil by auto
  have "{t. own t \<noteq> Nowhere} \<subseteq> {..<p_fresh s}" using pl(10) by auto
  then have finite: "finite {t. own t \<noteq> Nowhere}" by (rule finite_subset) simp
  have "set (ws q) \<subseteq> {t. own t \<noteq> Nowhere}" using pl(6) [of _ q] by auto
  then have "card (set (ws q)) \<le> p_count s" unfolding pl(11) [symmetric] by (rule card_mono [OF finite])
  then have "length (ws q) < 2 ^ LENGTH(64)" using distinct_card [OF pl(5) [of q]] pl(12) max by simp
  then have "unat (of_nat (length (ws q)) :: u64) = length (ws q)" by (rule unat_of_nat_small)
  moreover have "(of_nat (length (ws q)) :: u64) = 0"
    using invD(4) [OF iv, of q] fin Nil by (auto simp: chan_ok_def)
  ultimately have ws: "ws q = []" by simp
  have "pool_inv (set_chan s q ?c) own ws"
    using invD(3,4) [OF iv, of q] h fin Nil ws
    by (intro inv_chan [OF iv q]) (auto simp: contents_ok_def chan_ok_def in_order_def handler_waits_def)
  then show ?thesis using Nil fin by (auto simp: resultq_take_def Let_def)
qed

lemma inv_collect:
  assumes iv: "pool_inv s own ws" and q: "q < p_nchans s" and h: "c_handler (p_chans s q) = H_got t" "\<not> t_running (p_threads s t)"
  shows "\<exists>own' ws'. pool_inv (resultq_collect s q t) own' ws'"
proof -
  note pl = placed_facts [OF invD(1) [OF iv]]
  have own: "own t = Handled q" using pl(7) [of q t] h by simp
  have only: "x \<noteq> t \<Longrightarrow> own x \<noteq> Handled q" for x using pl(7) [of q x] h by auto
  have post: "posted (p_threads s t)" using invD(2) [OF iv, of t] pl(10) [of t] own h by (simp add: thread_ok_def)
  let ?thr = "(p_threads s t)\<lparr>t_res := None\<rparr>"
  let ?c = "(p_chans s q)\<lparr>c_handler := H_return t (t_res (p_threads s t))\<rparr>"
  have res: "result_of (p_threads s t) = t_res (p_threads s t)"
    using post h(2) by (auto simp: result_of_def posted_def started_def)
  have "pool_inv (resultq_collect s q t) (own(t := Handled q)) (ws(q := ws q))"
    unfolding resultq_collect_def
  proof (rule inv_move [OF iv q, where thr = ?thr and c = ?c])
    show "placed (set_chan (set_thread s t ?thr) q ?c) (own(t := Handled q)) (ws(q := ws q))"
      by (rule placed_move [OF invD(1) [OF iv]]) (use pl(1-8) only own h in \<open>auto split: if_splits\<close>)
    have "contents_ok ((p_threads s)(t := ?thr)) ?c (ws q) = contents_ok (p_threads s) ?c (ws q)"
      using pl(4) [of t q] pl(6) [of t q] pl(8) [of q t] own by (intro contents_frame) auto
    moreover have "contents_ok (p_threads s) ?c (ws q)"
      using invD(3) [OF iv, of q] h(1) res by (auto simp: contents_ok_def in_order_def)
    ultimately show "contents_ok ((p_threads s)(t := ?thr)) ?c (ws q)" by simp
    show "chan_ok ?c (ws q)" using invD(4) [OF iv, of q] h by (auto simp: chan_ok_def)
  qed (use own post h only in \<open>auto simp: state_defs\<close>)
  then show ?thesis by blast
qed

lemma inv_return:
  assumes iv: "pool_inv s own ws" and q: "q < p_nchans s" and h: "c_handler (p_chans s q) = H_return t res"
  shows "\<exists>own' ws'. pool_inv (resultq_return s q t res) own' ws'"
proof -
  note pl = placed_facts [OF invD(1) [OF iv]]
  have own: "own t = Handled q" using pl(7) [of q t] h by simp
  have only: "x \<noteq> t \<Longrightarrow> own x \<noteq> Handled q" for x using pl(7) [of q x] h by auto
  have rest: "resting (p_threads s t)" using invD(2) [OF iv, of t] pl(10) [of t] own h by (simp add: thread_ok_def)
  let ?c = "(p_chans s q)\<lparr>c_handler := H_call res\<rparr>"
  have "pool_inv (resultq_return s q t res) (own(t := Idle)) (ws(q := ws q))"
    unfolding resultq_return_def inv_pointers
  proof (rule inv_move [OF iv q, where thr = "p_threads s t" and c = ?c])
    show "placed ((set_chan s q ?c)\<lparr>p_head := t # p_head s\<rparr>) (own(t := Idle)) (ws(q := ws q))"
      by (rule placed_move [OF invD(1) [OF iv]]) (use pl(1-8) only own h in \<open>auto split: if_splits\<close>)
    show "contents_ok ((p_threads s)(t := p_threads s t)) ?c (ws q)"
      using invD(3) [OF iv, of q] h by (auto simp: contents_ok_def in_order_def)
    show "chan_ok ?c (ws q)" using invD(4) [OF iv, of q] h by (auto simp: chan_ok_def)
  qed (use own rest only in \<open>auto simp: thread_ok_def\<close>)
  then show ?thesis by blast
qed

subsection \<open>The pool itself\<close>

lemma inv_init: "pool_inv (threadpool_init n) (\<lambda>_. Nowhere) (\<lambda>_. [])"
  by (simp add: pool_inv_def placed_def threads_ok_def contents_ok_def chan_ok_def in_order_def threadpool_init_def chan_init_def)

lemma new_client_eq:
  assumes "pool_inv s own ws"
  shows "result_handler_init s = s\<lparr>p_nchans := p_nchans s + 1\<rparr>"
proof -
  have "p_chans s (p_nchans s) = chan_init" using invD(5) [OF assms] by simp
  then show ?thesis by (simp add: result_handler_init_def set_chan_def fun_upd_idem)
qed

lemma inv_new_client:
  assumes iv: "pool_inv s own ws" and x: "p_destroyer s = X_idle"
  shows "pool_inv (result_handler_init s) own ws"
proof -
  note new_client_eq [OF iv]
  moreover have "thread_ok (s\<lparr>p_nchans := p_nchans s + 1\<rparr>) = thread_ok s"
    by (intro ext) (simp add: thread_ok_def cong: place.case_cong)
  ultimately show ?thesis using iv x by (simp add: pool_inv_def placed_def threads_ok_def)
qed

lemma inv_destroy:
  assumes iv: "pool_inv s own ws" and x: "p_destroyer s = X_idle" "\<forall>q<p_nchans s. c_client (p_chans s q) = C_joined"
  shows "pool_inv (s\<lparr>p_destroyer := X_loop\<rparr>) own ws"
proof -
  have "thread_ok (s\<lparr>p_destroyer := X_loop\<rparr>) = thread_ok s"
    by (intro ext) (simp add: thread_ok_def cong: place.case_cong)
  then show ?thesis using iv x by (simp add: pool_inv_def placed_def threads_ok_def)
qed

lemma inv_destroyer:
  assumes "pool_inv s own ws" and "p_destroyer s \<noteq> X_idle" and "placed (s\<lparr>p_destroyer := x, p_head := h, p_count := m\<rparr>) own' ws"
    and "\<forall>t<p_fresh s. thread_ok s (own' t) (p_threads s t)"
  shows "pool_inv (s\<lparr>p_destroyer := x, p_head := h, p_count := m\<rparr>) own' ws"
proof -
  have "thread_ok (s\<lparr>p_destroyer := x, p_head := h, p_count := m\<rparr>) = thread_ok s"
    by (intro ext) (simp add: thread_ok_def cong: place.case_cong)
  then show ?thesis using assms by (simp add: pool_inv_def threads_ok_def)
qed

lemma inv_loop:
  assumes iv: "pool_inv s own ws" and x: "p_destroyer s = X_loop" "p_count s = 0 \<or> p_head s \<noteq> []"
  shows "\<exists>s' own' ws'. destroy_loop s = Some s' \<and> pool_inv s' own' ws'"
proof (cases "p_count s = 0")
  case True
  have "thread_ok (s\<lparr>p_destroyer := X_destroyed\<rparr>) = thread_ok s"
    by (intro ext) (simp add: thread_ok_def cong: place.case_cong)
  moreover have "\<forall>t. own t \<noteq> Leaving" using placed_facts(9) [OF invD(1) [OF iv]] x(1) by auto
  ultimately have "pool_inv (s\<lparr>p_destroyer := X_destroyed\<rparr>) own ws"
    using iv x(1) by (simp add: pool_inv_def placed_def threads_ok_def)
  then show ?thesis using True by (auto simp: destroy_loop_def)
next
  case False
  then obtain t ts where h: "p_head s = t # ts" using x(2) by (cases "p_head s") auto
  note pl = placed_facts [OF invD(1) [OF iv]]
  have own: "own t = Idle" using pl(2) [of t] h by simp
  have rest: "resting (p_threads s t)" using invD(2) [OF iv, of t] pl(10) [of t] own by (simp add: thread_ok_def)
  have idle: "t \<notin> set ts" "distinct ts" "x \<in> set ts \<longleftrightarrow> x \<noteq> t \<and> own x = Idle" for x using pl(1) pl(2) [of x] h by auto
  have none: "own x \<noteq> Leaving" for x using pl(9) [of x] x(1) by simp
  let ?thr = "(p_threads s t)\<lparr>t_running := True\<rparr>"
  let ?s = "(set_thread s t ?thr)\<lparr>p_head := ts, p_destroyer := X_join t\<rparr>"
  have "placed ?s (own(t := Leaving)) ws"
    unfolding placed_def using pl(1-8,10-12) own idle none card_place [of own t Leaving] by auto
  moreover have "threads_ok ?s (own(t := Leaving))"
  proof -
    have "thread_ok ?s = thread_ok s" by (intro ext) (simp add: thread_ok_def cong: place.case_cong)
    then show ?thesis using invD(2) [OF iv] rest by (simp add: threads_ok_def thread_ok_def leaving_def resting_def)
  qed
  moreover have "contents_ok ((p_threads s)(t := ?thr)) (p_chans s q) (ws q)" for q
    using own by (intro contents_other [OF invD(1,3) [OF iv]]) simp
  ultimately have "pool_inv ?s (own(t := Leaving)) ws" using iv x(1) by (simp add: pool_inv_def)
  then show ?thesis using False h rest by (auto simp: destroy_loop_def resting_def)
qed

lemma inv_join_thread:
  assumes iv: "pool_inv s own ws" and x: "p_destroyer s = X_join t" "t_pc (p_threads s t) = W_exited"
  shows "\<exists>own' ws'. pool_inv (destroy_join s) own' ws'"
proof -
  note pl = placed_facts [OF invD(1) [OF iv]]
  have leaving: "own u = Leaving \<longleftrightarrow> u = t" for u using pl(9) [of u] x(1) by auto
  have "{u. own u \<noteq> Nowhere} \<subseteq> {..<p_fresh s}" using pl(10) by auto
  then have fin: "finite {u. own u \<noteq> Nowhere}" by (rule finite_subset) simp
  have "own t \<noteq> Nowhere" using leaving [of t] by auto
  moreover have "{u. (own(t := Nowhere)) u \<noteq> Nowhere} = {u. own u \<noteq> Nowhere} - {t}" by auto
  ultimately have "card {u. (own(t := Nowhere)) u \<noteq> Nowhere} = p_count s - 1" using fin pl(11) by simp
  moreover have "\<forall>u. (own(t := Nowhere)) u \<noteq> Leaving" using leaving by simp
  moreover have "own t = Leaving" using leaving by simp
  ultimately have "placed (s\<lparr>p_count := p_count s - 1, p_destroyer := X_loop\<rparr>) (own(t := Nowhere)) ws"
    unfolding placed_def using pl(1-8,10,12) by (auto split: if_splits)
  moreover have "thread_ok (s\<lparr>p_count := p_count s - 1, p_destroyer := X_loop\<rparr>) = thread_ok s"
    by (intro ext) (simp add: thread_ok_def cong: place.case_cong)
  moreover have "thread_ok s Nowhere (p_threads s t)" using x(2) by (simp add: thread_ok_def)
  ultimately have "pool_inv (destroy_join s) (own(t := Nowhere)) ws"
    using iv x(1) by (simp add: destroy_join_def pool_inv_def threads_ok_def)
  then show ?thesis by blast
qed

subsection \<open>Every step keeps the invariant\<close>

lemma work_max: "pool_work s (Some s') \<Longrightarrow> p_max s' = p_max s"
  by (erule pool_workE)
    (auto simp: threadpool_next_def dispatch_start_def dispatch_post_def worker_wake_def worker_run_def worker_stop_def
      worker_push_def resultq_take_def resultq_collect_def resultq_return_def result_call_def handler_join_def
      destroy_loop_def destroy_join_def Let_def split: list.splits option.splits if_splits bind_splits)

lemma call_max: "pool_call s s' \<Longrightarrow> p_max s' = p_max s"
  by (erule pool_callE) (auto simp: result_handler_init_def dispatch_call_def resultq_finish_def Let_def)

subsection \<open>The next pointers\<close>

text \<open>
  The lists \<open>p_head\<close> and \<open>q_head\<close> are what the \<open>next\<close> pointers chain, the tail pointer of a queue is
  at its end, and a thread that is in no list, and that the pool still has, points nowhere.
\<close>

primrec chain :: "(tid \<Rightarrow> tid option) \<Rightarrow> tid list \<Rightarrow> bool" where
  "chain nx [] = True"
| "chain nx (t # ts) = (nx t = head_of ts \<and> chain nx ts)"

definition loose :: "('a, 'b) threadpool \<Rightarrow> tid \<Rightarrow> bool" where
  "loose s t \<longleftrightarrow> t < p_fresh s \<and> t \<notin> set (p_head s) \<and> (\<forall>q. t \<notin> set (q_head (p_chans s q))) \<and>
     p_destroyer s \<noteq> X_join t \<and> t_pc (p_threads s t) \<noteq> W_exited"

definition linked :: "('a, 'b) threadpool \<Rightarrow> bool" where
  "linked s \<longleftrightarrow> chain (p_next s) (p_head s) \<and>
     (\<forall>q. chain (p_next s) (q_head (p_chans s q)) \<and> tail_ok (p_chans s q)) \<and>
     (\<forall>t. loose s t \<longrightarrow> p_next s t = None)"

lemma chain_other [simp]: "t \<notin> set ts \<Longrightarrow> chain (nx(t := p)) ts = chain nx ts"
  by (induction ts) auto

lemma chain_snoc:
  "chain nx ts \<Longrightarrow> distinct (ts @ [t]) \<Longrightarrow> ts \<noteq> [] \<Longrightarrow> nx t = None \<Longrightarrow> chain (nx(last ts := Some t)) (ts @ [t])"
proof (induction ts)
  case (Cons u ts)
  then show ?case by (cases ts) auto
qed simp

lemma linkedD:
  assumes "linked s"
  shows "chain (p_next s) (p_head s)" "chain (p_next s) (q_head (p_chans s q))" "tail_ok (p_chans s q)"
    "loose s t \<Longrightarrow> p_next s t = None"
  using assms by (auto simp: linked_def)

text \<open>Steps that touch no list and no pointer.\<close>

lemma linked_same:
  assumes "linked s" and "p_next s' = p_next s" "p_head s' = p_head s"
    and "\<And>q. q_head (p_chans s' q) = q_head (p_chans s q) \<and> q_ptail (p_chans s' q) = q_ptail (p_chans s q)"
    and "\<And>t. loose s' t \<Longrightarrow> loose s t"
  shows "linked s'"
  using assms by (auto simp: linked_def tail_ok_def)

lemma linked_thread:
  assumes "linked s" and "t_pc (p_threads s t) = W_exited \<Longrightarrow> t_pc thr = W_exited"
  shows "linked (set_thread s t thr)"
  using assms by (intro linked_same [OF assms(1)]) (auto simp: loose_def split: if_splits)

lemma linked_chan:
  assumes "linked s" and "q_head c = q_head (p_chans s q)" "q_ptail c = q_ptail (p_chans s q)"
  shows "linked (set_chan s q c)"
  using assms by (intro linked_same [OF assms(1)]) (auto simp: loose_def split: if_splits)

text \<open>The thread that leaves or enters a list is in no other.\<close>

lemma linked_take:
  assumes lk: "linked s" and pl: "placed s own ws" and q: "q_head (p_chans s q) = t # ts"
    and c: "q_head c = ts" "q_ptail c = (if ts = [] then None else q_ptail (p_chans s q))"
  shows "linked ((set_chan s q c)\<lparr>p_next := (p_next s)(t := None)\<rparr>)"
proof -
  let ?s = "(set_chan s q c)\<lparr>p_next := (p_next s)(t := None)\<rparr>"
  note pf = placed_facts [OF pl]
  have own: "own t = Queued q" using pf(4) [of t q] q by simp
  have "t \<notin> set (p_head s)" "q' \<noteq> q \<Longrightarrow> t \<notin> set (q_head (p_chans s q'))" "t \<notin> set ts" for q'
    using own pf(2) [of t] pf(4) [of t q'] pf(3) [of q] q by auto
  moreover have "tail_ok c" using linkedD(3) [OF lk, of q] q c by (auto simp: tail_ok_def)
  moreover have out: "loose ?s u \<Longrightarrow> u = t \<or> loose s u" for u
    using q c(1) by (auto simp: loose_def) (metis set_ConsD)
  have "\<forall>u. loose ?s u \<longrightarrow> p_next ?s u = None" using out linkedD(4) [OF lk] by auto
  ultimately show ?thesis
    using linkedD(1-3) [OF lk] linkedD(2) [OF lk, of q] q c(1) by (simp add: linked_def)
qed

lemma linked_append:
  assumes lk: "linked s" and pl: "placed s own ws" and t: "loose s t"
    and c: "q_head c = q_head (p_chans s q)" "q_ptail c = q_ptail (p_chans s q)"
  shows "linked ((set_chan s q (chan_append c t))\<lparr>p_next := next_append (p_next s) (q_ptail (p_chans s q)) t\<rparr>)"
proof -
  let ?ts = "q_head (p_chans s q)" and ?nx = "next_append (p_next s) (q_ptail (p_chans s q)) t"
  note pf = placed_facts [OF pl]
  have tail: "tail_ok (p_chans s q)" "tail_ok c" using linkedD(3) [OF lk] c by (simp_all add: tail_ok_def)
  have nt: "p_next s t = None" "t \<notin> set (p_head s)" "t \<notin> set (q_head (p_chans s q'))" for q'
    using linkedD(4) [OF lk t] t by (auto simp: loose_def)
  have u: "last ?ts \<notin> set (p_head s)" "q' \<noteq> q \<Longrightarrow> last ?ts \<notin> set (q_head (p_chans s q'))" if "?ts \<noteq> []" for q'
    using that last_in_set [OF that] pf(2,4) by auto
  have nx: "?nx = (if ?ts = [] then p_next s else (p_next s)(last ?ts := Some t))"
    using tail(1) by (simp add: tail_ok_def next_append_def)
  have "chain ?nx (p_head s)" "q' \<noteq> q \<Longrightarrow> chain ?nx (q_head (p_chans s q'))" for q'
    using linkedD(1,2) [OF lk] u unfolding nx by simp_all
  moreover have "chain ?nx (?ts @ [t])"
    using linkedD(2) [OF lk, of q] chain_snoc [of "p_next s" ?ts t] pf(3) [of q] nt unfolding nx by simp
  moreover have out: "loose s v \<and> v \<noteq> t \<and> v \<notin> set ?ts" if "loose (set_chan s q (chan_append c t)) v" for v
    using that c(1) by (auto simp: loose_def chan_append_tail [OF tail(2)] split: if_splits)
  have "?nx v = None" if "loose (set_chan s q (chan_append c t)) v" for v
    using out [OF that] linkedD(4) [OF lk, of v] unfolding nx by (cases "?ts = []") auto
  ultimately show ?thesis
    using linkedD(3) [OF lk] c
    by (auto simp: linked_def chan_append_tail [OF tail(2)] tail_ok_def loose_def)
qed

lemma linked_next:
  assumes lk: "linked s" and iv: "pool_inv s own ws" and q: "q < p_nchans s"
    and n: "threadpool_next s q ordered cb arg = Some s'"
  shows "linked s'"
proof (cases "p_head s")
  case (Cons t ts)
  note pf = placed_facts [OF invD(1) [OF iv]]
  have own: "own t = Idle" using pf(2) [of t] Cons by simp
  have "t \<notin> set ts" "t \<notin> set (q_head (p_chans s q'))" for q'
    using own pf(4) [of t q'] pf(1) Cons by auto
  moreover have s': "s' = (set_chan s q ((p_chans s q)\<lparr>c_client := C_has t ordered cb arg\<rparr>))\<lparr>p_head := ts,
      p_next := (p_next s)(t := None)\<rparr>"
    using n Cons by (auto simp: threadpool_next_def split: bind_splits)
  moreover have out: "loose s' u \<Longrightarrow> u = t \<or> loose s u" for u
    using Cons unfolding s' by (auto simp: loose_def split: if_splits)
  have "\<forall>u. loose s' u \<longrightarrow> p_next s' u = None"
    using out linkedD(4) [OF lk] unfolding s' by auto
  ultimately show ?thesis
    using linkedD(1-3) [OF lk] Cons by (simp add: linked_def tail_ok_def)
next
  case Nil
  let ?t = "p_fresh s"
  note pf = placed_facts [OF invD(1) [OF iv]]
  have "own ?t = Nowhere" using pf(10) by blast
  then have "?t \<notin> set (q_head (p_chans s q'))" for q' using pf(4) [of ?t q'] by simp
  moreover have s': "s' = (set_thread (set_chan s q ((p_chans s q)\<lparr>c_client := C_has ?t ordered cb arg\<rparr>)) ?t thread_init)
      \<lparr>p_count := p_count s + 1, p_fresh := ?t + 1, p_next := (p_next s)(?t := None)\<rparr>"
    using n Nil by (simp add: threadpool_next_def Let_def)
  moreover have out: "loose s' u \<Longrightarrow> u = ?t \<or> loose s u" for u
    unfolding s' by (auto simp: loose_def split: if_splits)
  have "\<forall>u. loose s' u \<longrightarrow> p_next s' u = None"
    using out linkedD(4) [OF lk] unfolding s' by auto
  ultimately show ?thesis
    using linkedD(1-3) [OF lk] Nil by (simp add: linked_def tail_ok_def)
qed

text \<open>A thread a client or a handler holds, or that is about to enter a queue, is in no list.\<close>

lemma loose_place:
  assumes iv: "pool_inv s own ws" and own: "own t = Held q \<or> own t = Away q \<or> own t = Handled q"
  shows "loose s t"
proof -
  note pf = placed_facts [OF invD(1) [OF iv]]
  have t: "t < p_fresh s" using pf(10) [of t] own by auto
  have "t_pc (p_threads s t) \<noteq> W_exited"
    using invD(2) [OF iv t] own by (auto simp: state_defs split: if_splits)
  then show ?thesis using own t pf(2) [of t] pf(4) [of t] pf(9) [of t] by (auto simp: loose_def)
qed

lemma linked_return:
  assumes lk: "linked s" and iv: "pool_inv s own ws" and h: "c_handler (p_chans s q) = H_return t res"
  shows "linked (resultq_return s q t res)"
proof -
  have "own t = Handled q" using placed_facts(7) [OF invD(1) [OF iv], of q t] h by simp
  then have "loose s t" by (intro loose_place [OF iv]) simp
  then have "t \<notin> set (p_head s)" "t \<notin> set (q_head (p_chans s q'))" for q' by (auto simp: loose_def)
  moreover have "loose (resultq_return s q t res) u \<Longrightarrow> u \<noteq> t \<and> loose s u" for u
    by (auto simp: loose_def resultq_return_def split: if_splits)
  ultimately show ?thesis
    using linkedD [OF lk] by (auto simp: linked_def tail_ok_def resultq_return_def)
qed

lemma linked_loop:
  assumes lk: "linked s" and x: "p_destroyer s = X_loop" and n: "destroy_loop s = Some s'"
  shows "linked s'"
proof (cases "p_count s > 0")
  case True
  then obtain t ts where h: "p_head s = t # ts" using n by (auto simp: destroy_loop_def split: list.splits)
  have s': "s' = (set_thread s t ((p_threads s t)\<lparr>t_running := True\<rparr>))\<lparr>p_head := ts, p_destroyer := X_join t\<rparr>"
    using n True h by (auto simp: destroy_loop_def split: bind_splits)
  have "loose s' u \<Longrightarrow> loose s u" for u using x h unfolding s' by (auto simp: loose_def split: if_splits)
  then show ?thesis using linkedD [OF lk] h unfolding s' by (auto simp: linked_def)
next
  case False
  then have "s' = s\<lparr>p_destroyer := X_destroyed\<rparr>" using n by (simp add: destroy_loop_def)
  then show ?thesis using x by (intro linked_same [OF lk]) (auto simp: loose_def)
qed

lemma linked_post:
  assumes lk: "linked s" and iv: "pool_inv s own ws" and c: "c_client (p_chans s q) = C_sent t ordered"
    and n: "dispatch_post s q t ordered = Some s'"
  shows "linked s'"
proof (cases ordered)
  case True
  let ?c = "(p_chans s q)\<lparr>q_nthreads := q_nthreads (p_chans s q) + 1, c_client := C_idle\<rparr>"
  have "own t = Held q" using placed_facts(8) [OF invD(1) [OF iv], of q t] c True by simp
  then have "loose s t" by (intro loose_place [OF iv]) simp
  moreover have "(chan_append ((p_chans s q)\<lparr>q_nthreads := q_nthreads (p_chans s q) + 1\<rparr>) t)\<lparr>c_client := C_idle\<rparr> =
      chan_append ?c t"
    by (cases "p_chans s q") (simp add: chan_append_def split: option.split)
  then have "s' = (set_chan s q (chan_append ?c t))\<lparr>p_next := next_append (p_next s) (q_ptail (p_chans s q)) t\<rparr>"
    using n True by (auto simp: dispatch_post_def Let_def split: bind_splits)
  ultimately show ?thesis using linked_append [OF lk invD(1) [OF iv], of t ?c q] by simp
next
  case False
  then have "s' = set_chan s q ((p_chans s q)\<lparr>q_nthreads := q_nthreads (p_chans s q) + 1, c_client := C_idle\<rparr>)"
    using n by (auto simp: dispatch_post_def Let_def set_chan_def split: bind_splits)
  then show ?thesis by (simp add: linked_chan [OF lk])
qed

lemma linked_push:
  assumes lk: "linked s" and iv: "pool_inv s own ws" and t: "t < p_fresh s" "t_pc (p_threads s t) = W_push q"
  shows "linked (worker_push s t q)"
proof -
  let ?s = "set_thread s t ((p_threads s t)\<lparr>t_pc := W_wait\<rparr>)"
  have "own t = Away q"
    using invD(2) [OF iv t(1)] t(2) by (auto simp: state_defs split: place.splits if_splits)
  then have "loose s t" by (intro loose_place [OF iv]) simp
  then have "loose ?s t" by (auto simp: loose_def)
  moreover have "placed ?s own ws" using invD(1) [OF iv] by (simp add: placed_def)
  moreover have "linked ?s" using t(2) by (intro linked_thread [OF lk]) simp
  ultimately show ?thesis
    using linked_append [of ?s own ws t "p_chans s q" q] by (simp add: worker_push_def Let_def)
qed

lemma work_linked:
  assumes lk: "linked s" and iv: "pool_inv s own ws" and w: "pool_work s (Some s')"
  shows "linked s'"
  using w
proof cases
  case (next_thread q ordered cb arg)
  then show ?thesis using linked_next [OF lk iv] by metis
next
  case (start_thread q t ordered cb arg)
  then show ?thesis
    using placed_facts(8) [OF invD(1) [OF iv], of q t] loose_place [OF iv, of t q]
    by (auto simp: dispatch_start_def loose_def intro!: linked_chan linked_thread [OF lk] split: bind_splits)
next
  case (post_thread q t ordered)
  then show ?thesis using linked_post [OF lk iv] by metis
next
  case (run t)
  then show ?thesis
    by (auto simp: worker_run_def Let_def intro!: linked_thread [OF lk] split: option.splits bind_splits)
next
  case (push t q)
  then show ?thesis using linked_push [OF lk iv] by simp
next
  case (take q)
  show ?thesis
  proof (cases "q_head (p_chans s q)")
    case (Cons t ts)
    then show ?thesis
      using take(1) linked_take [OF lk invD(1) [OF iv] Cons] by (simp add: resultq_take_def Let_def)
  qed (use take in \<open>auto simp: resultq_take_def Let_def intro!: linked_chan [OF lk] split: bind_splits\<close>)
next
  case (return q t res)
  then show ?thesis using linked_return [OF lk iv] by simp
next
  case loop
  then show ?thesis using linked_loop [OF lk] by simp
next
  case (join_thread t)
  then show ?thesis
    by (auto simp: destroy_join_def loose_def intro!: linked_same [OF lk])
qed (auto simp: worker_wake_def worker_stop_def resultq_collect_def result_call_def handler_join_def Let_def
    intro!: linked_chan linked_thread [OF lk] lk)

lemma call_linked: "pool_call s s' \<Longrightarrow> pool_inv s own ws \<Longrightarrow> linked s \<Longrightarrow> linked s'"
  by (erule pool_callE)
    (auto simp: new_client_eq dispatch_call_def resultq_finish_def Let_def loose_def intro!: linked_chan elim!: linked_same)

lemma work_inv:
  assumes iv: "pool_inv s own ws" and lk: "linked s" and max: "p_max s < 2 ^ 64" and w: "pool_work s r"
  shows "\<exists>s' own' ws'. r = Some s' \<and> pool_inv s' own' ws' \<and> linked s'"
proof -
  note tail = linkedD(3) [OF lk]
  have "\<exists>s' own' ws'. r = Some s' \<and> pool_inv s' own' ws'"
    using w
  proof cases
    case next_thread
    then show ?thesis using inv_next [OF iv] by simp
  next
    case (start_thread q t ordered cb arg)
    then have "own t = Held q" using placed_facts(8) [OF invD(1) [OF iv], of q t] by simp
    then have "p_next s t = None" using linkedD(4) [OF lk] loose_place [OF iv] by blast
    then show ?thesis using inv_start [OF iv] start_thread by simp
  next
    case post_thread
    then show ?thesis using inv_post [OF iv _ _ tail] by simp
  next
    case wake
    then show ?thesis using inv_wake [OF iv] by blast
  next
    case run
    then show ?thesis using inv_run [OF iv] by blast
  next
    case stop
    then show ?thesis using inv_stop [OF iv] by blast
  next
    case push
    then show ?thesis using inv_push [OF iv _ _ tail] by blast
  next
    case take
    then show ?thesis using inv_take [OF iv _ _ max] by simp
  next
    case collect
    then show ?thesis using inv_collect [OF iv] by blast
  next
    case return
    then show ?thesis using inv_return [OF iv] by blast
  next
    case callback
    then show ?thesis using inv_call [OF iv] by blast
  next
    case join
    then show ?thesis using inv_join [OF iv] by blast
  next
    case loop
    then show ?thesis using inv_loop [OF iv] by simp
  next
    case join_thread
    then show ?thesis using inv_join_thread [OF iv] by blast
  qed
  then show ?thesis using work_linked [OF lk iv] w by blast
qed

lemma call_inv: "pool_call s s' \<Longrightarrow> pool_inv s own ws \<Longrightarrow> pool_inv s' own ws"
  by (erule pool_callE) (simp_all add: inv_new_client inv_dispatch_call inv_finish inv_destroy)

lemma linked_init: "linked (threadpool_init n)"
  by (simp add: linked_def threadpool_init_def chan_init_def tail_ok_def)

lemma reaches_inv:
  "pool_reaches n s \<Longrightarrow> n < 2 ^ 64 \<Longrightarrow> p_max s = n \<and> linked s \<and> (\<exists>own ws. pool_inv s own ws)"
proof (induction rule: pool_reaches.induct)
  case pool_start
  then show ?case using inv_init [of n] linked_init [of n] by (auto simp: threadpool_init_def)
next
  case (pool_works s s')
  then show ?case using work_inv [of s _ _ "Some s'"] work_max [of s s'] by auto
next
  case (pool_called s s')
  then show ?case using call_inv [of s s'] call_linked [of s s'] call_max [of s s'] by blast
qed

end
