(* ===== verification/Threadpool_Live.thy ===== *)
theory Threadpool_Live
  imports Threadpool_Facts
begin

text \<open>
  The thread pool comes to rest: every step of the threads lowers a cost (\<open>work_cost\<close>), and when no
  step is possible every result was delivered and every call has returned (\<open>stuck_settled\<close>).
\<close>

subsection \<open>A cost that every step lowers\<close>

definition thread_cost :: "('a, 'b) thread \<Rightarrow> nat" where
  "thread_cost thr = (case t_pc thr of
       W_wait \<Rightarrow> if t_running thr then (if t_rq thr = None then 4 else 10) else 0
     | W_woken \<Rightarrow> if t_rq thr = None then 3 else 9
     | W_ran rq \<Rightarrow> if rq = None then 2 else 8
     | W_push q \<Rightarrow> 7
     | W_exited \<Rightarrow> 0)"

primrec client_cost :: "('a, 'b) client_pc \<Rightarrow> nat" where
  "client_cost C_idle = 0"
| "client_cost (C_next ordered cb arg) = 40"
| "client_cost (C_has t ordered cb arg) = 29"
| "client_cost (C_sent t ordered) = 7"
| "client_cost C_join = 1"
| "client_cost C_joined = 0"

primrec handler_cost :: "'b handler_pc \<Rightarrow> nat" where
  "handler_cost H_wait = 1"
| "handler_cost (H_got t) = 4"
| "handler_cost (H_return t res) = 3"
| "handler_cost (H_call res) = 2"
| "handler_cost H_exited = 0"

definition chan_cost :: "('a, 'b) chan \<Rightarrow> nat" where
  "chan_cost c = client_cost (c_client c) + handler_cost (c_handler c) + 5 * length (q_head c)"

primrec destroyer_cost :: "nat \<Rightarrow> destroyer_pc \<Rightarrow> nat" where
  "destroyer_cost n X_idle = 0"
| "destroyer_cost n X_loop = 10 * n + 1"
| "destroyer_cost n (X_join t) = 10 * n - 5"
| "destroyer_cost n X_destroyed = 0"

definition pool_cost :: "('a, 'b) threadpool \<Rightarrow> nat" where
  "pool_cost s = (\<Sum>t<p_fresh s. thread_cost (p_threads s t)) + (\<Sum>q<p_nchans s. chan_cost (p_chans s q)) +
     destroyer_cost (p_count s) (p_destroyer s)"

lemma sum_update:
  assumes "i < (n :: nat)"
  shows "(\<Sum>x<n. (g ((f(i := v)) x) :: nat)) + g (f i) = (\<Sum>x<n. g (f x)) + g v"
proof -
  have "(\<Sum>x<n. g ((f(i := v)) x)) = g v + (\<Sum>x\<in>{..<n} - {i}. g ((f(i := v)) x))"
    using assms by (subst sum.remove [of _ i]) auto
  also have "(\<Sum>x\<in>{..<n} - {i}. g ((f(i := v)) x)) = (\<Sum>x\<in>{..<n} - {i}. g (f x))"
    by (rule sum.cong) auto
  finally have "(\<Sum>x<n. g ((f(i := v)) x)) = g v + (\<Sum>x\<in>{..<n} - {i}. g (f x))" .
  moreover have "(\<Sum>x<n. g (f x)) = g (f i) + (\<Sum>x\<in>{..<n} - {i}. g (f x))"
    using assms by (subst sum.remove [of _ i]) auto
  ultimately show ?thesis by simp
qed

text \<open>The cost after a change of one thread and one channel.\<close>

lemma cost_thread: "t < p_fresh s \<Longrightarrow> pool_cost (set_thread s t thr) + thread_cost (p_threads s t) = pool_cost s + thread_cost thr"
  using sum_update [of t "p_fresh s" thread_cost "p_threads s" thr] by (simp add: pool_cost_def)

lemma cost_chan: "q < p_nchans s \<Longrightarrow> pool_cost (set_chan s q c) + chan_cost (p_chans s q) = pool_cost s + chan_cost c"
  using sum_update [of q "p_nchans s" chan_cost "p_chans s" c] by (simp add: pool_cost_def)

lemma cost_both:
  assumes "t < p_fresh s" and "q < p_nchans s"
  shows "pool_cost (set_chan (set_thread s t thr) q c) + chan_cost (p_chans s q) + thread_cost (p_threads s t) =
    pool_cost s + chan_cost c + thread_cost thr"
  using cost_thread [OF assms(1), of thr] cost_chan [of q "set_thread s t thr" c] assms(2) by simp

lemma thread_cost_init [simp]: "thread_cost thread_init = 0"
  by (simp add: thread_cost_def thread_init_def)

lemma cost_fresh:
  "pool_cost ((set_thread s (p_fresh s) thread_init)\<lparr>p_count := p_count s + 1, p_fresh := p_fresh s + 1\<rparr>) \<le> pool_cost s + 10"
proof -
  have "(\<Sum>t<p_fresh s. thread_cost (((p_threads s)(p_fresh s := thread_init)) t)) = (\<Sum>t<p_fresh s. thread_cost (p_threads s t))"
    by (rule sum.cong) auto
  moreover have "destroyer_cost (p_count s + 1) (p_destroyer s) \<le> destroyer_cost (p_count s) (p_destroyer s) + 10"
    by (cases "p_destroyer s") auto
  ultimately show ?thesis by (simp add: pool_cost_def)
qed

lemma cost_head [simp]: "pool_cost (s\<lparr>p_head := h\<rparr>) = pool_cost s" "pool_cost (s\<lparr>p_next := nx\<rparr>) = pool_cost s"
  by (simp_all add: pool_cost_def)

lemma chan_cost_simps [simp]:
  "chan_cost (c\<lparr>c_client := x\<rparr>) = chan_cost c - client_cost (c_client c) + client_cost x"
  "chan_cost (c\<lparr>c_handler := h\<rparr>) = chan_cost c - handler_cost (c_handler c) + handler_cost h"
  "chan_cost (c\<lparr>q_head := ts\<rparr>) = chan_cost c - 5 * length (q_head c) + 5 * length ts"
  "chan_cost (c\<lparr>q_ptail := u\<rparr>) = chan_cost c" "chan_cost (c\<lparr>q_nthreads := n\<rparr>) = chan_cost c" "chan_cost (c\<lparr>c_out := out\<rparr>) = chan_cost c"
  by (simp_all add: chan_cost_def)

lemma chan_cost_ge:
  "client_cost (c_client c) + handler_cost (c_handler c) + 5 * length (q_head c) \<le> chan_cost c"
  by (simp add: chan_cost_def)

lemma chan_append_cost: "chan_cost (chan_append c t) \<le> chan_cost c + 5"
  by (simp add: chan_append_def chan_cost_def split: option.split)

lemma chan_append_frame [simp]:
  "c_client (chan_append c t) = c_client c" "c_handler (chan_append c t) = c_handler c"
  "c_calls (chan_append c t) = c_calls c" "c_out (chan_append c t) = c_out c"
  by (simp_all add: chan_append_def)

lemma away_chan:
  assumes iv: "pool_inv s own ws" and t: "own t = Away q"
  shows "q < p_nchans s"
proof (rule ccontr)
  assume "\<not> q < p_nchans s"
  then have "p_chans s q = chan_init" using invD(5) [OF iv] by simp
  then have "ws q = []" using invD(3) [OF iv, of q] by (simp add: contents_ok_def chan_init_def)
  then show False using placed_queues(2) [OF invD(1) [OF iv], of t q] t by simp
qed

text \<open>The steps that move a thread, one by one, and then every step.\<close>

lemma next_cost:
  assumes n: "threadpool_next s q ordered cb arg = Some s'"
    and q: "q < p_nchans s" and c: "c_client (p_chans s q) = C_next ordered cb arg"
  shows "pool_cost s' < pool_cost s"
proof (cases "p_head s")
  case Nil
  let ?c = "(p_chans s q)\<lparr>c_client := C_has (p_fresh s) ordered cb arg\<rparr>"
  have "s' = (set_thread (set_chan s q ?c) (p_fresh s) thread_init)\<lparr>p_count := p_count s + 1, p_fresh := p_fresh s + 1,
      p_next := (p_next s)(p_fresh s := None)\<rparr>"
    using n Nil by (simp add: threadpool_next_def Let_def)
  then have "pool_cost s' \<le> pool_cost (set_chan s q ?c) + 10" using cost_fresh [of "set_chan s q ?c"] by simp
  then show ?thesis
    using cost_chan [OF q, of ?c] c chan_cost_ge [of "p_chans s q"] by simp
next
  case (Cons t ts)
  then show ?thesis
    using cost_chan [OF q, of "(p_chans s q)\<lparr>c_client := C_has t ordered cb arg\<rparr>"]
      n c chan_cost_ge [of "p_chans s q"]
    by (auto simp: threadpool_next_def split: bind_splits)
qed

lemma start_cost:
  assumes iv: "pool_inv s own ws"
    and n: "dispatch_start s q t ordered cb arg = Some s'"
    and q: "q < p_nchans s" and c: "c_client (p_chans s q) = C_has t ordered cb arg"
  shows "pool_cost s' < pool_cost s"
proof -
  have own: "own t = Held q" using placed_client [OF invD(1) [OF iv], of q t] c by simp
  then have t: "t < p_fresh s" using placed_facts(10) [OF invD(1) [OF iv], of t] by simp
  then have "resting (p_threads s t)" using invD(2) [OF iv t] own c by (simp add: thread_ok_def)
  then have "thread_cost (p_threads s t) = 0" "t_pc (p_threads s t) = W_wait" by (simp_all add: thread_cost_def resting_def)
  moreover define thr where "thr = (p_threads s t)\<lparr>t_rq := (if ordered then None else Some q), t_cb := Some cb,
    t_arg := Some arg, t_running := True\<rparr>"
  ultimately have "thread_cost thr \<le> thread_cost (p_threads s t) + 10" by (simp add: thread_cost_def)
  moreover have "s' = set_chan (set_thread s t thr) q ((p_chans s q)\<lparr>c_client := C_sent t ordered\<rparr>)"
    using n by (auto simp: dispatch_start_def thr_def split: bind_splits)
  ultimately show ?thesis
    using cost_both [OF t q, of thr "(p_chans s q)\<lparr>c_client := C_sent t ordered\<rparr>"] c
      chan_cost_ge [of "p_chans s q"] by simp
qed

lemma stop_cost:
  assumes iv: "pool_inv s own ws"
    and t: "t < p_fresh s" and c: "t_pc (p_threads s t) = W_ran rq"
  shows "pool_cost (worker_stop s t rq) < pool_cost s"
proof -
  have "t_rq (p_threads s t) = None"
    using invD(2) [OF iv t] c by (auto simp: state_defs split: place.splits if_splits)
  then have "thread_cost ((p_threads s t)\<lparr>t_running := False, t_pc := (case rq of None \<Rightarrow> W_wait | Some q \<Rightarrow> W_push q)\<rparr>) <
      thread_cost (p_threads s t)"
    using c by (simp add: thread_cost_def split: option.split)
  then show ?thesis
    using cost_thread [OF t, of "(p_threads s t)\<lparr>t_running := False, t_pc := (case rq of None \<Rightarrow> W_wait | Some q \<Rightarrow> W_push q)\<rparr>"]
    unfolding worker_stop_def by simp
qed

lemma push_cost:
  assumes iv: "pool_inv s own ws"
    and t: "t < p_fresh s" and c: "t_pc (p_threads s t) = W_push q"
  shows "pool_cost (worker_push s t q) < pool_cost s"
proof -
  have "own t = Away q" and aw: "away q (p_threads s t)"
    using invD(2) [OF iv t] c by (auto simp: state_defs split: place.splits if_splits)
  then have q: "q < p_nchans s" using away_chan [OF iv] by simp
  have "thread_cost ((p_threads s t)\<lparr>t_pc := W_wait\<rparr>) = 0" "thread_cost (p_threads s t) = 7"
    using aw c by (auto simp: thread_cost_def away_def started_def)
  then show ?thesis
    using cost_both [OF t q, of "(p_threads s t)\<lparr>t_pc := W_wait\<rparr>" "chan_append (p_chans s q) t"]
      chan_append_cost [of "p_chans s q" t] by (simp add: worker_push_def Let_def)
qed

lemma collect_cost:
  assumes iv: "pool_inv s own ws"
   
    and q: "q < p_nchans s" and c: "c_handler (p_chans s q) = H_got t"
  shows "pool_cost (resultq_collect s q t) < pool_cost s"
proof -
  have "own t = Handled q" using placed_handler [OF invD(1) [OF iv], of q t] c by simp
  then have t: "t < p_fresh s" using placed_facts(10) [OF invD(1) [OF iv], of t] by simp
  have "thread_cost ((p_threads s t)\<lparr>t_res := None\<rparr>) = thread_cost (p_threads s t)"
    by (simp add: thread_cost_def cong: worker_pc.case_cong)
  then show ?thesis
    using cost_both [OF t q, of "(p_threads s t)\<lparr>t_res := None\<rparr>"
        "(p_chans s q)\<lparr>c_handler := H_return t (t_res (p_threads s t))\<rparr>"]
      c chan_cost_ge [of "p_chans s q"] by (simp add: resultq_collect_def)
qed

lemma loop_cost:
  assumes iv: "pool_inv s own ws"
    and n: "destroy_loop s = Some s'"
    and x: "p_destroyer s = X_loop" and h0: "p_count s = 0 \<or> p_head s \<noteq> []"
  shows "pool_cost s' < pool_cost s"
proof (cases "p_count s > 0")
  case True
  then obtain t ts where h: "p_head s = t # ts" using h0 by (cases "p_head s") auto
  have "own t = Idle" using placed_facts(2) [OF invD(1) [OF iv], of t] h by simp
  moreover from this have t: "t < p_fresh s" using placed_facts(10) [OF invD(1) [OF iv], of t] by simp
  ultimately have "resting (p_threads s t)" using invD(2) [OF iv t] by (simp add: thread_ok_def)
  then have "thread_cost ((p_threads s t)\<lparr>t_running := True\<rparr>) = 4" "thread_cost (p_threads s t) = 0"
    by (simp_all add: thread_cost_def resting_def)
  moreover have "s' = (set_thread s t ((p_threads s t)\<lparr>t_running := True\<rparr>))\<lparr>p_head := ts, p_destroyer := X_join t\<rparr>"
    using n True h by (auto simp: destroy_loop_def split: bind_splits)
  then have "pool_cost s' + 6 = pool_cost (set_thread s t ((p_threads s t)\<lparr>t_running := True\<rparr>))"
    using x True by (simp add: pool_cost_def)
  ultimately show ?thesis using cost_thread [OF t, of "(p_threads s t)\<lparr>t_running := True\<rparr>"] by simp
next
  case False
  then show ?thesis using n x by (auto simp: destroy_loop_def pool_cost_def)
qed

lemma work_cost:
  assumes iv: "pool_inv s own ws" and w: "pool_work s (Some s')"
  shows "pool_cost s' < pool_cost s"
  using w
proof cases
  case (next_thread q ordered cb arg)
  then show ?thesis using next_cost by metis
next
  case (start_thread q t ordered cb arg)
  then show ?thesis using start_cost [OF iv] by metis
next
  case (post_thread q t ordered)
  define c where "c = (p_chans s q)\<lparr>q_nthreads := q_nthreads (p_chans s q) + 1\<rparr>"
  let ?c = "(if ordered then chan_append c t else c)\<lparr>c_client := C_idle\<rparr>"
  have "\<exists>nx. s' = (set_chan s q ?c)\<lparr>p_next := nx\<rparr>"
    using post_thread(1) by (auto simp: dispatch_post_def Let_def c_def split: bind_splits)
  moreover have "chan_cost ?c < chan_cost (p_chans s q)"
    using post_thread(3) chan_append_cost [of c t] by (auto simp: c_def chan_cost_def)
  ultimately show ?thesis using cost_chan [OF post_thread(2), of ?c] by auto
next
  case (wake t)
  have "s' = worker_wake s t" using wake(1) by simp
  moreover have "thread_cost ((p_threads s t)\<lparr>t_pc := W_woken\<rparr>) < thread_cost (p_threads s t)"
    using wake(3,4) by (simp add: thread_cost_def)
  ultimately show ?thesis using cost_thread [OF wake(2), of "(p_threads s t)\<lparr>t_pc := W_woken\<rparr>"]
    by (simp add: worker_wake_def)
next
  case (run t)
  then obtain thr where thr: "s' = set_thread s t thr" "thread_cost thr < thread_cost (p_threads s t)"
    by (auto simp: worker_run_def Let_def thread_cost_def split: option.splits bind_splits)
  then show ?thesis using cost_thread [OF run(2), of thr] by simp
next
  case (stop t rq)
  then show ?thesis using stop_cost [OF iv] by simp
next
  case (push t q)
  then show ?thesis using push_cost [OF iv] by simp
next
  case (take q)
  let ?c = "p_chans s q"
  have "\<exists>c. pool_cost s' = pool_cost (set_chan s q c) \<and> chan_cost c < chan_cost ?c"
  proof (cases "q_head ?c")
    case Nil
    then show ?thesis
      using take by (intro exI [of _ "?c\<lparr>c_handler := H_exited\<rparr>"])
        (auto simp: resultq_take_def Let_def chan_cost_def split: bind_splits)
  next
    case (Cons t ts)
    then show ?thesis
      using take by (intro exI [of _ "?c\<lparr>q_head := ts, q_nthreads := q_nthreads ?c - 1,
          q_ptail := (if ts = [] then None else q_ptail ?c), c_handler := H_got t\<rparr>"])
        (simp add: resultq_take_def Let_def chan_cost_def)
  qed
  then show ?thesis using cost_chan [OF take(2)] by (metis add_less_cancel_right nat_add_left_cancel_less)
next
  case (collect q t)
  then show ?thesis using collect_cost [OF iv] by simp
next
  case (return q t res)
  then show ?thesis
    using cost_chan [OF return(2), of "(p_chans s q)\<lparr>c_handler := H_call res\<rparr>"] chan_cost_ge [of "p_chans s q"]
    by (simp add: resultq_return_def)
next
  case (callback q res)
  then show ?thesis
    using cost_chan [OF callback(2), of "(p_chans s q)\<lparr>c_handler := H_wait, c_out := c_out (p_chans s q) @ [res]\<rparr>"]
      chan_cost_ge [of "p_chans s q"]
    by (simp add: result_call_def Let_def)
next
  case (join q)
  then show ?thesis
    using cost_chan [OF join(2), of "(p_chans s q)\<lparr>c_client := C_joined\<rparr>"] chan_cost_ge [of "p_chans s q"]
    by (simp add: handler_join_def)
next
  case loop
  then show ?thesis using loop_cost [OF iv] by simp
next
  case (join_thread t)
  have "own t = Leaving" using placed_facts(9) [OF invD(1) [OF iv], of t] join_thread(2) by simp
  then have "own t \<noteq> Nowhere" by simp
  then have "{t. own t \<noteq> Nowhere} \<noteq> {}" by blast
  moreover have "{t. own t \<noteq> Nowhere} \<subseteq> {..<p_fresh s}" using placed_facts(10) [OF invD(1) [OF iv]] by auto
  ultimately have "p_count s > 0"
    unfolding placed_facts(11) [OF invD(1) [OF iv], symmetric] by (simp add: card_gt_0_iff finite_subset)
  then show ?thesis using join_thread by (simp add: destroy_join_def pool_cost_def)
qed

subsection \<open>Nothing is left undone\<close>

definition settled :: "('a, 'b) chan \<Rightarrow> bool" where
  "settled c \<longleftrightarrow> c_client c \<in> {C_idle, C_joined} \<and> mset (c_out c) = mset (map snd (c_calls c)) \<and>
     (in_order c \<longrightarrow> c_out c = map snd (c_calls c))"

lemma stuck_worker:
  assumes iv: "pool_inv s own ws" and stuck: "\<forall>r. \<not> pool_work s r" and t: "t < p_fresh s"
  shows "t_pc (p_threads s t) = W_wait \<and> \<not> t_running (p_threads s t) \<or> t_pc (p_threads s t) = W_exited"
  using stuck t by (cases "t_pc (p_threads s t)") (blast intro: pool_work.intros)+

lemma stuck_handler:
  assumes iv: "pool_inv s own ws" and stuck: "\<forall>r. \<not> pool_work s r" and q: "q < p_nchans s"
  shows "c_handler (p_chans s q) = H_wait \<and> q_head (p_chans s q) = [] \<or> c_handler (p_chans s q) = H_exited"
proof (cases "c_handler (p_chans s q)")
  case H_wait
  then show ?thesis using stuck q pool_work.take [of q s] by blast
next
  case (H_got t)
  have own: "own t = Handled q" using placed_handler [OF invD(1) [OF iv], of q t] H_got by simp
  then have t: "t < p_fresh s" using placed_facts(10) [OF invD(1) [OF iv], of t] by simp
  then have "posted (p_threads s t)" using invD(2) [OF iv t] own H_got by (simp add: thread_ok_def)
  then have "\<not> t_running (p_threads s t)"
    using stuck_worker [OF iv stuck t] by (auto simp: posted_def started_def)
  then show ?thesis using pool_work.collect [OF q H_got] stuck by blast
next
  case (H_return t res)
  then show ?thesis using pool_work.return [OF q] stuck by blast
next
  case (H_call res)
  then show ?thesis using pool_work.callback [OF q] stuck by blast
qed simp

lemma stuck_away:
  assumes iv: "pool_inv s own ws" and stuck: "\<forall>r. \<not> pool_work s r"
  shows "own t \<noteq> Away q"
proof
  assume own: "own t = Away q"
  then have t: "t < p_fresh s" using placed_facts(10) [OF invD(1) [OF iv], of t] by simp
  then have "away q (p_threads s t)" using invD(2) [OF iv t] own by (simp add: thread_ok_def)
  then show False using stuck_worker [OF iv stuck t] by (auto simp: away_def started_def)
qed

text \<open>A pool that has threads has an idle one, when no client is in the middle of a dispatch.\<close>

lemma stuck_idle:
  assumes iv: "pool_inv s own ws" and stuck: "\<forall>r. \<not> pool_work s r" and n: "p_count s > 0"
    and x: "\<forall>t. p_destroyer s \<noteq> X_join t"
  shows "p_head s \<noteq> []"
proof -
  note pl = placed_facts [OF invD(1) [OF iv]]
  obtain t where t: "own t \<noteq> Nowhere" using pl(11) n by fastforce
  have init: "q < p_nchans s" if "p_chans s q \<noteq> chan_init" for q
    using invD(5) [OF iv] that leI by blast
  have "own t = Idle"
  proof (cases "own t")
    case (Held q)
    then have h: "client_holds (c_client (p_chans s q)) = Some t" using pl(8) by simp
    then have q: "q < p_nchans s" using init by (force simp: chan_init_def)
    show ?thesis
    proof (cases "c_client (p_chans s q)")
      case (C_has u ordered cb arg)
      then show ?thesis using pool_work.start_thread [OF q] stuck by blast
    next
      case (C_sent u ordered)
      then show ?thesis using pool_work.post_thread [OF q] stuck by blast
    qed (use h in simp_all)
  next
    case (Queued q)
    then have h: "t \<in> set (q_head (p_chans s q))" using pl(4) by simp
    then have q: "q < p_nchans s" using init by (force simp: chan_init_def)
    show ?thesis using stuck_handler [OF iv stuck q] h invD(4) [OF iv, of q] by (auto simp: chan_ok_def)
  next
    case (Handled q)
    then have h: "handler_holds (c_handler (p_chans s q)) = Some t" using pl(7) by simp
    then have q: "q < p_nchans s" using init by (force simp: chan_init_def)
    show ?thesis using stuck_handler [OF iv stuck q] h by auto
  qed (use t stuck_away [OF iv stuck] pl(9) x in auto)
  then show ?thesis using pl(2) by fastforce
qed

lemma stuck_settled:
  assumes iv: "pool_inv s own ws" and stuck: "\<forall>r. \<not> pool_work s r" and q: "q < p_nchans s" and max: "p_max s > 0"
  shows "settled (p_chans s q)"
proof -
  let ?c = "p_chans s q"
  note pl = placed_facts [OF invD(1) [OF iv]]
  note ch = invD(4) [OF iv, of q]
  have ws: "ws q = []" using pl(6) [of _ q] stuck_away [OF iv stuck] by (cases "ws q") auto
  have head: "q_head ?c = []" using stuck_handler [OF iv stuck q] ch by (auto simp: chan_ok_def)
  have none: "handler_part ths (c_handler ?c) = []" for ths :: "tid \<Rightarrow> ('a, 'b) thread"
    using stuck_handler [OF iv stuck q] by auto
  have "c_client ?c = C_idle \<or> c_client ?c = C_joined"
  proof (cases "c_client ?c")
    case (C_next ordered cb arg)
    have "p_destroyer s = X_idle" using invD(6) [OF iv _ q] C_next by fastforce
    then have "p_head s \<noteq> [] \<or> p_count s \<noteq> p_max s" using stuck_idle [OF iv stuck] max by fastforce
    then show ?thesis using pool_work.next_thread [OF q C_next] stuck by blast
  next
    case (C_has t ordered cb arg)
    then show ?thesis using pool_work.start_thread [OF q] stuck by blast
  next
    case (C_sent t ordered)
    then show ?thesis using pool_work.post_thread [OF q] stuck by blast
  next
    case C_join
    then have "c_handler ?c \<noteq> H_exited" using pool_work.join [OF q] stuck by blast
    then have "c_handler ?c = H_wait" using stuck_handler [OF iv stuck q] by blast
    moreover have "q_finished ?c" "q_nthreads ?c = 0" using ch C_join ws head by (simp_all add: chan_ok_def)
    ultimately show ?thesis using pool_work.take [OF q] stuck by blast
  qed simp_all
  then show ?thesis
    using invD(3) [OF iv, of q] ws head none by (auto simp: settled_def contents_ok_def)
qed

lemma stuck_destroyer:
  assumes iv: "pool_inv s own ws" and stuck: "\<forall>r. \<not> pool_work s r"
  shows "p_destroyer s \<in> {X_idle, X_destroyed}"
proof (cases "p_destroyer s")
  case X_loop
  then have "p_count s = 0 \<or> p_head s \<noteq> []" using stuck_idle [OF iv stuck] by auto
  then show ?thesis using pool_work.loop [OF X_loop] stuck by blast
next
  case (X_join t)
  then have own: "own t = Leaving" using placed_facts(9) [OF invD(1) [OF iv], of t] by simp
  then have t: "t < p_fresh s" using placed_facts(10) [OF invD(1) [OF iv], of t] by simp
  then have "leaving (p_threads s t)" using invD(2) [OF iv t] own by (simp add: thread_ok_def)
  then have "t_pc (p_threads s t) = W_exited" using stuck_worker [OF iv stuck t] by (auto simp: leaving_def)
  then show ?thesis using pool_work.join_thread [OF X_join] stuck by blast
qed simp_all

subsection \<open>Runs end\<close>

lemma run_inv:
  assumes "pool_inv (f 0) own ws" and "linked (f 0)" and "p_max (f 0) < 2 ^ 64"
    and "\<forall>i. pool_work (f i) (Some (f (Suc i)))"
  shows "\<exists>own ws. pool_inv (f i) own ws \<and> linked (f i) \<and> p_max (f i) < 2 ^ 64"
proof (induction i)
  case 0
  then show ?case using assms(1-3) by blast
next
  case (Suc i)
  then obtain own ws where "pool_inv (f i) own ws" "linked (f i)" "p_max (f i) < 2 ^ 64" by blast
  moreover have "pool_work (f i) (Some (f (Suc i)))" using assms(4) by blast
  ultimately show ?case using work_inv [of "f i" own ws "Some (f (Suc i))"] work_max [of "f i" "f (Suc i)"] by auto
qed

lemma runs_end:
  assumes iv: "pool_inv s own ws" and lk: "linked s" and max: "p_max s < 2 ^ 64"
  shows "\<not> (\<exists>f. f (0::nat) = s \<and> (\<forall>i. pool_work (f i) (Some (f (Suc i)))))"
proof
  assume "\<exists>f. f (0::nat) = s \<and> (\<forall>i. pool_work (f i) (Some (f (Suc i))))"
  then obtain f where f: "f (0::nat) = s" "\<forall>i. pool_work (f i) (Some (f (Suc i)))" by blast
  have "(f (Suc i), f i) \<in> measure pool_cost" for i
    using run_inv [of f own ws i] iv lk max f work_cost by fastforce
  then show False using wf_measure [of pool_cost] unfolding wf_iff_no_infinite_down_chain by blast
qed

subsection \<open>An example\<close>

text \<open>A pool of two threads, one client, one ordered job.\<close>

definition one_job :: "(nat, nat) threadpool" where
  "one_job = dispatch_call (result_handler_init (threadpool_init 2)) 0 True (\<lambda>x. Some (x + 1)) 5"

lemma one_job_reached: "pool_reaches 2 one_job"
proof -
  have "pool_call (threadpool_init 2) (result_handler_init (threadpool_init 2))"
    by (rule new_client) (simp add: threadpool_init_def)
  then have "pool_reaches 2 (result_handler_init (threadpool_init 2))" by (rule pool_called [OF pool_start])
  moreover have "pool_call (result_handler_init (threadpool_init 2)) one_job" unfolding one_job_def
    by (rule dispatch) (simp_all add: result_handler_init_def threadpool_init_def chan_init_def)
  ultimately show ?thesis by (rule pool_called)
qed

lemma one_job_client:
  "p_nchans one_job = 1" "c_client (p_chans one_job 0) = C_next True (\<lambda>x. Some (x + 1)) 5"
  "c_calls (p_chans one_job 0) = [(True, Some 6)]" "p_head one_job = []" "p_count one_job = 0" "p_max one_job = 2"
  by (simp_all add: one_job_def dispatch_call_def result_handler_init_def threadpool_init_def chan_init_def Let_def)

text \<open>What the result callbacks of a client were given.\<close>

lemma reached_results:
  assumes "pool_reaches n s" and "n < 2 ^ 64" and "q < p_nchans s"
  shows "p_count s \<le> n \<and>
    mset (c_out (p_chans s q)) \<subseteq># mset (map snd (c_calls (p_chans s q))) \<and>
    ((\<forall>x\<in>set (c_calls (p_chans s q)). fst x) \<longrightarrow>
       c_out (p_chans s q) = take (length (c_out (p_chans s q))) (map snd (c_calls (p_chans s q)))) \<and>
    (c_client (p_chans s q) = C_joined \<longrightarrow> settled (p_chans s q))"
proof -
  obtain own ws where iv: "pool_inv s own ws" and max: "p_max s = n" using reaches_inv [OF assms(1,2)] by blast
  have count: "p_count s \<le> n" using placed_facts(12) [OF invD(1) [OF iv]] max by simp
  have "settled (p_chans s q)" if "c_client (p_chans s q) = C_joined"
    using that invD(3,4) [OF iv, of q] by (auto simp: settled_def contents_ok_def chan_ok_def)
  then show ?thesis
    using count invD(3) [OF iv, of q] by (simp add: contents_ok_def in_order_def)
qed

text \<open>
  The lists of the model are those of the program: in every reachable state \<open>p_head\<close> and \<open>q_head\<close>
  are what the \<open>next\<close> pointers chain, and the tail pointers are at their ends.
\<close>

lemma reached_lists:
  assumes "pool_reaches n s" and "n < 2 ^ 64"
  shows "chain (p_next s) (p_head s) \<and> chain (p_next s) (q_head (p_chans s q)) \<and>
    q_ptail (p_chans s q) = (if q_head (p_chans s q) = [] then None else Some (last (q_head (p_chans s q))))"
  using reaches_inv [OF assms] by (auto simp: linked_def tail_ok_def)

subsection \<open>Properties\<close>

text \<open>
  C5: in every state a pool of \<open>n\<close> threads shared by any number of clients can get into, however
  their threads interleave: no more than \<open>n\<close> threads were made; a result callback was given only
  results of the client's own dispatches, each at most once; when the client dispatches with
  \<open>ordered\<close> it got them in the order of the calls; and once \<open>result_handler_destroy\<close> has returned it
  got all of them.
\<close>

theorem pool_results:
  assumes "pool_reaches n s" and "n < 2 ^ 64" and "q < p_nchans s"
  shows "p_count s \<le> n \<and>
    mset (c_out (p_chans s q)) \<subseteq># mset (map snd (c_calls (p_chans s q))) \<and>
    ((\<forall>x\<in>set (c_calls (p_chans s q)). fst x) \<longrightarrow>
       c_out (p_chans s q) = take (length (c_out (p_chans s q))) (map snd (c_calls (p_chans s q)))) \<and>
    (c_client (p_chans s q) = C_joined \<longrightarrow> settled (p_chans s q))"
  by (rule reached_results [OF assms])

theorem pool_results_witness:
  "p_count one_job \<le> 2 \<and> c_calls (p_chans one_job 0) = [(True, Some 6)] \<and>
   c_out (p_chans one_job 0) = take (length (c_out (p_chans one_job 0))) [Some 6]"
  using pool_results [OF one_job_reached, of 0] by (simp add: one_job_client)

text \<open>
  C15: no assertion of \<open>threadpool.c\<close> fails, in any step of any thread in any reachable state: a
  thread taken from the pool has no job and no result and is not running, and the thread a job is
  given to is not running and its \<open>next\<close> is NULL; a queue a job is posted to is not finished; a
  queue that is destroyed is empty, finished and owed nothing; a thread that is joined has no job.
\<close>

theorem pool_never_aborts:
  assumes "pool_reaches n s" and "n < 2 ^ 64" and "pool_work s r"
  shows "r \<noteq> None"
  using reaches_inv [OF assms(1,2)] work_inv [OF _ _ _ assms(3)] assms(2) by auto

theorem pool_never_aborts_witness:
  "threadpool_next one_job 0 True (\<lambda>x. Some (x + 1)) 5 \<noteq> None"
proof (rule pool_never_aborts [OF one_job_reached])
  show "pool_work one_job (threadpool_next one_job 0 True (\<lambda>x. Some (x + 1)) 5)"
    by (rule next_thread) (simp_all add: one_job_client)
qed simp

text \<open>
  C13: from every reachable state of a pool of at least one thread, the threads cannot run for ever
  without a new call, and when none of them can do anything more nobody waits: every client has
  returned from its last call with every result of its dispatches delivered (in order, if they are
  ordered), and a pool being destroyed is destroyed.
\<close>

theorem pool_delivers_everything:
  assumes "pool_reaches n s" and "0 < n" and "n < 2 ^ 64"
  shows "\<not> (\<exists>f. f (0::nat) = s \<and> (\<forall>i. pool_work (f i) (Some (f (Suc i))))) \<and>
    ((\<forall>r. \<not> pool_work s r) \<longrightarrow> (\<forall>q<p_nchans s. settled (p_chans s q)) \<and> p_destroyer s \<in> {X_idle, X_destroyed})"
proof -
  obtain own ws where iv: "pool_inv s own ws" and lk: "linked s" and max: "p_max s = n"
    using reaches_inv [OF assms(1,3)] by blast
  then show ?thesis
    using runs_end [OF iv lk] stuck_settled [OF iv] stuck_destroyer [OF iv] assms(2,3) by blast
qed

theorem pool_delivers_everything_witness:
  "\<not> (\<exists>f. f (0::nat) = one_job \<and> (\<forall>i. pool_work (f i) (Some (f (Suc i)))))"
  using pool_delivers_everything [OF one_job_reached] by simp

end
