(* ===== verification/Writer_Pool.thy ===== *)
theory Writer_Pool
  imports Source_Write Threadpool_Live
begin

text \<open>
  The writer on the thread pool. \<open>Writer\<close> keeps the blocks it dispatched in \<open>w_queue\<close> and lets
  them be delivered at any time; here they are jobs of the state machine of \<open>Threadpool\<close>, and the
  writer holds none of them. A state is reached by calls of \<open>mtbl_writer_add\<close> while
  \<open>threadpool_dispatch\<close> does not hold the client up, by results the pool gives to the writer's
  callback, by the steps of every thread, and by the calls of the other clients. The end is
  \<open>_mtbl_writer_finish\<close>: the last flush, then \<open>result_handler_destroy\<close>. A call of
  \<open>mtbl_writer_add\<close> is one step: what it does after the dispatch touches no field the callback does.
\<close>

type_synonym writer_pool = "(data_block, data_block) threadpool"

text \<open>The dispatch of \<open>_mtbl_writer_flush\<close>: at most one block.\<close>

definition pool_dispatch ::
  "'z complib \<Rightarrow> (bytes \<Rightarrow> u32) \<Rightarrow> writer_pool \<Rightarrow> qid \<Rightarrow> data_block list \<Rightarrow> writer_pool" where
  "pool_dispatch L crc s q bs =
     (case bs of
        [] \<Rightarrow> s
      | b # _ \<Rightarrow> dispatch_call s q True (mtbl_writer_compress_block L crc) b)"

inductive pooled ::
  "'z complib \<Rightarrow> (bytes \<Rightarrow> u32) \<Rightarrow> qid \<Rightarrow> writer_pool \<Rightarrow> mtbl_writer \<Rightarrow> entry list \<Rightarrow> bool \<Rightarrow> writer_pool \<Rightarrow> mtbl_writer \<Rightarrow> bool"
  for L :: "'z complib" and crc :: "bytes \<Rightarrow> u32" and q :: qid and s0 :: writer_pool and w0 :: mtbl_writer where
  pooled_start: "pooled L crc q s0 w0 [] False s0 w0"
| pooled_add: "\<lbrakk>pooled L crc q s0 w0 es False s w; c_client (p_chans s q) = C_idle;
      mtbl_writer_add L crc w k v = Some (r, w')\<rbrakk>
    \<Longrightarrow> pooled L crc q s0 w0 (es @ [(k, v)]) False (pool_dispatch L crc s q (w_queue w')) (w'\<lparr>w_queue := []\<rparr>)"
| pooled_flush: "\<lbrakk>pooled L crc q s0 w0 es False s w; c_client (p_chans s q) = C_idle;
      mtbl_writer_flush L crc w = Some w'\<rbrakk>
    \<Longrightarrow> pooled L crc q s0 w0 es True (pool_dispatch L crc s q (w_queue w')) (w'\<lparr>w_queue := []\<rparr>)"
| pooled_finish: "\<lbrakk>pooled L crc q s0 w0 es True s w; c_client (p_chans s q) = C_idle\<rbrakk>
    \<Longrightarrow> pooled L crc q s0 w0 es True (resultq_finish s q) w"
| pooled_callback: "\<lbrakk>pooled L crc q s0 w0 es fl s w; c_handler (p_chans s q) = H_call (Some b);
      mtbl_writer_write_data_block w b = Some w'\<rbrakk>
    \<Longrightarrow> pooled L crc q s0 w0 es fl (result_call s q (Some b)) w'"
| pooled_work: "\<lbrakk>pooled L crc q s0 w0 es fl s w; pool_work s (Some s'); c_out (p_chans s' q) = c_out (p_chans s q)\<rbrakk>
    \<Longrightarrow> pooled L crc q s0 w0 es fl s' w"
| pooled_other: "\<lbrakk>pooled L crc q s0 w0 es fl s w; pool_call s s'; p_chans s' q = p_chans s q\<rbrakk>
    \<Longrightarrow> pooled L crc q s0 w0 es fl s' w"

subsection \<open>A writer without its queue\<close>

lemma queue_write:
  "mtbl_writer_write_data_block (w\<lparr>w_queue := Q\<rparr>) b =
     map_option (\<lambda>w'. w'\<lparr>w_queue := Q\<rparr>) (mtbl_writer_write_data_block w b)"
  by (simp add: mtbl_writer_write_data_block_def Let_def split: bind_splits)

lemma queue_flush:
  assumes "wo_pool (w_opt w)" and "w_queue w = []"
  shows "mtbl_writer_flush L crc (w\<lparr>w_queue := Q\<rparr>) =
    map_option (\<lambda>w'. w'\<lparr>w_queue := Q @ w_queue w'\<rparr>) (mtbl_writer_flush L crc w)"
  using assms by (simp add: mtbl_writer_flush_def Let_def ensure_def split: bind_splits)

lemma queue_add:
  assumes "wo_pool (w_opt w)" and "w_queue w = []"
  shows "mtbl_writer_add L crc (w\<lparr>w_queue := Q\<rparr>) k v =
    map_option (\<lambda>(r, w'). (r, w'\<lparr>w_queue := Q @ w_queue w'\<rparr>)) (mtbl_writer_add L crc w k v)"
proof -
  have flush: "mtbl_writer_flush L crc (w\<lparr>w_queue := Q, w_last_key := lk\<rparr>) =
      map_option (\<lambda>w'. w'\<lparr>w_queue := Q @ w_queue w'\<rparr>) (mtbl_writer_flush L crc (w\<lparr>w_last_key := lk\<rparr>))" for lk
  proof -
    have "w\<lparr>w_queue := Q, w_last_key := lk\<rparr> = (w\<lparr>w_last_key := lk\<rparr>)\<lparr>w_queue := Q\<rparr>" by simp
    then show ?thesis using queue_flush [of "w\<lparr>w_last_key := lk\<rparr>" L crc Q] assms by (simp only:) simp
  qed
  show ?thesis
    using assms(2) by (simp add: mtbl_writer_add_def Let_def ensure_def flush split: bind_splits)
qed

lemma write_keeps:
  assumes "mtbl_writer_write_data_block w b = Some w'"
  shows "w_queue w' = w_queue w" and "w_opt w' = w_opt w" and "w_data w' = w_data w" and "w_closed w' = w_closed w"
    and "file_version (w_m w') = file_version (w_m w)"
  using assms by (auto simp: mtbl_writer_write_data_block_def Let_def split: bind_splits)

lemma flush_keeps:
  assumes "mtbl_writer_flush L crc w = Some w'" and "wo_pool (w_opt w)"
  shows "w_opt w' = w_opt w" and "w_closed w' = w_closed w" and "\<not> w_closed w"
    and "file_version (w_m w') = MTBL_FORMAT_V2" and "block_builder_empty (w_data w')"
    and "w_queue w = [] \<Longrightarrow> length (w_queue w') \<le> 1"
  using assms
  by (auto simp: mtbl_writer_flush_def Let_def ensure_def block_builder_reset_def block_builder_empty_def vec_size_def
      split: bind_splits if_splits)

lemma add_keeps:
  assumes "mtbl_writer_add L crc w k v = Some (r, w')" and "wo_pool (w_opt w)"
  shows "w_opt w' = w_opt w" and "w_queue w = [] \<Longrightarrow> length (w_queue w') \<le> 1"
  using assms flush_keeps(1,6) [of L crc "w\<lparr>w_last_key := _\<rparr>"]
  by (fastforce simp: mtbl_writer_add_def Let_def ensure_def split: bind_splits if_splits)+

text \<open>A writer with nothing to flush.\<close>

definition at_rest :: "mtbl_writer \<Rightarrow> bool" where
  "at_rest w \<longleftrightarrow> \<not> w_closed w \<and> file_version (w_m w) = MTBL_FORMAT_V2 \<and> block_builder_empty (w_data w)"

lemma flush_at_rest: "at_rest w \<Longrightarrow> mtbl_writer_flush L crc w = Some w"
  by (simp add: at_rest_def mtbl_writer_flush_def)

text \<open>What \<open>_mtbl_writer_finish\<close> does once the blocks are written does not depend on how they were.\<close>

lemma finish_after:
  assumes "mtbl_writer_flush L crc wa = Some wd" and "deliver_all L crc (length (w_queue wd)) wd = Some w"
    and "at_rest w" and "w_queue w = []"
  shows "mtbl_writer_finish L crc wa = mtbl_writer_finish L crc w"
  using assms(1,2,4) flush_at_rest [OF assms(3), of L crc] unfolding mtbl_writer_finish_def by simp

lemma writer_run_append:
  "writer_run L crc w (evs @ evs') =
     do { (rs, w) \<leftarrow> writer_run L crc w evs; (rs', w) \<leftarrow> writer_run L crc w evs'; Some (rs @ rs', w) }"
proof (induction evs arbitrary: w)
  case (Cons ev evs)
  then show ?case by (cases ev) (simp_all split: bind_split prod.splits)
qed (simp split: bind_split)

lemma added_append [simp]: "added (evs @ evs') = added evs @ added evs'"
  by (induction evs rule: added.induct) simp_all

subsection \<open>The pool\<close>

lemmas pool_step_defs = threadpool_next_def dispatch_start_def dispatch_post_def worker_wake_def worker_run_def
  worker_stop_def worker_push_def resultq_take_def resultq_collect_def resultq_return_def result_call_def
  handler_join_def destroy_loop_def destroy_join_def set_chan_def set_thread_def Let_def

lemma work_calls:
  assumes "pool_work s (Some s')"
  shows "c_calls (p_chans s' q) = c_calls (p_chans s q)"
  using assms
  by (elim pool_workE)
    (auto simp: pool_step_defs split: list.splits option.splits bind_splits if_splits)

lemma work_nchans:
  assumes "pool_work s (Some s')"
  shows "p_nchans s' = p_nchans s"
  using assms
  by (elim pool_workE)
    (auto simp: pool_step_defs split: list.splits option.splits bind_splits if_splits)

lemma call_nchans: "pool_call s s' \<Longrightarrow> p_nchans s \<le> p_nchans s'"
  by (elim pool_callE) (auto simp: result_handler_init_def dispatch_call_def resultq_finish_def set_chan_def Let_def)

lemma pool_dispatch_facts:
  assumes "length bs \<le> 1"
  shows "c_calls (p_chans (pool_dispatch L crc s q bs) q) =
      c_calls (p_chans s q) @ map (\<lambda>b. (True, mtbl_writer_compress_block L crc b)) bs"
    and "c_out (p_chans (pool_dispatch L crc s q bs) q) = c_out (p_chans s q)"
    and "p_nchans (pool_dispatch L crc s q bs) = p_nchans s"
    and "pool_reaches n s \<Longrightarrow> q < p_nchans s \<Longrightarrow> c_client (p_chans s q) = C_idle \<Longrightarrow> pool_reaches n (pool_dispatch L crc s q bs)"
  using assms
  by (cases bs; auto simp: pool_dispatch_def dispatch_call_def set_chan_def Let_def
      intro: pool_called [OF _ dispatch, unfolded dispatch_call_def set_chan_def Let_def])+

subsection \<open>The refinement\<close>

text \<open>
  The blocks \<open>Q\<close> whose results the callback has not been given are the queue of a writer that
  \<open>writer_run\<close> reaches with the same entries, and deliveries where the callback was called.
\<close>

definition abstracts ::
  "'z complib \<Rightarrow> (bytes \<Rightarrow> u32) \<Rightarrow> mtbl_writer \<Rightarrow> entry list \<Rightarrow> bool \<Rightarrow> data_block list \<Rightarrow> mtbl_writer \<Rightarrow> bool" where
  "abstracts L crc w0 es fl Q w \<longleftrightarrow> (\<exists>evs rs wa. writer_run L crc w0 evs = Some (rs, wa) \<and> added evs = es \<and>
     (if fl then at_rest w \<and> (\<exists>wd. mtbl_writer_flush L crc wa = Some wd \<and>
        deliver_all L crc (length (w_queue wd)) wd = deliver_all L crc (length Q) (w\<lparr>w_queue := Q\<rparr>))
      else wa = w\<lparr>w_queue := Q\<rparr>))"

definition waiting ::
  "'z complib \<Rightarrow> (bytes \<Rightarrow> u32) \<Rightarrow> (data_block, data_block) chan \<Rightarrow> data_block list \<Rightarrow> bool" where
  "waiting L crc c Q \<longleftrightarrow> (\<forall>x\<in>set (c_calls c). fst x) \<and> length (c_out c) \<le> length (c_calls c) \<and>
     map (mtbl_writer_compress_block L crc) Q = drop (length (c_out c)) (map snd (c_calls c))"

lemma abstracts_write:
  assumes "abstracts L crc w0 es fl (b0 # Q) w" and "mtbl_writer_compress_block L crc b0 = Some b"
    and "mtbl_writer_write_data_block w b = Some w'"
  shows "abstracts L crc w0 es fl Q w'"
proof -
  have d: "mtbl_writer_deliver L crc (w\<lparr>w_queue := b0 # Q\<rparr>) = Some (w'\<lparr>w_queue := Q\<rparr>)"
    using assms(2,3) queue_write [where w = w and Q = Q and b = b] by (simp add: mtbl_writer_deliver_def)
  obtain evs rs wa where a: "writer_run L crc w0 evs = Some (rs, wa)" "added evs = es"
    and r: "if fl then at_rest w \<and> (\<exists>wd. mtbl_writer_flush L crc wa = Some wd \<and>
        deliver_all L crc (length (w_queue wd)) wd = deliver_all L crc (length (b0 # Q)) (w\<lparr>w_queue := b0 # Q\<rparr>))
      else wa = w\<lparr>w_queue := b0 # Q\<rparr>"
    using assms(1) unfolding abstracts_def by blast
  show ?thesis
  proof (cases fl)
    case True
    have "at_rest w'" using r True write_keeps [OF assms(3)] by (simp add: at_rest_def)
    then show ?thesis using a r d True unfolding abstracts_def by (intro exI [of _ evs] exI [of _ rs] exI [of _ wa]) simp
  next
    case False
    then have "writer_run L crc w0 (evs @ [Deliver]) = Some (rs, w'\<lparr>w_queue := Q\<rparr>)"
      using a(1) r d by (simp add: writer_run_append)
    then show ?thesis using a(2) False unfolding abstracts_def
      by (intro exI [of _ "evs @ [Deliver]"] exI [of _ rs] exI [of _ "w'\<lparr>w_queue := Q\<rparr>"]) simp
  qed
qed

lemma snoc_take:
  assumes "xs @ [x] = take (Suc (length xs)) ys"
  shows "length xs < length ys \<and> x = ys ! length xs"
proof -
  have "length (xs @ [x]) = min (Suc (length xs)) (length ys)" unfolding assms by simp
  then have "length xs < length ys" by simp
  moreover have "x = take (Suc (length xs)) ys ! length xs" unfolding assms [symmetric] by simp
  ultimately show ?thesis by simp
qed

text \<open>The result a callback is given is that of the first block of \<open>Q\<close>.\<close>

lemma callback_first:
  assumes "pool_reaches n s" and "n < 2 ^ 64" and "q < p_nchans s" and "c_handler (p_chans s q) = H_call res"
    and "waiting L crc (p_chans s q) Q"
  shows "\<exists>b0 Q'. Q = b0 # Q' \<and> res = mtbl_writer_compress_block L crc b0 \<and>
    waiting L crc (p_chans (result_call s q res) q) Q'"
proof -
  let ?c = "p_chans s q" and ?s = "result_call s q res"
  have c': "c_calls (p_chans ?s q) = c_calls ?c" "c_out (p_chans ?s q) = c_out ?c @ [res]" "p_nchans ?s = p_nchans s"
    by (simp_all add: result_call_def set_chan_def Let_def)
  have "pool_reaches n ?s" using assms(1) callback [OF assms(3,4)] by (rule pool_works)
  then have "c_out ?c @ [res] = take (Suc (length (c_out ?c))) (map snd (c_calls ?c))"
    using reached_results [of n ?s q] assms(2,3,5) c' by (simp add: waiting_def)
  then have len: "length (c_out ?c) < length (c_calls ?c)" and res: "res = map snd (c_calls ?c) ! length (c_out ?c)"
    using snoc_take by fastforce+
  have "map (mtbl_writer_compress_block L crc) Q = res # drop (Suc (length (c_out ?c))) (map snd (c_calls ?c))"
    using assms(5) len Cons_nth_drop_Suc [of "length (c_out ?c)" "map snd (c_calls ?c)"]
    unfolding waiting_def res by simp
  then show ?thesis using assms(5) len c' by (auto simp: waiting_def Cons_eq_map_conv map_eq_Cons_conv)
qed

lemma waiting_dispatch:
  assumes "waiting L crc (p_chans s q) Q" and "length bs \<le> 1"
  shows "waiting L crc (p_chans (pool_dispatch L crc s q bs) q) (Q @ bs)"
  using assms(1) pool_dispatch_facts(1,2) [OF assms(2), of L crc s q]
  by (auto simp: waiting_def comp_def)

text \<open>The channel starts without calls, on a pool in any state.\<close>

lemma pooled_ok:
  fixes L :: "'z complib"
  assumes "pooled L crc q s0 w0 es fl s w"
    and pool: "pool_reaches n s0" "n < 2 ^ 64" "q < p_nchans s0"
    and fresh: "c_calls (p_chans s0 q) = []" "c_out (p_chans s0 q) = []"
    and writer: "wo_pool (w_opt w0)" "w_queue w0 = []"
  shows "pool_reaches n s \<and> q < p_nchans s \<and> w_queue w = [] \<and> wo_pool (w_opt w) \<and>
    (\<exists>Q. waiting L crc (p_chans s q) Q \<and> abstracts L crc w0 es fl Q w)"
  using assms(1)
proof (induction rule: pooled.induct)
  case pooled_start
  have "w0\<lparr>w_queue := []\<rparr> = w0" using writer(2) by (cases w0) simp
  then have "abstracts L crc w0 [] False [] w0"
    unfolding abstracts_def by (intro exI [of _ "[]"] exI [of _ w0]) simp
  moreover have "waiting L crc (p_chans s0 q) []" by (simp add: waiting_def fresh)
  ultimately show ?case using pool writer by blast
next
  case (pooled_add es s w k v r w')
  then obtain Q where Q: "waiting L crc (p_chans s q) Q" "abstracts L crc w0 es False Q w" by blast
  have w: "w_queue w = []" "wo_pool (w_opt w)" using pooled_add.IH by blast+
  note small = add_keeps [OF pooled_add.hyps(3) w(2)]
  obtain evs rs where a: "writer_run L crc w0 evs = Some (rs, w\<lparr>w_queue := Q\<rparr>)" "added evs = es"
    using Q(2) by (auto simp: abstracts_def)
  have "writer_run L crc w0 (evs @ [Add k v]) = Some (rs @ [r], w'\<lparr>w_queue := Q @ w_queue w'\<rparr>)"
    using a(1) queue_add [OF w(2,1), of L crc Q k v] pooled_add.hyps(3) by (simp add: writer_run_append)
  then have "abstracts L crc w0 (es @ [(k, v)]) False (Q @ w_queue w') (w'\<lparr>w_queue := []\<rparr>)"
    using a(2) unfolding abstracts_def by (intro exI [of _ "evs @ [Add k v]"]) simp
  then show ?case
    using pooled_add.IH pooled_add.hyps(2) small(1) w(2) waiting_dispatch [OF Q(1) small(2) [OF w(1)]]
      pool_dispatch_facts(3,4) [OF small(2) [OF w(1)], where L = L and crc = crc and s = s and q = q] by auto
next
  case (pooled_flush es s w w')
  then obtain Q where Q: "waiting L crc (p_chans s q) Q" "abstracts L crc w0 es False Q w" by blast
  have w: "w_queue w = []" "wo_pool (w_opt w)" using pooled_flush.IH by blast+
  note small = flush_keeps [OF pooled_flush.hyps(3) w(2)]
  obtain evs rs where a: "writer_run L crc w0 evs = Some (rs, w\<lparr>w_queue := Q\<rparr>)" "added evs = es"
    using Q(2) by (auto simp: abstracts_def)
  have "mtbl_writer_flush L crc (w\<lparr>w_queue := Q\<rparr>) = Some (w'\<lparr>w_queue := Q @ w_queue w'\<rparr>)"
    using queue_flush [OF w(2,1), of L crc Q] pooled_flush.hyps(3) by simp
  then have "abstracts L crc w0 es True (Q @ w_queue w') (w'\<lparr>w_queue := []\<rparr>)"
    using a small unfolding abstracts_def
    by (intro exI [of _ evs] exI [of _ rs] exI [of _ "w\<lparr>w_queue := Q\<rparr>"]) (simp add: at_rest_def)
  then show ?case
    using pooled_flush.IH pooled_flush.hyps(2) small(1) w(2) waiting_dispatch [OF Q(1) small(6) [OF w(1)]]
      pool_dispatch_facts(3,4) [OF small(6) [OF w(1)], where L = L and crc = crc and s = s and q = q] by auto
next
  case (pooled_finish es s w)
  have "pool_reaches n (resultq_finish s q)"
    using pooled_finish by (intro pool_called [OF _ finish]) auto
  then show ?case using pooled_finish by (simp add: resultq_finish_def set_chan_def waiting_def)
next
  case (pooled_callback es fl s w b w')
  then obtain Q where Q: "waiting L crc (p_chans s q) Q" "abstracts L crc w0 es fl Q w" by blast
  have s: "pool_reaches n s" "q < p_nchans s" using pooled_callback.IH by blast+
  obtain b0 Q' where Q': "Q = b0 # Q'" "mtbl_writer_compress_block L crc b0 = Some b"
      "waiting L crc (p_chans (result_call s q (Some b)) q) Q'"
    using callback_first [OF s(1) pool(2) s(2) pooled_callback.hyps(2) Q(1)] by auto
  have "abstracts L crc w0 es fl Q' w'"
    using abstracts_write [OF Q(2) [unfolded Q'(1)] Q'(2) pooled_callback.hyps(3)] .
  moreover have "pool_reaches n (result_call s q (Some b))"
    using s(1) callback [OF s(2) pooled_callback.hyps(2)] by (rule pool_works)
  moreover have "p_nchans (result_call s q (Some b)) = p_nchans s"
    by (simp add: result_call_def set_chan_def Let_def)
  ultimately show ?case using Q'(3) pooled_callback.IH write_keeps(1,2) [OF pooled_callback.hyps(3)] by auto
next
  case (pooled_work es fl s w s')
  have "pool_reaches n s'" using pooled_work by (blast intro: pool_works)
  then show ?case
    using pooled_work work_calls [OF pooled_work.hyps(2), of q] work_nchans [OF pooled_work.hyps(2)]
    by (simp add: waiting_def)
next
  case (pooled_other es fl s w s')
  have "pool_reaches n s'" using pooled_other by (blast intro: pool_called)
  then show ?case using pooled_other call_nchans [OF pooled_other.hyps(2)] by auto
qed

lemma deliver_first:
  assumes "mtbl_writer_deliver L crc (w\<lparr>w_queue := b0 # Q\<rparr>) \<noteq> None"
  shows "\<exists>b w'. mtbl_writer_compress_block L crc b0 = Some b \<and> mtbl_writer_write_data_block w b = Some w'"
  using assms by (cases "mtbl_writer_compress_block L crc b0") (auto simp: mtbl_writer_deliver_def queue_write)

text \<open>Every run of a writer can be finished.\<close>

lemma run_finishes:
  fixes L :: "'z complib"
  assumes "run_fits L opt fd (added evs)" and "mtbl_writer_init_fd fd (Some opt) = Some w0"
    and "writer_run L crc w0 evs = Some (rs, wa)" and "\<not> w_closed wa"
  shows "\<exists>w2. mtbl_writer_finish L crc wa = Some w2 \<and>
    write_file L crc (opt\<lparr>wo_pool := False\<rparr>) fd (adds (added evs)) = Some (increasing None (added evs), f_bytes (w_fd w2))"
proof -
  obtain fd' where fd': "mtbl_writer_destroy L crc wa = Some fd'"
      "f_bytes fd' = table_image L crc opt (f_bytes fd) (kept None (added evs)) (table_close (final_state opt (added evs)))"
    using write_table [OF assms(1), of crc] assms(2,3) by auto
  have "run_fits L (opt\<lparr>wo_pool := False\<rparr>) fd (added (adds (added evs)))" using assms(1) by simp
  from session [OF this, of crc None] fd' assms(4) show ?thesis
    by (auto simp: mtbl_writer_destroy_def split: bind_splits)
qed

text \<open>After the last flush: delivering what waits succeeds, and gives the file.\<close>

lemma abstracts_ends:
  fixes L :: "'z complib"
  assumes "abstracts L crc w0 es True Q w" and "mtbl_writer_init_fd fd (Some opt) = Some w0" and "run_fits L opt fd es"
  shows "\<exists>wa wd w2. at_rest w \<and> mtbl_writer_flush L crc wa = Some wd \<and>
    deliver_all L crc (length (w_queue wd)) wd = deliver_all L crc (length Q) (w\<lparr>w_queue := Q\<rparr>) \<and>
    deliver_all L crc (length Q) (w\<lparr>w_queue := Q\<rparr>) \<noteq> None \<and> mtbl_writer_finish L crc wa = Some w2 \<and>
    write_file L crc (opt\<lparr>wo_pool := False\<rparr>) fd (adds es) = Some (increasing None es, f_bytes (w_fd w2))"
proof -
  obtain evs rs wa wd where a: "writer_run L crc w0 evs = Some (rs, wa)" "added evs = es" "at_rest w"
      "mtbl_writer_flush L crc wa = Some wd"
      "deliver_all L crc (length (w_queue wd)) wd = deliver_all L crc (length Q) (w\<lparr>w_queue := Q\<rparr>)"
    using assms(1) unfolding abstracts_def by auto
  have "\<not> w_closed wa" using a(4) by (auto simp: mtbl_writer_flush_def ensure_def split: bind_splits if_splits)
  then obtain w2 where w2: "mtbl_writer_finish L crc wa = Some w2"
      "write_file L crc (opt\<lparr>wo_pool := False\<rparr>) fd (adds es) = Some (increasing None es, f_bytes (w_fd w2))"
    using run_finishes [OF assms(3) [folded a(2)] assms(2) a(1)] a(2) by blast
  have "deliver_all L crc (length Q) (w\<lparr>w_queue := Q\<rparr>) \<noteq> None"
    using w2(1) a(4,5) unfolding mtbl_writer_finish_def by (auto split: bind_splits)
  then show ?thesis using a(3-5) w2 by blast
qed

lemma abstracts_delivers:
  fixes L :: "'z complib"
  assumes "abstracts L crc w0 es fl (b0 # Q) w" and "mtbl_writer_init_fd fd (Some opt) = Some w0" and "run_fits L opt fd es"
  shows "mtbl_writer_deliver L crc (w\<lparr>w_queue := b0 # Q\<rparr>) \<noteq> None"
proof (cases fl)
  case True
  then show ?thesis using abstracts_ends [OF _ assms(2,3)] assms(1) by (fastforce split: bind_splits)
next
  case False
  then obtain evs rs where a: "writer_run L crc w0 evs = Some (rs, w\<lparr>w_queue := b0 # Q\<rparr>)" "added evs = es"
    using assms(1) by (auto simp: abstracts_def)
  have "\<exists>x. writer_run L crc w0 (evs @ [Deliver]) = Some x"
    using write_table [of L opt fd "evs @ [Deliver]" crc] assms(2,3) a(2) by auto
  then show ?thesis using a(1) by (auto simp: writer_run_append split: bind_splits)
qed

text \<open>When the handler has been joined nothing waits.\<close>

lemma joined_empty:
  assumes "pool_reaches n s" and "n < 2 ^ 64" and "q < p_nchans s" and "waiting L crc (p_chans s q) Q"
    and "c_client (p_chans s q) = C_joined"
  shows "Q = []"
proof -
  have "mset (c_out (p_chans s q)) = mset (map snd (c_calls (p_chans s q)))"
    using reached_results [OF assms(1-3)] assms(5) by (simp add: settled_def)
  then have "length (c_out (p_chans s q)) = length (c_calls (p_chans s q))"
    using mset_eq_length by fastforce
  then show ?thesis using assms(4) by (simp add: waiting_def)
qed

subsection \<open>Properties\<close>

text \<open>
  C6: a writer on a pool of any number of threads, shared with any other clients, under every
  interleaving of their threads: each result its callback is given is a compressed block it can
  write; and when \<open>result_handler_destroy\<close> has returned, what \<open>_mtbl_writer_finish\<close> leaves is byte for
  byte the file a writer without a pool makes of the same calls.
\<close>

theorem writer_on_pool_same_file:
  fixes L :: "'z complib"
  assumes "pooled L crc q s0 w0 es fl s w"
    and "pool_reaches n s0" "n < 2 ^ 64" "q < p_nchans s0" "c_calls (p_chans s0 q) = []" "c_out (p_chans s0 q) = []"
    and "mtbl_writer_init_fd fd (Some opt) = Some w0" "wo_pool opt" "run_fits L opt fd es"
  shows "(\<forall>res. c_handler (p_chans s q) = H_call res \<longrightarrow>
       (\<exists>b w'. res = Some b \<and> mtbl_writer_write_data_block w b = Some w')) \<and>
    (fl \<and> c_client (p_chans s q) = C_joined \<longrightarrow> (\<exists>fd'. mtbl_writer_destroy L crc w = Some fd' \<and>
       write_file L crc (opt\<lparr>wo_pool := False\<rparr>) fd (adds es) = Some (increasing None es, f_bytes fd')))"
proof -
  have w0: "wo_pool (w_opt w0)" "w_queue w0 = []"
    using assms(7,8) by (auto simp: mtbl_writer_init_fd_def Let_def split: bind_splits)
  obtain Q where s: "pool_reaches n s" "q < p_nchans s" and w: "w_queue w = []"
    and Q: "waiting L crc (p_chans s q) Q" "abstracts L crc w0 es fl Q w"
    using pooled_ok [OF assms(1-6) w0] by blast
  have "\<exists>b w'. res = Some b \<and> mtbl_writer_write_data_block w b = Some w'"
    if h: "c_handler (p_chans s q) = H_call res" for res
  proof -
    obtain b0 Q' where Q': "Q = b0 # Q'" "res = mtbl_writer_compress_block L crc b0"
      using callback_first [OF s(1) assms(3) s(2) h Q(1)] by blast
    show ?thesis using deliver_first [OF abstracts_delivers [OF Q(2) [unfolded Q'(1)] assms(7,9)]] Q'(2) by metis
  qed
  moreover have "\<exists>fd'. mtbl_writer_destroy L crc w = Some fd' \<and>
      write_file L crc (opt\<lparr>wo_pool := False\<rparr>) fd (adds es) = Some (increasing None es, f_bytes fd')"
    if h: "fl" "c_client (p_chans s q) = C_joined"
  proof -
    have Q0: "Q = []" using joined_empty [OF s(1) assms(3) s(2) Q(1) h(2)] .
    have "w\<lparr>w_queue := []\<rparr> = w" using w by (cases w) simp
    then obtain wa wd w2 where e: "at_rest w" "mtbl_writer_flush L crc wa = Some wd"
        "deliver_all L crc (length (w_queue wd)) wd = Some w" "mtbl_writer_finish L crc wa = Some w2"
        "write_file L crc (opt\<lparr>wo_pool := False\<rparr>) fd (adds es) = Some (increasing None es, f_bytes (w_fd w2))"
      using abstracts_ends [OF _ assms(7,9), of crc Q w] Q(2) h(1) unfolding Q0 by auto
    have "mtbl_writer_finish L crc w = Some w2" using finish_after [OF e(2,3,1) w] e(4) by simp
    then show ?thesis using e(1,5) by (auto simp: mtbl_writer_destroy_def at_rest_def)
  qed
  ultimately show ?thesis by blast
qed

text \<open>One block through a pool of one thread, for the example: the states between two steps.\<close>

definition one_thread :: "tid list \<Rightarrow> (data_block, data_block) thread \<Rightarrow> (data_block, data_block) chan \<Rightarrow> writer_pool" where
  "one_thread ts thr c =
     \<lparr>p_head = ts, p_next = (\<lambda>_. None), p_count = 1, p_max = 1, p_threads = (\<lambda>_. thread_init)(0 := thr), p_fresh = 1,
      p_chans = (\<lambda>_. chan_init)(0 := c), p_nchans = 1, p_destroyer = X_idle\<rparr>"

definition one_client :: writer_pool where
  "one_client = result_handler_init (threadpool_init 1)"

lemma one_client_ok:
  "pool_reaches 1 one_client" "0 < p_nchans one_client" "c_calls (p_chans one_client 0) = []"
  "c_out (p_chans one_client 0) = []" "c_client (p_chans one_client 0) = C_idle"
proof -
  have "pool_call (threadpool_init 1) one_client"
    unfolding one_client_def by (rule new_client) (simp add: threadpool_init_def)
  then show "pool_reaches 1 one_client" by (rule pool_called [OF pool_start])
qed (simp_all add: one_client_def result_handler_init_def threadpool_init_def set_chan_def chan_init_def)

definition one_worker ::
  "data_block option \<Rightarrow> data_block option \<Rightarrow> (data_block \<Rightarrow> data_block option) option \<Rightarrow> bool \<Rightarrow> worker_pc \<Rightarrow>
   (data_block, data_block) thread" where
  "one_worker a r f run pc = \<lparr>t_arg = a, t_res = r, t_cb = f, t_rq = None, t_running = run, t_pc = pc\<rparr>"

definition one_chan ::
  "data_block option \<Rightarrow> (data_block, data_block) client_pc \<Rightarrow> data_block handler_pc \<Rightarrow> bool \<Rightarrow> u64 \<Rightarrow> tid list \<Rightarrow>
   (data_block, data_block) chan" where
  "one_chan r cl h f k ts = \<lparr>c_client = cl, c_handler = h, q_finished = f, q_nthreads = k, q_head = ts, q_ptail = head_of ts,
     c_calls = [(True, r)], c_out = []\<rparr>"

lemma one_next [simp]: "(\<lambda>_. None)(t := None) = (\<lambda>_. None)"
  by auto

lemmas one_step_simps = next_append_def chan_append_def  one_thread_def one_worker_def one_chan_def pool_step_defs thread_init_def

lemma one_dispatched:
  fixes L :: "'z complib"
  assumes p: "pooled L crc 0 one_client w0 es fl (pool_dispatch L crc one_client 0 [b]) w"
    and cb: "cb = mtbl_writer_compress_block L crc"
  shows "pooled L crc 0 one_client w0 es fl
    (one_thread [] (one_worker (Some b) None (Some cb) True W_wait) (one_chan (cb b) C_idle H_wait False 1 [0])) w"
proof -
  let ?P = "\<lambda>s. pooled L crc 0 one_client w0 es fl s w"
  let ?s1 = "one_thread [] thread_init (one_chan (cb b) (C_has 0 True cb b) H_wait False 0 [])"
  let ?s2 = "one_thread [] (one_worker (Some b) None (Some cb) True W_wait) (one_chan (cb b) (C_sent 0 True) H_wait False 0 [])"
  note start = one_client_def result_handler_init_def threadpool_init_def chan_init_def pool_dispatch_def dispatch_call_def
  have "pool_work (pool_dispatch L crc one_client 0 [b]) (Some ?s1)"
    using next_thread [of 0 "pool_dispatch L crc one_client 0 [b]" True cb b] by (simp add: one_step_simps start cb)
  then have "?P ?s1" by (rule pooled_work [OF p]) (simp add: one_step_simps start)
  moreover have "pool_work ?s1 (Some ?s2)"
    using start_thread [of 0 ?s1 0 True cb b] by (simp add: one_step_simps)
  ultimately have "?P ?s2" by (rule pooled_work) (simp add: one_step_simps)
  moreover have "pool_work ?s2
      (Some (one_thread [] (one_worker (Some b) None (Some cb) True W_wait) (one_chan (cb b) C_idle H_wait False 1 [0])))"
    using post_thread [of 0 ?s2 0 True] by (simp add: one_step_simps)
  ultimately show ?thesis by (rule pooled_work) (simp add: one_step_simps)
qed

lemma one_worked:
  assumes "pooled L crc 0 s0 w0 es fl (one_thread ts (one_worker (Some b) None (Some cb) True W_wait) c) w"
  shows "pooled L crc 0 s0 w0 es fl (one_thread ts (one_worker None (cb b) None False W_wait) c) w"
proof -
  let ?P = "\<lambda>s. pooled L crc 0 s0 w0 es fl s w"
  let ?s1 = "one_thread ts (one_worker (Some b) None (Some cb) True W_woken) c"
  let ?s2 = "one_thread ts (one_worker None (cb b) None True (W_ran None)) c"
  have "pool_work (one_thread ts (one_worker (Some b) None (Some cb) True W_wait) c) (Some ?s1)"
    using wake [of 0 "one_thread ts (one_worker (Some b) None (Some cb) True W_wait) c"] by (simp add: one_step_simps)
  then have "?P ?s1" by (rule pooled_work [OF assms]) (simp add: one_step_simps)
  moreover have "pool_work ?s1 (Some ?s2)" using run [of 0 ?s1] by (simp add: one_step_simps)
  ultimately have "?P ?s2" by (rule pooled_work) (simp add: one_step_simps)
  moreover have "pool_work ?s2 (Some (one_thread ts (one_worker None (cb b) None False W_wait) c))"
    using stop [of 0 ?s2 None] by (simp add: one_step_simps)
  ultimately show ?thesis by (rule pooled_work) (simp add: one_step_simps)
qed

lemma one_called:
  assumes "pooled L crc 0 s0 w0 es fl (one_thread [] (one_worker None r None False W_wait) (one_chan r C_join H_wait True 1 [0])) w"
  shows "pooled L crc 0 s0 w0 es fl (one_thread [0] thread_init (one_chan r C_join (H_call r) True 0 [])) w"
proof -
  let ?P = "\<lambda>s. pooled L crc 0 s0 w0 es fl s w"
  let ?s0 = "one_thread [] (one_worker None r None False W_wait) (one_chan r C_join H_wait True 1 [0])"
  let ?s1 = "one_thread [] (one_worker None r None False W_wait) (one_chan r C_join (H_got 0) True 0 [])"
  let ?s2 = "one_thread [] thread_init (one_chan r C_join (H_return 0 r) True 0 [])"
  have "pool_work ?s0 (Some ?s1)" using take [of 0 ?s0] by (simp add: one_step_simps)
  then have "?P ?s1" by (rule pooled_work [OF assms]) (simp add: one_step_simps)
  moreover have "pool_work ?s1 (Some ?s2)" using collect [of 0 ?s1 0] by (simp add: one_step_simps)
  ultimately have "?P ?s2" by (rule pooled_work) (simp add: one_step_simps)
  moreover have "pool_work ?s2 (Some (one_thread [0] thread_init (one_chan r C_join (H_call r) True 0 [])))"
    using return [of 0 ?s2 0 r] by (simp add: one_step_simps)
  ultimately show ?thesis by (rule pooled_work) (simp add: one_step_simps)
qed

lemma one_joined:
  assumes "pooled L crc 0 s0 w0 es fl (one_thread [0] thread_init (one_chan (Some b) C_join (H_call (Some b)) True 0 [])) w"
    and "mtbl_writer_write_data_block w b = Some w'"
  shows "\<exists>s. pooled L crc 0 s0 w0 es fl s w' \<and> c_client (p_chans s 0) = C_joined"
proof -
  let ?s0 = "result_call (one_thread [0] thread_init (one_chan (Some b) C_join (H_call (Some b)) True 0 [])) 0 (Some b)"
  let ?s1 = "one_thread [0] thread_init ((one_chan (Some b) C_join H_exited True 0 [])\<lparr>c_out := [Some b]\<rparr>)"
  let ?P = "\<lambda>s. pooled L crc 0 s0 w0 es fl s w'"
  have "?P ?s0" using assms(1) by (rule pooled_callback [OF _ _ assms(2)]) (simp add: one_step_simps)
  moreover have "pool_work ?s0 (Some ?s1)" using take [of 0 ?s0] by (simp add: one_step_simps)
  ultimately have p1: "?P ?s1" by (rule pooled_work) (simp add: one_step_simps)
  have "pool_work ?s1 (Some (handler_join ?s1 0))" by (rule join) (simp_all add: one_step_simps)
  then have "?P (handler_join ?s1 0)" by (rule pooled_work [OF p1]) (simp add: one_step_simps)
  then show ?thesis by (intro exI [of _ "handler_join ?s1 0"]) (simp add: one_step_simps)
qed

definition pool_options :: mtbl_writer_options where
  "pool_options = plain_options\<lparr>wo_pool := True\<rparr>"

lemma pool_options_fits: "run_fits store_lib pool_options empty_fd [([97], [1])]"
  unfolding pool_options_def fits_pool by (rule plain_fits) (simp_all add: entry_fits_def)

text \<open>The writer of the example: one entry added, then flushed.\<close>

lemma flush_pool:
  assumes "mtbl_writer_flush L crc w = Some w'" and "wo_pool (w_opt w)" and "\<not> block_builder_empty (w_data w)"
  shows "length (w_queue w') = length (w_queue w) + 1"
  using assms by (auto simp: mtbl_writer_flush_def Let_def ensure_def split: bind_splits if_splits)

lemma pool_example:
  "\<exists>w0 w w' b. mtbl_writer_init_fd empty_fd (Some pool_options) = Some w0 \<and>
     mtbl_writer_add store_lib crc32c w0 [97] [1] = Some (True, w) \<and> w_queue w = [] \<and>
     mtbl_writer_flush store_lib crc32c w = Some w' \<and> w_queue w' = [b]"
proof -
  let ?e = "([97], [1]) :: entry"
  have opt: "0 < wo_block_restart_interval pool_options" "f_ok empty_fd" "wo_pool pool_options"
    using run_fitsD(1,2) [OF pool_options_fits] by (simp_all add: opt_fits_def pool_options_def)
  obtain w0 where w0: "mtbl_writer_init_fd empty_fd (Some pool_options) = Some w0"
      "writer_inv store_lib crc32c pool_options (f_bytes empty_fd) w0 [] [] []"
    using writer_init_ok [OF opt(1,2), of store_lib crc32c] by blast
  have add: "table_add pool_options ([] @ [], []) ?e = (True, ([], [?e]))"
    by (simp add: pool_options_def layout_simps)
  obtain w written queued where w: "mtbl_writer_add store_lib crc32c w0 [97] [1] = Some (True, w)"
      "written @ queued = []" "writer_inv store_lib crc32c pool_options (f_bytes empty_fd) w written queued [?e]"
    using writer_add_ok [OF w0(2) _ _ add] by (auto simp: table_entries_def)
  have core: "writer_core store_lib crc32c pool_options (f_bytes empty_fd) w [] [] [?e] (table_entries ([], [?e]))"
    using w(2,3) by (simp add: writer_inv_def)
  have q: "w_queue w = []" "w_opt w = pool_options" using core by (simp_all add: writer_core_def)
  have ne: "\<not> block_builder_empty (w_data w)"
    using core builder_empty [of "w_data w" "wo_block_restart_interval pool_options" "[?e]"] by (simp add: writer_core_def)
  have "lossless store_lib pool_options (block_image (wo_block_restart_interval pool_options) [?e])"
    using image_ge [of "[?e]" "wo_block_restart_interval pool_options"]
    by (auto simp: lossless_def stored_def pool_options_def plain_options_def mtbl_writer_options_set_block_size_def Let_def)
  then obtain w' where w': "mtbl_writer_flush store_lib crc32c w = Some w'" using flush_ok [OF core] by blast
  have "length (w_queue w') = 1" using flush_pool [OF w' _ ne] q opt(3) by simp
  then obtain b where "w_queue w' = [b]" by (cases "w_queue w'") auto
  then show ?thesis using w0(1) w(1) q(1) w' by blast
qed

theorem writer_on_pool_same_file_witness:
  "\<exists>s w0 w fd'. mtbl_writer_init_fd empty_fd (Some pool_options) = Some w0 \<and>
     pooled store_lib crc32c 0 one_client w0 [([97], [1])] True s w \<and> c_client (p_chans s 0) = C_joined \<and>
     mtbl_writer_destroy store_lib crc32c w = Some fd' \<and>
     write_file store_lib crc32c plain_options empty_fd [Add [97] [1]] = Some ([True], f_bytes fd')"
proof -
  let ?cb = "mtbl_writer_compress_block store_lib crc32c"
  obtain w0 w w' b where e: "mtbl_writer_init_fd empty_fd (Some pool_options) = Some w0"
      "mtbl_writer_add store_lib crc32c w0 [97] [1] = Some (True, w)" "w_queue w = []"
      "mtbl_writer_flush store_lib crc32c w = Some w'" "w_queue w' = [b]"
    using pool_example by blast
  have pool: "wo_pool pool_options" "pool_options\<lparr>wo_pool := False\<rparr> = plain_options"
    by (simp_all add: pool_options_def plain_options_def mtbl_writer_options_set_block_size_def mtbl_writer_options_init_def Let_def)
  have rest: "w\<lparr>w_queue := []\<rparr> = w" using e(3) by (cases w) simp
  have "pooled store_lib crc32c 0 one_client w0 ([] @ [([97], [1])]) False (pool_dispatch store_lib crc32c one_client 0 (w_queue w)) (w\<lparr>w_queue := []\<rparr>)"
    by (rule pooled_add [OF pooled_start one_client_ok(5) e(2)])
  then have p: "pooled store_lib crc32c 0 one_client w0 [([97], [1])] False one_client w"
    by (simp add: e(3) rest pool_dispatch_def)
  let ?w = "w'\<lparr>w_queue := []\<rparr>"
  have "pooled store_lib crc32c 0 one_client w0 [([97], [1])] True (pool_dispatch store_lib crc32c one_client 0 [b]) ?w"
    using pooled_flush [OF p one_client_ok(5) e(4)] e(5) by simp
  from pooled_finish [OF one_worked [OF one_dispatched [OF this refl]]]
  have "pooled store_lib crc32c 0 one_client w0 [([97], [1])] True
      (one_thread [] (one_worker None (?cb b) None False W_wait) (one_chan (?cb b) C_join H_wait True 1 [0])) ?w"
    by (simp add: one_step_simps resultq_finish_def)
  then have c: "pooled store_lib crc32c 0 one_client w0 [([97], [1])] True
      (one_thread [0] thread_init (one_chan (?cb b) C_join (H_call (?cb b)) True 0 [])) ?w"
    by (rule one_called)
  note ok = writer_on_pool_same_file [OF _ one_client_ok(1) _ one_client_ok(2-4) e(1) pool(1) pool_options_fits, simplified]
  obtain b' w2 where b': "?cb b = Some b'" "mtbl_writer_write_data_block ?w b' = Some w2"
    using ok [OF c] by (auto simp: one_step_simps)
  obtain s where s: "pooled store_lib crc32c 0 one_client w0 [([97], [1])] True s w2" "c_client (p_chans s 0) = C_joined"
    using one_joined [OF c [unfolded b'(1)] b'(2)] by blast
  then show ?thesis using ok [OF s(1)] e(1) pool(2) by auto
qed

end
