(* ===== verification/Merger_Seek.thy ===== *)
theory Merger_Seek
  imports Reader_Source
begin

text \<open>
  Seeking in a merge. \<open>seeking_kids\<close> is what the merger relies on: a child seeks rightly to every
  key from a bound on, which its steps raise to the keys they return. \<open>merger_allowed\<close> is what a
  sequence of steps and seeks on the merger may return: after a seek the least key from the target
  on, with all the values of that key merged; \<open>merge_forward\<close> are the sequences it is proved for.
\<close>

subsection \<open>Seeking children\<close>

locale seeking_kids =
  fixes F :: "'s mtbl_iter option \<Rightarrow> bytes \<Rightarrow> entry list \<Rightarrow> entry list \<Rightarrow> bool"
  assumes F_strict: "F it b all rest \<Longrightarrow> strict_keys all"
    and F_next: "F it b all rest \<Longrightarrow>
      \<exists>it'. mtbl_iter_next it = Some (if rest = [] then None else Some (hd rest), it') \<and>
        F it' (if rest = [] \<or> rest = all then b else fst (hd rest)) all (tl rest)"
    and F_seek: "F it b all rest \<Longrightarrow> b \<le> t \<Longrightarrow>
      \<exists>it'. mtbl_iter_seek it t = Some (True, it') \<and> F it' t all (filter (\<lambda>e. t \<le> fst e) all)"

text \<open>The bound is at most \<open>lo\<close>, or at most the last key the child returned.\<close>

definition kid ::
  "('s mtbl_iter option \<Rightarrow> bytes \<Rightarrow> entry list \<Rightarrow> entry list \<Rightarrow> bool) \<Rightarrow> bytes \<Rightarrow> entry list \<Rightarrow>
   's mtbl_iter option \<Rightarrow> entry list \<Rightarrow> bool" where
  "kid F lo A it R \<longleftrightarrow> (\<exists>b p. F it b A R \<and> A = p @ R \<and> (b \<le> lo \<or> p \<noteq> [] \<and> b \<le> fst (last p)))"

lemma kid_mono: "kid F lo A it R \<Longrightarrow> lo \<le> lo' \<Longrightarrow> kid F lo' A it R"
  unfolding kid_def by (blast intro: order_trans)

lemma strict_filter_split:
  assumes "strict_keys A"
  shows "A = filter (\<lambda>e. fst e < t) A @ filter (\<lambda>e. t \<le> fst e) A"
  using assms
proof (induction A)
  case (Cons a A)
  have a: "\<forall>e\<in>set A. fst a < fst e" "strict_keys A" using Cons.prems by (auto simp: strict_keys_def)
  show ?case
  proof (cases "fst a < t")
    case True
    then show ?thesis using Cons.IH [OF a(2)] by simp
  next
    case False
    then have "\<not> fst e < t" "t \<le> fst e" if "e \<in> set A" for e using a(1) that by force+
    then show ?thesis using False by (simp add: filter_id_conv)
  qed
qed simp

lemma lists_ok_update:
  assumes "lists_ok opt Ls" and i: "i < length Ls" and L: "sorted_wrt (mle opt) L" "set L \<subseteq> set (Ls ! i)"
  shows "lists_ok opt (Ls[i := L])"
proof -
  have cases: "L' = L \<or> L' \<in> set Ls" if "L' \<in> set (Ls[i := L])" for L'
    using set_update_subset_insert [of Ls i L] that by auto
  have "set L \<subseteq> set (concat Ls)" using L(2) nth_mem [OF i] by auto
  then have "\<forall>x\<in>set L. fst x \<noteq> []" using assms(1) unfolding lists_ok_def by blast
  then have "\<forall>L'\<in>set (Ls[i := L]). sorted_wrt (mle opt) L' \<and> (\<forall>x\<in>set L'. fst x \<noteq> [])"
    using cases assms(1) L(1) unfolding lists_ok_def by (metis UN_I set_concat)
  then show ?thesis unfolding lists_ok_def by auto
qed

text \<open>An entry after a seek to \<open>t\<close>.\<close>

definition sought ::
  "('s mtbl_iter option \<Rightarrow> bytes \<Rightarrow> entry list \<Rightarrow> entry list \<Rightarrow> bool) \<Rightarrow> bytes \<Rightarrow> entry list \<Rightarrow>
   's merger_entry \<Rightarrow> bool" where
  "sought F t A e \<longleftrightarrow> (if filter (\<lambda>e. t \<le> fst e) A = [] then kid F t A (me_it e) []
     else live (kid F t A) e (filter (\<lambda>e. t \<le> fst e) A))"

context seeking_kids begin

lemma kid_cursor: "cursor mtbl_iter_next (kid F lo A)"
proof
  fix it e R
  assume "kid F lo A it (e # R)"
  then obtain b p where k: "F it b A (e # R)" "A = p @ e # R" "b \<le> lo \<or> p \<noteq> [] \<and> b \<le> fst (last p)"
    unfolding kid_def by blast
  obtain it' where it': "mtbl_iter_next it = Some (Some e, it')" "F it' (if e # R = A then b else fst e) A R"
    using F_next [OF k(1)] unfolding list.sel if_not_P [OF list.distinct(2)] by auto
  have "A = (p @ [e]) @ R" using k(2) by simp
  moreover have "(if e # R = A then b else fst e) \<le> lo \<or> p @ [e] \<noteq> [] \<and> (if e # R = A then b else fst e) \<le> fst (last (p @ [e]))"
    using k(2,3) by auto
  ultimately show "\<exists>it'. mtbl_iter_next it = Some (Some e, it') \<and> kid F lo A it' R"
    using it' unfolding kid_def by blast
next
  fix it
  assume "kid F lo A it []"
  then obtain b p where k: "F it b A []" "A = p @ []" "b \<le> lo \<or> p \<noteq> [] \<and> b \<le> fst (last p)"
    unfolding kid_def by blast
  obtain it' where "mtbl_iter_next it = Some (None, it')" "F it' b A []" using F_next [OF k(1)] by auto
  then show "\<exists>it'. mtbl_iter_next it = Some (None, it') \<and> kid F lo A it' []" using k unfolding kid_def by blast
qed

lemma kids_of: "merger_kids (\<lambda>i. kid F lo (As ! i))"
  using kid_cursor by (rule merger_kids.intro)

text \<open>Seeking one entry and filling it again.\<close>

lemma seek_entry_ok:
  assumes F: "F (me_it e) b A R" and t: "b \<le> t"
  shows "\<exists>it e'. mtbl_iter_seek (me_it e) t = Some (True, it) \<and>
    entry_fill (e\<lparr>me_it := it\<rparr>) = Some (filter (\<lambda>e. t \<le> fst e) A \<noteq> [], e') \<and>
    sought F t A e'"
proof -
  let ?L = "filter (\<lambda>e. t \<le> fst e) A"
  obtain it where it: "mtbl_iter_seek (me_it e) t = Some (True, it)" "F it t A ?L" using F_seek [OF F t] by blast
  have "kid F t A it ?L"
    unfolding kid_def using it(2) strict_filter_split [OF F_strict [OF F], of t] by blast
  then have "kid F t A (me_it (e\<lparr>me_it := it\<rparr>)) ?L" by simp
  from merger_kids.entry_fill_ok [OF merger_kids.intro [OF kid_cursor] this]
  obtain e' where "entry_fill (e\<lparr>me_it := it\<rparr>) = Some (?L \<noteq> [], e')"
      "if ?L = [] then me_finished e' \<and> kid F t A (me_it e') [] else live (kid F t A) e' ?L" by blast
  then show ?thesis using it(1) by (auto simp: sought_def split: if_splits)
qed

lemma seek_entries_ok:
  "es = drop i Es \<Longrightarrow> length As = length Es \<Longrightarrow>
   (\<And>j. i \<le> j \<Longrightarrow> j < length Es \<Longrightarrow> \<exists>b R. F (me_it (Es ! j)) b (As ! j) R \<and> b \<le> t) \<Longrightarrow>
   \<exists>es' added. seek_entries t es i h = Some (es', h @ added) \<and> length es' = length es \<and> distinct added \<and>
     (\<forall>j. j \<in> set added \<longleftrightarrow> i \<le> j \<and> j < length Es \<and> filter (\<lambda>e. t \<le> fst e) (As ! j) \<noteq> []) \<and>
     (\<forall>j<length es. sought F t (As ! (i + j)) (es' ! j))"
proof (induction es arbitrary: i h)
  case Nil
  then have "length Es \<le> i" by simp
  then show ?case by (intro exI [of _ "[]"]) auto
next
  case (Cons e es)
  have i: "i < length Es" "e = Es ! i" "es = drop (Suc i) Es"
  proof -
    show "i < length Es" using Cons.prems(1) by (metis drop_eq_Nil linorder_not_le list.distinct(1))
    then have "Es ! i # drop (Suc i) Es = e # es" unfolding Cons.prems(1) by (rule Cons_nth_drop_Suc)
    then show "e = Es ! i" "es = drop (Suc i) Es" by simp_all
  qed
  let ?L = "filter (\<lambda>e. t \<le> fst e) (As ! i)"
  obtain b R where F: "F (me_it e) b (As ! i) R" "b \<le> t" using Cons.prems(3) i by blast
  obtain it e' where e': "mtbl_iter_seek (me_it e) t = Some (True, it)"
      "entry_fill (e\<lparr>me_it := it\<rparr>) = Some (?L \<noteq> [], e')"
      "sought F t (As ! i) e'"
    using seek_entry_ok [OF F] by blast
  let ?h = "if ?L \<noteq> [] then heap_add h i else h"
  obtain es' added where IH: "seek_entries t es (Suc i) ?h = Some (es', ?h @ added)" "length es' = length es"
      "distinct added" "\<forall>j. j \<in> set added \<longleftrightarrow> Suc i \<le> j \<and> j < length Es \<and> filter (\<lambda>e. t \<le> fst e) (As ! j) \<noteq> []"
      "\<forall>j<length es. sought F t (As ! (Suc i + j)) (es' ! j)"
  proof -
    have "\<exists>b R. F (me_it (Es ! j)) b (As ! j) R \<and> b \<le> t" if "Suc i \<le> j" "j < length Es" for j
      using Cons.prems(3) [of j] that by simp
    from Cons.IH [OF i(3) Cons.prems(2) this, of ?h] show thesis using that by blast
  qed
  let ?added = "(if ?L \<noteq> [] then [i] else []) @ added"
  have run: "seek_entries t (e # es) i h = Some (e' # es', h @ ?added)"
    using e'(1,2) IH(1) by (cases "?L = []") (simp_all add: heap_add_def)
  have dist: "distinct ?added" using IH(3,4) by auto
  have mem: "\<forall>j. j \<in> set ?added \<longleftrightarrow> i \<le> j \<and> j < length Es \<and> filter (\<lambda>e. t \<le> fst e) (As ! j) \<noteq> []"
  proof
    fix j
    consider "j = i" | "j < i" | "Suc i \<le> j" by linarith
    then show "j \<in> set ?added \<longleftrightarrow> i \<le> j \<and> j < length Es \<and> filter (\<lambda>e. t \<le> fst e) (As ! j) \<noteq> []"
      using IH(4) i(1) by cases auto
  qed
  have each: "\<forall>j<length (e # es). sought F t (As ! (i + j)) ((e' # es') ! j)"
  proof (intro allI impI)
    fix j assume "j < length (e # es)"
    then show "sought F t (As ! (i + j)) ((e' # es') ! j)" using e'(3) IH(5) by (cases j) simp_all
  qed
  show ?case
    using run dist mem each IH(2) by (intro exI [of _ "e' # es'"], intro exI [of _ ?added]) simp
qed


lemma seek_all_ok:
  assumes dup: "dupsort_ok (mi_m it)" and len: "length As = length (mi_entries it)"
    and kids: "\<And>j. j < length As \<Longrightarrow> \<exists>b R. F (me_it (mi_entries it ! j)) b (As ! j) R \<and> b \<le> t"
    and keys: "\<forall>x\<in>set (concat As). fst x \<noteq> []"
  shows "\<exists>es added h. seek_entries t (mi_entries it) 0 (heap_clip (mi_h it) 0) = Some (es, added) \<and>
    heap_heapify (heap_cmp (mi_m it) es) added = Some h \<and>
    minv (\<lambda>i. kid F t (As ! i)) (it\<lparr>mi_entries := es, mi_h := h\<rparr>) (map (filter (\<lambda>e. t \<le> fst e)) As) \<and>
    ready (it\<lparr>mi_entries := es, mi_h := h\<rparr>)"
proof -
  let ?L = "\<lambda>j. filter (\<lambda>e. t \<le> fst e) (As ! j)" and ?n = "length As"
  have clip: "heap_clip (mi_h it) 0 = []" by (simp add: heap_clip_def)
  obtain es added where es: "seek_entries t (mi_entries it) 0 [] = Some (es, added)" "length es = ?n" "distinct added"
      "\<And>j. j \<in> set added \<longleftrightarrow> j < ?n \<and> ?L j \<noteq> []"
      "\<And>j. j < ?n \<Longrightarrow> sought F t (As ! j) (es ! j)"
    using seek_entries_ok [of "mi_entries it" 0 "mi_entries it" As t "[]"] kids len by auto
  obtain h where h: "heap_heapify (heap_cmp (mi_m it) es) added = Some h" "is_heap (heap_cmp (mi_m it) es) h"
      "mset h = mset added"
    using heap_order.heapify_heap [OF heap_cmp_order [OF dup]] by blast
  have hs: "set h = set added" "distinct h"
    using mset_eq_setD [OF h(3)] mset_eq_imp_distinct_iff [OF h(3)] es(3) by simp_all
  have fin: "\<not> me_finished (es ! j)" if "j \<in> set h" for j
    using es(4,5) [of j] hs(1) that by (auto simp: live_def sought_def)
  let ?it = "it\<lparr>mi_entries := es, mi_h := h\<rparr>"
  have slots: "if j \<in> set h \<and> \<not> me_finished (es ! j) then live (kid F t (As ! j)) (es ! j) (?L j)
      else ?L j = [] \<and> kid F t (As ! j) (me_it (es ! j)) []" if j: "j < ?n" for j
  proof (cases "?L j = []")
    case True
    then show ?thesis using es(4,5) [of j] hs(1) j by (auto simp: sought_def)
  next
    case False
    then have "j \<in> set h" "live (kid F t (As ! j)) (es ! j) (?L j)" using es(4,5) [of j] hs(1) j by (auto simp: sought_def)
    then show ?thesis using fin j by simp
  qed
  have "sorted_wrt (mle (mi_m it)) (filter (\<lambda>e. t \<le> fst e) A)" if A: "A \<in> set As" for A
  proof -
    obtain j where j: "j < ?n" "As ! j = A" using A unfolding in_set_conv_nth by blast
    obtain b R where "F (me_it (mi_entries it ! j)) b (As ! j) R" using kids [OF j(1)] by blast
    then show ?thesis unfolding j(2) [symmetric] by (intro sorted_wrt_filter strict_mle) (rule F_strict)
  qed
  then have ok: "lists_ok (mi_m it) (map (filter (\<lambda>e. t \<le> fst e)) As)" using keys by (auto simp: lists_ok_def)
  have rd: "ready ?it" using fin by (simp add: ready_def)
  have sub: "set h \<subseteq> {..<?n}" using hs(1) es(4) by auto
  have "minv (\<lambda>i. kid F t (As ! i)) ?it (map (filter (\<lambda>e. t \<le> fst e)) As)"
  proof (rule minvI)
    show "ready ?it" by (rule rd)
    fix j assume "j < length (map (filter (\<lambda>e. t \<le> fst e)) As)"
    then have j: "j < ?n" by simp
    show "if j \<in> set (mi_h ?it) \<and> \<not> me_finished (mi_entries ?it ! j)
        then live (kid F t (As ! j)) (mi_entries ?it ! j) (map (filter (\<lambda>e. t \<le> fst e)) As ! j)
        else map (filter (\<lambda>e. t \<le> fst e)) As ! j = [] \<and> kid F t (As ! j) (me_it (mi_entries ?it ! j)) []"
      unfolding nth_map [OF j] using slots [OF j] by simp
  qed (use dup ok es(2) hs(2) h(2) sub in simp_all)
  with rd have "minv (\<lambda>i. kid F t (As ! i)) ?it (map (filter (\<lambda>e. t \<le> fst e)) As) \<and> ready ?it" by blast
  then show ?thesis using es(1) h(1) clip by auto
qed

text \<open>
  Seeking forward: only the entries behind the target are touched. Whatever is from the target on
  in a list stays in it, and at the end nothing else is left.
\<close>

lemma kid_may_seek:
  assumes "kid F t A c R" and same: "filter (\<lambda>e. t \<le> fst e) A = filter (\<lambda>e. t \<le> fst e) R"
  shows "\<exists>b. F c b A R \<and> b \<le> t"
proof -
  obtain b p where b: "F c b A R" "A = p @ R" "b \<le> t \<or> p \<noteq> [] \<and> b \<le> fst (last p)"
    using assms(1) unfolding kid_def by blast
  have "filter (\<lambda>e. t \<le> fst e) p = []" using same unfolding b(2) by simp
  then have "p \<noteq> [] \<Longrightarrow> fst (last p) < t" unfolding filter_empty_conv by (simp add: not_le)
  then have "b \<le> t" using b(3) by auto
  then show ?thesis using b(1) by blast
qed

lemma fewer_behind:
  assumes i: "i < length Ls" and "filter P L = []" and "filter P (Ls ! i) \<noteq> []"
  shows "length (filter P (concat (Ls[i := L]))) < length (filter P (concat Ls))"
proof -
  have "filter_mset P (mset L) = {#}" using assms(2) unfolding mset_filter [symmetric] by simp
  then have "filter_mset P (mset (concat (Ls[i := L]))) + filter_mset P (mset (Ls ! i)) = filter_mset P (mset (concat Ls))"
    unfolding filter_union_mset [symmetric] mset_concat_update [OF i] by (simp del: mset_concat)
  from arg_cong [OF this, of size]
  have "length (filter P (concat (Ls[i := L]))) + length (filter P (Ls ! i)) = length (filter P (concat Ls))"
    by (simp only: mset_filter [symmetric] size_union size_mset)
  moreover have "0 < length (filter P (Ls ! i))" using assms(3) by simp
  ultimately show ?thesis by linarith
qed

text \<open>One round: the top entry is sought and filled again, and stays in the heap or leaves it.\<close>

lemma seek_top_ok:
  fixes t As
  defines "G \<equiv> filter (\<lambda>e. t \<le> fst e)"
  assumes inv: "minv (\<lambda>i. kid F t (As ! i)) it Ls" and rd: "ready it" and h: "mi_h it = i # h'"
    and top: "me_key (mi_entries it ! i) = Some k" "Ls ! i = (k, me_val (mi_entries it ! i)) # R"
      "kid F t (As ! i) (me_it (mi_entries it ! i)) R" "i < length Ls"
    and kt: "k < t" and same: "G (As ! i) = G (Ls ! i)"
  shows "\<exists>it1. minv (\<lambda>i. kid F t (As ! i)) it1 (Ls[i := G (As ! i)]) \<and> ready it1 \<and>
    mi_m it1 = mi_m it \<and> mi_cur_key it1 = mi_cur_key it \<and> mi_pending it1 = mi_pending it \<and>
    mi_finished it1 = mi_finished it \<and>
    seek_forward t it changed =
      (if mi_h it1 = [] then Some (True, it1\<lparr>mi_finished := True\<rparr>) else seek_forward t it1 True)"
proof -
  let ?e = "mi_entries it ! i" and ?L = "G (As ! i)"
  have L: "?L = G R" using same top(2) kt by (simp add: G_def not_le)
  obtain b where b: "F (me_it ?e) b (As ! i) R" "b \<le> t" using kid_may_seek [OF top(3)] L unfolding G_def by blast
  obtain s_it ent where se: "mtbl_iter_seek (me_it ?e) t = Some (True, s_it)"
      "entry_fill (?e\<lparr>me_it := s_it\<rparr>) = Some (?L \<noteq> [], ent)" "sought F t (As ! i) ent"
    using seek_entry_ok [OF b] unfolding G_def by blast
  have ent: "if ?L = [] then kid F t (As ! i) (me_it ent) [] else live (kid F t (As ! i)) ent ?L"
    using se(3) unfolding sought_def G_def .
  have "sorted_wrt (mle (mi_m it)) ?L" using F_strict [OF b(1)] unfolding G_def by (intro sorted_wrt_filter strict_mle)
  moreover have "set ?L \<subseteq> set (Ls ! i)" unfolding L top(2) by (auto simp: G_def)
  ultimately have ok: "lists_ok (mi_m it) (Ls[i := ?L])" by (rule lists_ok_update [OF minvD(2) [OF inv] top(4)])
  let ?es = "(mi_entries it)[i := ent]"
  let ?cmp = "heap_cmp (mi_m it) ?es"
  have order: "heap_order ?cmp" by (rule minv_order [OF inv])
  note below = heap_below_top [OF inv h, of ent]
  obtain h2 where h2: "mset h2 = mset (if ?L = [] then h' else i # h')" "is_heap ?cmp h2"
    and top2: "if ?L = [] then heap_pop ?cmp (i # h') = Some (Some i, h2)
       else heap_replace ?cmp (i # h') i = Some (Some i, h2)"
    using heap_order.pop_heap [OF order below] heap_order.replace_heap [OF order below, of i]
    by (cases "?L = []") auto
  let ?it = "it\<lparr>mi_entries := ?es, mi_h := h2\<rparr>"
  have "seek_forward t it changed = (if h2 = [] then Some (True, ?it\<lparr>mi_finished := True\<rparr>) else seek_forward t ?it True)"
  proof (cases "?L = []")
    case True
    then show ?thesis using h top(1) kt se(1,2) top2
      by (cases h2) (subst seek_forward.simps, simp add: heap_peek_def)+
  next
    case False
    have "h2 \<noteq> []" using h2(1) False by auto
    then show ?thesis using h top(1) kt se(1,2) top2 False by (subst seek_forward.simps) (simp add: heap_peek_def)
  qed
  moreover have "minv (\<lambda>i. kid F t (As ! i)) ?it (Ls[i := ?L])" "ready ?it"
    by (rule minv_top_written [OF inv rd h ok ent h2])+
  ultimately show ?thesis by (intro exI [of _ ?it]) simp
qed

lemma seek_forward_ok:
  assumes "minv (\<lambda>i. kid F t (As ! i)) it Ls" and "ready it" and "mi_h it \<noteq> []"
    and "\<And>i. i < length Ls \<Longrightarrow> filter (\<lambda>e. t \<le> fst e) (As ! i) = filter (\<lambda>e. t \<le> fst e) (Ls ! i)"
    and "\<not> mi_finished it"
  shows "\<exists>changed' it'. seek_forward t it changed = Some (changed', it') \<and>
    minv (\<lambda>i. kid F t (As ! i)) it' (map (filter (\<lambda>e. t \<le> fst e)) Ls) \<and> ready it' \<and>
    mi_m it' = mi_m it \<and> mi_cur_key it' = mi_cur_key it \<and> mi_pending it' = mi_pending it \<and>
    (mi_finished it' \<longrightarrow> filter (\<lambda>e. t \<le> fst e) (concat Ls) = [])"
  using assms
proof (induction "length (filter (\<lambda>e. fst e < t) (concat Ls))" arbitrary: it Ls changed rule: less_induct)
  case less
  let ?G = "filter (\<lambda>e. t \<le> fst e)"
  obtain i h' where h: "mi_h it = i # h'" using less.prems(3) by (cases "mi_h it") auto
  obtain k R where top: "me_key (mi_entries it ! i) = Some k" "Ls ! i = (k, me_val (mi_entries it ! i)) # R"
      "kid F t (As ! i) (me_it (mi_entries it ! i)) R" "i < length Ls"
      "\<forall>x\<in>set (concat Ls). mle (mi_m it) (k, me_val (mi_entries it ! i)) x"
    using minv_top [OF less.prems(1,2) h] by blast
  show ?case
  proof (cases "k < t")
    case False
    then have "t \<le> fst x" if "x \<in> set (concat Ls)" for x
      using top(5) entry_le_key that by fastforce
    then have "map ?G Ls = Ls" by (intro map_idI) (auto simp: filter_id_conv)
    moreover have "seek_forward t it changed = Some (changed, it)"
      using h top(1) False by (subst seek_forward.simps) (simp add: heap_peek_def)
    ultimately show ?thesis using less.prems by simp
  next
    case True
    let ?Ls = "Ls[i := ?G (As ! i)]"
    obtain it1 where it1: "minv (\<lambda>i. kid F t (As ! i)) it1 ?Ls" "ready it1" "mi_m it1 = mi_m it"
        "mi_cur_key it1 = mi_cur_key it" "mi_pending it1 = mi_pending it" "mi_finished it1 = mi_finished it"
        "seek_forward t it changed =
          (if mi_h it1 = [] then Some (True, it1\<lparr>mi_finished := True\<rparr>) else seek_forward t it1 True)"
      using seek_top_ok [OF less.prems(1,2) h top(1-4) True less.prems(4) [OF top(4)]] by blast
    have G: "map ?G ?Ls = map ?G Ls"
      using less.prems(4) [OF top(4)] by (simp add: map_update list_update_same_conv top(4))
    have same: "?G (concat ?Ls) = ?G (concat Ls)" unfolding filter_concat G ..
    show ?thesis
    proof (cases "mi_h it1 = []")
      case end_reached: True
      have none: "concat ?Ls = []" by (rule minv_empty [OF it1(1) end_reached])
      then have "map ?G Ls = ?Ls" unfolding G [symmetric] by (intro map_idI) auto
      moreover have "?G (concat Ls) = []" unfolding same [symmetric] none by simp
      ultimately show ?thesis
        using it1 end_reached by (intro exI [of _ True] exI [of _ "it1\<lparr>mi_finished := True\<rparr>"]) simp
    next
      case False
      have fewer: "length (filter (\<lambda>e. fst e < t) (concat ?Ls)) < length (filter (\<lambda>e. fst e < t) (concat Ls))"
        by (rule fewer_behind [OF top(4)]) (use top(2) True in \<open>auto simp: filter_empty_conv\<close>)
      have same_i: "?G (As ! j) = ?G (?Ls ! j)" if "j < length ?Ls" for j
        using less.prems(4) [of j] that by (cases "j = i") simp_all
      have "\<not> mi_finished it1" using less.prems(5) it1(6) by simp
      from less.hyps [OF fewer it1(1,2) False same_i this, of True]
      show ?thesis using it1(3-7) False unfolding G same by simp
    qed
  qed
qed

end

end
