(* ===== verification/Merger_Run.thy ===== *)
theory Merger_Run
  imports Merger_Seek
begin

text \<open>
  Sequences of steps and seeks on a merger with a merge function. \<open>merger_allowed\<close> says what they
  may return, given the tables merged: at each step the least key still due, with all the values
  the tables have for it merged in some order that agrees with the dupsort function.
\<close>

subsection \<open>What a sequence may return\<close>

definition group_of :: "mtbl_merger_options \<Rightarrow> entry list list \<Rightarrow> bytes \<Rightarrow> bytes \<Rightarrow> bool" where
  "group_of opt As k v \<longleftrightarrow> (\<exists>f v0 g. mo_merge opt = Some f \<and>
     mset ((k, v0) # g) = mset (filter (\<lambda>e. fst e = k) (concat As)) \<and> sorted_wrt (mle opt) ((k, v0) # g) \<and>
     v = fold_vals f k v0 g)"

text \<open>\<open>P\<close> is the set of keys still due.\<close>

fun merger_allowed ::
  "mtbl_merger_options \<Rightarrow> entry list list \<Rightarrow> (bytes \<Rightarrow> bool) \<Rightarrow> iter_op list \<Rightarrow> entry option list \<Rightarrow> bool" where
  "merger_allowed opt As P [] outs \<longleftrightarrow> outs = []"
| "merger_allowed opt As P (Seek t # ops) outs \<longleftrightarrow> merger_allowed opt As (\<lambda>x. t \<le> x) ops outs"
| "merger_allowed opt As P (Next # ops) [] \<longleftrightarrow> False"
| "merger_allowed opt As P (Next # ops) (None # outs) \<longleftrightarrow>
     (\<forall>e\<in>set (concat As). \<not> P (fst e)) \<and> merger_allowed opt As P ops outs"
| "merger_allowed opt As P (Next # ops) (Some (k, v) # outs) \<longleftrightarrow>
     P k \<and> (\<forall>e\<in>set (concat As). P (fst e) \<longrightarrow> k \<le> fst e) \<and> group_of opt As k v \<and>
     merger_allowed opt As (\<lambda>x. k < x) ops outs"

text \<open>
  The sequences: a seek at the start, to any key, and then, once a step was made, any seeks to keys
  still due. (\<open>Ks\<close> are the keys in order. Two seeks at the start without a step between them, and
  seeks back, are not covered: they make a child seek back.)
\<close>

datatype phase = Fresh | Sought | Running

fun merge_forward :: "bytes list \<Rightarrow> (bytes \<Rightarrow> bool) \<Rightarrow> phase \<Rightarrow> iter_op list \<Rightarrow> bool" where
  "merge_forward Ks P ph [] \<longleftrightarrow> True"
| "merge_forward Ks P ph (Seek t # ops) \<longleftrightarrow>
     ph \<noteq> Sought \<and> (ph = Running \<longrightarrow> P t) \<and>
     merge_forward Ks (\<lambda>x. t \<le> x) (if ph = Fresh then Sought else Running) ops"
| "merge_forward Ks P ph (Next # ops) \<longleftrightarrow>
     (case filter P Ks of
        [] \<Rightarrow> merge_forward Ks P Running ops
      | k # _ \<Rightarrow> merge_forward Ks (\<lambda>x. k < x) Running ops)"

primrec iter_run ::
  "'s mtbl_iter option \<Rightarrow> iter_op list \<Rightarrow> (entry option list \<times> 's mtbl_iter option) option" where
  "iter_run it [] = Some ([], it)"
| "iter_run it (oper # ops) = (case oper of
      Next \<Rightarrow> do {
        (e, it) \<leftarrow> mtbl_iter_next it;
        (es, it) \<leftarrow> iter_run it ops;
        Some (e # es, it)
      }
    | Seek key \<Rightarrow> do {
        (_, it) \<leftarrow> mtbl_iter_seek it key;
        iter_run it ops
      })"

subsection \<open>Groups\<close>

lemma takes_parts:
  "takes le Ls g Ls' \<Longrightarrow> i < length Ls \<Longrightarrow> \<exists>p. Ls ! i = p @ Ls' ! i \<and> set p \<subseteq> set g"
proof (induction arbitrary: i rule: takes.induct)
  case (takes_Nil Ls)
  show ?case by (rule exI [of _ "[]"]) simp
next
  case (takes_Cons j Ls e R g Ls')
  obtain p where p: "Ls[j := R] ! i = p @ Ls' ! i" "set p \<subseteq> set g"
    using takes_Cons.IH [of i] takes_Cons.prems by auto
  show ?case
  proof (cases "i = j")
    case True
    then show ?thesis using p takes_Cons.hyps(1,2) by (intro exI [of _ "e # p"]) auto
  next
    case False
    then show ?thesis using p by (intro exI [of _ p]) auto
  qed
qed

lemma takes_rest:
  fixes k :: bytes
  assumes t: "takes le Ls g Ls'" and Ls: "Ls = map (filter (\<lambda>e. P (fst e))) As"
    and g: "\<forall>x\<in>set g. fst x = k" and least: "\<forall>e\<in>set (concat Ls). k \<le> fst e"
    and rest: "\<forall>x\<in>set (concat Ls'). fst x \<noteq> k" and up: "\<And>x. k < x \<Longrightarrow> P x"
  shows "Ls' = map (filter (\<lambda>e. k < fst e)) As"
proof (rule nth_equalityI)
  show len: "length Ls' = length (map (filter (\<lambda>e. k < fst e)) As)" using takes_length [OF t] Ls by simp
  fix i assume i: "i < length Ls'"
  then have iA: "i < length As" "i < length Ls" using len Ls by simp_all
  obtain p where p: "Ls ! i = p @ Ls' ! i" "set p \<subseteq> set g" using takes_parts [OF t iA(2)] by blast
  have "\<forall>x\<in>set (Ls' ! i). k < fst x"
  proof
    fix x assume x: "x \<in> set (Ls' ! i)"
    then have "x \<in> set (concat Ls')" using i by auto
    moreover have "x \<in> set (Ls ! i)" using p(1) x by simp
    then have "x \<in> set (concat Ls)" using iA(2) by auto
    ultimately have "fst x \<noteq> k" "k \<le> fst x" using rest least by blast+
    then show "k < fst x" by (metis nless_le)
  qed
  then have "filter (\<lambda>e. k < fst e) (Ls' ! i) = Ls' ! i" by (simp add: filter_id_conv)
  moreover have "filter (\<lambda>e. k < fst e) p = []" using p(2) g by (auto simp: filter_empty_conv)
  ultimately have "Ls' ! i = filter (\<lambda>e. k < fst e) (Ls ! i)" unfolding p(1) by simp
  also have "\<dots> = filter (\<lambda>e. k < fst e) (As ! i)"
    unfolding Ls nth_map [OF iA(1)] filter_filter using up by (intro filter_cong) auto
  finally show "Ls' ! i = map (filter (\<lambda>e. k < fst e)) As ! i" using iA(1) by simp
qed

lemma takes_group:
  assumes t: "takes le Ls ((k, v) # g) Ls'" and Ls: "Ls = map (filter (\<lambda>e. P (fst e))) As" and P: "P k"
    and g: "\<forall>x\<in>set g. fst x = k" and rest: "\<forall>x\<in>set (concat Ls'). fst x \<noteq> k"
  shows "mset ((k, v) # g) = mset (filter (\<lambda>e. fst e = k) (concat As))"
proof -
  have "filter_mset (\<lambda>e. fst e = k) (mset ((k, v) # g)) = mset ((k, v) # g)"
    using g by (auto simp: filter_mset_eq_conv)
  moreover have "filter_mset (\<lambda>e. fst e = k) (mset (concat Ls')) = {#}"
    using rest unfolding filter_mset_eq_mempty_iff set_mset_mset by blast
  ultimately have "mset ((k, v) # g) = filter_mset (\<lambda>e. fst e = k) (mset (concat Ls))"
    unfolding takes_mset [OF t] by simp
  also have "\<dots> = mset (filter (\<lambda>e. fst e = k) (concat Ls))" by simp
  also have "filter (\<lambda>e. fst e = k) (concat Ls) = filter (\<lambda>e. fst e = k) (concat As)"
    unfolding Ls filter_concat [symmetric] filter_filter using P by (intro filter_cong) auto
  finally show ?thesis .
qed


subsection \<open>The state during a run\<close>

definition run_at ::
  "('s mtbl_iter option \<Rightarrow> bytes \<Rightarrow> entry list \<Rightarrow> entry list \<Rightarrow> bool) \<Rightarrow> entry list list \<Rightarrow> (bytes \<Rightarrow> bool) \<Rightarrow> phase \<Rightarrow>
   's merger_iter_state \<Rightarrow> bool" where
  "run_at F As P ph it \<longleftrightarrow> (\<exists>lo. idle (\<lambda>i. kid F lo (As ! i)) it (map (filter (\<lambda>e. P (fst e))) As) \<and>
       (\<forall>x. P x \<longrightarrow> lo \<le> x)) \<and> (\<forall>x y. P x \<longrightarrow> x \<le> y \<longrightarrow> P y) \<and>
     (case ph of
        Fresh \<Rightarrow> mi_cur_key it = [] \<and> (\<forall>j<length As. \<exists>R. F (me_it (mi_entries it ! j)) [] (As ! j) R)
      | Sought \<Rightarrow> mi_cur_key it = []
      | Running \<Rightarrow> (\<forall>x. P x \<longrightarrow> mi_cur_key it \<le> x) \<and>
          (mi_cur_key it = [] \<longrightarrow> (\<forall>e\<in>set (concat As). \<not> P (fst e))))"

definition heads ::
  "('s mtbl_iter option \<Rightarrow> bytes \<Rightarrow> entry list \<Rightarrow> entry list \<Rightarrow> bool) \<Rightarrow> 's merger_iter_state \<Rightarrow> entry list list \<Rightarrow> bool" where
  "heads F it As \<longleftrightarrow> (\<forall>j<length As. \<exists>R. F (me_it (mi_entries it ! j)) [] (As ! j) R)"

text \<open>A source that opens to an iterator before its first entry, or to one that has nothing.\<close>

definition fresh_source ::
  "('s mtbl_iter option \<Rightarrow> bytes \<Rightarrow> entry list \<Rightarrow> entry list \<Rightarrow> bool) \<Rightarrow> ('x \<Rightarrow> 's mtbl_iter option option) \<Rightarrow>
   'x \<Rightarrow> entry list \<Rightarrow> bool" where
  "fresh_source F open_source s T \<longleftrightarrow> (\<exists>it. open_source s = Some it \<and>
     (if T = [] then \<exists>it'. mtbl_iter_next it = Some (None, it') else F it [] T T)) \<and> (\<forall>x\<in>set T. fst x \<noteq> [])"

lemma none_due: "concat (map (filter (\<lambda>e. P (fst e))) As) = [] \<longleftrightarrow> (\<forall>e\<in>set (concat As). \<not> P (fst e))"
  by (simp add: filter_concat [symmetric] filter_empty_conv del: concat_eq_Nil_conv)

lemma nil_least: "[] \<le> (k :: bytes)"
  by (cases k) simp_all

lemma merger_iter_step:
  "mtbl_iter_next (Some (merger_mtbl_iter it)) = map_option (\<lambda>(e, it). (e, Some (merger_mtbl_iter it))) (merger_iter_next it)"
  by (cases "merger_iter_next it") (simp_all add: mtbl_iter_next_def merger_mtbl_iter_def mtbl_iter_init_def split: prod.split)

lemma merger_iter_step_seek:
  "mtbl_iter_seek (Some (merger_mtbl_iter it)) key = map_option (\<lambda>(r, it). (r, Some (merger_mtbl_iter it))) (merger_iter_seek it key)"
  by (cases "merger_iter_seek it key") (simp_all add: mtbl_iter_seek_def merger_mtbl_iter_def mtbl_iter_init_def split: prod.split)

context seeking_kids begin

lemma run_next:
  assumes run: "run_at F As P ph it" and f: "mo_merge (mi_m it) = Some f"
  shows "if \<forall>e\<in>set (concat As). \<not> P (fst e)
    then \<exists>it'. merger_iter_next it = Some (None, it') \<and> run_at F As P Running it' \<and> mi_m it' = mi_m it
    else \<exists>k v it'. merger_iter_next it = Some (Some (k, v), it') \<and> P k \<and> k \<in> fst ` set (concat As) \<and>
      (\<forall>e\<in>set (concat As). P (fst e) \<longrightarrow> k \<le> fst e) \<and> group_of (mi_m it) As k v \<and>
      run_at F As (\<lambda>x. k < x) Running it' \<and> mi_m it' = mi_m it \<and> mi_cur_key it' = k"
proof -
  let ?Ls = "map (filter (\<lambda>e. P (fst e))) As"
  obtain lo where idle: "idle (\<lambda>i. kid F lo (As ! i)) it ?Ls" and lo: "\<And>x. P x \<Longrightarrow> lo \<le> x"
    and up: "\<And>x y. P x \<Longrightarrow> x \<le> y \<Longrightarrow> P y"
    using run unfolding run_at_def by blast
  show ?thesis
  proof (cases "concat ?Ls = []")
    case True
    obtain it' where it': "merger_iter_next it = Some (None, it')" "idle (\<lambda>i. kid F lo (As ! i)) it' ?Ls"
        "mi_m it' = mi_m it" "mi_cur_key it' = [] \<or> it' = it"
      using merger_kids.merger_next_ok [OF kids_of idle] unfolding if_P [OF True] by blast
    have none: "\<forall>e\<in>set (concat As). \<not> P (fst e)" using True unfolding none_due .
    have "\<forall>x. P x \<longrightarrow> mi_cur_key it' \<le> x"
    proof (cases "mi_cur_key it' = []")
      case False
      then have "it' = it" "mi_cur_key it \<noteq> []" using it'(4) by auto
      then show ?thesis using run unfolding run_at_def by (cases ph) auto
    qed (simp add: nil_least)
    then have "run_at F As P Running it'"
      using it'(2) lo up none unfolding run_at_def phase.case by blast
    then show ?thesis unfolding if_P [OF none] using it'(1,3) by blast
  next
    case False
    obtain k v0 g Ls' it' v where n: "merger_iter_next it = Some (Some (k, v), it')"
        "takes (mle (mi_m it)) ?Ls ((k, v0) # g) Ls'" "idle (\<lambda>i. kid F lo (As ! i)) it' Ls'" "mi_m it' = mi_m it"
        "mi_cur_key it' = k" "\<forall>x\<in>set g. fst x = k" "v = fold_vals f k v0 g" "\<forall>x\<in>set (concat Ls'). fst x \<noteq> k"
      using merger_kids.merger_next_ok [OF kids_of idle] unfolding if_not_P [OF False] f option.case by blast
    have some: "\<not> (\<forall>e\<in>set (concat As). \<not> P (fst e))" using False unfolding none_due .
    have flat: "concat ?Ls = filter (\<lambda>e. P (fst e)) (concat As)" by (simp add: filter_concat)
    have "(k, v0) \<in> set (concat ?Ls)" using takes_set [OF n(2)] by simp
    then have "(k, v0) \<in> set (concat As)" and P: "P k" unfolding flat by simp_all
    then have k: "k \<in> fst ` set (concat As)" by (metis fst_conv image_eqI)
    have sorted: "sorted_wrt (mle (mi_m it)) ((k, v0) # g)"
      and before: "\<forall>x\<in>set ((k, v0) # g). \<forall>y\<in>set (concat Ls'). mle (mi_m it) x y"
      using takes_sorted [OF n(2)] by blast+
    have least: "\<forall>e\<in>set (concat ?Ls). k \<le> fst e"
    proof
      fix e assume "e \<in> set (concat ?Ls)"
      then consider "e \<in> set ((k, v0) # g)" | "e \<in> set (concat Ls')" using takes_set [OF n(2)] by blast
      then show "k \<le> fst e"
      proof cases
        case 1
        then show ?thesis using n(6) by auto
      next
        case 2
        then have "mle (mi_m it) (k, v0) e" using before by (meson list.set_intros(1))
        then show ?thesis using entry_le_key by fastforce
      qed
    qed
    have group: "group_of (mi_m it) As k v"
      unfolding group_of_def using f takes_group [OF n(2) refl P n(6,8)] sorted n(7) by blast
    have rest: "Ls' = map (filter (\<lambda>e. k < fst e)) As"
    proof (rule takes_rest [OF n(2) refl _ least n(8)])
      show "\<forall>x\<in>set ((k, v0) # g). fst x = k" using n(6) by simp
    qed (use up [OF P] in \<open>simp add: less_imp_le\<close>)
    have "minv (\<lambda>i. kid F k (As ! i)) it' Ls'"
      using n(3) kid_mono [OF _ lo [OF P]] unfolding idle_def by (blast intro: minv_mono)
    then have "idle (\<lambda>i. kid F k (As ! i)) it' (map (filter (\<lambda>e. k < fst e)) As)"
      using n(3) unfolding idle_def rest by blast
    moreover have "k \<noteq> []"
    proof -
      have "minv (\<lambda>i. kid F lo (As ! i)) it ?Ls" using idle unfolding idle_def by blast
      from minvD(2) [OF this] show ?thesis using \<open>(k, v0) \<in> set (concat ?Ls)\<close> unfolding lists_ok_def by fastforce
    qed
    ultimately have "run_at F As (\<lambda>x. k < x) Running it'"
      unfolding run_at_def phase.case n(5) by (auto intro: less_imp_le less_le_trans)
    moreover have "\<forall>e\<in>set (concat As). P (fst e) \<longrightarrow> k \<le> fst e" using least unfolding flat set_filter by blast
    ultimately show ?thesis unfolding if_not_P [OF some] using n(1,4,5) P k group by blast
  qed
qed

text \<open>
  A seek starts over when the heap is empty or no key was returned yet. In the middle of a run that
  means that nothing is left, so every child may seek to the target.
\<close>

lemma kids_may_seek:
  assumes run: "run_at F As P ph it" and ph: "ph \<noteq> Sought" "ph = Running \<Longrightarrow> P t"
    and none: "ph = Running \<Longrightarrow> \<forall>e\<in>set (concat As). \<not> P (fst e)" and j: "j < length As"
  shows "\<exists>b R. F (me_it (mi_entries it ! j)) b (As ! j) R \<and> b \<le> t"
proof (cases "ph = Running")
  case False
  then have "ph = Fresh" using ph(1) by (cases ph) simp_all
  then show ?thesis using run j nil_least unfolding run_at_def by fastforce
next
  case True
  let ?Ls = "map (filter (\<lambda>e. P (fst e))) As"
  obtain lo where idle: "idle (\<lambda>i. kid F lo (As ! i)) it ?Ls" and lo: "\<And>x. P x \<Longrightarrow> lo \<le> x"
    and up: "\<And>x y. P x \<Longrightarrow> x \<le> y \<Longrightarrow> P y"
    using run unfolding run_at_def by blast
  have inv: "minv (\<lambda>i. kid F lo (As ! i)) it ?Ls" using idle unfolding idle_def by blast
  have "?Ls ! j = []" using none [OF True] j by (auto simp: filter_empty_conv)
  then have k: "kid F lo (As ! j) (me_it (mi_entries it ! j)) []"
    using minvD(9) [OF inv, of j] j unfolding live_def by (auto split: if_splits)
  have "\<not> t \<le> fst e" if "e \<in> set (As ! j)" for e
    using none [OF True] up [OF ph(2) [OF True]] that nth_mem [OF j] by auto
  then have "filter (\<lambda>e. t \<le> fst e) (As ! j) = filter (\<lambda>e. t \<le> fst e) []" by (simp add: filter_empty_conv)
  then show ?thesis using kid_may_seek [OF kid_mono [OF k lo [OF ph(2) [OF True]]]] by blast
qed

lemma run_reseek:
  assumes run: "run_at F As P ph it" and ph: "ph \<noteq> Sought" "ph = Running \<Longrightarrow> P t"
    and keys: "\<forall>x\<in>set (concat As). fst x \<noteq> []" and over: "mi_h it = [] \<or> mi_cur_key it = []"
  shows "\<exists>it'. merger_iter_seek it t = Some (True, it') \<and>
    run_at F As (\<lambda>x. t \<le> x) (if ph = Fresh then Sought else Running) it' \<and> mi_m it' = mi_m it"
proof -
  let ?Ls = "map (filter (\<lambda>e. P (fst e))) As" and ?G = "filter (\<lambda>e. t \<le> fst e)"
  let ?start = "it\<lparr>mi_finished := False, mi_pending := False\<rparr>"
  obtain lo where was: "idle (\<lambda>i. kid F lo (As ! i)) it ?Ls" and up: "\<And>x y. P x \<Longrightarrow> x \<le> y \<Longrightarrow> P y"
    using run unfolding run_at_def by blast
  have inv: "minv (\<lambda>i. kid F lo (As ! i)) it ?Ls" and mok: "merge_ok (mi_m it)"
    using was unfolding idle_def by blast+
  have none: "\<forall>e\<in>set (concat As). \<not> P (fst e)" if "ph = Running"
  proof (cases "mi_h it = []")
    case True
    then show ?thesis using minv_empty [OF inv] unfolding none_due by blast
  next
    case False
    then show ?thesis using over run that unfolding run_at_def by simp
  qed
  have start: "dupsort_ok (mi_m ?start)" "length As = length (mi_entries ?start)"
    using minvD(1,3) [OF inv] by simp_all
  have kids: "\<exists>b R. F (me_it (mi_entries ?start ! j)) b (As ! j) R \<and> b \<le> t" if "j < length As" for j
    using kids_may_seek [OF run ph none that] by simp
  obtain es added h where s: "seek_entries t (mi_entries ?start) 0 (heap_clip (mi_h ?start) 0) = Some (es, added)"
      "heap_heapify (heap_cmp (mi_m ?start) es) added = Some h"
      "minv (\<lambda>i. kid F t (As ! i)) (?start\<lparr>mi_entries := es, mi_h := h\<rparr>) (map ?G As)"
      "ready (?start\<lparr>mi_entries := es, mi_h := h\<rparr>)"
    using seek_all_ok [OF start kids keys] by blast
  let ?it = "?start\<lparr>mi_entries := es, mi_h := h\<rparr>"
  have "heap_peek (mi_h ?start) = None \<or> length (mi_cur_key ?start) = 0 \<or> bytes_compare t (mi_cur_key ?start) < 0"
    using over by (auto simp: heap_peek_def)
  then have res: "merger_iter_seek it t = Some (True, ?it)"
    unfolding merger_iter_seek_def Let_def if_P using s(1,2) by simp
  have idle: "idle (\<lambda>i. kid F t (As ! i)) ?it (map ?G As)" using s(3,4) mok by (simp add: idle_def)
  have upt: "\<forall>x y. t \<le> x \<longrightarrow> x \<le> y \<longrightarrow> t \<le> y" by auto
  have "run_at F As (\<lambda>x. t \<le> x) (if ph = Fresh then Sought else Running) ?it"
  proof (cases "ph = Running")
    case False
    then have fresh: "ph = Fresh" using ph(1) by (cases ph) simp_all
    then have "mi_cur_key it = []" using run unfolding run_at_def by simp
    then show ?thesis using idle fresh upt unfolding run_at_def by auto
  next
    case True
    have "\<forall>e\<in>set (concat As). \<not> t \<le> fst e" using none [OF True] up [OF ph(2) [OF True]] by blast
    moreover have "\<forall>x. t \<le> x \<longrightarrow> mi_cur_key ?it \<le> x"
      using run ph(2) [OF True] True unfolding run_at_def by auto
    ultimately show ?thesis using idle upt True unfolding run_at_def by auto
  qed
  then show ?thesis using res by auto
qed

text \<open>Otherwise it only goes forward.\<close>

lemma run_forward:
  assumes run: "run_at F As P Running it" and P: "P t" and on: "mi_h it \<noteq> []" "mi_cur_key it \<noteq> []"
  shows "\<exists>it'. merger_iter_seek it t = Some (True, it') \<and>
    run_at F As (\<lambda>x. t \<le> x) Running it' \<and> mi_m it' = mi_m it"
proof -
  let ?Ls = "map (filter (\<lambda>e. P (fst e))) As" and ?G = "filter (\<lambda>e. t \<le> fst e)"
  let ?start = "it\<lparr>mi_finished := False, mi_pending := False\<rparr>"
  obtain lo where was: "idle (\<lambda>i. kid F lo (As ! i)) it ?Ls"
    and lo: "\<And>x. P x \<Longrightarrow> lo \<le> x" and up: "\<And>x y. P x \<Longrightarrow> x \<le> y \<Longrightarrow> P y"
    using run unfolding run_at_def by blast
  have inv: "minv (\<lambda>i. kid F lo (As ! i)) it ?Ls" and rd: "ready it" and mok: "merge_ok (mi_m it)"
    using was unfolding idle_def by blast+
  have cur: "mi_cur_key it \<le> t" using run P unfolding run_at_def by simp
  have inv2: "minv (\<lambda>i. kid F t (As ! i)) ?start ?Ls"
    using inv kid_mono [OF _ lo [OF P]] unfolding minv_frame by (blast intro: minv_mono)
  have twice: "?G (filter (\<lambda>e. P (fst e)) A) = ?G A" for A
    unfolding filter_filter using up [OF P] by (intro filter_cong) auto
  have pre: "?G (As ! i) = ?G (?Ls ! i)" if "i < length ?Ls" for i
    using that by (simp only: length_map nth_map twice)
  have st: "ready ?start" "mi_h ?start \<noteq> []" "\<not> mi_finished ?start" using rd on by simp_all
  obtain changed it1 where s: "seek_forward t ?start False = Some (changed, it1)"
      "minv (\<lambda>i. kid F t (As ! i)) it1 (map ?G ?Ls)" "ready it1" "mi_m it1 = mi_m ?start"
      "mi_cur_key it1 = mi_cur_key ?start" "mi_pending it1 = mi_pending ?start"
      "mi_finished it1 \<longrightarrow> ?G (concat ?Ls) = []"
    using seek_forward_ok [OF inv2 st(1,2) pre st(3), of False] by blast
  have G: "map ?G ?Ls = map ?G As" unfolding map_map by (rule map_cong) (simp_all add: twice del: filter_filter)
  let ?it = "if changed then it1\<lparr>mi_cur_val := [], mi_cur_key := t\<rparr> else it1"
  have cond: "\<not> (heap_peek (mi_h ?start) = None \<or> length (mi_cur_key ?start) = 0 \<or> bytes_compare t (mi_cur_key ?start) < 0)"
    using on cur by (auto simp: heap_peek_def)
  have "merger_iter_seek it t = Some (True, ?it)"
    unfolding merger_iter_seek_def Let_def if_not_P [OF cond] s(1) by simp
  moreover have "idle (\<lambda>i. kid F t (As ! i)) ?it (map ?G As)"
    using s(2-4,6,7) mok unfolding G filter_concat idle_def by simp
  moreover have "\<forall>x. t \<le> x \<longrightarrow> mi_cur_key ?it \<le> x" using s(5) cur by auto
  moreover have "mi_cur_key ?it \<noteq> []" using s(5) on cur by (cases t) auto
  moreover have "\<forall>x y. t \<le> x \<longrightarrow> x \<le> y \<longrightarrow> t \<le> y" by auto
  ultimately show ?thesis using s(4) unfolding run_at_def by (intro exI [of _ ?it]) auto
qed

lemma run_seek:
  assumes run: "run_at F As P ph it" and ph: "ph \<noteq> Sought" "ph = Running \<Longrightarrow> P t"
    and keys: "\<forall>x\<in>set (concat As). fst x \<noteq> []"
  shows "\<exists>it'. merger_iter_seek it t = Some (True, it') \<and>
    run_at F As (\<lambda>x. t \<le> x) (if ph = Fresh then Sought else Running) it' \<and> mi_m it' = mi_m it"
proof (cases "mi_h it = [] \<or> mi_cur_key it = []")
  case True
  show ?thesis by (rule run_reseek [OF run ph keys True])
next
  case False
  then have r: "ph = Running" using run ph(1) unfolding run_at_def by (cases ph) simp_all
  show ?thesis using run_forward [OF run [unfolded r] ph(2) [OF r]] False r by simp
qed

lemma run_ok:
  assumes keys: "\<forall>x\<in>set (concat As). fst x \<noteq> []"
  shows "run_at F As P ph it \<Longrightarrow> mo_merge (mi_m it) = Some f \<Longrightarrow>
    merge_forward (sorted_list_of_set (fst ` set (concat As))) P ph ops \<Longrightarrow>
    \<exists>outs it'. iter_run (Some (merger_mtbl_iter it)) ops = Some (outs, it') \<and> merger_allowed (mi_m it) As P ops outs"
proof (induction ops arbitrary: P ph it)
  case (Cons oper ops)
  let ?K = "sorted_list_of_set (fst ` set (concat As))"
  show ?case
  proof (cases oper)
    case (Seek t)
    then have fwd: "ph \<noteq> Sought" "ph = Running \<Longrightarrow> P t"
        "merge_forward ?K (\<lambda>x. t \<le> x) (if ph = Fresh then Sought else Running) ops"
      using Cons.prems(3) by simp_all
    obtain it1 where it1: "merger_iter_seek it t = Some (True, it1)"
        "run_at F As (\<lambda>x. t \<le> x) (if ph = Fresh then Sought else Running) it1" "mi_m it1 = mi_m it"
      using run_seek [OF Cons.prems(1) fwd(1,2) keys] by blast
    have m: "mo_merge (mi_m it1) = Some f" using Cons.prems(2) it1(3) by simp
    obtain outs it' where "iter_run (Some (merger_mtbl_iter it1)) ops = Some (outs, it')"
        "merger_allowed (mi_m it1) As (\<lambda>x. t \<le> x) ops outs"
      using Cons.IH [OF it1(2) m fwd(3)] by blast
    then show ?thesis using Seek it1(1,3) by (simp add: merger_iter_step_seek)
  next
    case Next
    show ?thesis
    proof (cases "\<forall>e\<in>set (concat As). \<not> P (fst e)")
      case True
      obtain it1 where it1: "merger_iter_next it = Some (None, it1)" "run_at F As P Running it1" "mi_m it1 = mi_m it"
        using run_next [OF Cons.prems(1,2)] unfolding if_P [OF True] by blast
      have "filter P ?K = []" using True by (auto simp: filter_empty_conv simp del: set_concat)
      then have fwd: "merge_forward ?K P Running ops" using Cons.prems(3) Next by simp
      have m: "mo_merge (mi_m it1) = Some f" using Cons.prems(2) it1(3) by simp
      obtain outs it' where "iter_run (Some (merger_mtbl_iter it1)) ops = Some (outs, it')"
          "merger_allowed (mi_m it1) As P ops outs"
        using Cons.IH [OF it1(2) m fwd] by blast
      then show ?thesis
        using Next it1(1,3) True by (intro exI [of _ "None # outs"] exI [of _ it']) (simp add: merger_iter_step del: set_concat)
    next
      case False
      obtain k v it1 where it1: "merger_iter_next it = Some (Some (k, v), it1)" "P k" "k \<in> fst ` set (concat As)"
          "\<forall>e\<in>set (concat As). P (fst e) \<longrightarrow> k \<le> fst e" "group_of (mi_m it) As k v"
          "run_at F As (\<lambda>x. k < x) Running it1" "mi_m it1 = mi_m it"
        using run_next [OF Cons.prems(1,2)] unfolding if_not_P [OF False] by blast
      have "k \<in> set (filter P ?K)" using it1(2,3) by (simp del: set_concat)
      then obtain k' ks where ks: "filter P ?K = k' # ks" by (metis list.exhaust list.set(1) empty_iff)
      have "k' \<in> set (filter P ?K)" unfolding ks by simp
      then have "k \<le> k'" using it1(4) by (auto simp del: set_concat)
      moreover have "sorted (filter P ?K)" by (rule sorted_wrt_filter) simp
      then have "k' \<le> k" using \<open>k \<in> set (filter P ?K)\<close> unfolding ks by auto
      ultimately have "k' = k" by simp
      then have fwd: "merge_forward ?K (\<lambda>x. k < x) Running ops" using Cons.prems(3) Next ks by simp
      have m: "mo_merge (mi_m it1) = Some f" using Cons.prems(2) it1(7) by simp
      obtain outs it' where "iter_run (Some (merger_mtbl_iter it1)) ops = Some (outs, it')"
          "merger_allowed (mi_m it1) As (\<lambda>x. k < x) ops outs"
        using Cons.IH [OF it1(6) m fwd] by blast
      then show ?thesis
        using Next it1 by (intro exI [of _ "Some (k, v) # outs"] exI [of _ it']) (simp add: merger_iter_step del: set_concat)
    qed
  qed
qed simp

subsection \<open>Opening\<close>

lemma open_fresh:
  "Bs = As @ filter (\<lambda>T. T \<noteq> []) Ts \<Longrightarrow> minv (\<lambda>i. kid F [] (Bs ! i)) it As \<Longrightarrow> ready it \<Longrightarrow> heads F it As \<Longrightarrow>
   list_all2 (fresh_source F open_source) ss Ts \<Longrightarrow>
   \<exists>it'. add_sources open_source it ss = Some it' \<and> minv (\<lambda>i. kid F [] (Bs ! i)) it' Bs \<and> ready it' \<and> heads F it' Bs \<and>
     mi_m it' = mi_m it \<and> mi_pending it' = mi_pending it \<and> mi_finished it' = mi_finished it \<and>
     mi_cur_key it' = mi_cur_key it"
proof (induction ss arbitrary: it As Ts)
  case (Cons s ss)
  obtain T Ts' where Ts: "Ts = T # Ts'" "fresh_source F open_source s T" "list_all2 (fresh_source F open_source) ss Ts'"
    using Cons.prems(5) by (cases Ts) auto
  obtain c where o: "open_source s = Some c" "if T = [] then \<exists>it'. mtbl_iter_next c = Some (None, it') else F c [] T T"
      "\<forall>x\<in>set T. fst x \<noteq> []"
    using Ts(2) unfolding fresh_source_def by blast
  show ?case
  proof (cases "T = []")
    case True
    then have "merger_iter_add_entry it c = Some it"
      using o(2) by (auto simp: merger_iter_add_entry_def entry_fill_def)
    moreover have "Bs = As @ filter (\<lambda>T. T \<noteq> []) Ts'" using Cons.prems(1) Ts(1) True by simp
    ultimately show ?thesis using Cons.IH [OF _ Cons.prems(2-4) Ts(3)] o(1) by simp
  next
    case False
    then have F: "F c [] T T" using o(2) by simp
    have n: "length As < length Bs" "Bs ! length As = T" using Cons.prems(1) Ts(1) False by simp_all
    have "T = [] @ T" by simp
    then have k: "kid F [] (Bs ! length As) c T" unfolding n(2) kid_def using F by blast
    have st: "sorted_wrt (mle (mi_m it)) T" by (rule strict_mle [OF F_strict [OF F]])
    obtain it1 ent where it1: "merger_iter_add_entry it c = Some it1" "minv (\<lambda>i. kid F [] (Bs ! i)) it1 (As @ [T])"
        "ready it1" "mi_m it1 = mi_m it" "mi_pending it1 = mi_pending it" "mi_finished it1 = mi_finished it"
        "entry_fill \<lparr>me_finished = False, me_it = c, me_key = None, me_val = []\<rparr> = Some (True, ent)"
        "mi_entries it1 = mi_entries it @ [ent]"
      using merger_kids.add_entry_ok [OF kids_of Cons.prems(2,3) k st o(3)] False by auto
    obtain c' where o': "mtbl_iter_next c = Some (Some (hd T), c')" "F c' [] T (tl T)"
      using F_next [OF F] False by auto
    have ent: "me_it ent = c'" using it1(7) o'(1) by (cases "hd T") (auto simp: entry_fill_def)
    have "length (mi_entries it) = length As" using minvD(3) [OF Cons.prems(2)] by simp
    then have "heads F it1 (As @ [T])"
      using Cons.prems(4) o'(2) ent unfolding heads_def it1(8) by (auto simp: nth_append less_Suc_eq)
    moreover have "Bs = (As @ [T]) @ filter (\<lambda>T. T \<noteq> []) Ts'" using Cons.prems(1) Ts(1) False by simp
    ultimately obtain it' where "add_sources open_source it1 ss = Some it'" "minv (\<lambda>i. kid F [] (Bs ! i)) it' Bs"
        "ready it'" "heads F it' Bs" "mi_m it' = mi_m it1" "mi_pending it' = mi_pending it1"
        "mi_finished it' = mi_finished it1" "mi_cur_key it' = mi_cur_key it1"
      using Cons.IH [OF _ it1(2,3) _ Ts(3)] by blast
    moreover have "mi_cur_key it1 = mi_cur_key it"
      using it1(1) by (auto simp: merger_iter_add_entry_def Let_def split: Option.bind_splits if_splits)
    ultimately show ?thesis using o(1) it1 by simp
  qed
qed simp

lemma concat_filter_ne: "concat (filter (\<lambda>T. T \<noteq> []) Ts) = concat Ts"
  by (induction Ts) auto

lemma allowed_concat: "concat As = concat Bs \<Longrightarrow> merger_allowed opt As P ops outs = merger_allowed opt Bs P ops outs"
  by (induction opt As P ops outs rule: merger_allowed.induct) (simp_all add: group_of_def del: set_concat)

lemma open_run:
  assumes opt: "dupsort_ok opt" "merge_ok opt" and ss: "list_all2 (fresh_source F mtbl_source_iter) ss Ts"
  shows "\<exists>it As. mtbl_source_iter (mtbl_merger_source \<lparr>m_sources = ss, m_opt = opt\<rparr>) = Some (Some (merger_mtbl_iter it)) \<and>
    run_at F As (\<lambda>_. True) Fresh it \<and> mi_m it = opt \<and> concat As = concat Ts \<and> (\<forall>x\<in>set (concat As). fst x \<noteq> [])"
proof -
  let ?init = "merger_iter_init opt :: 's merger_iter_state" and ?As = "filter (\<lambda>T. T \<noteq> []) Ts"
  have init: "minv (\<lambda>i. kid F [] (?As ! i)) ?init []" "ready ?init" "heads F ?init []"
    using opt(1) by (simp_all add: heads_def minv_def ready_def merger_iter_init_def heap_init_def lists_ok_def heap_from_def)
  obtain it where it: "add_sources mtbl_source_iter ?init ss = Some it" "minv (\<lambda>i. kid F [] (?As ! i)) it ?As"
      "ready it" "heads F it ?As" "mi_m it = opt" "\<not> mi_pending it" "\<not> mi_finished it" "mi_cur_key it = []"
    using open_fresh [OF _ init ss] by (auto simp: merger_iter_init_def)
  have all: "map (filter (\<lambda>e. True)) ?As = ?As" by (simp add: map_idI)
  have idle: "idle (\<lambda>i. kid F [] (?As ! i)) it (map (filter (\<lambda>e. True)) ?As)"
    using it opt(2) unfolding all idle_def by simp
  have "run_at F ?As (\<lambda>_. True) Fresh it"
    unfolding run_at_def phase.case using idle nil_least it(4,8) unfolding heads_def by blast
  moreover have "\<forall>x\<in>set (concat ?As). fst x \<noteq> []" using minvD(2) [OF it(2)] by (simp add: lists_ok_def)
  moreover have "mtbl_source_iter (mtbl_merger_source \<lparr>m_sources = ss, m_opt = opt\<rparr>) = Some (Some (merger_mtbl_iter it))"
    using it(1) by (subst mtbl_source_iter_def) (simp add: mtbl_merger_source_def merger_iter_def)
  ultimately show ?thesis using it(5) concat_filter_ne by blast
qed

lemma merger_run_ok:
  assumes opt: "dupsort_ok opt" "merge_ok opt" "mo_merge opt = Some f"
    and ss: "list_all2 (fresh_source F mtbl_source_iter) ss Ts"
    and fwd: "merge_forward (sorted_list_of_set (fst ` set (concat Ts))) (\<lambda>_. True) Fresh ops"
  shows "\<exists>it outs it'. mtbl_source_iter (mtbl_merger_source \<lparr>m_sources = ss, m_opt = opt\<rparr>) = Some it \<and>
    iter_run it ops = Some (outs, it') \<and> merger_allowed opt Ts (\<lambda>_. True) ops outs"
proof -
  obtain it As where it: "mtbl_source_iter (mtbl_merger_source \<lparr>m_sources = ss, m_opt = opt\<rparr>) = Some (Some (merger_mtbl_iter it))"
      "run_at F As (\<lambda>_. True) Fresh it" "mi_m it = opt" "concat As = concat Ts" "\<forall>x\<in>set (concat As). fst x \<noteq> []"
    using open_run [OF opt(1,2) ss] by blast
  have f: "mo_merge (mi_m it) = Some f" using opt(3) it(3) by simp
  obtain outs it' where "iter_run (Some (merger_mtbl_iter it)) ops = Some (outs, it')"
      "merger_allowed opt As (\<lambda>_. True) ops outs"
    using run_ok [OF it(5,2) f, unfolded it(4), OF fwd] it(3) by blast
  then show ?thesis using it(1) allowed_concat [OF it(4)] by blast
qed

text \<open>A seek to the key just returned changes nothing: the entry is not given again.\<close>

lemma seek_current:
  assumes run: "run_at F As (\<lambda>x. k < x) Running it" and cur: "mi_cur_key it = k" and k: "k \<noteq> []"
    and due: "e \<in> set (concat As)" "k < fst e"
  shows "merger_iter_seek it k = Some (True, it)"
proof -
  let ?Ls = "map (filter (\<lambda>e. k < fst e)) As"
  obtain lo where idle: "idle (\<lambda>i. kid F lo (As ! i)) it ?Ls" using run unfolding run_at_def by blast
  have inv: "minv (\<lambda>i. kid F lo (As ! i)) it ?Ls" and rd: "ready it" and np: "\<not> mi_pending it"
    and fin: "mi_finished it \<longrightarrow> concat ?Ls = []"
    using idle unfolding idle_def by blast+
  have some: "concat ?Ls \<noteq> []" unfolding none_due using due by blast
  then have nf: "\<not> mi_finished it" and "mi_h it \<noteq> []" using fin minv_empty [OF inv] by blast+
  then obtain i h' where h: "mi_h it = i # h'" by (cases "mi_h it") auto
  obtain ki R where top: "me_key (mi_entries it ! i) = Some ki" "?Ls ! i = (ki, me_val (mi_entries it ! i)) # R"
      "i < length ?Ls"
    using minv_top [OF inv rd h] by blast
  have "(ki, me_val (mi_entries it ! i)) \<in> set (?Ls ! i)" unfolding top(2) by simp
  then have "k < ki" using top(3) by simp
  then have "\<not> ki < k" by simp
  then have "seek_forward k it False = Some (False, it)"
    using h top(1) by (subst seek_forward.simps) (simp add: heap_peek_def)
  moreover have "it\<lparr>mi_finished := False, mi_pending := False\<rparr> = it" using nf np by simp
  ultimately show ?thesis
    using cur k h unfolding merger_iter_seek_def Let_def by (simp add: heap_peek_def)
qed

lemma seek_current_skips:
  assumes opt: "dupsort_ok opt" "merge_ok opt" "mo_merge opt = Some f"
    and ss: "list_all2 (fresh_source F mtbl_source_iter) ss Ts"
    and keys: "sorted_list_of_set (fst ` set (concat Ts)) = k0 # k1 # ks"
  shows "\<exists>it v0 v1 it'. mtbl_source_iter (mtbl_merger_source \<lparr>m_sources = ss, m_opt = opt\<rparr>) = Some it \<and>
    iter_run it [Next, Seek k0, Next] = Some ([Some (k0, v0), Some (k1, v1)], it') \<and>
    group_of opt Ts k0 v0 \<and> group_of opt Ts k1 v1"
proof -
  obtain it As where it: "mtbl_source_iter (mtbl_merger_source \<lparr>m_sources = ss, m_opt = opt\<rparr>) = Some (Some (merger_mtbl_iter it))"
      "run_at F As (\<lambda>_. True) Fresh it" "mi_m it = opt" "concat As = concat Ts" "\<forall>x\<in>set (concat As). fst x \<noteq> []"
    using open_run [OF opt(1,2) ss] by blast
  let ?K = "sorted_list_of_set (fst ` set (concat Ts))"
  have K: "set ?K = fst ` set (concat As)" "sorted_wrt (<) ?K" unfolding it(4) by simp_all
  have less: "k0 < k1" "\<forall>k\<in>set ks. k1 < k" using K(2) unfolding keys by auto
  have in_keys: "k \<in> fst ` set (concat As) \<longleftrightarrow> k = k0 \<or> k = k1 \<or> k \<in> set ks" for k
    unfolding K(1) [symmetric] keys by auto
  have f: "mo_merge (mi_m it) = Some f" using opt(3) it(3) by simp
  have "\<not> (\<forall>e\<in>set (concat As). \<not> True)" using in_keys [of k0] by blast
  then obtain k v0 it1 where it1: "merger_iter_next it = Some (Some (k, v0), it1)" "k \<in> fst ` set (concat As)"
      "\<forall>e\<in>set (concat As). k \<le> fst e" "group_of opt As k v0" "run_at F As (\<lambda>x. k < x) Running it1"
      "mi_m it1 = opt" "mi_cur_key it1 = k"
    using run_next [OF it(2) f] it(3) by (auto split: if_splits simp del: set_concat)
  have "k \<le> k0" using it1(3) in_keys [of k0] by auto
  then have k: "k = k0" using it1(2) less in_keys [of k] by (metis leD le_less_trans order_less_imp_le nless_le)
  obtain e1 where e1: "e1 \<in> set (concat As)" "fst e1 = k1" using in_keys [of k1] by auto
  have "k0 \<noteq> []" using in_keys [of k0] it(5) by auto
  then have seek: "merger_iter_seek it1 k0 = Some (True, it1)"
    using seek_current [OF it1(5,7) _ e1(1)] k e1(2) less(1) by simp
  have f1: "mo_merge (mi_m it1) = Some f" using opt(3) it1(6) by simp
  have "\<not> (\<forall>e\<in>set (concat As). \<not> k < fst e)" using e1 less(1) k by blast
  then obtain k' v1 it2 where it2: "merger_iter_next it1 = Some (Some (k', v1), it2)" "k < k'" "k' \<in> fst ` set (concat As)"
      "\<forall>e\<in>set (concat As). k < fst e \<longrightarrow> k' \<le> fst e" "group_of opt As k' v1"
    using run_next [OF it1(5) f1] it1(6) by (auto split: if_splits simp del: set_concat)
  have "k' \<le> k1" using it2(4) e1 less(1) k by auto
  then have k': "k' = k1" using it2(2,3) less in_keys [of k'] k by (metis leD less_irrefl)
  have "group_of opt As = group_of opt Ts" unfolding group_of_def it(4) by blast
  then show ?thesis
    using it(1) it1(1,4) it2(1,5) seek k k' by (simp add: merger_iter_step merger_iter_step_seek)
qed

end

end
