(* ===== verification/Merger_Files.thy ===== *)
theory Merger_Files
  imports Merger_Run
begin

text \<open>
  The merger over table files: its children are iterators of readers, which are seeking children
  up to their one limitation (seeks back), so the facts of \<open>Merger_Facts\<close> and \<open>Merger_Run\<close>
  hold of files written by the writer and merged through readers.
\<close>

subsection \<open>Readers are seeking children\<close>

definition reader_seeks ::
  "(bytes \<Rightarrow> u32) \<Rightarrow> 'z complib \<Rightarrow> reader_clos mtbl_iter option \<Rightarrow> bytes \<Rightarrow> entry list \<Rightarrow> entry list \<Rightarrow> bool" where
  "reader_seeks crc L it b all rest \<longleftrightarrow> (\<exists>r st n bs offs ix.
     it = Some (mtbl_iter_init (reader_clos_seek crc L) (reader_clos_next crc L) (r, st)) \<and>
     opens crc L r n bs offs ix \<and> all = concat (map fst bs) \<and> reader_fwd n bs offs ix st b rest)"

lemma reader_seeksI:
  "opens crc L r n bs offs ix \<Longrightarrow> all = concat (map fst bs) \<Longrightarrow> reader_fwd n bs offs ix st b rest \<Longrightarrow>
   reader_seeks crc L (Some (mtbl_iter_init (reader_clos_seek crc L) (reader_clos_next crc L) (r, st))) b all rest"
  unfolding reader_seeks_def by blast

lemma reader_clos_step:
  "mtbl_iter_next (Some (mtbl_iter_init (reader_clos_seek crc L) (reader_clos_next crc L) (r, st))) =
     map_option (\<lambda>(e, st). (e, Some (mtbl_iter_init (reader_clos_seek crc L) (reader_clos_next crc L) (r, st))))
       (reader_iter_next crc L r st)"
  "mtbl_iter_seek (Some (mtbl_iter_init (reader_clos_seek crc L) (reader_clos_next crc L) (r, st))) key =
     map_option (\<lambda>st. (True, Some (mtbl_iter_init (reader_clos_seek crc L) (reader_clos_next crc L) (r, st))))
       (reader_iter_seek crc L r st key)"
   apply (cases "reader_iter_next crc L r st")
    apply (auto simp: mtbl_iter_next_def mtbl_iter_init_def reader_clos_next_def)[2]
  apply (cases "reader_iter_seek crc L r st key")
   apply (auto simp: mtbl_iter_seek_def mtbl_iter_init_def reader_clos_seek_def)
  done

text \<open>The step that returns the first entry of the table leaves every seek open.\<close>

lemma reader_fwd_first:
  assumes op: "opens crc L r n bs offs ix" and f: "reader_fwd n bs offs ix it bound (concat (map fst bs))"
    and ne: "concat (map fst bs) \<noteq> []"
  shows "\<exists>it'. reader_iter_next crc L r it = Some (Some (hd (concat (map fst bs))), it') \<and>
    reader_fwd n bs offs ix it' bound (tl (concat (map fst bs)))"
proof -
  let ?all = "concat (map fst bs)"
  obtain c where ty: "it_type it = READER_ITER_TYPE_ITER" and p: "reader_pending n bs ix it c ?all"
    and coh: "it_b it \<noteq> None \<Longrightarrow> (\<forall>m<length bs. it_block_offset it = offs m \<longrightarrow> m \<le> c) \<and>
          c < length bs \<and> (0 < c \<longrightarrow> snd (bs ! (c - 1)) < bound)"
    using f by (auto simp: reader_fwd_def)
  have acc: "accepted it ?all = ?all" using ty by (simp add: accepted_def)
  obtain it' c' where n: "reader_iter_next crc L r it = Some (Some (hd ?all), it')"
      "it_type it' = it_type it" "it_block_offset it' = it_block_offset it" "reader_pending n bs ix it' c' (tl ?all)"
      "c \<le> c'" "c' < length bs" "hd ?all \<in> set (fst (bs ! c'))"
    using reader_next_ok [OF op p] ty ne unfolding acc by (auto split: if_splits)
  obtain b bs' where bs: "bs = b # bs'" using n(6) by (cases bs) auto
  then have b0: "fst (bs ! 0) \<noteq> []" using opens_index(4) [OF op, of 0] by simp
  have "hd ?all \<in> set (fst (bs ! 0))" using b0 by (simp add: bs)
  then have "c' = 0" using block_of_entry [OF op n(6) _ n(7), of 0] bs by simp
  then have "c = 0" using n(5) by simp
  have "it_b it \<noteq> None" using p ne by (auto simp: reader_pending_def split: if_splits)
  note coh = coh [OF this]
  show ?thesis using n(1-4) ty coh \<open>c' = 0\<close> \<open>c = 0\<close> by (auto simp: reader_fwd_def)
qed

interpretation reader_seeks: seeking_kids "reader_seeks crc L" for crc L
proof
  fix it b all rest
  assume "reader_seeks crc L it b all rest"
  then show "strict_keys all" using table_ok_strict by (auto simp: reader_seeks_def opens_def)
next
  fix it b all rest
  assume "reader_seeks crc L it b all rest"
  then obtain r st n bs offs ix where it: "it = Some (mtbl_iter_init (reader_clos_seek crc L) (reader_clos_next crc L) (r, st))"
      "opens crc L r n bs offs ix" "all = concat (map fst bs)" "reader_fwd n bs offs ix st b rest"
    unfolding reader_seeks_def by blast
  have "\<exists>st'. reader_iter_next crc L r st = Some (if rest = [] then None else Some (hd rest), st') \<and>
      reader_fwd n bs offs ix st' (if rest = [] \<or> rest = all then b else fst (hd rest)) (tl rest)"
  proof (cases "rest = [] \<or> rest \<noteq> all")
    case True
    then show ?thesis using reader_fwd_next [OF it(2,4)] by auto
  next
    case False
    then show ?thesis using reader_fwd_first [OF it(2), of st b] it(3,4) by auto
  qed
  then show "\<exists>it'. mtbl_iter_next it = Some (if rest = [] then None else Some (hd rest), it') \<and>
      reader_seeks crc L it' (if rest = [] \<or> rest = all then b else fst (hd rest)) all (tl rest)"
    using reader_seeksI [OF it(2,3)] unfolding it(1) reader_clos_step by fastforce
next
  fix it b all rest t
  assume "reader_seeks crc L it b all rest" and t: "b \<le> t"
  then obtain r st n bs offs ix where it: "it = Some (mtbl_iter_init (reader_clos_seek crc L) (reader_clos_next crc L) (r, st))"
      "opens crc L r n bs offs ix" "all = concat (map fst bs)" "reader_fwd n bs offs ix st b rest"
    unfolding reader_seeks_def by blast
  obtain st' where "reader_iter_seek crc L r st t = Some st'"
      "reader_fwd n bs offs ix st' t (filter (\<lambda>e. t \<le> fst e) all)"
    using reader_fwd_seek [OF it(2,4) t] it(3) by blast
  then show "\<exists>it'. mtbl_iter_seek it t = Some (True, it') \<and> reader_seeks crc L it' t all (filter (\<lambda>e. t \<le> fst e) all)"
    using reader_seeksI [OF it(2,3)] unfolding it(1) reader_clos_step by auto
qed

lemma reader_fresh:
  assumes h: "holds_table crc L r T" and keys: "\<forall>x\<in>set T. fst x \<noteq> []"
  shows "fresh_source (reader_seeks crc L) mtbl_source_iter (mtbl_reader_source crc L r) T"
proof -
  obtain n bs offs ix where op: "opens crc L r n bs offs ix" and T: "T = concat (map fst bs)"
    using h unfolding holds_table_def by blast
  have open_it: "mtbl_source_iter (mtbl_reader_source crc L r) = reader_mtbl_iter crc L r (reader_iter crc L r)"
    by (simp add: mtbl_source_iter_def mtbl_reader_source_def)
  have empty: "T = [] \<longleftrightarrow> bs = []" using op closed_empty [of bs] unfolding T by (auto simp: opens_def)
  show ?thesis
  proof (cases "bs = []")
    case True
    then have "reader_iter crc L r = Some None" using reader_iter_ok [OF op] by simp
    then have "mtbl_source_iter (mtbl_reader_source crc L r) = Some None" by (simp add: open_it reader_mtbl_iter_def)
    then show ?thesis using empty True keys by (simp add: fresh_source_def)
  next
    case False
    obtain it where it: "reader_iter crc L r = Some (Some it)" "reader_fwd n bs offs ix it [] T"
      using reader_fwd_start [OF op False] T by blast
    then have "mtbl_source_iter (mtbl_reader_source crc L r) =
        Some (Some (mtbl_iter_init (reader_clos_seek crc L) (reader_clos_next crc L) (r, it)))"
      by (simp add: open_it reader_mtbl_iter_def)
    then show ?thesis
      using empty False keys reader_seeksI [OF op T it(2)] unfolding fresh_source_def by auto
  qed
qed

subsection \<open>Runs over files\<close>

definition run_merged ::
  "'z complib \<Rightarrow> (bytes \<Rightarrow> u32) \<Rightarrow> mtbl_reader_options option \<Rightarrow> mtbl_merger_options \<Rightarrow> bytes list \<Rightarrow> iter_op list \<Rightarrow>
   entry option list option option" where
  "run_merged L crc ropt mopt datas ops = do {
     rs \<leftarrow> open_tables crc ropt datas;
     case rs of
       None \<Rightarrow> Some None
     | Some rs \<Rightarrow> do {
         m \<leftarrow> mtbl_merger_init (Some mopt);
         let m = foldl mtbl_merger_add_source m (map (mtbl_reader_source crc L) rs);
         it \<leftarrow> mtbl_source_iter (mtbl_merger_source m);
         (outs, _) \<leftarrow> iter_run it ops;
         Some (Some outs)
       }
   }"

lemma merged_run_files:
  assumes runs: "\<forall>t\<in>set runs. run_ok L t" and opt: "dupsort_ok mopt" "merge_ok mopt" "mo_merge mopt \<noteq> None"
    and keys: "\<forall>e\<in>set (concat (map run_entries runs)). fst e \<noteq> []"
    and fwd: "merge_forward (sorted_list_of_set (fst ` set (concat (map run_entries runs)))) (\<lambda>_. True) Fresh ops"
  shows "\<exists>datas. list_all2 (run_writes L crc) runs datas \<and>
    ((\<forall>d\<in>set datas. length d < 2 ^ 63) \<longrightarrow> (\<exists>outs. run_merged L crc ropt mopt datas ops = Some (Some outs) \<and>
       merger_allowed mopt (map run_entries runs) (\<lambda>_. True) ops outs))"
proof -
  let ?Ts = "map run_entries runs"
  obtain f where f: "mo_merge mopt = Some f" using opt(3) by blast
  obtain datas where datas: "list_all2 (run_writes L crc) runs datas"
    and rd: "(\<forall>d\<in>set datas. length d < 2 ^ 63) \<Longrightarrow> \<exists>rs. open_tables crc ropt datas = Some (Some rs) \<and>
       list_all2 (holds_table crc L) rs ?Ts"
    using run_tables [OF runs, of crc ropt] by blast
  have "\<exists>outs. run_merged L crc ropt mopt datas ops = Some (Some outs) \<and> merger_allowed mopt ?Ts (\<lambda>_. True) ops outs"
    if small: "\<forall>d\<in>set datas. length d < 2 ^ 63"
  proof -
    obtain rs where rs: "open_tables crc ropt datas = Some (Some rs)" "list_all2 (holds_table crc L) rs ?Ts"
      using rd [OF small] by blast
    have "list_all2 (fresh_source (reader_seeks crc L) mtbl_source_iter) (map (mtbl_reader_source crc L) rs) ?Ts"
      using rs(2) keys by (auto simp: list_all2_conv_all_nth intro!: reader_fresh)
    from reader_seeks.merger_run_ok [OF opt(1,2) f this fwd]
    show ?thesis using rs(1) by (auto simp: run_merged_def mtbl_merger_init_def add_sources_all)
  qed
  then show ?thesis using datas by blast
qed


lemma merged_seek_current:
  assumes runs: "\<forall>t\<in>set runs. run_ok L t" and opt: "dupsort_ok mopt" "merge_ok mopt" "mo_merge mopt \<noteq> None"
    and ne: "\<forall>e\<in>set (concat (map run_entries runs)). fst e \<noteq> []"
    and keys: "sorted_list_of_set (fst ` set (concat (map run_entries runs))) = k0 # k1 # ks"
  shows "\<exists>datas. list_all2 (run_writes L crc) runs datas \<and>
    ((\<forall>d\<in>set datas. length d < 2 ^ 63) \<longrightarrow> (\<exists>v0 v1.
       run_merged L crc ropt mopt datas [Next, Seek k0, Next] = Some (Some [Some (k0, v0), Some (k1, v1)])))"
proof -
  let ?Ts = "map run_entries runs"
  obtain f where f: "mo_merge mopt = Some f" using opt(3) by blast
  obtain datas where datas: "list_all2 (run_writes L crc) runs datas"
    and rd: "(\<forall>d\<in>set datas. length d < 2 ^ 63) \<Longrightarrow> \<exists>rs. open_tables crc ropt datas = Some (Some rs) \<and>
       list_all2 (holds_table crc L) rs ?Ts"
    using run_tables [OF runs, of crc ropt] by blast
  have "\<exists>v0 v1. run_merged L crc ropt mopt datas [Next, Seek k0, Next] = Some (Some [Some (k0, v0), Some (k1, v1)])"
    if small: "\<forall>d\<in>set datas. length d < 2 ^ 63"
  proof -
    obtain rs where rs: "open_tables crc ropt datas = Some (Some rs)" "list_all2 (holds_table crc L) rs ?Ts"
      using rd [OF small] by blast
    have "list_all2 (fresh_source (reader_seeks crc L) mtbl_source_iter) (map (mtbl_reader_source crc L) rs) ?Ts"
      using rs(2) ne by (auto simp: list_all2_conv_all_nth intro!: reader_fresh)
    from reader_seeks.seek_current_skips [OF opt(1,2) f this keys]
    show ?thesis using rs(1) by (auto simp: run_merged_def mtbl_merger_init_def add_sources_all simp del: iter_run.simps)
  qed
  then show ?thesis using datas by blast
qed

subsection \<open>A source of the caller's own\<close>

text \<open>\<open>mtbl_source_init\<close> and \<open>mtbl_iter_init\<close> are public: here a source over a list.\<close>

definition list_next :: "entry list \<Rightarrow> (entry option \<times> entry list) option" where
  "list_next es = Some (case es of [] \<Rightarrow> (None, []) | e # es \<Rightarrow> (Some e, es))"

definition list_seek :: "entry list \<Rightarrow> bytes \<Rightarrow> (bool \<times> entry list) option" where
  "list_seek es key = Some (True, filter (\<lambda>e. key \<le> fst e) es)"

definition list_source :: "entry list \<Rightarrow> (entry list, entry list) mtbl_source" where
  "list_source es =
     \<lparr>source_iter = (\<lambda>es. Some (Some (mtbl_iter_init list_seek list_next es))),
      source_get = (\<lambda>es key. Some (Some (mtbl_iter_init list_seek list_next (filter (\<lambda>e. fst e = key) es)))),
      source_get_prefix = (\<lambda>es key. Some (Some (mtbl_iter_init list_seek list_next
        (filter (\<lambda>e. take (length key) (fst e) = key) es)))),
      source_get_range = (\<lambda>es key0 key1. Some (Some (mtbl_iter_init list_seek list_next
        (filter (\<lambda>e. key0 \<le> fst e \<and> fst e \<le> key1) es)))),
      source_clos = es\<rparr>"

definition merge_lists :: "mtbl_merger_options \<Rightarrow> entry list list \<Rightarrow> nat \<Rightarrow> entry list option" where
  "merge_lists mopt Ls fuel = do {
     it \<leftarrow> mtbl_source_iter (mtbl_merger_source \<lparr>m_sources = map list_source Ls, m_opt = mopt\<rparr>);
     (es, _) \<leftarrow> drain mtbl_iter_next fuel it;
     Some es
   }"

subsection \<open>An example\<close>

lemma plain_run_small:
  assumes "run_writes store_lib crc (plain_options, empty_fd, evs) d" and "\<forall>e\<in>set (added evs). entry_fits e"
    and "length (added evs) < 1000" and "size_bound [] (table_close (final_state plain_options (added evs))) < 2 ^ 63"
  shows "length d < 2 ^ 63"
  using plain_small [OF plain_fits [OF assms(2,3)] _ assms(4)] assms(1) by (auto simp: run_writes_def)

definition concat_merger :: mtbl_merger_options where
  "concat_merger = mtbl_merger_options_set_merge_func mtbl_merger_options_init (Some (\<lambda>k a b. Some (a @ b)))"

lemma concat_merger_ok: "dupsort_ok concat_merger" "merge_ok concat_merger" "mo_merge concat_merger \<noteq> None"
  by (simp_all add: concat_merger_def mtbl_merger_options_set_merge_func_def mtbl_merger_options_init_def dupsort_ok_def merge_ok_def)

definition two_runs :: "table_run list" where
  "two_runs = [(plain_options, empty_fd, [Add [97] [1], Add [98] [2]]), (plain_options, empty_fd, [Add [97] [3]])]"

lemma two_runs_ok:
  "\<forall>t\<in>set two_runs. run_ok store_lib t" "\<forall>e\<in>set (concat (map run_entries two_runs)). fst e \<noteq> []"
  "concat (map run_entries two_runs) = [([97], [1]), ([98], [2]), ([97], [3])]"
  by (simp_all add: two_runs_def run_ok_def run_entries_def plain_fits entry_fits_def)

lemma two_runs_small:
  assumes "list_all2 (run_writes store_lib crc) two_runs datas"
  shows "\<forall>d\<in>set datas. length d < 2 ^ 63"
proof -
  obtain d1 d2 where d: "datas = [d1, d2]"
      "run_writes store_lib crc (plain_options, empty_fd, [Add [97] [1], Add [98] [2]]) d1"
      "run_writes store_lib crc (plain_options, empty_fd, [Add [97] [3]]) d2"
    using assms by (auto simp: two_runs_def list_all2_Cons1)
  have "length d1 < 2 ^ 63" by (rule plain_run_small [OF d(2)]) (simp_all add: entry_fits_def layout_simps)
  moreover have "length d2 < 2 ^ 63" by (rule plain_run_small [OF d(3)]) (simp_all add: entry_fits_def layout_simps)
  ultimately show ?thesis using d(1) by simp
qed

lemma two_runs_keys: "sorted_list_of_set (fst ` set (concat (map run_entries two_runs))) = [[97], [98]]"
proof -
  have "fst ` set (concat (map run_entries two_runs)) = set [[97 :: u8], [98]]" unfolding two_runs_ok(3) by auto
  moreover have "sorted_list_of_set (set [[97 :: u8], [98]]) = [[97], [98]]"
    by (subst sorted_list_of_set_sort_remdups) simp
  ultimately show ?thesis by simp
qed

subsection \<open>Properties\<close>

text \<open>
  C2: tables written to files, opened with readers and given to a merger as its sources: an
  iteration, an exact lookup, a prefix lookup or a range lookup of the merger returns, sorted by
  key, exactly the entries of the tables that the query means, the values of a key in several
  tables merged in an order that agrees with the dupsort function, or all of them when there is
  no merge function.
\<close>

theorem merger_merges_files:
  assumes "\<forall>t\<in>set runs. run_ok L t" and "dupsort_ok mopt" and "merge_ok mopt"
    and "\<forall>e\<in>set (concat (map run_entries runs)). fst e \<noteq> []"
  shows "\<exists>datas. list_all2 (run_writes L crc) runs datas \<and>
    ((\<forall>d\<in>set datas. length d < 2 ^ 63) \<longrightarrow> (\<exists>all.
       mset all = mset (filter (\<lambda>e. wanted ty key0 key1 (fst e)) (concat (map run_entries runs))) \<and>
       sorted_wrt (mle mopt) all \<and>
       query_merged L crc ropt mopt datas ty key0 key1 (length (concat (map run_entries runs)) + 1) =
         Some (Some (combined (mo_merge mopt) all))))"
  by (rule merged_files [OF assms])

theorem merger_merges_files_witness:
  "\<exists>datas all. list_all2 (run_writes store_lib crc32c) two_runs datas \<and>
     mset all = mset [([97], [1]), ([97], [3])] \<and> sorted_wrt (mle concat_merger) all \<and>
     query_merged store_lib crc32c None concat_merger datas READER_ITER_TYPE_GET [97] [] 4 =
       Some (Some (combined (mo_merge concat_merger) all))"
proof -
  have four: "length (concat (map run_entries two_runs)) + 1 = 4" unfolding two_runs_ok(3) by simp
  have want: "filter (\<lambda>e. wanted READER_ITER_TYPE_GET [97] [] (fst e)) (concat (map run_entries two_runs)) =
      [([97], [1]), ([97], [3])]" unfolding two_runs_ok(3) by simp
  from merger_merges_files [OF two_runs_ok(1) concat_merger_ok(1,2) two_runs_ok(2), of crc32c READER_ITER_TYPE_GET "[97]" "[]" None,
      unfolded four want]
  show ?thesis using two_runs_small by blast
qed

text \<open>
  C12: a merger with a merge function, over readers of table files: a seek at the start to any key,
  and after a step any seeks to keys that are still due, followed by steps, give at each step the
  least key due, with all the values the tables have for it merged; and nothing when none is due.
\<close>

theorem merger_seeks_files:
  assumes "\<forall>t\<in>set runs. run_ok L t" and "dupsort_ok mopt" and "merge_ok mopt" and "mo_merge mopt \<noteq> None"
    and "\<forall>e\<in>set (concat (map run_entries runs)). fst e \<noteq> []"
    and "merge_forward (sorted_list_of_set (fst ` set (concat (map run_entries runs)))) (\<lambda>_. True) Fresh ops"
  shows "\<exists>datas. list_all2 (run_writes L crc) runs datas \<and>
    ((\<forall>d\<in>set datas. length d < 2 ^ 63) \<longrightarrow> (\<exists>outs. run_merged L crc ropt mopt datas ops = Some (Some outs) \<and>
       merger_allowed mopt (map run_entries runs) (\<lambda>_. True) ops outs))"
  by (rule merged_run_files [OF assms])

theorem merger_seeks_files_witness:
  "\<exists>datas outs. list_all2 (run_writes store_lib crc32c) two_runs datas \<and>
     run_merged store_lib crc32c None concat_merger datas [Seek [97, 0], Next, Seek [99], Next] = Some (Some outs) \<and>
     merger_allowed concat_merger (map run_entries two_runs) (\<lambda>_. True) [Seek [97, 0], Next, Seek [99], Next] outs"
proof -
  have "merge_forward (sorted_list_of_set (fst ` set (concat (map run_entries two_runs)))) (\<lambda>_. True) Fresh
      [Seek [97, 0], Next, Seek [99], Next]"
    unfolding two_runs_keys by simp
  from merger_seeks_files [OF two_runs_ok(1) concat_merger_ok two_runs_ok(2) this, of crc32c None]
  show ?thesis using two_runs_small by blast
qed

text \<open>
  C37: seeking a merger to the key it just returned does not go back to it, as it does on a reader:
  after the step that returns the least key, a seek to that key and a step return the next key.
\<close>

theorem merger_seek_to_current_skips:
  assumes "\<forall>t\<in>set runs. run_ok L t" and "dupsort_ok mopt" and "merge_ok mopt" and "mo_merge mopt \<noteq> None"
    and "\<forall>e\<in>set (concat (map run_entries runs)). fst e \<noteq> []"
    and "sorted_list_of_set (fst ` set (concat (map run_entries runs))) = k0 # k1 # ks"
  shows "\<exists>datas. list_all2 (run_writes L crc) runs datas \<and>
    ((\<forall>d\<in>set datas. length d < 2 ^ 63) \<longrightarrow> (\<exists>v0 v1.
       run_merged L crc ropt mopt datas [Next, Seek k0, Next] = Some (Some [Some (k0, v0), Some (k1, v1)])))"
  by (rule merged_seek_current [OF assms])

theorem merger_seek_to_current_skips_witness:
  "\<exists>datas v0 v1. list_all2 (run_writes store_lib crc32c) two_runs datas \<and>
     run_merged store_lib crc32c None concat_merger datas [Next, Seek [97], Next] = Some (Some [Some ([97], v0), Some ([98], v1)])"
  using merger_seek_to_current_skips [OF two_runs_ok(1) concat_merger_ok two_runs_ok(2) two_runs_keys, of crc32c None] two_runs_small
  by blast

text \<open>
  An entry with the empty key is dropped when another key follows it, whatever the options:
  \<open>merger_iter_next\<close> takes the empty key for no key.
\<close>

theorem merger_drops_empty_key:
  assumes "k \<noteq> []"
  shows "merge_lists mopt [[([], v)], [(k, w)]] 2 = Some [(k, w)]"
proof -
  define clos :: "entry list \<Rightarrow> entry list mtbl_iter option" where "clos = (\<lambda>es. Some (mtbl_iter_init list_seek list_next es))"
  have clos_next: "mtbl_iter_next (clos (e # es)) = Some (Some e, clos es)" "mtbl_iter_next (clos []) = Some (None, clos [])" for e es
    by (simp_all add: clos_def mtbl_iter_next_def mtbl_iter_init_def list_next_def)
  define ent where "ent = (\<lambda>fin key val. \<lparr>me_finished = fin, me_it = clos [], me_key = Some key, me_val = val\<rparr>)"
  define st where "st = (\<lambda>h f0 f1 key val fin pend. \<lparr>mi_m = mopt, mi_h = h, mi_entries = [ent f0 [] v, ent f1 k w],
    mi_cur_key = key, mi_cur_val = val, mi_finished = fin, mi_pending = pend\<rparr>)"
  have fill: "entry_fill (ent f key val) = Some (False, ent True key val)" for f key val
    by (simp add: ent_def entry_fill_def clos_next)
  have cmp: "heap_cmp mopt [ent f0 [] v, ent f1 k w] 0 (Suc 0) \<le> 0" for f0 f1
    using assms nil_least [of k] by (auto simp: heap_cmp_def mtbl_merger_compare_def ent_def Let_def split: option.split)
  have opened: "mtbl_source_iter (mtbl_merger_source \<lparr>m_sources = map list_source [[([], v)], [(k, w)]], m_opt = mopt\<rparr>) =
      Some (Some (merger_mtbl_iter (st [0, Suc 0] False False [] [] False False)))"
    using cmp [of False False]
    by (simp add: mtbl_source_iter_def [abs_def] mtbl_merger_source_def merger_iter_def list_source_def clos_def [symmetric]
        merger_iter_add_entry_def entry_fill_def clos_next ent_def st_def merger_iter_init_def heap_init_def heap_push_def
        siftup_def siftup_loop.simps Let_def fun_cong [OF clos_def [symmetric]])
  have skip: "skip_finished (st [0, Suc 0] False False key val fin pend) = Some (st [0, Suc 0] False False key val fin pend)"
      "skip_finished (st [Suc 0] True False key val fin pend) = Some (st [Suc 0] True False key val fin pend)"
      "skip_finished (st [] True True key val fin pend) = Some (st [] True True key val True pend)" for key val fin pend
    by (subst skip_finished.simps, simp add: st_def ent_def heap_peek_def)+
  have pop: "skip_finished (st [0, Suc 0] True False key val fin pend) = skip_finished (st [Suc 0] True False key val fin pend)"
      "skip_finished (st [Suc 0] True True key val fin pend) = skip_finished (st [] True True key val fin pend)" for key val fin pend
    by (subst skip_finished.simps, simp add: st_def ent_def heap_peek_def heap_pop_def siftdown_def siftdown_loop.simps Let_def)+
  have top: "fill_top (st [0, Suc 0] False False key val fin pend) 0 = Some (st [0, Suc 0] True False key val fin pend)"
      "fill_top (st [Suc 0] True False key val fin pend) (Suc 0) = Some (st [Suc 0] True True key val fin pend)" for key val fin pend
    by (simp_all add: fill_top_def st_def fill)
  have take0: "merger_loop (st [0, Suc 0] False False [] [] False False) = merger_loop (st [0, Suc 0] True False [] v False True)"
    using top(1) [of "[]" v False True] by (subst merger_loop.simps) (simp add: skip(1), simp add: st_def ent_def heap_peek_def)
  have take1: "merger_loop (st [0, Suc 0] True False [] v False True) = merger_loop (st [Suc 0] True True k w False True)"
    using top(2) [of k w False True] by (subst merger_loop.simps) (simp add: pop(1) skip(2), simp add: st_def ent_def heap_peek_def)
  have fin: "merger_loop (st [Suc 0] True True k w False True) = Some (True, st [] True True k w True True)"
    by (subst merger_loop.simps) (simp add: pop(2) skip(3), simp add: st_def)
  have "merger_iter_next (st [0, Suc 0] False False [] [] False False) = Some (Some (k, w), st [] True True k w True False)"
    using take0 take1 fin unfolding merger_iter_next_def by (simp add: st_def)
  moreover have "merger_iter_next (st [] True True k w True False) = Some (None, st [] True True k w True False)"
    by (simp add: merger_iter_next_def st_def)
  ultimately show ?thesis
    unfolding merge_lists_def opened numeral_2_eq_2 by (simp add: merger_iter_step)
qed

theorem merger_drops_empty_key_witness:
  "merge_lists concat_merger [[([], [1])], [([97], [2])]] 2 = Some [([97], [2])]"
  by (rule merger_drops_empty_key) simp

end
