(* ===== verification/Sorter.thy ===== *)
theory Sorter
  imports Reader_Source
begin

text \<open>
  \<open>mtbl/sorter.c\<close>: sorting any number of entries by writing sorted chunks to temporary files and
  merging them. \<open>qsort\<close> is an argument, as are the compression libraries and the checksum;
  \<open>s_tmp\<close> holds the empty files the next calls of \<open>mkstemp\<close> will create (its failure aborts).
  With a thread pool the batches wait in \<open>s_queue\<close>; \<open>sorter_collect\<close> is a worker thread having
  written one of them and the result handler taking its reader, in any order. A reader that is
  NULL is \<open>None\<close>.
\<close>

subsection \<open>Options\<close>

definition DEFAULT_SORTER_TEMP_DIR :: bytes where
  "DEFAULT_SORTER_TEMP_DIR = [0x2F, 0x76, 0x61, 0x72, 0x2F, 0x74, 0x6D, 0x70]"

definition DEFAULT_SORTER_MEMORY :: nat where "DEFAULT_SORTER_MEMORY = 1073741824"
definition MIN_SORTER_MEMORY :: nat where "MIN_SORTER_MEMORY = 10485760"

record mtbl_sorter_options =
  so_max_memory :: nat
  so_tmp_dname :: "bytes option"
  so_merge :: "(bytes \<Rightarrow> bytes \<Rightarrow> bytes \<Rightarrow> bytes option) option"
  so_pool :: bool

definition mtbl_sorter_options_set_temp_dir :: "mtbl_sorter_options \<Rightarrow> bytes \<Rightarrow> mtbl_sorter_options" where
  "mtbl_sorter_options_set_temp_dir opt temp_dir = opt\<lparr>so_tmp_dname := Some temp_dir\<rparr>"

definition mtbl_sorter_options_init :: mtbl_sorter_options where
  "mtbl_sorter_options_init =
     mtbl_sorter_options_set_temp_dir
       \<lparr>so_max_memory = DEFAULT_SORTER_MEMORY, so_tmp_dname = None, so_merge = None, so_pool = False\<rparr>
       DEFAULT_SORTER_TEMP_DIR"

definition mtbl_sorter_options_set_merge_func ::
  "mtbl_sorter_options \<Rightarrow> (bytes \<Rightarrow> bytes \<Rightarrow> bytes \<Rightarrow> bytes option) option \<Rightarrow> mtbl_sorter_options" where
  "mtbl_sorter_options_set_merge_func opt merge = opt\<lparr>so_merge := merge\<rparr>"

definition mtbl_sorter_options_set_max_memory :: "mtbl_sorter_options \<Rightarrow> nat \<Rightarrow> mtbl_sorter_options" where
  "mtbl_sorter_options_set_max_memory opt max_memory =
     (let max_memory = (if max_memory < MIN_SORTER_MEMORY then MIN_SORTER_MEMORY else max_memory)
      in opt\<lparr>so_max_memory := max_memory\<rparr>)"

definition mtbl_sorter_options_set_threadpool :: "mtbl_sorter_options \<Rightarrow> bool \<Rightarrow> mtbl_sorter_options" where
  "mtbl_sorter_options_set_threadpool opt pool = opt\<lparr>so_pool := pool\<rparr>"

subsection \<open>Entries in memory\<close>

record sorter_entry =
  se_len_key :: u32
  se_len_val :: u32
  se_data :: bytes

definition entry_key :: "sorter_entry \<Rightarrow> bytes" where
  "entry_key e = take (unat (se_len_key e)) (se_data e)"

definition entry_val :: "sorter_entry \<Rightarrow> bytes" where
  "entry_val e = take (unat (se_len_val e)) (drop (unat (se_len_key e)) (se_data e))"

definition mtbl_sorter_compare :: "sorter_entry \<Rightarrow> sorter_entry \<Rightarrow> int" where
  "mtbl_sorter_compare a b = bytes_compare (entry_key a) (entry_key b)"

type_synonym sort_fun = "(sorter_entry \<Rightarrow> sorter_entry \<Rightarrow> int) \<Rightarrow> sorter_entry list \<Rightarrow> sorter_entry list"

record mtbl_sorter =
  s_readers :: "mtbl_reader option list"
  s_vec :: "sorter_entry list"
  s_entry_bytes :: nat
  s_iterating :: bool
  s_opt :: mtbl_sorter_options
  s_queue :: "sorter_entry list list"
  s_tmp :: "fdesc list"

text \<open>Without options every field is zero.\<close>

definition mtbl_sorter_init :: "mtbl_sorter_options option \<Rightarrow> fdesc list \<Rightarrow> mtbl_sorter" where
  "mtbl_sorter_init opt tmp =
     (let s_opt = (case opt of
          None \<Rightarrow> \<lparr>so_max_memory = 0, so_tmp_dname = None, so_merge = None, so_pool = False\<rparr>
        | Some opt \<Rightarrow> opt)
      in \<lparr>s_readers = [], s_vec = [], s_entry_bytes = 0, s_iterating = False, s_opt = s_opt,
           s_queue = [], s_tmp = tmp\<rparr>)"

subsection \<open>Writing a chunk\<close>

text \<open>
  The loop over the sorted entries: the answers of the last \<open>mtbl_writer_add\<close> and the writer, or
  \<open>None\<close> in place of the answer when the merge function gave NULL.
\<close>

fun chunk_loop ::
  "('w \<Rightarrow> bytes \<Rightarrow> bytes \<Rightarrow> (bool \<times> 'w) option) \<Rightarrow> (bytes \<Rightarrow> bytes \<Rightarrow> bytes \<Rightarrow> bytes option) option \<Rightarrow>
   sorter_entry list \<Rightarrow> 'w \<Rightarrow> bool option \<Rightarrow> (bool option \<times> 'w) option" where
  "chunk_loop add merge [] w res = Some (res, w)"
| "chunk_loop add merge [ent] w res = do {
     (res, w) \<leftarrow> add w (entry_key ent) (entry_val ent);
     Some (Some res, w)
   }"
| "chunk_loop add merge (ent # next_ent # ents) w res =
     (if mtbl_sorter_compare ent next_ent = 0 then do {
        f \<leftarrow> merge;
        case f (entry_key ent) (entry_val ent) (entry_val next_ent) of
          None \<Rightarrow> Some (None, w)
        | Some merge_val \<Rightarrow>
            (let merge_ent = \<lparr>se_len_key = se_len_key ent, se_len_val = of_nat (length merge_val),
               se_data = entry_key ent @ merge_val\<rparr>
             in chunk_loop add merge (merge_ent # ents) w res)
      } else do {
        (res, w) \<leftarrow> add w (entry_key ent) (entry_val ent);
        if \<not> res then Some (Some False, w) else chunk_loop add merge (next_ent # ents) w (Some res)
      })"

text \<open>The options of the writer of a chunk.\<close>

definition chunk_writer_options :: mtbl_writer_options where
  "chunk_writer_options = the (mtbl_writer_options_set_compression mtbl_writer_options_init MTBL_COMPRESSION_SNAPPY)"

definition mtbl_sorter_write_chunk ::
  "'z complib \<Rightarrow> (bytes \<Rightarrow> u32) \<Rightarrow> sort_fun \<Rightarrow> mtbl_sorter \<Rightarrow> sorter_entry list \<Rightarrow> (mtbl_reader option \<times> mtbl_sorter) option" where
  "mtbl_sorter_write_chunk L crc qsort s entries = do {
     _ \<leftarrow> so_tmp_dname (s_opt s);
     (fd, tmp) \<leftarrow> (case s_tmp s of [] \<Rightarrow> None | fd # tmp \<Rightarrow> Some (fd, tmp));
     let s = s\<lparr>s_tmp := tmp\<rparr>;
     w \<leftarrow> mtbl_writer_init_fd fd (Some chunk_writer_options);
     (res, w) \<leftarrow> chunk_loop (mtbl_writer_add L crc) (so_merge (s_opt s)) (qsort mtbl_sorter_compare entries) w None;
     fd \<leftarrow> mtbl_writer_destroy L crc w;
     (case res of
        Some True \<Rightarrow> do {
          r \<leftarrow> mtbl_reader_init_fd crc False (f_bytes fd) None;
          Some (r, s)
        }
      | _ \<Rightarrow> Some (None, s))
   }"

subsection \<open>Adding\<close>

definition mtbl_sorter_get_entry_batch :: "mtbl_sorter \<Rightarrow> (sorter_entry list \<times> mtbl_sorter) option" where
  "mtbl_sorter_get_entry_batch s = do {
     ensure (\<not> s_iterating s);
     Some (s_vec s, s\<lparr>s_vec := [], s_entry_bytes := 0\<rparr>)
   }"

definition mtbl_sorter_flush ::
  "'z complib \<Rightarrow> (bytes \<Rightarrow> u32) \<Rightarrow> sort_fun \<Rightarrow> mtbl_sorter \<Rightarrow> (bool \<times> mtbl_sorter) option" where
  "mtbl_sorter_flush L crc qsort s = do {
     ensure (\<not> s_iterating s);
     (b, s) \<leftarrow> mtbl_sorter_get_entry_batch s;
     if so_pool (s_opt s) then Some (True, s\<lparr>s_queue := s_queue s @ [b]\<rparr>)
     else do {
       (r, s) \<leftarrow> mtbl_sorter_write_chunk L crc qsort s b;
       Some (r \<noteq> None, s\<lparr>s_readers := s_readers s @ [r]\<rparr>)
     }
   }"

definition mtbl_sorter_add ::
  "'z complib \<Rightarrow> (bytes \<Rightarrow> u32) \<Rightarrow> sort_fun \<Rightarrow> mtbl_sorter \<Rightarrow> bytes \<Rightarrow> bytes \<Rightarrow> (bool \<times> mtbl_sorter) option" where
  "mtbl_sorter_add L crc qsort s key val =
     (if s_iterating s then Some (False, s)
      else do {
        ensure (length key < 2 ^ 32);
        ensure (length val < 2 ^ 32);
        let entry_bytes = 8 + length key + length val;
        let ent = \<lparr>se_len_key = of_nat (length key), se_len_val = of_nat (length val), se_data = key @ val\<rparr>;
        let s = s\<lparr>s_vec := s_vec s @ [ent], s_entry_bytes := s_entry_bytes s + entry_bytes\<rparr>;
        if s_entry_bytes s + length (s_vec s) * 8 \<ge> so_max_memory (s_opt s)
        then mtbl_sorter_flush L crc qsort s
        else Some (True, s)
      })"

text \<open>\<open>_write_temp_file_wrapper\<close> on the \<open>i\<close>th waiting batch, then \<open>_collect_readers_cb\<close>.\<close>

definition sorter_collect ::
  "'z complib \<Rightarrow> (bytes \<Rightarrow> u32) \<Rightarrow> sort_fun \<Rightarrow> nat \<Rightarrow> mtbl_sorter \<Rightarrow> mtbl_sorter option" where
  "sorter_collect L crc qsort i s =
     (if i < length (s_queue s) then do {
        let b = s_queue s ! i;
        (r, s) \<leftarrow> mtbl_sorter_write_chunk L crc qsort (s\<lparr>s_queue := take i (s_queue s) @ drop (Suc i) (s_queue s)\<rparr>) b;
        Some (s\<lparr>s_readers := s_readers s @ [r]\<rparr>)
      } else Some s)"

text \<open>\<open>result_handler_destroy\<close> waits for every batch; they finish in the order \<open>picks\<close> gives.\<close>

fun sorter_collect_all ::
  "'z complib \<Rightarrow> (bytes \<Rightarrow> u32) \<Rightarrow> sort_fun \<Rightarrow> nat \<Rightarrow> nat list \<Rightarrow> mtbl_sorter \<Rightarrow> mtbl_sorter option" where
  "sorter_collect_all L crc qsort 0 picks s = Some s"
| "sorter_collect_all L crc qsort (Suc n) [] s = do {
     s \<leftarrow> sorter_collect L crc qsort 0 s;
     sorter_collect_all L crc qsort n [] s
   }"
| "sorter_collect_all L crc qsort (Suc n) (i # picks) s = do {
     s \<leftarrow> sorter_collect L crc qsort (i mod length (s_queue s)) s;
     sorter_collect_all L crc qsort n picks s
   }"

subsection \<open>Reading back\<close>

type_synonym sorter_iter = "reader_clos merger_iter_state mtbl_iter option"

definition sorter_iter_seek :: "sorter_iter \<Rightarrow> bytes \<Rightarrow> (bool \<times> sorter_iter) option" where
  "sorter_iter_seek it key = mtbl_iter_seek it key"

definition sorter_iter_next :: "sorter_iter \<Rightarrow> (entry option \<times> sorter_iter) option" where
  "sorter_iter_next it = mtbl_iter_next it"

text \<open>\<open>mtbl_reader_source\<close> asserts that the reader is not NULL.\<close>

primrec sorter_add_sources ::
  "(bytes \<Rightarrow> u32) \<Rightarrow> 'z complib \<Rightarrow> (mtbl_reader, reader_clos) mtbl_merger \<Rightarrow> mtbl_reader option list \<Rightarrow>
   (mtbl_reader, reader_clos) mtbl_merger option" where
  "sorter_add_sources crc L m [] = Some m"
| "sorter_add_sources crc L m (r # rs) = do {
     r \<leftarrow> r;
     sorter_add_sources crc L (mtbl_merger_add_source m (mtbl_reader_source crc L r)) rs
   }"

definition mtbl_sorter_iter ::
  "'z complib \<Rightarrow> (bytes \<Rightarrow> u32) \<Rightarrow> sort_fun \<Rightarrow> nat list \<Rightarrow> mtbl_sorter \<Rightarrow>
   (sorter_iter mtbl_iter option \<times> mtbl_sorter) option" where
  "mtbl_sorter_iter L crc qsort picks s = do {
     (res, s) \<leftarrow> (if s_vec s \<noteq> [] then mtbl_sorter_flush L crc qsort s else Some (True, s));
     if \<not> res then Some (None, s)
     else do {
       let mopt = mtbl_merger_options_set_merge_func mtbl_merger_options_init (so_merge (s_opt s));
       m \<leftarrow> mtbl_merger_init (Some mopt);
       s \<leftarrow> sorter_collect_all L crc qsort (length (s_queue s)) picks s;
       m \<leftarrow> sorter_add_sources crc L m (s_readers s);
       m_iter \<leftarrow> mtbl_source_iter (mtbl_merger_source m);
       Some (Some (mtbl_iter_init sorter_iter_seek sorter_iter_next m_iter), s\<lparr>s_iterating := True\<rparr>)
     }
   }"

definition mtbl_sorter_write ::
  "'z complib \<Rightarrow> (bytes \<Rightarrow> u32) \<Rightarrow> sort_fun \<Rightarrow> nat list \<Rightarrow> mtbl_sorter \<Rightarrow> mtbl_writer \<Rightarrow>
   (bool \<times> mtbl_writer \<times> mtbl_sorter) option" where
  "mtbl_sorter_write L crc qsort picks s w =
     (if s_iterating s then Some (False, w, s)
      else do {
        (it, s) \<leftarrow> mtbl_sorter_iter L crc qsort picks s;
        case it of
          None \<Rightarrow> Some (False, w, s)
        | Some _ \<Rightarrow> do {
            (res, w) \<leftarrow> write_loop (mtbl_writer_add L crc) mtbl_iter_next it w True;
            Some (res, w, s)
          }
      })"

text \<open>A client that adds entries while the workers of a pool finish batches.\<close>

datatype sorter_event = Sort bytes bytes | Collect nat

fun sorter_run ::
  "'z complib \<Rightarrow> (bytes \<Rightarrow> u32) \<Rightarrow> sort_fun \<Rightarrow> mtbl_sorter \<Rightarrow> sorter_event list \<Rightarrow> (bool list \<times> mtbl_sorter) option" where
  "sorter_run L crc qsort s [] = Some ([], s)"
| "sorter_run L crc qsort s (Sort key val # evs) = do {
     (res, s) \<leftarrow> mtbl_sorter_add L crc qsort s key val;
     (rs, s) \<leftarrow> sorter_run L crc qsort s evs;
     Some (res # rs, s)
   }"
| "sorter_run L crc qsort s (Collect i # evs) = do {
     s \<leftarrow> sorter_collect L crc qsort i s;
     sorter_run L crc qsort s evs
   }"

end
