(* ===== verification/Combine.thy ===== *)
theory Combine
  imports Merge_Spec Block_Seek
begin

text \<open>
  What combining the values of equal keys promises, whatever the merge function: the value a key
  ends with is made from all the values the key was given, each used once, in some order and
  some bracketing (\<open>combines\<close>). A merge function is called on partial results, in an order the
  sorter and the merger do not fix, so this is all a client may rely on; for an associative and
  commutative function it determines the value.
\<close>

inductive combines ::
  "(bytes \<Rightarrow> bytes \<Rightarrow> bytes \<Rightarrow> bytes option) \<Rightarrow> bytes \<Rightarrow> bytes multiset \<Rightarrow> bytes \<Rightarrow> bool"
  for f :: "bytes \<Rightarrow> bytes \<Rightarrow> bytes \<Rightarrow> bytes option" and k :: bytes where
  combines_one: "combines f k {#v#} v"
| combines_two: "\<lbrakk>combines f k A a; combines f k B b; f k a b = Some c\<rbrakk> \<Longrightarrow> combines f k (A + B) c"

inductive_cases combines_oneE: "combines f k {#v#} w"

definition vals :: "bytes \<Rightarrow> entry multiset \<Rightarrow> bytes multiset" where
  "vals k M = image_mset snd (filter_mset (\<lambda>e. fst e = k) M)"

definition sums :: "(bytes \<Rightarrow> bytes \<Rightarrow> bytes \<Rightarrow> bytes option) \<Rightarrow> entry multiset \<Rightarrow> entry list \<Rightarrow> bool" where
  "sums f M out \<longleftrightarrow> strict_keys out \<and> fst ` set out = fst ` set_mset M \<and>
     (\<forall>e\<in>set out. combines f (fst e) (vals (fst e) M) (snd e))"

lemma combines_nonempty: "combines f k A a \<Longrightarrow> A \<noteq> {#}"
  by (induction rule: combines.induct) auto

lemma combines_single: "combines f k {#v#} w \<Longrightarrow> w = v"
proof (erule combines_oneE)
  fix A a B b
  assume h: "{#v#} = A + B" "combines f k A a" "combines f k B b"
  then have "A = {#} \<or> B = {#}" by (metis union_is_single)
  then show "w = v" using combines_nonempty h(2,3) by blast
qed simp

lemma vals_empty [simp]: "vals k {#} = {#}"
  and vals_union [simp]: "vals k (M + N) = vals k M + vals k N"
  by (simp_all add: vals_def)

lemma vals_add [simp]: "vals k (add_mset e M) = (if fst e = k then add_mset (snd e) (vals k M) else vals k M)"
  by (simp add: vals_def)

lemma vals_none: "k \<notin> fst ` set_mset M \<Longrightarrow> vals k M = {#}"
  by (induction M) auto

lemma vals_mono: "M \<subseteq># N \<Longrightarrow> vals k M \<subseteq># vals k N"
  by (simp add: vals_def image_mset_subseteq_mono multiset_filter_mono)

subsection \<open>Entries with the values they are made of\<close>

text \<open>A list of entries, each with the multiset of values it already combines.\<close>

type_synonym parts = "(entry \<times> bytes multiset) list"

definition parts_ok :: "(bytes \<Rightarrow> bytes \<Rightarrow> bytes \<Rightarrow> bytes option) \<Rightarrow> parts \<Rightarrow> bool" where
  "parts_ok f ps \<longleftrightarrow> (\<forall>p\<in>set ps. combines f (fst (fst p)) (snd p) (snd (fst p)))"

definition parts_at :: "bytes \<Rightarrow> parts \<Rightarrow> bytes multiset" where
  "parts_at k ps = sum_list (map snd (filter (\<lambda>p. fst (fst p) = k) ps))"

lemma parts_at_Nil [simp]: "parts_at k [] = {#}"
  by (simp add: parts_at_def)

lemma parts_at_Cons [simp]:
  "parts_at k (p # ps) = (if fst (fst p) = k then snd p + parts_at k ps else parts_at k ps)"
  by (simp add: parts_at_def)

lemma parts_at_append [simp]: "parts_at k (ps @ qs) = parts_at k ps + parts_at k qs"
  by (simp add: parts_at_def)

lemma parts_at_none: "k \<notin> fst ` fst ` set ps \<Longrightarrow> parts_at k ps = {#}"
  by (induction ps) auto

lemma parts_at_mset: "mset ps = mset qs \<Longrightarrow> parts_at k ps = parts_at k qs"
  by (simp add: parts_at_def sum_mset_sum_list [symmetric])

text \<open>Rearranged entries carry their parts along.\<close>

lemma map_permute:
  "mset ys = image_mset g (mset xs) \<Longrightarrow> \<exists>zs. mset zs = mset xs \<and> map g zs = ys"
proof (induction ys arbitrary: xs)
  case Nil
  then show ?case by (intro exI [of _ "[]"]) simp
next
  case (Cons y ys)
  then have "y \<in># image_mset g (mset xs)" by (metis list.set_intros(1) set_mset_mset)
  then obtain x where x: "x \<in> set xs" "g x = y" by auto
  have "mset ys = image_mset g (mset (remove1 x xs))"
    using Cons.prems x by (simp add: image_mset_Diff) (metis add_mset_remove_trivial)
  then obtain zs where "mset zs = mset (remove1 x xs)" "map g zs = ys" using Cons.IH by blast
  then show ?case using x by (intro exI [of _ "x # zs"]) simp
qed

lemma collapse_parts:
  assumes "parts_ok f ps" and "\<forall>k a b. f k a b \<noteq> None" and "sorted_wrt (\<lambda>a b. fst a \<le> fst b) (map fst ps)"
    and "e \<in> set (collapse f (map fst ps))"
  shows "combines f (fst e) (parts_at (fst e) ps) (snd e)"
  using assms
proof (induction "length ps" arbitrary: ps)
  case 0
  then show ?case by simp
next
  case (Suc n)
  then obtain k v A qs where ps: "ps = ((k, v), A) # qs" by (cases ps) auto
  show ?case
  proof (cases qs)
    case Nil
    then show ?thesis using Suc.prems by (auto simp: ps parts_ok_def)
  next
    case (Cons q rs)
    then obtain k' v' B where q: "qs = ((k', v'), B) # rs" by (cases q) auto
    show ?thesis
    proof (cases "k = k'")
      case True
      let ?c = "the (f k v v')"
      have "combines f k (A + B) ?c"
        using Suc.prems(1,2) by (intro combines_two [of f k A v B v']) (auto simp: parts_ok_def ps q True)
      then have "parts_ok f (((k, ?c), A + B) # rs)" using Suc.prems(1) by (simp add: parts_ok_def ps q)
      with Suc.hyps(1) [of "((k, ?c), A + B) # rs"] Suc.hyps(2) Suc.prems(2-4) show ?thesis
        by (auto simp: ps q True ac_simps split: if_splits)
    next
      case False
      have less: "\<forall>p\<in>set qs. k < fst (fst p)"
        using Suc.prems(3) False by (auto simp: ps q)
      have none: "parts_at k qs = {#}" using less by (intro parts_at_none) auto
      consider "e = (k, v)" | "e \<in> set (collapse f (map fst qs))"
        using Suc.prems(4) False by (auto simp: ps q)
      then show ?thesis
      proof cases
        case 1
        then show ?thesis using Suc.prems(1) none by (simp add: ps parts_ok_def)
      next
        case 2
        then have "fst e \<in> fst ` set (map fst qs)" using collapse_keys by (metis imageI)
        then have "fst e \<noteq> k" using less by auto
        moreover have "combines f (fst e) (parts_at (fst e) qs) (snd e)"
          using Suc.prems 2 Suc.hyps(2) by (intro Suc.hyps(1)) (auto simp: ps parts_ok_def)
        ultimately show ?thesis by (auto simp: ps)
      qed
    qed
  qed
qed

subsection \<open>One list, and many\<close>

definition own_parts :: "entry list \<Rightarrow> parts" where
  "own_parts es = map (\<lambda>e. (e, {#snd e#})) es"

lemma own_parts_facts:
  "parts_ok f (own_parts es)" "map fst (own_parts es) = es" "parts_at k (own_parts es) = vals k (mset es)"
  by (induction es) (auto simp: own_parts_def parts_ok_def intro: combines_one)

lemma strict_keys_collapse:
  "sorted_wrt (\<lambda>a b. fst a \<le> fst b) es \<Longrightarrow> strict_keys (collapse f es)"
  using collapse_strict by (simp add: strict_keys_def sorted_wrt_map)

lemma collapse_sums:
  assumes "\<forall>k a b. f k a b \<noteq> None" and "sorted_wrt (\<lambda>a b. fst a \<le> fst b) es"
  shows "sums f (mset es) (collapse f es)"
  using collapse_parts [OF own_parts_facts(1), of f es] assms
  unfolding sums_def own_parts_facts collapse_keys by (simp add: strict_keys_collapse)

lemma concat_keys:
  "list_all2 (\<lambda>M out. sums f M out) Ms outs \<Longrightarrow> fst ` set (concat outs) = fst ` set_mset (sum_list Ms)"
  by (induction rule: list_all2_induct) (simp_all add: sums_def image_Un del: set_concat)

text \<open>Results of parts of the entries, merged and combined, are a result of all of them.\<close>

lemma sums_concat:
  assumes total: "\<forall>k a b. f k a b \<noteq> None" and parts: "list_all2 (\<lambda>M out. sums f M out) Ms outs"
    and all: "mset all = mset (concat outs)" "sorted_wrt (\<lambda>a b. fst a \<le> fst b) all"
  shows "sums f (sum_list Ms) (collapse f all)"
proof -
  have "\<exists>ps. map fst ps = concat outs \<and> parts_ok f ps \<and> (\<forall>k. parts_at k ps = vals k (sum_list Ms))"
    using parts
  proof (induction rule: list_all2_induct)
    case Nil
    show ?case by (intro exI [of _ "[]"]) (simp add: parts_ok_def)
  next
    case (Cons M Ms out outs)
    then obtain ps where ps: "map fst ps = concat outs" "parts_ok f ps" "\<forall>k. parts_at k ps = vals k (sum_list Ms)"
      by blast
    let ?qs = "map (\<lambda>e. (e, vals (fst e) M)) out"
    have out: "strict_keys out" "fst ` set out = fst ` set_mset M"
        "\<forall>e\<in>set out. combines f (fst e) (vals (fst e) M) (snd e)"
      using Cons.hyps(1) by (auto simp: sums_def)
    have at: "strict_keys xs \<Longrightarrow> parts_at k (map (\<lambda>e. (e, vals (fst e) M)) xs) = (if k \<in> fst ` set xs then vals k M else {#})"
      for k xs
    proof (induction xs)
      case (Cons x xs)
      then show ?case by (cases "fst x = k") (auto simp: strict_keys_def)
    qed simp
    have "parts_at k ?qs = vals k M" for k
      unfolding at [OF out(1)] out(2) using vals_none [of k M] by simp
    then show ?case
      using ps out(3) by (intro exI [of _ "?qs @ ps"]) (auto simp: parts_ok_def o_def)
  qed
  then obtain ps where ps: "map fst ps = concat outs" "parts_ok f ps" "\<forall>k. parts_at k ps = vals k (sum_list Ms)"
    by blast
  obtain qs where qs: "mset qs = mset ps" "map fst qs = all"
    using map_permute [of all fst ps] all(1) ps(1) by (metis mset_map)
  have ok: "parts_ok f qs" using ps(2) mset_eq_setD [OF qs(1)] by (simp add: parts_ok_def)
  have at: "parts_at k qs = vals k (sum_list Ms)" for k using parts_at_mset [OF qs(1)] ps(3) by simp
  have "set all = set (concat outs)" using all(1) by (rule mset_eq_setD)
  then have "fst ` set all = fst ` set_mset (sum_list Ms)"
    using concat_keys [OF parts] by (metis)
  moreover have "combines f (fst e) (vals (fst e) (sum_list Ms)) (snd e)" if "e \<in> set (collapse f all)" for e
    using collapse_parts [OF ok total, of e] that all(2) by (simp add: qs(2) at)
  ultimately show ?thesis using all(2) by (simp add: sums_def collapse_keys strict_keys_collapse)
qed

end
