(* ===== verification/Libc.thy ===== *)
theory Libc
  imports Bytes "HOL-Library.Multiset"
begin

text \<open>
  What the sources use of the C library beyond memory and files: \<open>qsort\<close>, an argument of the
  definitions that call it, with the contract \<open>qsort_ok\<close> the standard gives it (the order of
  equal elements is free) and insertion sort as an instance; \<open>bsearch\<close>; and functions on
  strings. A C string is the bytes before its NUL.
\<close>

subsection \<open>\<open>qsort\<close>\<close>

definition qsort_ok :: "(('a \<Rightarrow> 'a \<Rightarrow> int) \<Rightarrow> 'a list \<Rightarrow> 'a list) \<Rightarrow> bool" where
  "qsort_ok qsort \<longleftrightarrow> (\<forall>cmp es. (\<forall>a b. cmp a b \<le> 0 \<or> cmp b a \<le> 0) \<longrightarrow> transp (\<lambda>a b. cmp a b \<le> 0) \<longrightarrow>
     mset (qsort cmp es) = mset es \<and> sorted_wrt (\<lambda>a b. cmp a b \<le> 0) (qsort cmp es))"

primrec insert_by :: "('a \<Rightarrow> 'a \<Rightarrow> int) \<Rightarrow> 'a \<Rightarrow> 'a list \<Rightarrow> 'a list" where
  "insert_by cmp x [] = [x]"
| "insert_by cmp x (y # ys) = (if cmp x y \<le> 0 then x # y # ys else y # insert_by cmp x ys)"

definition insertion_sort :: "('a \<Rightarrow> 'a \<Rightarrow> int) \<Rightarrow> 'a list \<Rightarrow> 'a list" where
  "insertion_sort cmp es = foldr (insert_by cmp) es []"

lemma mset_insert_by [simp]: "mset (insert_by cmp x ys) = add_mset x (mset ys)"
  by (induction ys) simp_all

lemma set_insert_by [simp]: "set (insert_by cmp x ys) = insert x (set ys)"
  by (induction ys) auto

lemma sorted_insert_by:
  assumes "\<forall>a b. cmp a b \<le> 0 \<or> cmp b a \<le> 0" and "transp (\<lambda>a b. cmp a b \<le> 0)"
    and "sorted_wrt (\<lambda>a b. cmp a b \<le> 0) ys"
  shows "sorted_wrt (\<lambda>a b. cmp a b \<le> 0) (insert_by cmp x ys)"
  using assms(3)
proof (induction ys)
  case (Cons y ys)
  have t: "cmp x z \<le> 0" if "cmp x y \<le> 0" "cmp y z \<le> 0" for z using assms(2) that unfolding transp_def by blast
  have "cmp y x \<le> 0" if "\<not> cmp x y \<le> 0" using assms(1) that by blast
  with Cons t show ?case by auto
qed simp

lemma insertion_sort_ok: "qsort_ok insertion_sort"
proof -
  have "mset (foldr (insert_by cmp) es []) = mset es" for cmp :: "'a \<Rightarrow> 'a \<Rightarrow> int" and es
    by (induction es) simp_all
  moreover have "(\<forall>a b. cmp a b \<le> 0 \<or> cmp b a \<le> 0) \<Longrightarrow> transp (\<lambda>a b. cmp a b \<le> 0) \<Longrightarrow>
      sorted_wrt (\<lambda>a b. cmp a b \<le> 0) (foldr (insert_by cmp) es [])" for cmp :: "'a \<Rightarrow> 'a \<Rightarrow> int" and es
    by (induction es) (simp_all add: sorted_insert_by)
  ultimately show ?thesis by (simp add: qsort_ok_def insertion_sort_def)
qed

subsection \<open>\<open>bsearch\<close>\<close>

text \<open>
  The search over \<open>n\<close> elements; \<open>cmp i\<close> is the result of comparing the key with element \<open>i\<close>.
\<close>

function bsearch_loop :: "(nat \<Rightarrow> int) \<Rightarrow> nat \<Rightarrow> nat \<Rightarrow> nat option" where
  "bsearch_loop cmp l u =
     (if l < u then
        (let idx = (l + u) div 2
         in if cmp idx < 0 then bsearch_loop cmp l idx
            else if cmp idx > 0 then bsearch_loop cmp (idx + 1) u
            else Some idx)
      else None)"
  by pat_completeness auto

termination
  by (relation "measure (\<lambda>(cmp, l, u). u - l)") auto

declare bsearch_loop.simps [simp del]

definition bsearch :: "(nat \<Rightarrow> int) \<Rightarrow> nat \<Rightarrow> nat option" where
  "bsearch cmp n = bsearch_loop cmp 0 n"

lemma bsearch_loop_found: "bsearch_loop cmp l u = Some i \<Longrightarrow> l \<le> i \<and> i < u \<and> cmp i = 0"
proof (induction cmp l u rule: bsearch_loop.induct)
  case (1 cmp l u)
  let ?idx = "(l + u) div 2"
  have lt: "l < u" using "1.prems" by (subst (asm) bsearch_loop.simps) (simp split: if_splits)
  consider "cmp ?idx < 0" "bsearch_loop cmp l ?idx = Some i" | "cmp ?idx > 0" "bsearch_loop cmp (?idx + 1) u = Some i"
    | "cmp ?idx = 0" "?idx = i"
    using "1.prems" lt by (subst (asm) bsearch_loop.simps) (force simp: Let_def split: if_splits)
  then show ?case using 1(1,2) [OF lt refl] lt by cases auto
qed

text \<open>The elements are in order with respect to the key.\<close>

definition cmp_ordered :: "(nat \<Rightarrow> int) \<Rightarrow> nat \<Rightarrow> bool" where
  "cmp_ordered cmp n \<longleftrightarrow> (\<forall>i j. i < j \<and> j < n \<longrightarrow> (cmp i < 0 \<longrightarrow> cmp j < 0) \<and> (cmp j > 0 \<longrightarrow> cmp i > 0))"

lemma cmp_orderedD:
  "cmp_ordered cmp n \<Longrightarrow> i < j \<Longrightarrow> j < n \<Longrightarrow> (cmp i < 0 \<longrightarrow> cmp j < 0) \<and> (cmp j > 0 \<longrightarrow> cmp i > 0)"
  unfolding cmp_ordered_def by blast

lemma bsearch_loop_finds:
  assumes "cmp_ordered cmp n"
    and "l \<le> k" and "k < u" and "u \<le> n" and "cmp k = 0"
  shows "bsearch_loop cmp l u \<noteq> None"
  using assms
proof (induction cmp l u rule: bsearch_loop.induct)
  case (1 cmp l u)
  let ?idx = "(l + u) div 2"
  have lt: "l < u" "?idx < u" using "1.prems" by auto
  have "k < ?idx" if "cmp ?idx < 0"
  proof (rule ccontr)
    assume "\<not> k < ?idx"
    then have "?idx < k \<or> ?idx = k" by auto
    then show False using cmp_orderedD [OF 1(3), of ?idx k] that "1.prems"(3-5) by auto
  qed
  moreover have "?idx < k" if "cmp ?idx > 0"
  proof (rule ccontr)
    assume "\<not> ?idx < k"
    then have "k < ?idx \<or> ?idx = k" by auto
    then show False using cmp_orderedD [OF 1(3), of k ?idx] that lt "1.prems"(4,5) by auto
  qed
  ultimately show ?case
    using 1(1) [OF lt(1) refl] 1(2) [OF lt(1) refl] 1(3-7) lt by (subst bsearch_loop.simps) (auto simp: Let_def)
qed

lemma bsearch_found: "bsearch cmp n = Some i \<Longrightarrow> i < n \<and> cmp i = 0"
  using bsearch_loop_found [of cmp 0 n i] by (simp add: bsearch_def)

lemma bsearch_finds:
  "cmp_ordered cmp n \<Longrightarrow> k < n \<Longrightarrow> cmp k = 0 \<Longrightarrow> bsearch cmp n \<noteq> None"
  unfolding bsearch_def by (rule bsearch_loop_finds [of cmp n 0 k n]) simp_all

subsection \<open>Strings\<close>

definition cstring :: "bytes \<Rightarrow> bytes" where
  "cstring s = takeWhile (\<lambda>b. b \<noteq> 0) s"

text \<open>Only the sign of \<open>strcmp\<close> is used.\<close>

fun strcmp :: "bytes \<Rightarrow> bytes \<Rightarrow> int" where
  "strcmp [] [] = 0"
| "strcmp [] (b # bs) = - 1"
| "strcmp (a # as) [] = 1"
| "strcmp (a # as) (b # bs) = (if a = b then strcmp as bs else uint a - uint b)"

lemma strcmp_eq_compare: "strcmp a b = bytes_compare a b"
  by (induction a b rule: strcmp.induct) simp_all

text \<open>
  \<open>getline\<close>: the next line with its newline, and the rest of the file; nothing at its end.
\<close>

definition getline :: "bytes \<Rightarrow> (bytes \<times> bytes) option" where
  "getline s =
     (if s = [] then None
      else (let line = takeWhile (\<lambda>b. b \<noteq> 10) s; rest = dropWhile (\<lambda>b. b \<noteq> 10) s
            in Some (line @ take 1 rest, drop 1 rest)))"

lemma getline_shorter: "getline s = Some (line, rest) \<Longrightarrow> length rest < length s"
proof -
  assume g: "getline s = Some (line, rest)"
  then have "s \<noteq> []" "rest = drop 1 (dropWhile (\<lambda>b. b \<noteq> 10) s)" by (auto simp: getline_def Let_def split: if_splits)
  moreover have "length (dropWhile (\<lambda>b. b \<noteq> 10) s) \<le> length s" by (rule length_dropWhile_le)
  ultimately show ?thesis by (cases s) auto
qed

text \<open>The directory part of a path (POSIX).\<close>

definition rstrip_slashes :: "bytes \<Rightarrow> bytes" where
  "rstrip_slashes s = rev (dropWhile (\<lambda>b. b = 47) (rev s))"

definition dirname :: "bytes \<Rightarrow> bytes" where
  "dirname path =
     (let p = rstrip_slashes path
      in if p = [] then (if path = [] then [46] else [47])
         else if 47 \<notin> set p then [46]
         else (let d = rstrip_slashes (rev (dropWhile (\<lambda>b. b \<noteq> 47) (rev p)))
               in if d = [] then [47] else d))"

end
