(* ===== verification/Sorter_Facts.thy ===== *)
theory Sorter_Facts
  imports Sorter Combine Source_Write Libc
begin

text \<open>
  Why the sorter sorts: a chunk file holds the combined entries of its batch (\<open>write_chunk_ok\<close>);
  between the calls the readers, the waiting batches and the entries in memory hold all that was
  added (\<open>sorter_inv\<close>); merging the chunks combines what they hold (\<open>sums_concat\<close>).
\<close>

subsection \<open>What the sorter relies on\<close>

text \<open>The libraries, the options and the entries a sorter can be given.\<close>

definition sorter_ok ::
  "'z complib \<Rightarrow> sort_fun \<Rightarrow> mtbl_sorter_options \<Rightarrow> (bytes \<Rightarrow> bytes \<Rightarrow> bytes \<Rightarrow> bytes option) \<Rightarrow> entry multiset \<Rightarrow> bool" where
  "sorter_ok L qsort opt f M \<longleftrightarrow> compressor_ok L chunk_writer_options \<and> coder_small L chunk_writer_options \<and>
     qsort_ok qsort \<and> so_tmp_dname opt \<noteq> None \<and> so_merge opt = Some f \<and> (\<forall>k a b. f k a b \<noteq> None) \<and>
     size M < 2 ^ 30 \<and> (\<forall>k A a. combines f k A a \<longrightarrow> A \<subseteq># vals k M \<longrightarrow> entry_fits (k, a))"

definition temp_ok :: "fdesc \<Rightarrow> bool" where
  "temp_ok fd \<longleftrightarrow> f_ok fd \<and> f_bytes fd = []"

text \<open>How an entry is kept in memory.\<close>

definition sent :: "entry \<Rightarrow> sorter_entry" where
  "sent e = \<lparr>se_len_key = of_nat (length (fst e)), se_len_val = of_nat (length (snd e)), se_data = fst e @ snd e\<rparr>"

lemma sent_fields:
  assumes "entry_fits e"
  shows "entry_key (sent e) = fst e" "entry_val (sent e) = snd e"
proof -
  have "length (fst e) < 2 ^ 32" "length (snd e) < 2 ^ 32" using assms by (simp_all add: entry_fits_def)
  then show "entry_key (sent e) = fst e" "entry_val (sent e) = snd e"
    by (simp_all add: entry_key_def entry_val_def sent_def unat_of_nat)
qed

lemma fits_one: "\<forall>k A a. combines f k A a \<longrightarrow> A \<subseteq># vals k M \<longrightarrow> entry_fits (k, a) \<Longrightarrow> e \<in># M \<Longrightarrow> entry_fits e"
  using combines_one [of f "fst e" "snd e"] vals_mono [of "{#e#}" M "fst e"] by fastforce

lemma compare_keys:
  "entry_fits a \<Longrightarrow> entry_fits b \<Longrightarrow> mtbl_sorter_compare (sent a) (sent b) = bytes_compare (fst a) (fst b)"
  by (simp add: mtbl_sorter_compare_def sent_fields)

subsection \<open>The loop over a chunk\<close>

definition parts_fit :: "(bytes \<Rightarrow> bytes \<Rightarrow> bytes \<Rightarrow> bytes option) \<Rightarrow> parts \<Rightarrow> bool" where
  "parts_fit f ps \<longleftrightarrow> parts_ok f ps \<and> (\<forall>k A a. combines f k A a \<longrightarrow> A \<subseteq># parts_at k ps \<longrightarrow> entry_fits (k, a))"

lemma parts_fit_Cons:
  assumes "parts_fit f (p # ps)"
  shows "entry_fits (fst p)" "parts_fit f ps"
proof -
  have c: "combines f (fst (fst p)) (snd p) (snd (fst p))" using assms by (simp add: parts_fit_def parts_ok_def)
  have "\<forall>A a. combines f (fst (fst p)) A a \<longrightarrow> A \<subseteq># snd p + parts_at (fst (fst p)) ps \<longrightarrow> entry_fits (fst (fst p), a)"
    using assms unfolding parts_fit_def by (metis parts_at_Cons)
  with c have "entry_fits (fst (fst p), snd (fst p))" by (metis mset_subset_eq_add_left)
  then show "entry_fits (fst p)" by simp
  have "parts_at k ps \<subseteq># parts_at k (p # ps)" for k by simp
  then show "parts_fit f ps" using assms unfolding parts_fit_def parts_ok_def by (meson list.set_intros(2) subset_mset.order_trans)
qed

lemma parts_fit_merge:
  assumes "parts_fit f (((k, v), A) # ((k, v'), B) # ps)" and "f k v v' = Some c"
  shows "parts_fit f (((k, c), A + B) # ps)"
  using assms by (auto simp: parts_fit_def parts_ok_def ac_simps intro: combines_two)

lemma chunk_loop_ok:
  assumes "parts_fit f ps" and "\<forall>k a b. f k a b \<noteq> None" and "ps \<noteq> []"
    and "writer_run L crc w (adds (collapse f (map fst ps))) = Some (replicate n True, w')"
  shows "chunk_loop (mtbl_writer_add L crc) (Some f) (map sent (map fst ps)) w res = Some (Some True, w')"
  using assms
proof (induction "length ps" arbitrary: ps w n res)
  case 0
  then show ?case by simp
next
  case (Suc m)
  then obtain k v A qs where ps: "ps = ((k, v), A) # qs" by (cases ps) auto
  have kv: "entry_fits (k, v)" "parts_fit f qs" using parts_fit_Cons [of f "((k, v), A)" qs] Suc.prems(1) by (simp_all add: ps)
  show ?case
  proof (cases qs)
    case Nil
    then show ?thesis using Suc.prems(4) by (cases n) (auto simp: ps sent_fields [OF kv(1)] split: bind_splits)
  next
    case (Cons q rs)
    then obtain k' v' B where q: "qs = ((k', v'), B) # rs" by (cases q) auto
    have kv': "entry_fits (k', v')" using parts_fit_Cons(1) [OF kv(2) [unfolded q]] by simp
    show ?thesis
    proof (cases "k = k'")
      case True
      obtain c where c: "f k v v' = Some c" using Suc.prems(2) by blast
      have fit: "parts_fit f (((k, c), A + B) # rs)"
        using parts_fit_merge [of f k v A v' B rs c] c Suc.prems(1) by (simp add: ps q True)
      have run: "chunk_loop (mtbl_writer_add L crc) (Some f) (map sent (map fst (((k, c), A + B) # rs))) w res =
          Some (Some True, w')"
        using Suc.hyps(2) Suc.prems(4) c by (intro Suc.hyps(1) [OF _ fit Suc.prems(2)]) (auto simp: ps q True)
      then show ?thesis
        using c compare_keys [OF kv(1) kv'] sent_fields [OF kv(1)] sent_fields [OF kv']
        by (simp add: ps q True Let_def) (simp add: sent_def)
    next
      case False
      then obtain w1 n' where w1: "mtbl_writer_add L crc w k v = Some (True, w1)" "n = Suc n'"
          "writer_run L crc w1 (adds (collapse f (map fst qs))) = Some (replicate n' True, w')"
        using Suc.prems(4) by (cases n) (auto simp: ps q split: bind_splits)
      have "chunk_loop (mtbl_writer_add L crc) (Some f) (map sent (map fst qs)) w1 (Some True) = Some (Some True, w')"
        using Suc.hyps(2) by (intro Suc.hyps(1) [OF _ kv(2) Suc.prems(2) _ w1(3)]) (auto simp: ps q)
      then show ?thesis
        using w1(1) False compare_keys [OF kv(1) kv'] sent_fields [OF kv(1)] by (simp add: ps q)
    qed
  qed
qed

subsection \<open>The file of a chunk\<close>

lemma chunk_options: "wo_pool chunk_writer_options = False" "opt_fits chunk_writer_options"
  by (simp_all add: chunk_writer_options_def mtbl_writer_options_set_compression_def mtbl_writer_options_init_def
      opt_fits_def DEFAULT_BLOCK_RESTART_INTERVAL_def DEFAULT_BLOCK_SIZE_def)

lemma sums_length: "sums f (mset es) out \<Longrightarrow> length out \<le> length es"
proof -
  assume s: "sums f (mset es) out"
  then have "distinct (map fst out)" by (auto simp: sums_def strict_keys_def strict_sorted_iff)
  then have "length out = card (fst ` set out)" using distinct_card by (metis length_map set_map)
  also have "\<dots> = card (fst ` set es)" using s by (simp add: sums_def)
  also have "\<dots> \<le> length es" by (metis card_length length_map set_map)
  finally show ?thesis .
qed

lemma sums_fit:
  assumes "sorter_ok L qsort opt f M" and "sums f N out" and "N \<subseteq># M"
  shows "\<forall>e\<in>set out. entry_fits e"
proof
  fix e assume "e \<in> set out"
  then have "combines f (fst e) (vals (fst e) N) (snd e)" using assms(2) by (simp add: sums_def)
  then have "entry_fits (fst e, snd e)" using assms(1) vals_mono [OF assms(3)] unfolding sorter_ok_def by blast
  then show "entry_fits e" by simp
qed

lemma sorter_compare_order:
  "mtbl_sorter_compare a b \<le> 0 \<or> mtbl_sorter_compare b a \<le> 0" "transp (\<lambda>a b. mtbl_sorter_compare a b \<le> 0)"
  by (auto simp: mtbl_sorter_compare_def bytes_compare_le transp_def)

lemma sorted_chunk:
  assumes ok: "sorter_ok L qsort opt f M" and es: "mset es \<subseteq># M"
  shows "\<exists>es'. mset es' = mset es \<and> qsort mtbl_sorter_compare (map sent es) = map sent es' \<and>
    sorted_wrt (\<lambda>a b. fst a \<le> fst b) es'"
proof -
  have "qsort_ok qsort" using ok by (simp add: sorter_ok_def)
  then have q: "mset (qsort mtbl_sorter_compare (map sent es)) = mset (map sent es)"
      "sorted_wrt (\<lambda>a b. mtbl_sorter_compare a b \<le> 0) (qsort mtbl_sorter_compare (map sent es))"
    unfolding qsort_ok_def using sorter_compare_order by blast+
  obtain es' where es': "mset es' = mset es" "map sent es' = qsort mtbl_sorter_compare (map sent es)"
    using map_permute [of "qsort mtbl_sorter_compare (map sent es)" sent es] q(1) by auto
  have fits: "entry_fits e" if "e \<in> set es'" for e
  proof (rule fits_one)
    show "\<forall>k A a. combines f k A a \<longrightarrow> A \<subseteq># vals k M \<longrightarrow> entry_fits (k, a)" using ok by (simp add: sorter_ok_def)
    show "e \<in># M" using that es es'(1) by (metis mset_subset_eqD set_mset_mset)
  qed
  have "sorted_wrt (\<lambda>a b. mtbl_sorter_compare (sent a) (sent b) \<le> 0) es'"
    using q(2) unfolding es'(2) [symmetric] sorted_wrt_map .
  then have "sorted_wrt (\<lambda>a b. fst a \<le> fst b) es'"
    by (rule sorted_wrt_mono_rel [rotated]) (simp add: fits compare_keys bytes_compare_le)
  with es' show ?thesis by metis
qed

lemma write_chunk_ok:
  assumes ok: "sorter_ok L qsort opt f M" and es: "mset es \<subseteq># M" "es \<noteq> []"
    and s: "s_opt s = opt" "s_tmp s = fd # tmp" and fd: "temp_ok fd"
  shows "\<exists>r out. mtbl_sorter_write_chunk L crc qsort s (map sent es) = Some (Some r, s\<lparr>s_tmp := tmp\<rparr>) \<and>
    holds_table crc L r out \<and> sums f (mset es) out"
proof -
  let ?opt = chunk_writer_options
  obtain dname where opt: "so_tmp_dname opt = Some dname" "so_merge opt = Some f" "\<forall>k a b. f k a b \<noteq> None"
    using ok by (auto simp: sorter_ok_def)
  obtain es' where es': "mset es' = mset es" "qsort mtbl_sorter_compare (map sent es) = map sent es'"
      "sorted_wrt (\<lambda>a b. fst a \<le> fst b) es'"
    using sorted_chunk [OF ok es(1)] by blast
  let ?out = "collapse f es'"
  have sums: "sums f (mset es) ?out" using collapse_sums [OF opt(3) es'(3)] es'(1) by simp
  have strict: "strict_keys ?out" using sums by (simp add: sums_def)
  note kept = kept_all [OF strict, of None, simplified]
  have "size (mset es) \<le> size M" using es(1) by (rule size_mset_mono)
  then have len: "length ?out < 2 ^ 30" using sums_length [OF sums] ok by (simp add: sorter_ok_def)
  have fits: "run_fits L ?opt fd (added (adds ?out))"
    using ok chunk_options(2) fd sums_fit [OF ok sums es(1)] len by (intro run_fitsI) (simp_all add: sorter_ok_def temp_ok_def)
  obtain w w' fd' where w: "mtbl_writer_init_fd fd (Some ?opt) = Some w"
      "writer_run L crc w (adds ?out) = Some (replicate (length ?out) True, w')"
      "mtbl_writer_destroy L crc w' = Some fd'"
    and rd: "length (f_bytes fd') < 2 ^ 63 \<Longrightarrow> \<exists>r. mtbl_reader_init_fd crc False (f_bytes fd') None = Some (Some r) \<and>
       holds_table crc L r ?out"
    using chunk_table [OF fits] by (simp add: kept) blast
  have "write_file L crc ?opt fd (adds ?out) = Some (replicate (length ?out) True, f_bytes fd')"
    using w by (simp add: write_file_def)
  then have "length (f_bytes fd') < 2 ^ 63"
    using run_small [OF fits] fd ok len by (simp add: temp_ok_def sorter_ok_def)
  then obtain r where r: "mtbl_reader_init_fd crc False (f_bytes fd') None = Some (Some r)" "holds_table crc L r ?out"
    using rd by blast
  have parts: "parts_fit f (own_parts es')"
    using ok vals_mono [OF es(1)] unfolding parts_fit_def own_parts_facts es'(1) sorter_ok_def
    by (meson own_parts_facts(1) subset_mset.order_trans)
  have "es' \<noteq> []" using es(2) es'(1) by auto
  then have "own_parts es' \<noteq> []" by (simp add: own_parts_def)
  from chunk_loop_ok [OF parts opt(3) this, unfolded own_parts_facts(2), OF w(2)]
  have "chunk_loop (mtbl_writer_add L crc) (Some f) (map sent es') w None = Some (Some True, w')" by simp
  then have "mtbl_sorter_write_chunk L crc qsort s (map sent es) = Some (Some r, s\<lparr>s_tmp := tmp\<rparr>)"
    using w(1,3) r(1) opt s by (simp add: mtbl_sorter_write_chunk_def es'(2))
  with r(2) sums show ?thesis by blast
qed

subsection \<open>The invariant of a sorter\<close>

text \<open>
  \<open>ess\<close> are the batches that were written, one for each reader, \<open>qs\<close> those that wait for a
  worker, \<open>cur\<close> the entries in memory; \<open>n\<close> more entries may come, and there are files for all.
\<close>

definition chunk_reader ::
  "(bytes \<Rightarrow> u32) \<Rightarrow> 'z complib \<Rightarrow> (bytes \<Rightarrow> bytes \<Rightarrow> bytes \<Rightarrow> bytes option) \<Rightarrow> mtbl_reader option \<Rightarrow> entry list \<Rightarrow> bool" where
  "chunk_reader crc L f r es \<longleftrightarrow> (\<exists>r' out. r = Some r' \<and> holds_table crc L r' out \<and> sums f (mset es) out)"

definition sorter_inv ::
  "(bytes \<Rightarrow> u32) \<Rightarrow> 'z complib \<Rightarrow> (bytes \<Rightarrow> bytes \<Rightarrow> bytes \<Rightarrow> bytes option) \<Rightarrow> mtbl_sorter_options \<Rightarrow> nat \<Rightarrow> mtbl_sorter \<Rightarrow>
   entry list list \<Rightarrow> entry list list \<Rightarrow> entry list \<Rightarrow> bool" where
  "sorter_inv crc L f opt n s ess qs cur \<longleftrightarrow> s_opt s = opt \<and> \<not> s_iterating s \<and>
     list_all2 (chunk_reader crc L f) (s_readers s) ess \<and>
     s_queue s = map (map sent) qs \<and> [] \<notin> set qs \<and> s_vec s = map sent cur \<and>
     (\<forall>fd\<in>set (s_tmp s). temp_ok fd) \<and> n + length qs + (if cur = [] then 0 else 1) \<le> length (s_tmp s)"

definition held :: "entry list list \<Rightarrow> entry list list \<Rightarrow> entry list \<Rightarrow> entry multiset" where
  "held ess qs cur = mset (concat ess) + mset (concat qs) + mset cur"

lemma sorter_init_inv:
  "\<forall>fd\<in>set tmp. temp_ok fd \<Longrightarrow> n \<le> length tmp \<Longrightarrow> sorter_inv crc L f opt n (mtbl_sorter_init (Some opt) tmp) [] [] []"
  by (simp add: sorter_inv_def mtbl_sorter_init_def)

lemma inv_write_chunk:
  assumes ok: "sorter_ok L qsort opt f M" and es: "mset es \<subseteq># M" "es \<noteq> []"
    and s: "s_opt s = opt" "\<forall>fd\<in>set (s_tmp s). temp_ok fd" "s_tmp s \<noteq> []"
  shows "\<exists>r. mtbl_sorter_write_chunk L crc qsort s (map sent es) = Some (r, s\<lparr>s_tmp := tl (s_tmp s)\<rparr>) \<and>
    r \<noteq> None \<and> chunk_reader crc L f r es"
proof -
  obtain fd tmp where tmp: "s_tmp s = fd # tmp" using s(3) by (cases "s_tmp s") auto
  have "temp_ok fd" using s(2) tmp by simp
  from write_chunk_ok [OF ok es s(1) tmp this, of crc] show ?thesis by (auto simp: tmp chunk_reader_def)
qed

lemma temps_tl: "\<forall>fd\<in>set tmp. temp_ok fd \<Longrightarrow> \<forall>fd\<in>set (tl tmp). temp_ok fd"
  by (cases tmp) auto

lemma inv_flush:
  assumes ok: "sorter_ok L qsort opt f M" and iv: "sorter_inv crc L f opt n s ess qs cur"
    and cur: "cur \<noteq> []" "held ess qs cur \<subseteq># M"
  shows "\<exists>s' ess' qs'. mtbl_sorter_flush L crc qsort s = Some (True, s') \<and> sorter_inv crc L f opt n s' ess' qs' [] \<and>
    held ess' qs' [] = held ess qs cur"
proof -
  let ?s = "s\<lparr>s_vec := [], s_entry_bytes := 0\<rparr>"
  have i: "s_opt s = opt" "\<not> s_iterating s" "s_vec s = map sent cur" "s_queue s = map (map sent) qs"
    using iv by (simp_all add: sorter_inv_def)
  show ?thesis
  proof (cases "so_pool opt")
    case True
    then have "mtbl_sorter_flush L crc qsort s = Some (True, ?s\<lparr>s_queue := s_queue s @ [map sent cur]\<rparr>)"
      using i by (simp add: mtbl_sorter_flush_def mtbl_sorter_get_entry_batch_def)
    moreover have "sorter_inv crc L f opt n (?s\<lparr>s_queue := s_queue s @ [map sent cur]\<rparr>) ess (qs @ [cur]) []"
      using iv cur(1) by (simp add: sorter_inv_def)
    ultimately show ?thesis by - (rule exI, rule exI [of _ ess], rule exI [of _ "qs @ [cur]"], simp add: held_def)
  next
    case False
    have sub: "mset cur \<subseteq># M" using cur(2) unfolding held_def by (rule subset_mset.order_trans [rotated]) simp
    have tmp: "s_opt ?s = opt" "\<forall>fd\<in>set (s_tmp ?s). temp_ok fd" "s_tmp ?s \<noteq> []"
      using iv cur(1) by (auto simp: sorter_inv_def)
    obtain r where r: "mtbl_sorter_write_chunk L crc qsort ?s (map sent cur) = Some (r, ?s\<lparr>s_tmp := tl (s_tmp ?s)\<rparr>)"
        "r \<noteq> None" "chunk_reader crc L f r cur"
      using inv_write_chunk [OF ok sub cur(1) tmp, of crc] by blast
    let ?t = "?s\<lparr>s_tmp := tl (s_tmp s), s_readers := s_readers s @ [r]\<rparr>"
    have "mtbl_sorter_flush L crc qsort s = Some (True, ?t)"
      using False i r(1,2) by (simp add: mtbl_sorter_flush_def mtbl_sorter_get_entry_batch_def)
    moreover have "sorter_inv crc L f opt n ?t (ess @ [cur]) qs []"
      using iv cur(1) r(3) temps_tl [of "s_tmp s"] by (auto simp: sorter_inv_def list_all2_appendI)
    ultimately show ?thesis
      by - (rule exI, rule exI [of _ "ess @ [cur]"], rule exI [of _ qs], simp add: held_def ac_simps)
  qed
qed

lemma inv_add:
  assumes ok: "sorter_ok L qsort opt f M" and iv: "sorter_inv crc L f opt (Suc n) s ess qs cur"
    and e: "held ess qs cur + {#e#} \<subseteq># M"
  shows "\<exists>s' ess' qs' cur'. mtbl_sorter_add L crc qsort s (fst e) (snd e) = Some (True, s') \<and>
    sorter_inv crc L f opt n s' ess' qs' cur' \<and> held ess' qs' cur' = held ess qs cur + {#e#}"
proof -
  let ?s = "s\<lparr>s_vec := s_vec s @ [sent e], s_entry_bytes := s_entry_bytes s + (8 + length (fst e) + length (snd e))\<rparr>"
  have "e \<in># M" using mset_subset_eqD [OF e, of e] by simp
  then have "entry_fits e" using ok fits_one [of f M e] by (simp add: sorter_ok_def)
  then have len: "length (fst e) < 2 ^ 32" "length (snd e) < 2 ^ 32" by (simp_all add: entry_fits_def)
  have iv': "sorter_inv crc L f opt n ?s ess qs (cur @ [e])" using iv by (auto simp: sorter_inv_def split: if_splits)
  have h: "held ess qs (cur @ [e]) = held ess qs cur + {#e#}" by (simp add: held_def)
  have step: "mtbl_sorter_add L crc qsort s (fst e) (snd e) =
      (if s_entry_bytes ?s + length (s_vec ?s) * 8 \<ge> so_max_memory (s_opt ?s) then mtbl_sorter_flush L crc qsort ?s
       else Some (True, ?s))"
    using iv len by (simp add: sorter_inv_def mtbl_sorter_add_def sent_def)
  show ?thesis
  proof (cases "so_max_memory (s_opt ?s) \<le> s_entry_bytes ?s + length (s_vec ?s) * 8")
    case True
    have "held ess qs (cur @ [e]) \<subseteq># M" using e h by simp
    from inv_flush [OF ok iv' _ this] show ?thesis unfolding step if_P [OF True] h by blast
  next
    case False
    show ?thesis unfolding step if_not_P [OF False] using iv' h by blast
  qed
qed

lemma inv_collect_one:
  assumes ok: "sorter_ok L qsort opt f M" and iv: "sorter_inv crc L f opt n s ess qs cur" and sub: "held ess qs cur \<subseteq># M"
  shows "\<exists>s' ess' qs'. sorter_collect L crc qsort i s = Some s' \<and> sorter_inv crc L f opt n s' ess' qs' cur \<and>
    held ess' qs' cur = held ess qs cur \<and> length qs' = (if i < length qs then length qs - 1 else length qs)"
proof (cases "i < length qs")
  case True
  let ?q = "qs ! i" and ?qs = "take i qs @ drop (Suc i) qs"
  let ?s = "s\<lparr>s_queue := map (map sent) ?qs\<rparr>"
  have q: "s_queue s = map (map sent) qs" using iv by (simp add: sorter_inv_def)
  have split: "qs = take i qs @ ?q # drop (Suc i) qs" using True by (simp add: id_take_nth_drop)
  have parts: "mset (concat qs) = mset ?q + mset (concat ?qs)" by (subst split) (simp add: ac_simps)
  have "?q \<noteq> []" using True iv nth_mem by (fastforce simp: sorter_inv_def)
  moreover have "mset ?q \<subseteq># M" using sub unfolding held_def parts
    by (rule subset_mset.order_trans [rotated]) simp
  moreover have "s_opt ?s = opt" "\<forall>fd\<in>set (s_tmp ?s). temp_ok fd" "s_tmp ?s \<noteq> []"
    using iv True by (auto simp: sorter_inv_def)
  ultimately obtain r where r: "mtbl_sorter_write_chunk L crc qsort ?s (map sent ?q) = Some (r, ?s\<lparr>s_tmp := tl (s_tmp ?s)\<rparr>)"
      "chunk_reader crc L f r ?q"
    using inv_write_chunk [OF ok, of ?q ?s crc] by blast
  let ?t = "?s\<lparr>s_tmp := tl (s_tmp s), s_readers := s_readers s @ [r]\<rparr>"
  have "sorter_collect L crc qsort i s = Some ?t"
    using True r(1) by (simp add: sorter_collect_def q take_map drop_map)
  moreover have "sorter_inv crc L f opt n ?t (ess @ [?q]) ?qs cur"
    using iv True r(2) temps_tl [of "s_tmp s"] in_set_takeD [of "[]" i qs] in_set_dropD [of "[]" "Suc i" qs]
    by (auto simp: sorter_inv_def list_all2_appendI)
  moreover have "held (ess @ [?q]) ?qs cur = held ess qs cur" unfolding held_def parts by (simp add: ac_simps)
  ultimately show ?thesis using True by - (rule exI, rule exI [of _ "ess @ [?q]"], rule exI [of _ ?qs], simp)
next
  case False
  then have "sorter_collect L crc qsort i s = Some s" using iv by (simp add: sorter_collect_def sorter_inv_def)
  then show ?thesis using iv False by auto
qed

lemma inv_collect_all:
  assumes "sorter_ok L qsort opt f M" and "sorter_inv crc L f opt n s ess qs cur" and "held ess qs cur \<subseteq># M"
  shows "\<exists>s' ess'. sorter_collect_all L crc qsort (length qs) picks s = Some s' \<and>
    sorter_inv crc L f opt n s' ess' [] cur \<and> held ess' [] cur = held ess qs cur"
  using assms(2,3)
proof (induction "length qs" arbitrary: qs ess s picks)
  case 0
  then show ?case by auto
next
  case (Suc m)
  define i where "i = (case picks of [] \<Rightarrow> 0 | j # _ \<Rightarrow> j mod length (s_queue s))"
  have "length (s_queue s) = length qs" using Suc.prems(1) by (simp add: sorter_inv_def)
  moreover have "qs \<noteq> []" using Suc.hyps(2) by auto
  ultimately have i: "i < length qs" by (simp add: i_def split: list.split)
  have step: "sorter_collect_all L crc qsort (Suc m) picks s =
      sorter_collect L crc qsort i s \<bind> sorter_collect_all L crc qsort m (tl picks)"
    by (cases picks) (simp_all add: i_def)
  obtain s' ess' qs' where c: "sorter_collect L crc qsort i s = Some s'" "sorter_inv crc L f opt n s' ess' qs' cur"
      "held ess' qs' cur = held ess qs cur" "length qs' = length qs - 1"
    using inv_collect_one [OF assms(1) Suc.prems, of i] i by auto
  have m: "m = length qs'" using c(4) Suc.hyps(2) by simp
  from Suc.hyps(1) [OF m c(2), of "tl picks"] c(3) Suc.prems(2) show ?case
    unfolding Suc.hyps(2) [symmetric] step using c(1) m by simp
qed

end
