(* ===== verification/Sorter_Run.thy ===== *)
theory Sorter_Run
  imports Sorter_Facts
begin

text \<open>
  From the calls of a sorter's client to the sorted entries, taken from the iterator or written to
  a table file with \<open>mtbl_sorter_write\<close>.
\<close>

subsection \<open>Adding\<close>

fun sort_added :: "sorter_event list \<Rightarrow> entry list" where
  "sort_added [] = []"
| "sort_added (Sort key val # evs) = (key, val) # sort_added evs"
| "sort_added (Collect i # evs) = sort_added evs"

lemma sorter_run_ok:
  assumes ok: "sorter_ok L qsort opt f M" and "sorter_inv crc L f opt (length (sort_added evs)) s ess qs cur"
    and "held ess qs cur + mset (sort_added evs) \<subseteq># M"
  shows "\<exists>s' ess' qs' cur'. sorter_run L crc qsort s evs = Some (replicate (length (sort_added evs)) True, s') \<and>
    sorter_inv crc L f opt 0 s' ess' qs' cur' \<and> held ess' qs' cur' = held ess qs cur + mset (sort_added evs)"
  using assms(2,3)
proof (induction evs arbitrary: s ess qs cur rule: sort_added.induct)
  case 1
  then show ?case by auto
next
  case (2 key val evs)
  let ?e = "(key, val)"
  have sub: "held ess qs cur + {#?e#} + mset (sort_added evs) \<subseteq># M" using 2(3) by (simp add: ac_simps)
  then have "held ess qs cur + {#?e#} \<subseteq># M" by (rule subset_mset.order_trans [rotated]) simp
  then obtain s1 ess1 qs1 cur1 where a: "mtbl_sorter_add L crc qsort s key val = Some (True, s1)"
      "sorter_inv crc L f opt (length (sort_added evs)) s1 ess1 qs1 cur1"
      "held ess1 qs1 cur1 = held ess qs cur + {#?e#}"
    using inv_add [OF ok, of crc "length (sort_added evs)" s ess qs cur ?e] 2(2) by auto
  from 2(1) [OF a(2)] sub obtain s' ess' qs' cur' where
      "sorter_run L crc qsort s1 evs = Some (replicate (length (sort_added evs)) True, s')"
      "sorter_inv crc L f opt 0 s' ess' qs' cur'" "held ess' qs' cur' = held ess1 qs1 cur1 + mset (sort_added evs)"
    unfolding a(3) by blast
  then show ?case using a(1,3) by (auto simp: ac_simps)
next
  case (3 i evs)
  have "held ess qs cur \<subseteq># M" using 3(3) by (rule subset_mset.order_trans [rotated]) simp
  then obtain s1 ess1 qs1 where c: "sorter_collect L crc qsort i s = Some s1"
      "sorter_inv crc L f opt (length (sort_added evs)) s1 ess1 qs1 cur" "held ess1 qs1 cur = held ess qs cur"
    using inv_collect_one [OF ok, of crc "length (sort_added evs)" s ess qs cur i] 3(2) by auto
  from 3(1) [OF c(2)] 3(3) show ?case using c(1,3) by simp
qed

subsection \<open>Reading back\<close>

interpretation sorter_clos: cursor sorter_iter_next "merger_kid crc L" for crc L
proof -
  have "sorter_iter_next = mtbl_iter_next" by (rule ext) (simp add: sorter_iter_next_def)
  then show "cursor sorter_iter_next (merger_kid crc L)" by (simp add: merged.cursor_axioms)
qed

abbreviation sorter_kid ::
  "(bytes \<Rightarrow> u32) \<Rightarrow> 'z complib \<Rightarrow> sorter_iter mtbl_iter option \<Rightarrow> entry list \<Rightarrow> bool" where
  "sorter_kid crc L \<equiv> iter_remaining sorter_iter_next (merger_kid crc L)"

interpretation sorted_iter: cursor mtbl_iter_next "sorter_kid crc L" for crc L
  by (rule sorter_clos.iter_cursor)

lemma chunk_readers:
  "list_all2 (chunk_reader crc L f) rds ess \<Longrightarrow>
   \<exists>rs outs. rds = map Some rs \<and> list_all2 (holds_table crc L) rs outs \<and> list_all2 (\<lambda>M out. sums f M out) (map mset ess) outs"
proof (induction rule: list_all2_induct)
  case Nil
  show ?case by (intro exI [of _ "[]"]) simp
next
  case (Cons r rds es ess)
  then obtain rs outs where "rds = map Some rs" "list_all2 (holds_table crc L) rs outs"
      "list_all2 (\<lambda>M out. sums f M out) (map mset ess) outs" by blast
  moreover obtain r' out where "r = Some r'" "holds_table crc L r' out" "sums f (mset es) out"
    using Cons.hyps(1) by (auto simp: chunk_reader_def)
  ultimately show ?case by (intro exI [of _ "r' # rs"] exI [of _ "out # outs"]) simp
qed

lemma sorter_add_sources_all:
  "sorter_add_sources crc L m (map Some rs) = Some (foldl mtbl_merger_add_source m (map (mtbl_reader_source crc L) rs))"
  by (induction rs arbitrary: m) simp_all

lemma sorter_iter_ok:
  assumes ok: "sorter_ok L qsort opt f M" and iv: "sorter_inv crc L f opt 0 s ess qs cur" and h: "held ess qs cur = M"
    and keys: "\<forall>e\<in>#M. fst e \<noteq> []"
  shows "\<exists>it s' out. mtbl_sorter_iter L crc qsort picks s = Some (Some it, s') \<and> s_iterating s' \<and>
    sorter_kid crc L (Some it) out \<and> sums f M out"
proof -
  let ?mopt = "mtbl_merger_options_set_merge_func mtbl_merger_options_init (Some f)"
  obtain s1 ess1 qs1 where fl: "(if s_vec s \<noteq> [] then mtbl_sorter_flush L crc qsort s else Some (True, s)) = Some (True, s1)"
      "sorter_inv crc L f opt 0 s1 ess1 qs1 []" "held ess1 qs1 [] = M"
  proof (cases "cur = []")
    case True
    then have "s_vec s = []" using iv by (simp add: sorter_inv_def)
    then show ?thesis using that [of s ess qs] iv h True by simp
  next
    case False
    then have "s_vec s \<noteq> []" using iv by (simp add: sorter_inv_def)
    then show ?thesis using inv_flush [OF ok iv False] h that by auto
  qed
  have q: "length (s_queue s1) = length qs1" "s_opt s1 = opt" using fl(2) by (simp_all add: sorter_inv_def)
  obtain s2 ess2 where co: "sorter_collect_all L crc qsort (length qs1) picks s1 = Some s2"
      "sorter_inv crc L f opt 0 s2 ess2 [] []" "held ess2 [] [] = M"
    using inv_collect_all [OF ok fl(2), of picks] fl(3) by auto
  obtain rs outs where rs: "s_readers s2 = map Some rs" "list_all2 (holds_table crc L) rs outs"
      "list_all2 (\<lambda>M out. sums f M out) (map mset ess2) outs"
    using chunk_readers co(2) unfolding sorter_inv_def by blast
  have M: "sum_list (map mset ess2) = M" using co(3) by (simp add: held_def mset_concat)
  have opt: "so_merge opt = Some f" "\<forall>k a b. f k a b \<noteq> None" using ok by (simp_all add: sorter_ok_def)
  then have mopt: "dupsort_ok ?mopt" "merge_ok ?mopt" "mo_merge ?mopt = Some f" "mo_dupsort ?mopt = None"
    by (simp_all add: dupsort_ok_def merge_ok_def mtbl_merger_options_set_merge_func_def mtbl_merger_options_init_def)
  have same: "fst ` set (concat outs) = fst ` set_mset M" using concat_keys [OF rs(3)] M by simp
  have ne: "\<forall>e\<in>set (concat outs). fst e \<noteq> []"
  proof
    fix e assume "e \<in> set (concat outs)"
    then have "fst e \<in> fst ` set_mset M" unfolding same [symmetric] by (rule imageI)
    then show "fst e \<noteq> []" using keys by auto
  qed
  obtain m_iter all where it: "mtbl_source_iter (mtbl_merger_source \<lparr>m_sources = map (mtbl_reader_source crc L) rs, m_opt = ?mopt\<rparr>) =
        Some m_iter" "mset all = mset (concat outs)" "sorted_wrt (mle ?mopt) all" "merger_kid crc L m_iter (collapse f all)"
    using reader_merger_ok [OF mopt(1,2) rs(2) ne, of READER_ITER_TYPE_ITER] by (auto simp: mopt(3) combined_def)
  have "sorted_wrt (\<lambda>a b. fst a \<le> fst b) all" using it(3) by (rule sorted_wrt_mono_rel [rotated]) (simp add: entry_le_key)
  then have "sums f M (collapse f all)" using sums_concat [OF opt(2) rs(3) it(2)] M by simp
  moreover have "mtbl_sorter_iter L crc qsort picks s =
      Some (Some (mtbl_iter_init sorter_iter_seek sorter_iter_next m_iter), s2\<lparr>s_iterating := True\<rparr>)"
    unfolding mtbl_sorter_iter_def fl(1)
    by (simp add: q co(1) opt(1) mtbl_merger_init_def rs(1) sorter_add_sources_all add_sources_all it(1))
  moreover have "sorter_kid crc L (Some (mtbl_iter_init sorter_iter_seek sorter_iter_next m_iter)) (collapse f all)"
    using it(4) by simp
  ultimately show ?thesis by fastforce
qed

subsection \<open>Sessions\<close>

text \<open>A client that adds, then takes the sorted entries from the iterator.\<close>

definition sort_entries ::
  "'z complib \<Rightarrow> (bytes \<Rightarrow> u32) \<Rightarrow> sort_fun \<Rightarrow> mtbl_sorter_options \<Rightarrow> fdesc list \<Rightarrow> sorter_event list \<Rightarrow> nat list \<Rightarrow> nat \<Rightarrow>
   (bool list \<times> entry list option) option" where
  "sort_entries L crc qsort opt tmp evs picks fuel = do {
     (rs, s) \<leftarrow> sorter_run L crc qsort (mtbl_sorter_init (Some opt) tmp) evs;
     (it, s) \<leftarrow> mtbl_sorter_iter L crc qsort picks s;
     case it of
       None \<Rightarrow> Some (rs, None)
     | Some _ \<Rightarrow> do {
         (es, _) \<leftarrow> drain mtbl_iter_next fuel it;
         Some (rs, Some es)
       }
   }"

text \<open>A client that adds, then has the sorter write a table.\<close>

definition sort_file ::
  "'z complib \<Rightarrow> (bytes \<Rightarrow> u32) \<Rightarrow> sort_fun \<Rightarrow> mtbl_sorter_options \<Rightarrow> fdesc list \<Rightarrow> sorter_event list \<Rightarrow> nat list \<Rightarrow>
   mtbl_writer_options \<Rightarrow> fdesc \<Rightarrow> (bool list \<times> bool \<times> bytes) option" where
  "sort_file L crc qsort opt tmp evs picks wopt fd = do {
     (rs, s) \<leftarrow> sorter_run L crc qsort (mtbl_sorter_init (Some opt) tmp) evs;
     w \<leftarrow> mtbl_writer_init_fd fd (Some wopt);
     (res, w, s) \<leftarrow> mtbl_sorter_write L crc qsort picks s w;
     fd \<leftarrow> mtbl_writer_destroy L crc w;
     Some (rs, res, f_bytes fd)
   }"

lemma sorter_session:
  assumes ok: "sorter_ok L qsort opt f (mset (sort_added evs))"
    and tmp: "\<forall>fd\<in>set tmp. temp_ok fd" "length (sort_added evs) \<le> length tmp"
    and keys: "\<forall>e\<in>set (sort_added evs). fst e \<noteq> []"
  shows "\<exists>s it s' out. sorter_run L crc qsort (mtbl_sorter_init (Some opt) tmp) evs =
      Some (replicate (length (sort_added evs)) True, s) \<and> \<not> s_iterating s \<and>
    mtbl_sorter_iter L crc qsort picks s = Some (Some it, s') \<and>
    sorter_kid crc L (Some it) out \<and> sums f (mset (sort_added evs)) out"
proof -
  obtain s ess qs cur where s: "sorter_run L crc qsort (mtbl_sorter_init (Some opt) tmp) evs =
        Some (replicate (length (sort_added evs)) True, s)"
      "sorter_inv crc L f opt 0 s ess qs cur" "held ess qs cur = mset (sort_added evs)"
    using sorter_run_ok [OF ok sorter_init_inv [OF tmp], where crc = crc] by (auto simp: held_def)
  moreover have "\<not> s_iterating s" using s(2) by (simp add: sorter_inv_def)
  ultimately show ?thesis using sorter_iter_ok [OF ok s(2,3), of picks] keys by auto
qed

lemma sort_entries_ok:
  assumes ok: "sorter_ok L qsort opt f (mset (sort_added evs))"
    and tmp: "\<forall>fd\<in>set tmp. temp_ok fd" "length (sort_added evs) \<le> length tmp"
    and keys: "\<forall>e\<in>set (sort_added evs). fst e \<noteq> []"
  shows "\<exists>out. sort_entries L crc qsort opt tmp evs picks (length (sort_added evs) + 1) =
      Some (replicate (length (sort_added evs)) True, Some out) \<and> sums f (mset (sort_added evs)) out"
proof -
  obtain s it s' out where s: "sorter_run L crc qsort (mtbl_sorter_init (Some opt) tmp) evs =
        Some (replicate (length (sort_added evs)) True, s)"
      "mtbl_sorter_iter L crc qsort picks s = Some (Some it, s')"
      "sorter_kid crc L (Some it) out" "sums f (mset (sort_added evs)) out"
    using sorter_session [OF ok tmp keys, of crc picks] by blast
  have len: "length out < length (sort_added evs) + 1" using sums_length [OF s(4)] by simp
  obtain it' where "drain mtbl_iter_next (length (sort_added evs) + 1) (Some it) = Some (out, it')"
    using sorted_iter.drain_all [OF s(3) len] by blast
  then show ?thesis using s(1,2,4) by (simp add: sort_entries_def del: drain.simps)
qed

text \<open>Any output is, when the options are within the bounds of the sorter's own chunks.\<close>

lemma sums_run_fits:
  assumes "sorter_ok L qsort opt f (mset es)" and "opt_fits wopt" "compressor_ok L wopt" "f_ok fd"
  shows "\<forall>out. sums f (mset es) out \<longrightarrow> run_fits L wopt fd out"
proof (intro allI impI)
  fix out assume s: "sums f (mset es) out"
  have "length out < 2 ^ 30" using sums_length [OF s] assms(1) by (simp add: sorter_ok_def)
  then show "run_fits L wopt fd out"
    using assms sums_fit [OF assms(1) s] by (intro run_fitsI) simp_all
qed

lemma sort_file_ok:
  assumes ok: "sorter_ok L qsort opt f (mset (sort_added evs))"
    and tmp: "\<forall>fd\<in>set tmp. temp_ok fd" "length (sort_added evs) \<le> length tmp"
    and keys: "\<forall>e\<in>set (sort_added evs). fst e \<noteq> []"
    and wopt: "\<forall>out. sums f (mset (sort_added evs)) out \<longrightarrow> run_fits L wopt fd out"
  shows "\<exists>out data. sort_file L crc qsort opt tmp evs picks wopt fd =
      Some (replicate (length (sort_added evs)) True, True, data) \<and> sums f (mset (sort_added evs)) out \<and>
    (length data < 2 ^ 63 \<longrightarrow> read_file L crc ropt data ty key0 key1 (length out + 1) =
       Some (Some (filter (\<lambda>e. wanted ty key0 key1 (fst e)) out)))"
proof -
  obtain s it s' out where s: "sorter_run L crc qsort (mtbl_sorter_init (Some opt) tmp) evs =
        Some (replicate (length (sort_added evs)) True, s)" "\<not> s_iterating s"
      "mtbl_sorter_iter L crc qsort picks s = Some (Some it, s')"
      "sorter_kid crc L (Some it) out" "sums f (mset (sort_added evs)) out"
    using sorter_session [OF ok tmp keys, of crc picks] by blast
  have fits: "run_fits L wopt fd out" using wopt s(5) by blast
  have strict: "strict_keys out" using s(5) by (simp add: sums_def)
  obtain w w' fd' where w: "mtbl_writer_init_fd fd (Some wopt) = Some w"
      "writer_run L crc w (adds out) = Some (replicate (length out) True, w')"
      "mtbl_writer_destroy L crc w' = Some fd'"
      "length (f_bytes fd') < 2 ^ 63 \<longrightarrow> read_file L crc ropt (f_bytes fd') ty key0 key1 (length out + 1) =
         Some (Some (filter (\<lambda>e. wanted ty key0 key1 (fst e)) out))"
    using written_back [OF strict fits, of crc ropt ty key0 key1] by blast
  have "write_loop (mtbl_writer_add L crc) mtbl_iter_next (Some it) w True = Some (True, w')"
    by (rule sorted_iter.write_loop_run [OF s(4) w(2)])
  then have "sort_file L crc qsort opt tmp evs picks wopt fd =
      Some (replicate (length (sort_added evs)) True, True, f_bytes fd')"
    using s(1,2,3) w(1,3) by (simp add: sort_file_def mtbl_sorter_write_def)
  then show ?thesis using s(5) w(4) by blast
qed

subsection \<open>An instance\<close>

text \<open>A merge function that keeps the greater value.\<close>

definition keep_greater :: "bytes \<Rightarrow> bytes \<Rightarrow> bytes \<Rightarrow> bytes option" where
  "keep_greater k a b = Some (if a \<le> b then b else a)"

lemma combines_greatest: "combines keep_greater k A a \<Longrightarrow> a \<in># A \<and> (\<forall>x\<in>#A. x \<le> a)"
  by (induction rule: combines.induct) (auto simp: keep_greater_def split: if_splits intro: order.trans)

lemma snappy_store: "compressor_ok store_lib chunk_writer_options" "coder_small store_lib chunk_writer_options"
proof -
  have t: "wo_compression_type chunk_writer_options = MTBL_COMPRESSION_SNAPPY"
    by (simp add: chunk_writer_options_def mtbl_writer_options_set_compression_def)
  show "compressor_ok store_lib chunk_writer_options" 
    using compressor_complib [OF store_lib_ok, of chunk_writer_options] by (simp add: compressor_ok_def t compress_limit_def)
  have "n + n div 6 \<le> 1099511627744" if "n \<le> 1073741824" for n :: nat
    using that by arith
  then show "coder_small store_lib chunk_writer_options"
    by (auto simp: coder_small_def payload_def stored_def t mtbl_compress_snappy_def store_lib_def my_malloc_def)
qed

text \<open>With no room in memory every entry becomes a chunk of its own.\<close>

definition tiny_sorter :: mtbl_sorter_options where
  "tiny_sorter = (mtbl_sorter_options_set_merge_func mtbl_sorter_options_init (Some keep_greater))\<lparr>so_max_memory := 0\<rparr>"

lemma tiny_sorter_ok:
  assumes "\<forall>e\<in>#M. entry_fits e" and "size M < 2 ^ 30"
  shows "sorter_ok store_lib insertion_sort tiny_sorter keep_greater M"
proof -
  have "entry_fits (k, a)" if "combines keep_greater k A a" "A \<subseteq># vals k M" for k A a
  proof -
    have "a \<in># vals k M" using combines_greatest [OF that(1)] that(2) by (meson mset_subset_eqD)
    then show ?thesis using assms(1) by (auto simp: vals_def)
  qed
  then show ?thesis
    using assms(2) snappy_store insertion_sort_ok
    by (simp add: sorter_ok_def tiny_sorter_def mtbl_sorter_options_set_merge_func_def mtbl_sorter_options_init_def
        mtbl_sorter_options_set_temp_dir_def keep_greater_def)
qed

lemma empty_temp: "temp_ok empty_fd"
  by (simp add: temp_ok_def empty_fd_def f_ok_def)

lemma mset_two: "mset xs = mset [a, b] \<Longrightarrow> xs = [a, b] \<or> xs = [b, a]"
proof -
  assume h: "mset xs = mset [a, b]"
  then have "length xs = 2" using mset_eq_length by fastforce
  then obtain x y where xs: "xs = [x, y]" by (metis One_nat_def Suc_1 length_0_conv length_Suc_conv)
  then show "xs = [a, b] \<or> xs = [b, a]" using h by (auto simp: add_eq_conv_ex)
qed

subsection \<open>Properties\<close>

text \<open>
  C3: whatever the memory limit, and with or without a thread pool however its workers finish,
  the sorter accepts every entry and its iterator returns, in increasing order of the keys, each
  key that was added exactly once, with a value the merge function made from all the values added
  for the key, each used once.
\<close>

theorem sorter_sorts:
  assumes "sorter_ok L qsort opt f (mset (sort_added evs))"
    and "\<forall>fd\<in>set tmp. temp_ok fd" and "length (sort_added evs) \<le> length tmp"
    and "\<forall>e\<in>set (sort_added evs). fst e \<noteq> []"
  shows "\<exists>out. sort_entries L crc qsort opt tmp evs picks (length (sort_added evs) + 1) =
      Some (replicate (length (sort_added evs)) True, Some out) \<and>
    sorted_wrt (<) (map fst out) \<and> fst ` set out = fst ` set (sort_added evs) \<and>
    (\<forall>e\<in>set out. combines f (fst e) (vals (fst e) (mset (sort_added evs))) (snd e))"
  using sort_entries_ok [OF assms, of crc picks] by (auto simp: sums_def strict_keys_def)

theorem sorter_sorts_witness:
  "\<exists>out. sort_entries store_lib crc32c insertion_sort tiny_sorter [empty_fd, empty_fd, empty_fd]
       [Sort [98] [1], Sort [97] [2], Sort [98] [3]] [] 4 = Some ([True, True, True], Some out) \<and>
     fst ` set out = {[97], [98]} \<and> (\<forall>e\<in>set out. fst e = [98] \<longrightarrow> snd e = [3])"
proof -
  let ?evs = "[Sort [98] [1], Sort [97] [2], Sort [98] [3]]"
  have ok: "sorter_ok store_lib insertion_sort tiny_sorter keep_greater (mset (sort_added ?evs))"
    by (rule tiny_sorter_ok) (auto simp: entry_fits_def)
  have tmp: "\<forall>fd\<in>set [empty_fd, empty_fd, empty_fd]. temp_ok fd" "length (sort_added ?evs) \<le> length [empty_fd, empty_fd, empty_fd]"
    "\<forall>e\<in>set (sort_added ?evs). fst e \<noteq> []" by (simp_all add: empty_temp)
  have len: "length (sort_added ?evs) = 3" "(3 :: nat) + 1 = 4" by simp_all
  obtain out where out: "sort_entries store_lib crc32c insertion_sort tiny_sorter [empty_fd, empty_fd, empty_fd] ?evs [] 4 =
        Some (replicate 3 True, Some out)" "fst ` set out = fst ` set (sort_added ?evs)"
      "\<forall>e\<in>set out. combines keep_greater (fst e) (vals (fst e) (mset (sort_added ?evs))) (snd e)"
    using sorter_sorts [OF ok tmp, of crc32c "[]", unfolded len] by blast
  have "snd e = [3]" if e: "e \<in> set out" "fst e = [98]" for e
  proof -
    have "vals (fst e) (mset (sort_added ?evs)) = {#[1], [3]#}" using e(2) by simp
    then have "combines keep_greater [98] {#[1], [3]#} (snd e)" using out(3) e by metis
    then show ?thesis using combines_greatest by fastforce
  qed
  then show ?thesis using out(1,2) by (auto simp: numeral_3_eq_3)
qed

text \<open>
  C14: \<open>mtbl_sorter_write\<close> succeeds and leaves, through the writer it is given, a table a reader
  answers every query on with the sorted and combined entries. The output must be within the
  bounds of the writer; \<open>sums_run_fits\<close> says when every possible output is.
\<close>

theorem sorter_writes_table:
  assumes "sorter_ok L qsort opt f (mset (sort_added evs))"
    and "\<forall>fd\<in>set tmp. temp_ok fd" and "length (sort_added evs) \<le> length tmp"
    and "\<forall>e\<in>set (sort_added evs). fst e \<noteq> []"
    and "\<forall>out. sums f (mset (sort_added evs)) out \<longrightarrow> run_fits L wopt fd out"
  shows "\<exists>out data. sort_file L crc qsort opt tmp evs picks wopt fd =
      Some (replicate (length (sort_added evs)) True, True, data) \<and> sums f (mset (sort_added evs)) out \<and>
    (length data < 2 ^ 63 \<longrightarrow> read_file L crc ropt data ty key0 key1 (length out + 1) =
       Some (Some (filter (\<lambda>e. wanted ty key0 key1 (fst e)) out)))"
  by (rule sort_file_ok [OF assms])

theorem sorter_writes_table_witness:
  "\<exists>out data. sort_file store_lib crc32c insertion_sort tiny_sorter [empty_fd, empty_fd]
       [Sort [98] [1], Sort [97] [2]] [] plain_options empty_fd = Some ([True, True], True, data) \<and>
     sums keep_greater {#([98], [1]), ([97], [2])#} out \<and>
     (length data < 2 ^ 63 \<longrightarrow> read_file store_lib crc32c None data READER_ITER_TYPE_GET [97] [] (length out + 1) =
        Some (Some (filter (\<lambda>e. fst e = [97]) out)))"
proof -
  let ?evs = "[Sort [98] [1], Sort [97] [2]]"
  have ok: "sorter_ok store_lib insertion_sort tiny_sorter keep_greater (mset (sort_added ?evs))"
    by (rule tiny_sorter_ok) (auto simp: entry_fits_def)
  have tmp: "\<forall>fd\<in>set [empty_fd, empty_fd]. temp_ok fd" "length (sort_added ?evs) \<le> length [empty_fd, empty_fd]"
    "\<forall>e\<in>set (sort_added ?evs). fst e \<noteq> []" by (simp_all add: empty_temp)
  have wopt: "\<forall>out. sums keep_greater (mset (sort_added ?evs)) out \<longrightarrow> run_fits store_lib plain_options empty_fd out"
    by (rule sums_run_fits [OF ok plain_options_ok])
  have want: "(\<lambda>e. wanted READER_ITER_TYPE_GET [97] [] (fst e)) = (\<lambda>e :: entry. fst e = [97])" by auto
  from sorter_writes_table [OF ok tmp wopt, of crc32c "[]" None READER_ITER_TYPE_GET "[97]" "[]", unfolded want]
  show ?thesis by (simp add: numeral_2_eq_2 add_mset_commute)
qed

text \<open>
  C38: two values of a key that the merge function cannot merge, both in memory when the output is
  asked for. Without a thread pool \<open>mtbl_sorter_iter\<close> returns NULL; with one the failed chunk leaves
  a NULL reader among the readers, on which \<open>mtbl_reader_source\<close> aborts the program.
\<close>

theorem sorter_failed_merge_aborts_with_pool:
  assumes "qsort_ok qsort" and "compressor_ok L chunk_writer_options" and "temp_ok fd"
    and "so_tmp_dname opt \<noteq> None" and "so_merge opt = Some f" and "f k v v' = None" and "f k v' v = None"
    and "entry_fits (k, v)" and "entry_fits (k, v')"
    and "32 + 2 * length k + length v + length v' < so_max_memory opt"
  shows "\<exists>s s'. sorter_run L crc qsort (mtbl_sorter_init (Some opt) [fd]) [Sort k v, Sort k v'] = Some ([True, True], s) \<and>
    mtbl_sorter_iter L crc qsort picks s = (if so_pool opt then None else Some (None, s'))"
proof -
  let ?es = "[sent (k, v), sent (k, v')]"
  define s where "s = (mtbl_sorter_init (Some opt) [fd])\<lparr>s_vec := ?es, s_entry_bytes := 16 + 2 * length k + length v + length v'\<rparr>"
  define s0 where "s0 = s\<lparr>s_vec := [], s_entry_bytes := 0\<rparr>"
  have len: "length k < 2 ^ 32" "length v < 2 ^ 32" "length v' < 2 ^ 32" using assms(8,9) by (simp_all add: entry_fits_def)
  have run: "sorter_run L crc qsort (mtbl_sorter_init (Some opt) [fd]) [Sort k v, Sort k v'] = Some ([True, True], s)"
    using assms(10) len by (simp add: mtbl_sorter_add_def mtbl_sorter_init_def sent_def s_def Let_def)
  have "run_fits L chunk_writer_options fd (added [])"
    using assms(2,3) chunk_options(2) by (intro run_fitsI) (simp_all add: temp_ok_def)
  then obtain w fd' where w: "mtbl_writer_init_fd fd (Some chunk_writer_options) = Some w"
      "mtbl_writer_destroy L crc w = Some fd'"
    using chunk_table [of L chunk_writer_options fd "[]" crc None] by auto
  have fits: "entry_key (sent (k, v)) = k" "entry_val (sent (k, v)) = v" "entry_key (sent (k, v')) = k" "entry_val (sent (k, v')) = v'"
    using sent_fields [OF assms(8)] sent_fields [OF assms(9)] by simp_all
  have "mset (qsort mtbl_sorter_compare ?es) = mset ?es"
    using assms(1) sorter_compare_order unfolding qsort_ok_def by blast
  then have "qsort mtbl_sorter_compare ?es \<in> {?es, rev ?es}" using mset_two by fastforce
  then have loop: "chunk_loop (mtbl_writer_add L crc) (Some f) (qsort mtbl_sorter_compare ?es) w None = Some (None, w)"
    using assms(6,7) by (auto simp: mtbl_sorter_compare_def fits)
  have chunk: "mtbl_sorter_write_chunk L crc qsort t ?es = Some (None, t\<lparr>s_tmp := []\<rparr>)"
    if t: "s_opt t = opt" "s_tmp t = [fd]" for t
    using assms(4,5) w loop by (auto simp: mtbl_sorter_write_chunk_def t)
  have s: "s_opt s = opt" "\<not> s_iterating s" "s_vec s = ?es" "s_queue s = []" "s_readers s = []" "s_tmp s = [fd]"
    by (simp_all add: s_def mtbl_sorter_init_def)
  have "mtbl_sorter_iter L crc qsort picks s = (if so_pool opt then None else Some (None, s0\<lparr>s_tmp := [], s_readers := [None]\<rparr>))"
  proof (cases "so_pool opt")
    case True
    have "mtbl_sorter_flush L crc qsort s = Some (True, s0\<lparr>s_queue := [?es]\<rparr>)"
      using True s by (simp add: mtbl_sorter_flush_def mtbl_sorter_get_entry_batch_def s0_def)
    moreover have "sorter_collect L crc qsort 0 (s0\<lparr>s_queue := [?es]\<rparr>) = Some (s0\<lparr>s_queue := [], s_tmp := [], s_readers := [None]\<rparr>)"
      using chunk [of "s0\<lparr>s_queue := []\<rparr>"] s by (simp add: sorter_collect_def s0_def)
    ultimately show ?thesis using True s assms(5)
      by (cases picks) (simp_all add: mtbl_sorter_iter_def mtbl_merger_init_def s0_def)
  next
    case False
    have "mtbl_sorter_flush L crc qsort s = Some (False, s0\<lparr>s_tmp := [], s_readers := [None]\<rparr>)"
      using False s chunk [of s0] by (simp add: mtbl_sorter_flush_def mtbl_sorter_get_entry_batch_def s0_def)
    then show ?thesis using False s by (simp add: mtbl_sorter_iter_def)
  qed
  with run show ?thesis by blast
qed

theorem sorter_failed_merge_aborts_with_pool_witness:
  "\<exists>s. sorter_run store_lib crc32c insertion_sort
       (mtbl_sorter_init (Some (mtbl_sorter_options_set_merge_func (mtbl_sorter_options_set_threadpool mtbl_sorter_options_init True)
          (Some (\<lambda>k a b. None)))) [empty_fd]) [Sort [97] [1], Sort [97] [2]] = Some ([True, True], s) \<and>
     mtbl_sorter_iter store_lib crc32c insertion_sort [] s = None"
proof -
  let ?opt = "mtbl_sorter_options_set_merge_func (mtbl_sorter_options_set_threadpool mtbl_sorter_options_init True)
    (Some (\<lambda>k a b. None))"
  have opt: "so_tmp_dname ?opt \<noteq> None" "so_merge ?opt = Some (\<lambda>k a b. None)" "so_pool ?opt" "so_max_memory ?opt = 1073741824"
    by (simp_all add: mtbl_sorter_options_set_merge_func_def mtbl_sorter_options_set_threadpool_def
        mtbl_sorter_options_init_def mtbl_sorter_options_set_temp_dir_def DEFAULT_SORTER_MEMORY_def)
  have fits: "entry_fits ([97], [1])" "entry_fits ([97], [2])" "32 + 2 * length [97 :: u8] + length [1 :: u8] + length [2 :: u8] < so_max_memory ?opt"
    by (simp_all add: entry_fits_def opt(4))
  from sorter_failed_merge_aborts_with_pool [OF insertion_sort_ok snappy_store(1) empty_temp opt(1,2) refl refl fits, of crc32c "[]"]
  show ?thesis unfolding if_P [OF opt(3)] by blast
qed

end
