(* ===== verification/My_Fileset.thy ===== *)
theory My_Fileset
  imports Vector Libc
begin

text \<open>
  \<open>libmy/my_fileset.c\<close>: the list of files a setfile names, each with a pointer its user's
  \<open>load\<close> function made. \<open>user\<close> is the object \<open>load\<close> and \<open>unload\<close> work on, which they return
  changed; a pointer is \<open>None\<close> where it is NULL. The file system is what a call sees of it:
  the inode and modification time \<open>stat\<close> gives for a path, the bytes of a file that can be
  opened, and whether mapping it fails.
\<close>

subsection \<open>The operations\<close>

record filesys =
  fs_stat :: "bytes \<Rightarrow> (nat \<times> int) option"
  fs_open :: "bytes \<Rightarrow> bytes option"
  fs_map_failed :: "bytes \<Rightarrow> bool"

record 'p fileset_entry =
  fe_keep :: bool
  fe_fname :: bytes
  fe_ptr :: "'p option"

type_synonym ('p, 'u) load_fun = "filesys \<Rightarrow> 'u \<Rightarrow> bytes \<Rightarrow> ('p option \<times> 'u) option"
type_synonym ('p, 'u) unload_fun = "'u \<Rightarrow> bytes \<Rightarrow> 'p option \<Rightarrow> 'u option"
type_synonym 'p entry_sort = "('p fileset_entry \<Rightarrow> 'p fileset_entry \<Rightarrow> int) \<Rightarrow> 'p fileset_entry list \<Rightarrow> 'p fileset_entry list"

record ('p, 'u) my_fileset =
  mf_last_ino :: nat
  mf_last_mtime :: int
  mf_setfile :: bytes
  mf_setdir :: bytes
  mf_load :: "('p, 'u) load_fun option"
  mf_unload :: "('p, 'u) unload_fun option"
  mf_entries :: "'p fileset_entry list"

definition path_exists :: "filesys \<Rightarrow> bytes \<Rightarrow> bool" where
  "path_exists F path = (fs_stat F path \<noteq> None)"

definition setfile_updated :: "filesys \<Rightarrow> ('p, 'u) my_fileset \<Rightarrow> bool \<times> ('p, 'u) my_fileset" where
  "setfile_updated F fs =
     (case fs_stat F (mf_setfile fs) of
        None \<Rightarrow> (False, fs)
      | Some (ino, mtime) \<Rightarrow>
          if mf_last_ino fs \<noteq> ino \<or> mf_last_mtime fs \<noteq> mtime
          then (True, fs\<lparr>mf_last_ino := ino, mf_last_mtime := mtime\<rparr>)
          else (False, fs))"

definition cmp_fileset_entry :: "'p fileset_entry \<Rightarrow> 'p fileset_entry \<Rightarrow> int" where
  "cmp_fileset_entry fs0 fs1 = strcmp (fe_fname fs0) (fe_fname fs1)"

definition fetch_entry :: "'p fileset_entry list \<Rightarrow> bytes \<Rightarrow> nat option" where
  "fetch_entry entries fname =
     (let key = \<lparr>fe_keep = False, fe_fname = fname, fe_ptr = None\<rparr>
      in bsearch (\<lambda>i. cmp_fileset_entry key (entries ! i)) (length entries))"

definition my_fileset_init ::
  "filesys \<Rightarrow> bytes \<Rightarrow> ('p, 'u) load_fun option \<Rightarrow> ('p, 'u) unload_fun option \<Rightarrow> ('p, 'u) my_fileset option" where
  "my_fileset_init F setfile load unload = do {
     ensure (path_exists F setfile);
     Some \<lparr>mf_last_ino = 0, mf_last_mtime = 0, mf_setfile = setfile, mf_setdir = dirname setfile,
       mf_load = load, mf_unload = unload, mf_entries = []\<rparr>
   }"

primrec destroy_entries ::
  "('p, 'u) unload_fun option \<Rightarrow> 'u \<Rightarrow> 'p fileset_entry list \<Rightarrow> 'u option" where
  "destroy_entries unload user [] = Some user"
| "destroy_entries unload user (ent # entries) = do {
     user \<leftarrow> (case unload of None \<Rightarrow> Some user | Some unload \<Rightarrow> unload user (fe_fname ent) (fe_ptr ent));
     destroy_entries unload user entries
   }"

definition my_fileset_destroy :: "('p, 'u) my_fileset \<Rightarrow> 'u \<Rightarrow> 'u option" where
  "my_fileset_destroy fs user = destroy_entries (mf_unload fs) user (mf_entries fs)"

text \<open>The name on a line, built in the buffer \<open>u\<close>.\<close>

definition setfile_name :: "bytes \<Rightarrow> ubuf \<Rightarrow> bytes \<Rightarrow> (bytes \<times> ubuf) option" where
  "setfile_name setdir u line = do {
     let u = vec_clip u 0;
     u \<leftarrow> (if line ! 0 \<noteq> 47 then do {
         u \<leftarrow> ubuf_add_cstr u setdir;
         vec_add u 47
       } else Some u);
     u \<leftarrow> ubuf_add_cstr u (cstring line);
     (fname, u) \<leftarrow> ubuf_cstr (ubuf_rstrip u 10);
     Some (cstring fname, u)
   }"

definition reload_entry ::
  "filesys \<Rightarrow> ('p, 'u) load_fun option \<Rightarrow> bytes \<Rightarrow> 'p fileset_entry list \<times> 'u \<times> 'p fileset_entry list \<Rightarrow>
   ('p fileset_entry list \<times> 'u \<times> 'p fileset_entry list) option" where
  "reload_entry F load fname = (\<lambda>(entries, user, new_entries).
     if path_exists F fname then
       (case fetch_entry entries fname of
          None \<Rightarrow> do {
            (ptr, user) \<leftarrow> (case load of None \<Rightarrow> Some (None, user) | Some load \<Rightarrow> load F user fname);
            Some (entries, user, new_entries @ [\<lparr>fe_keep = False, fe_fname = fname, fe_ptr = ptr\<rparr>])
          }
        | Some i \<Rightarrow>
            Some (entries[i := (entries ! i)\<lparr>fe_keep := True\<rparr>], user,
              new_entries @ [\<lparr>fe_keep = False, fe_fname = fname, fe_ptr = fe_ptr (entries ! i)\<rparr>]))
     else Some (entries, user, new_entries))"

text \<open>The loop over the lines of the setfile.\<close>

function reload_lines ::
  "filesys \<Rightarrow> ('p, 'u) load_fun option \<Rightarrow> bytes \<Rightarrow> bytes \<Rightarrow> ubuf \<Rightarrow>
   'p fileset_entry list \<times> 'u \<times> 'p fileset_entry list \<Rightarrow> ('p fileset_entry list \<times> 'u \<times> 'p fileset_entry list) option" where
  "reload_lines F load setdir data u st =
     (case getline data of
        None \<Rightarrow> Some st
      | Some (line, rest) \<Rightarrow> do {
          (fname, u) \<leftarrow> setfile_name setdir u line;
          st \<leftarrow> reload_entry F load fname st;
          reload_lines F load setdir rest u st
        })"
  by pat_completeness auto

termination
  by (relation "measure (\<lambda>(F, load, setdir, data, u, st). length data)") (auto simp: getline_shorter)

declare reload_lines.simps [simp del]

primrec unload_dropped ::
  "('p, 'u) unload_fun option \<Rightarrow> 'u \<Rightarrow> 'p fileset_entry list \<Rightarrow> 'u option" where
  "unload_dropped unload user [] = Some user"
| "unload_dropped unload user (ent # entries) = do {
     user \<leftarrow> (if \<not> fe_keep ent
       then (case unload of None \<Rightarrow> Some user | Some unload \<Rightarrow> unload user (fe_fname ent) (fe_ptr ent))
       else Some user);
     unload_dropped unload user entries
   }"

definition my_fileset_reload ::
  "'p entry_sort \<Rightarrow> filesys \<Rightarrow> ('p, 'u) my_fileset \<Rightarrow> 'u \<Rightarrow> (('p, 'u) my_fileset \<times> 'u) option" where
  "my_fileset_reload qsort F fs user =
     (let (updated, fs) = setfile_updated F fs
      in if \<not> updated then Some (fs, user)
         else (case fs_open F (mf_setfile fs) of
             None \<Rightarrow> Some (fs, user)
           | Some data \<Rightarrow> do {
               (entries, user, new_entries) \<leftarrow>
                 reload_lines F (mf_load fs) (mf_setdir fs) data (vec_init 64) (mf_entries fs, user, []);
               user \<leftarrow> unload_dropped (mf_unload fs) user entries;
               Some (fs\<lparr>mf_entries := qsort cmp_fileset_entry new_entries\<rparr>, user)
             }))"

definition my_fileset_get :: "('p, 'u) my_fileset \<Rightarrow> nat \<Rightarrow> (bytes \<times> 'p option) option" where
  "my_fileset_get fs i =
     (if i < length (mf_entries fs)
      then Some (fe_fname (mf_entries fs ! i), fe_ptr (mf_entries fs ! i))
      else None)"

subsection \<open>What the setfile lists\<close>

function lines_of :: "bytes \<Rightarrow> bytes list" where
  "lines_of data = (case getline data of None \<Rightarrow> [] | Some (line, rest) \<Rightarrow> line # lines_of rest)"
  by pat_completeness auto

termination
  by (relation "measure length") (auto simp: getline_shorter)

declare lines_of.simps [simp del]

definition line_name :: "bytes \<Rightarrow> bytes \<Rightarrow> bytes" where
  "line_name setdir line =
     (let s = (if line ! 0 \<noteq> 47 then setdir @ [47] else []) @ cstring line
      in if s \<noteq> [] \<and> last s = 10 then butlast s else s)"

definition listed :: "filesys \<Rightarrow> bytes \<Rightarrow> bytes \<Rightarrow> bytes list" where
  "listed F setdir data = filter (path_exists F) (map (line_name setdir) (lines_of data))"

text \<open>
  The files of a set as pairs of a name and what was loaded from it, and what a reload makes of
  them: a name that was there keeps what was loaded, the others are loaded now.
\<close>

definition reload_files ::
  "(filesys \<Rightarrow> bytes \<Rightarrow> 'r option option) \<Rightarrow> filesys \<Rightarrow> bytes \<Rightarrow> bytes \<Rightarrow> nat \<times> int \<Rightarrow> (bytes \<times> 'r option) list \<Rightarrow>
   (bytes \<times> 'r option) list" where
  "reload_files reads F setfile setdir stamp files =
     (case (fs_stat F setfile, fs_open F setfile) of
        (Some s, Some data) \<Rightarrow>
          if s = stamp then files
          else map (\<lambda>n. (n, case map_of files n of Some r \<Rightarrow> r | None \<Rightarrow> the (reads F n))) (sort (listed F setdir data))
      | _ \<Rightarrow> files)"

lemma cstring_no_nul [simp]: "0 \<notin> set (cstring s)"
  by (auto simp: cstring_def dest: set_takeWhileD)

lemma cstring_id: "0 \<notin> set s \<Longrightarrow> cstring (s @ [0]) = s"
  by (simp add: cstring_def takeWhile_append)

lemma vec_last: "vec_size v > 0 \<and> vec_value v (vec_size v - 1) = Some x \<longleftrightarrow> v_elems v \<noteq> [] \<and> last (v_elems v) = x"
  by (cases "v_elems v = []") (auto simp: vec_size_def vec_value_def last_conv_nth)

lemma last_not_in: "x \<notin> set xs \<Longrightarrow> \<not> (xs \<noteq> [] \<and> last xs = x)"
  by auto

lemma ubuf_add_cstr_Some:
  assumes "vec_inv u" and "0 \<notin> set (v_elems u)"
  shows "\<exists>u'. ubuf_add_cstr u s = Some u' \<and> vec_inv u' \<and> v_elems u' = v_elems u @ s"
proof -
  have no: "\<not> (vec_size u > 0 \<and> vec_value u (vec_size u - 1) = Some 0)"
    unfolding vec_last by (rule last_not_in [OF assms(2)])
  show ?thesis unfolding ubuf_add_cstr_def if_not_P [OF no] by (rule vec_append_Some [OF assms(1)])
qed

lemma setfile_name_ok:
  assumes "vec_inv u" and "0 \<notin> set setdir"
  shows "\<exists>u'. setfile_name setdir u line = Some (line_name setdir line, u') \<and> vec_inv u'"
proof -
  let ?dir = "if line ! 0 \<noteq> 47 then setdir @ [47] else []"
  let ?s = "?dir @ cstring line"
  let ?t = "if ?s \<noteq> [] \<and> last ?s = 10 then butlast ?s else ?s"
  have clip: "vec_inv (vec_clip u 0)" "v_elems (vec_clip u 0) = []" using assms(1) by simp_all
  obtain u0 where u0: "ubuf_add_cstr (vec_clip u 0) setdir = Some u0" "vec_inv u0" "v_elems u0 = setdir"
    using ubuf_add_cstr_Some [OF clip(1), of setdir] clip(2) by auto
  obtain u1 where u1: "(if line ! 0 \<noteq> 47 then do { u \<leftarrow> ubuf_add_cstr (vec_clip u 0) setdir; vec_add u 47 }
      else Some (vec_clip u 0)) = Some u1" "vec_inv u1" "v_elems u1 = ?dir"
    using vec_add_Some [OF u0(2), of 47] u0(1,3) clip by (cases "line ! 0 = 47") auto
  have "0 \<notin> set (v_elems u1)" using u1(3) assms(2) by auto
  from ubuf_add_cstr_Some [OF u1(2) this, of "cstring line"]
  obtain u2 where u2: "ubuf_add_cstr u1 (cstring line) = Some u2" "vec_inv u2" "v_elems u2 = ?s"
    using u1(3) by auto
  have u3: "vec_inv (ubuf_rstrip u2 10)" "v_elems (ubuf_rstrip u2 10) = ?t"
    using u2(2,3) unfolding ubuf_rstrip_def vec_last by (auto simp: vec_size_def butlast_conv_take)
  have nul: "0 \<notin> set ?t" using assms(2) by (auto dest: in_set_butlastD)
  then have "\<not> (vec_size (ubuf_rstrip u2 10) > 0 \<and> vec_value (ubuf_rstrip u2 10) (vec_size (ubuf_rstrip u2 10) - 1) = Some 0)"
    unfolding vec_last u3(2) by (rule last_not_in)
  then have "ubuf_cterm (ubuf_rstrip u2 10) = vec_append (ubuf_rstrip u2 10) [0]"
    by (auto simp: ubuf_cterm_def vec_value_def vec_size_def)
  then obtain u4 where "ubuf_cstr (ubuf_rstrip u2 10) = Some (?t @ [0], u4)" "vec_inv u4"
    using vec_append_Some [OF u3(1), of "[0]"] u3(2) by (auto simp: ubuf_cstr_def vec_data_def)
  note u4 = this
  have t: "?t = line_name setdir line" unfolding line_name_def Let_def by (rule refl)
  have "setfile_name setdir u line = Some (cstring (?t @ [0]), u4)"
    unfolding setfile_name_def Let_def u1(1) bind.bind_lunit u2(1) u4(1) by simp
  then have "setfile_name setdir u line = Some (?t, u4)" unfolding cstring_id [OF nul] .
  then show ?thesis unfolding t using u4(2) by blast
qed

end
