(* ===== verification/Fileset.thy ===== *)
theory Fileset
  imports Reader_Source My_Fileset
begin

text \<open>
  \<open>mtbl/fileset.c\<close>: the merged view of the files a setfile lists. A reader is a reference to one
  of \<open>fu_readers\<close>, \<open>None\<close> there when it has been destroyed, so that using it then is the failure
  it is in C; a merger's sources are the references of their readers. \<open>f_merger_no\<close> tells the
  mergers a fileset has had apart, and an iterator remembers which one it was opened on. The
  clock and the file system are arguments of the calls that look at them.
\<close>

subsection \<open>Times\<close>

datatype timespec = Timespec (tv_sec: int) (tv_nsec: int)

definition my_timespec_cmp :: "timespec \<Rightarrow> timespec \<Rightarrow> int" where
  "my_timespec_cmp a b =
     (if tv_sec a < tv_sec b then - 1
      else if tv_sec a > tv_sec b then 1
      else if tv_nsec a < tv_nsec b then - 1
      else if tv_nsec a > tv_nsec b then 1
      else 0)"

instantiation timespec :: linorder
begin

definition less_eq_timespec :: "timespec \<Rightarrow> timespec \<Rightarrow> bool" where
  "less_eq_timespec a b = (my_timespec_cmp a b \<le> 0)"

definition less_timespec :: "timespec \<Rightarrow> timespec \<Rightarrow> bool" where
  "less_timespec a b = (my_timespec_cmp a b < 0)"

instance
  by intro_classes
    (auto simp: less_eq_timespec_def less_timespec_def my_timespec_cmp_def timespec.expand split: if_splits)

end

subsection \<open>References\<close>

definition cell :: "'a option list \<Rightarrow> nat \<Rightarrow> 'a option" where
  "cell xs i = (if i < length xs then xs ! i else None)"

subsection \<open>Options\<close>

definition DEFAULT_FILESET_RELOAD_INTERVAL :: u32 where "DEFAULT_FILESET_RELOAD_INTERVAL = 60"
definition MTBL_FILESET_RELOAD_INTERVAL_NEVER :: u32 where "MTBL_FILESET_RELOAD_INTERVAL_NEVER = 4294967295"

record mtbl_fileset_options =
  fo_reload_interval :: u32
  fo_merge :: "(bytes \<Rightarrow> bytes \<Rightarrow> bytes \<Rightarrow> bytes option) option"
  fo_dupsort :: "(bytes \<Rightarrow> bytes \<Rightarrow> bytes \<Rightarrow> int) option"
  fo_fname_filter :: "(bytes \<Rightarrow> bool) option"
  fo_reader_filter :: "(mtbl_reader \<Rightarrow> bool) option"

definition mtbl_fileset_options_init :: mtbl_fileset_options where
  "mtbl_fileset_options_init =
     \<lparr>fo_reload_interval = DEFAULT_FILESET_RELOAD_INTERVAL, fo_merge = None, fo_dupsort = None,
       fo_fname_filter = None, fo_reader_filter = None\<rparr>"

definition mtbl_fileset_options_set_merge_func ::
  "mtbl_fileset_options \<Rightarrow> (bytes \<Rightarrow> bytes \<Rightarrow> bytes \<Rightarrow> bytes option) option \<Rightarrow> mtbl_fileset_options" where
  "mtbl_fileset_options_set_merge_func opt merge = opt\<lparr>fo_merge := merge\<rparr>"

definition mtbl_fileset_options_set_dupsort_func ::
  "mtbl_fileset_options \<Rightarrow> (bytes \<Rightarrow> bytes \<Rightarrow> bytes \<Rightarrow> int) option \<Rightarrow> mtbl_fileset_options" where
  "mtbl_fileset_options_set_dupsort_func opt dupsort = opt\<lparr>fo_dupsort := dupsort\<rparr>"

definition mtbl_fileset_options_set_filename_filter_func ::
  "mtbl_fileset_options \<Rightarrow> (bytes \<Rightarrow> bool) option \<Rightarrow> mtbl_fileset_options" where
  "mtbl_fileset_options_set_filename_filter_func opt fname_filter = opt\<lparr>fo_fname_filter := fname_filter\<rparr>"

definition mtbl_fileset_options_set_reader_filter_func ::
  "mtbl_fileset_options \<Rightarrow> (mtbl_reader \<Rightarrow> bool) option \<Rightarrow> mtbl_fileset_options" where
  "mtbl_fileset_options_set_reader_filter_func opt reader_filter = opt\<lparr>fo_reader_filter := reader_filter\<rparr>"

definition mtbl_fileset_options_set_reload_interval :: "mtbl_fileset_options \<Rightarrow> u32 \<Rightarrow> mtbl_fileset_options" where
  "mtbl_fileset_options_set_reload_interval opt reload_interval = opt\<lparr>fo_reload_interval := reload_interval\<rparr>"

subsection \<open>State\<close>

text \<open>The counters of the shared part, and the readers.\<close>

record fs_user =
  fu_n_loaded :: nat
  fu_n_unloaded :: nat
  fu_readers :: "mtbl_reader option list"

record shared_fileset =
  sf_user :: fs_user
  sf_n_fs :: nat
  sf_n_iters :: nat
  sf_reload_needed :: bool
  sf_fs_last :: timespec
  sf_my_fs :: "(nat, fs_user) my_fileset"

record mtbl_fileset =
  f_reload_interval :: u32
  f_fs_last :: timespec
  f_merger :: "nat list"
  f_merger_no :: nat
  f_mopt :: mtbl_merger_options
  f_fname_filter :: "(bytes \<Rightarrow> bool) option"
  f_reader_filter :: "(mtbl_reader \<Rightarrow> bool) option"

record fileset_iter =
  fi_fs :: nat
  fi_merger_no :: nat
  fi_readers :: "nat list"
  fi_iter :: "reader_clos merger_iter_state mtbl_iter option"

subsection \<open>Loading\<close>

definition fs_load :: "(bytes \<Rightarrow> u32) \<Rightarrow> (nat, fs_user) load_fun" where
  "fs_load crc F user fname = do {
     let user = user\<lparr>fu_n_loaded := fu_n_loaded user + 1\<rparr>;
     r \<leftarrow> mtbl_reader_init crc (fs_map_failed F fname) (fs_open F fname) None;
     case r of
       None \<Rightarrow> Some (None, user)
     | Some r \<Rightarrow> Some (Some (length (fu_readers user)), user\<lparr>fu_readers := fu_readers user @ [Some r]\<rparr>)
   }"

definition fs_unload :: "(nat, fs_user) unload_fun" where
  "fs_unload user fname ptr = do {
     let user = user\<lparr>fu_n_unloaded := fu_n_unloaded user + 1\<rparr>;
     case ptr of
       None \<Rightarrow> Some user
     | Some r \<Rightarrow> do {
         ensure (cell (fu_readers user) r \<noteq> None);
         Some (user\<lparr>fu_readers := (fu_readers user)[r := None]\<rparr>)
       }
   }"

definition mtbl_fileset_set_options :: "mtbl_fileset_options \<Rightarrow> mtbl_fileset" where
  "mtbl_fileset_set_options opt =
     \<lparr>f_reload_interval = fo_reload_interval opt, f_fs_last = Timespec 0 0, f_merger = [], f_merger_no = 0,
       f_mopt = mtbl_merger_options_set_dupsort_func
         (mtbl_merger_options_set_merge_func mtbl_merger_options_init (fo_merge opt)) (fo_dupsort opt),
       f_fname_filter = fo_fname_filter opt, f_reader_filter = fo_reader_filter opt\<rparr>"

definition mtbl_fileset_init ::
  "(bytes \<Rightarrow> u32) \<Rightarrow> filesys \<Rightarrow> bytes \<Rightarrow> mtbl_fileset_options option \<Rightarrow> (shared_fileset \<times> mtbl_fileset) option" where
  "mtbl_fileset_init crc F fname opt = do {
     my_fs \<leftarrow> my_fileset_init F fname (Some (fs_load crc)) (Some fs_unload);
     opt \<leftarrow> opt;
     Some (\<lparr>sf_user = \<lparr>fu_n_loaded = 0, fu_n_unloaded = 0, fu_readers = []\<rparr>, sf_n_fs = 1, sf_n_iters = 0,
         sf_reload_needed = True, sf_fs_last = Timespec 0 0, sf_my_fs = my_fs\<rparr>,
       mtbl_fileset_set_options opt)
   }"

definition mtbl_fileset_dup ::
  "shared_fileset \<Rightarrow> mtbl_fileset_options option \<Rightarrow> (shared_fileset \<times> mtbl_fileset) option" where
  "mtbl_fileset_dup sh opt = do {
     opt \<leftarrow> opt;
     Some (sh\<lparr>sf_n_fs := sf_n_fs sh + 1\<rparr>, mtbl_fileset_set_options opt)
   }"

text \<open>What is left of the shared part: nothing when the last fileset goes.\<close>

definition mtbl_fileset_destroy :: "shared_fileset \<Rightarrow> shared_fileset option option" where
  "mtbl_fileset_destroy sh =
     (let n_fs = sf_n_fs sh - 1
      in if n_fs \<le> 0 then do {
           _ \<leftarrow> my_fileset_destroy (sf_my_fs sh) (sf_user sh);
           Some None
         } else Some (Some (sh\<lparr>sf_n_fs := n_fs\<rparr>)))"

text \<open>The condition of \<open>fs_reinit_merger\<close>; \<open>||\<close> and \<open>&&\<close> do not look at a reader they need not.\<close>

definition fs_wanted :: "mtbl_fileset \<Rightarrow> fs_user \<Rightarrow> bytes \<Rightarrow> nat \<Rightarrow> bool option" where
  "fs_wanted f user fname reader =
     (if (case f_fname_filter f of None \<Rightarrow> True | Some p \<Rightarrow> p fname) then
        (case f_reader_filter f of
           None \<Rightarrow> Some True
         | Some p \<Rightarrow> do {
             r \<leftarrow> cell (fu_readers user) reader;
             Some (p r)
           })
      else Some False)"

function reinit_loop :: "shared_fileset \<Rightarrow> mtbl_fileset \<Rightarrow> nat \<Rightarrow> nat list \<Rightarrow> nat list option" where
  "reinit_loop sh f i merger =
     (case my_fileset_get (sf_my_fs sh) i of
        None \<Rightarrow> Some merger
      | Some (fname, None) \<Rightarrow> reinit_loop sh f (i + 1) merger
      | Some (fname, Some reader) \<Rightarrow> do {
          wanted \<leftarrow> fs_wanted f (sf_user sh) fname reader;
          merger \<leftarrow> (if wanted then do {
              _ \<leftarrow> cell (fu_readers (sf_user sh)) reader;
              Some (merger @ [reader])
            } else Some merger);
          reinit_loop sh f (i + 1) merger
        })"
  by pat_completeness auto

termination
  by (relation "measure (\<lambda>(sh, f, i, merger). length (mf_entries (sf_my_fs sh)) - i)")
    (auto simp: my_fileset_get_def split: if_splits)

declare reinit_loop.simps [simp del]

definition fs_reinit_merger :: "shared_fileset \<Rightarrow> mtbl_fileset \<Rightarrow> mtbl_fileset option" where
  "fs_reinit_merger sh f = do {
     merger \<leftarrow> reinit_loop sh f 0 [];
     Some (f\<lparr>f_merger := merger, f_merger_no := f_merger_no f + 1\<rparr>)
   }"

text \<open>The statements \<open>mtbl_fileset_reload\<close> and \<open>mtbl_fileset_reload_now\<close> end with.\<close>

definition fileset_load ::
  "nat entry_sort \<Rightarrow> filesys \<Rightarrow> timespec \<Rightarrow> shared_fileset \<Rightarrow> mtbl_fileset \<Rightarrow> (shared_fileset \<times> mtbl_fileset) option" where
  "fileset_load qsort F now sh f = do {
     (my_fs, user) \<leftarrow> my_fileset_reload qsort F (sf_my_fs sh) ((sf_user sh)\<lparr>fu_n_loaded := 0, fu_n_unloaded := 0\<rparr>);
     let sh = sh\<lparr>sf_my_fs := my_fs, sf_user := user\<rparr>;
     f \<leftarrow> (if fu_n_loaded user > 0 \<or> fu_n_unloaded user > 0 then fs_reinit_merger sh f else Some f);
     Some (sh\<lparr>sf_fs_last := now, sf_reload_needed := False\<rparr>, f\<lparr>f_fs_last := now\<rparr>)
   }"

definition mtbl_fileset_reload ::
  "nat entry_sort \<Rightarrow> filesys \<Rightarrow> timespec \<Rightarrow> shared_fileset \<Rightarrow> mtbl_fileset \<Rightarrow> (shared_fileset \<times> mtbl_fileset) option" where
  "mtbl_fileset_reload qsort F now sh f = do {
     f \<leftarrow> (if tv_sec (f_fs_last f) \<noteq> tv_sec (sf_fs_last sh) \<or> tv_nsec (f_fs_last f) \<noteq> tv_nsec (sf_fs_last sh)
       then do {
         f \<leftarrow> fs_reinit_merger sh f;
         Some (f\<lparr>f_fs_last := sf_fs_last sh\<rparr>)
       } else Some f);
     if \<not> sf_reload_needed sh \<and> f_reload_interval f = MTBL_FILESET_RELOAD_INTERVAL_NEVER then Some (sh, f)
     else if sf_n_iters sh > 0 then Some (sh, f)
     else if sf_reload_needed sh \<or> tv_sec now - tv_sec (sf_fs_last sh) > uint (f_reload_interval f)
     then fileset_load qsort F now sh f
     else Some (sh, f)
   }"

definition mtbl_fileset_reload_now ::
  "nat entry_sort \<Rightarrow> filesys \<Rightarrow> timespec \<Rightarrow> shared_fileset \<Rightarrow> mtbl_fileset \<Rightarrow> (shared_fileset \<times> mtbl_fileset) option" where
  "mtbl_fileset_reload_now qsort F now sh f =
     (if sf_n_iters sh > 0 then Some (sh\<lparr>sf_reload_needed := True\<rparr>, f)
      else fileset_load qsort F now sh f)"

subsection \<open>The source\<close>

text \<open>The merger of a fileset, with its sources.\<close>

definition fileset_merger ::
  "(bytes \<Rightarrow> u32) \<Rightarrow> 'z complib \<Rightarrow> shared_fileset \<Rightarrow> mtbl_fileset \<Rightarrow> (mtbl_reader, reader_clos) mtbl_merger option" where
  "fileset_merger crc L sh f = do {
     rs \<leftarrow> those (map (cell (fu_readers (sf_user sh))) (f_merger f));
     Some \<lparr>m_sources = map (mtbl_reader_source crc L) rs, m_opt = f_mopt f\<rparr>
   }"

text \<open>\<open>i\<close> is the reference of the fileset.\<close>

definition fileset_iter_init ::
  "shared_fileset \<Rightarrow> nat \<Rightarrow> mtbl_fileset \<Rightarrow> reader_clos merger_iter_state mtbl_iter option \<Rightarrow> shared_fileset \<times> fileset_iter" where
  "fileset_iter_init sh i f mit =
     (sh\<lparr>sf_n_iters := sf_n_iters sh + 1\<rparr>,
      \<lparr>fi_fs = i, fi_merger_no = f_merger_no f, fi_readers = f_merger f, fi_iter = mit\<rparr>)"

definition fileset_source_with ::
  "(bytes \<Rightarrow> u32) \<Rightarrow> 'z complib \<Rightarrow> nat entry_sort \<Rightarrow> filesys \<Rightarrow> timespec \<Rightarrow>
   ((mtbl_reader, reader_clos) mtbl_merger \<Rightarrow> reader_clos merger_iter_state mtbl_iter option option) \<Rightarrow>
   shared_fileset \<Rightarrow> nat \<Rightarrow> mtbl_fileset \<Rightarrow> ((shared_fileset \<times> fileset_iter) \<times> mtbl_fileset) option" where
  "fileset_source_with crc L qsort F now open_merger sh i f = do {
     (sh, f) \<leftarrow> mtbl_fileset_reload qsort F now sh f;
     m \<leftarrow> fileset_merger crc L sh f;
     mit \<leftarrow> open_merger m;
     Some (fileset_iter_init sh i f mit, f)
   }"

definition fileset_source_iter where
  "fileset_source_iter crc L qsort F now =
     fileset_source_with crc L qsort F now (\<lambda>m. mtbl_source_iter (mtbl_merger_source m))"

definition fileset_source_get where
  "fileset_source_get crc L qsort F now key =
     fileset_source_with crc L qsort F now (\<lambda>m. mtbl_source_get (mtbl_merger_source m) key)"

definition fileset_source_get_prefix where
  "fileset_source_get_prefix crc L qsort F now key =
     fileset_source_with crc L qsort F now (\<lambda>m. mtbl_source_get_prefix (mtbl_merger_source m) key)"

definition fileset_source_get_range where
  "fileset_source_get_range crc L qsort F now key0 key1 =
     fileset_source_with crc L qsort F now (\<lambda>m. mtbl_source_get_range (mtbl_merger_source m) key0 key1)"

fun fileset_source_open ::
  "(bytes \<Rightarrow> u32) \<Rightarrow> 'z complib \<Rightarrow> nat entry_sort \<Rightarrow> filesys \<Rightarrow> timespec \<Rightarrow> reader_iter_type \<Rightarrow> bytes \<Rightarrow> bytes \<Rightarrow>
   shared_fileset \<Rightarrow> nat \<Rightarrow> mtbl_fileset \<Rightarrow> ((shared_fileset \<times> fileset_iter) \<times> mtbl_fileset) option" where
  "fileset_source_open crc L qsort F now READER_ITER_TYPE_ITER key0 key1 = fileset_source_iter crc L qsort F now"
| "fileset_source_open crc L qsort F now READER_ITER_TYPE_GET key0 key1 = fileset_source_get crc L qsort F now key0"
| "fileset_source_open crc L qsort F now READER_ITER_TYPE_GET_PREFIX key0 key1 = fileset_source_get_prefix crc L qsort F now key0"
| "fileset_source_open crc L qsort F now READER_ITER_TYPE_GET_RANGE key0 key1 = fileset_source_get_range crc L qsort F now key0 key1"

text \<open>An iterator reads its merger and the readers of it, which must not have been destroyed.\<close>

definition iter_usable :: "shared_fileset \<Rightarrow> mtbl_fileset \<Rightarrow> fileset_iter \<Rightarrow> bool" where
  "iter_usable sh f it \<longleftrightarrow> fi_merger_no it = f_merger_no f \<and>
     list_all (\<lambda>r. cell (fu_readers (sf_user sh)) r \<noteq> None) (fi_readers it)"

definition fileset_iter_seek ::
  "shared_fileset \<Rightarrow> mtbl_fileset \<Rightarrow> fileset_iter \<Rightarrow> bytes \<Rightarrow> (bool \<times> fileset_iter) option" where
  "fileset_iter_seek sh f it key = do {
     ensure (iter_usable sh f it);
     (res, iter) \<leftarrow> mtbl_iter_seek (fi_iter it) key;
     Some (res, it\<lparr>fi_iter := iter\<rparr>)
   }"

definition fileset_iter_next ::
  "shared_fileset \<Rightarrow> mtbl_fileset \<Rightarrow> fileset_iter \<Rightarrow> (entry option \<times> fileset_iter) option" where
  "fileset_iter_next sh f it = do {
     ensure (iter_usable sh f it);
     (e, iter) \<leftarrow> mtbl_iter_next (fi_iter it);
     Some (e, it\<lparr>fi_iter := iter\<rparr>)
   }"

definition fileset_iter_free ::
  "nat entry_sort \<Rightarrow> filesys \<Rightarrow> timespec \<Rightarrow> shared_fileset \<Rightarrow> mtbl_fileset \<Rightarrow> (shared_fileset \<times> mtbl_fileset) option" where
  "fileset_iter_free qsort F now sh f =
     mtbl_fileset_reload qsort F now (sh\<lparr>sf_n_iters := sf_n_iters sh - 1\<rparr>) f"

subsection \<open>Partitions\<close>

function partition_loop ::
  "(bytes \<Rightarrow> bool) \<Rightarrow> shared_fileset \<Rightarrow> nat \<Rightarrow> nat list \<Rightarrow> nat list \<Rightarrow> (nat list \<times> nat list) option" where
  "partition_loop cb sh i m1 m2 =
     (case my_fileset_get (sf_my_fs sh) i of
        None \<Rightarrow> Some (m1, m2)
      | Some (fname, reader) \<Rightarrow> do {
          r \<leftarrow> reader;
          _ \<leftarrow> cell (fu_readers (sf_user sh)) r;
          if cb fname then partition_loop cb sh (i + 1) (m1 @ [r]) m2
          else partition_loop cb sh (i + 1) m1 (m2 @ [r])
        })"
  by pat_completeness auto

termination
  by (relation "measure (\<lambda>(cb, sh, i, m1, m2). length (mf_entries (sf_my_fs sh)) - i)")
    (auto simp: my_fileset_get_def split: if_splits)

declare partition_loop.simps [simp del]

definition mtbl_fileset_partition ::
  "nat entry_sort \<Rightarrow> filesys \<Rightarrow> timespec \<Rightarrow> (bytes \<Rightarrow> bool) \<Rightarrow> shared_fileset \<Rightarrow> mtbl_fileset \<Rightarrow>
   ((nat list \<times> nat list) \<times> shared_fileset \<times> mtbl_fileset) option" where
  "mtbl_fileset_partition qsort F now cb sh f = do {
     (sh, f) \<leftarrow> mtbl_fileset_reload qsort F now sh f;
     ms \<leftarrow> partition_loop cb sh 0 [] [];
     Some (ms, sh, f)
   }"

subsection \<open>Filesets in use\<close>

text \<open>
  A shared part, the filesets made from it by \<open>mtbl_fileset_init\<close> and \<open>mtbl_fileset_dup\<close>, and the
  iterators opened on them; the calls a program makes, each at a time and on a file system.
\<close>

record fileset_sys =
  sy_shared :: "shared_fileset option"
  sy_sets :: "mtbl_fileset option list"
  sy_iters :: "fileset_iter option list"

datatype fileset_op =
    Fs_reload nat
  | Fs_reload_now nat
  | Fs_dup nat mtbl_fileset_options
  | Fs_destroy nat
  | Fs_open nat reader_iter_type bytes bytes
  | Fs_next nat
  | Fs_free nat

type_synonym fileset_call = "filesys \<times> timespec \<times> fileset_op"

definition fileset_start :: "(bytes \<Rightarrow> u32) \<Rightarrow> filesys \<Rightarrow> bytes \<Rightarrow> mtbl_fileset_options \<Rightarrow> fileset_sys option" where
  "fileset_start crc F fname opt = do {
     (sh, f) \<leftarrow> mtbl_fileset_init crc F fname (Some opt);
     Some \<lparr>sy_shared = Some sh, sy_sets = [Some f], sy_iters = []\<rparr>
   }"

definition put_set :: "fileset_sys \<Rightarrow> nat \<Rightarrow> shared_fileset \<times> mtbl_fileset \<Rightarrow> fileset_sys" where
  "put_set sy i = (\<lambda>(sh, f). sy\<lparr>sy_shared := Some sh, sy_sets := (sy_sets sy)[i := Some f]\<rparr>)"

text \<open>With the new state, the entry \<open>mtbl_iter_next\<close> returned.\<close>

fun fileset_step ::
  "(bytes \<Rightarrow> u32) \<Rightarrow> 'z complib \<Rightarrow> nat entry_sort \<Rightarrow> fileset_sys \<Rightarrow> fileset_call \<Rightarrow> (entry option \<times> fileset_sys) option" where
  "fileset_step crc L qsort sy (F, now, Fs_reload i) = do {
     sh \<leftarrow> sy_shared sy; f \<leftarrow> cell (sy_sets sy) i;
     shf \<leftarrow> mtbl_fileset_reload qsort F now sh f;
     Some (None, put_set sy i shf)
   }"
| "fileset_step crc L qsort sy (F, now, Fs_reload_now i) = do {
     sh \<leftarrow> sy_shared sy; f \<leftarrow> cell (sy_sets sy) i;
     shf \<leftarrow> mtbl_fileset_reload_now qsort F now sh f;
     Some (None, put_set sy i shf)
   }"
| "fileset_step crc L qsort sy (F, now, Fs_dup i opt) = do {
     sh \<leftarrow> sy_shared sy; _ \<leftarrow> cell (sy_sets sy) i;
     (sh, f) \<leftarrow> mtbl_fileset_dup sh (Some opt);
     Some (None, sy\<lparr>sy_shared := Some sh, sy_sets := sy_sets sy @ [Some f]\<rparr>)
   }"
| "fileset_step crc L qsort sy (F, now, Fs_destroy i) = do {
     sh \<leftarrow> sy_shared sy; _ \<leftarrow> cell (sy_sets sy) i;
     sh \<leftarrow> mtbl_fileset_destroy sh;
     Some (None, sy\<lparr>sy_shared := sh, sy_sets := (sy_sets sy)[i := None]\<rparr>)
   }"
| "fileset_step crc L qsort sy (F, now, Fs_open i ty key0 key1) = do {
     sh \<leftarrow> sy_shared sy; f \<leftarrow> cell (sy_sets sy) i;
     ((sh, it), f) \<leftarrow> fileset_source_open crc L qsort F now ty key0 key1 sh i f;
     Some (None, (put_set sy i (sh, f))\<lparr>sy_iters := sy_iters sy @ [Some it]\<rparr>)
   }"
| "fileset_step crc L qsort sy (F, now, Fs_next k) = do {
     sh \<leftarrow> sy_shared sy; it \<leftarrow> cell (sy_iters sy) k; f \<leftarrow> cell (sy_sets sy) (fi_fs it);
     (e, it) \<leftarrow> fileset_iter_next sh f it;
     Some (e, sy\<lparr>sy_iters := (sy_iters sy)[k := Some it]\<rparr>)
   }"
| "fileset_step crc L qsort sy (F, now, Fs_free k) = do {
     sh \<leftarrow> sy_shared sy; it \<leftarrow> cell (sy_iters sy) k; f \<leftarrow> cell (sy_sets sy) (fi_fs it);
     shf \<leftarrow> fileset_iter_free qsort F now sh f;
     Some (None, (put_set sy (fi_fs it) shf)\<lparr>sy_iters := (sy_iters sy)[k := None]\<rparr>)
   }"

fun fileset_run ::
  "(bytes \<Rightarrow> u32) \<Rightarrow> 'z complib \<Rightarrow> nat entry_sort \<Rightarrow> fileset_sys \<Rightarrow> fileset_call list \<Rightarrow> (entry option list \<times> fileset_sys) option" where
  "fileset_run crc L qsort sy [] = Some ([], sy)"
| "fileset_run crc L qsort sy (c # cs) = do {
     (e, sy) \<leftarrow> fileset_step crc L qsort sy c;
     (es, sy) \<leftarrow> fileset_run crc L qsort sy cs;
     Some (e # es, sy)
   }"

end
