(* ===== verification/My_Fileset_Facts.thy ===== *)
theory My_Fileset_Facts
  imports My_Fileset
begin

text \<open>
  What a reload of the list of files does. The locale \<open>loader\<close> is the contract between
  \<open>my_fileset.c\<close> and the functions its user gives it: \<open>content\<close> is what a pointer that is still
  loaded points to, \<open>reads\<close> what loading a file gives, \<open>moves\<close> counts the calls. A list of
  entries owns the pointers that are loaded, each once, so that what is unloaded was loaded.
\<close>

subsection \<open>Lists of entries\<close>

abbreviation names :: "'p fileset_entry list \<Rightarrow> bytes list" where
  "names es \<equiv> map fe_fname es"

definition ptrs :: "'p option list \<Rightarrow> 'p list" where
  "ptrs ps = map the (filter (\<lambda>p. p \<noteq> None) ps)"

definition ptr_of :: "'p fileset_entry list \<Rightarrow> bytes \<Rightarrow> 'p option" where
  "ptr_of es n = the (map_of (map (\<lambda>e. (fe_fname e, fe_ptr e)) es) n)"

definition value_at :: "('p \<Rightarrow> 'r option) \<Rightarrow> 'p option \<Rightarrow> 'r option" where
  "value_at c p = (case p of None \<Rightarrow> None | Some q \<Rightarrow> c q)"

definition files_of :: "('p \<Rightarrow> 'r option) \<Rightarrow> 'p fileset_entry list \<Rightarrow> (bytes \<times> 'r option) list" where
  "files_of c es = map (\<lambda>e. (fe_fname e, value_at c (fe_ptr e))) es"

lemma ptrs_append [simp]: "ptrs (xs @ ys) = ptrs xs @ ptrs ys"
  by (simp add: ptrs_def)

lemma ptrs_simps [simp]: "ptrs [] = []" "ptrs (None # ps) = ptrs ps" "ptrs (Some q # ps) = q # ptrs ps"
  by (simp_all add: ptrs_def)

lemma set_ptrs: "q \<in> set (ptrs ps) \<longleftrightarrow> Some q \<in> set ps"
  by (force simp: ptrs_def)

lemma mset_ptrs: "mset ps = mset qs \<Longrightarrow> mset (ptrs ps) = mset (ptrs qs)"
  by (simp add: ptrs_def)

lemma ptr_of: "distinct (names es) \<Longrightarrow> e \<in> set es \<Longrightarrow> ptr_of es (fe_fname e) = fe_ptr e"
  by (induction es) (auto simp: ptr_of_def rev_image_eqI)

lemma mset_partition:
  "mset (map f (filter P xs)) + mset (map f (filter (\<lambda>x. \<not> P x) xs)) = mset (map f xs)"
  by (induction xs) auto

lemma value_at_simps [simp]: "value_at c None = None" "value_at c (Some q) = c q"
  by (simp_all add: value_at_def)

lemma value_at_upd: "p \<noteq> Some q \<Longrightarrow> value_at (c(q := v)) p = value_at c p"
  by (cases p) auto

lemma map_of_files:
  "distinct (names es) \<Longrightarrow> n \<in> set (names es) \<Longrightarrow> map_of (files_of c es) n = Some (value_at c (ptr_of es n))"
  by (induction es) (auto simp: files_of_def ptr_of_def)

lemma map_of_files_None: "n \<notin> set (names es) \<Longrightarrow> map_of (files_of c es) n = None"
  by (induction es) (auto simp: files_of_def)

lemma strict_distinct: "sorted_wrt (<) (xs :: 'a :: linorder list) \<Longrightarrow> distinct xs"
  by (simp add: strict_sorted_iff)

lemma fetch_entry_Some: "fetch_entry es fname = Some i \<Longrightarrow> i < length es \<and> fe_fname (es ! i) = fname"
  unfolding fetch_entry_def Let_def
  by (drule bsearch_found) (simp add: cmp_fileset_entry_def strcmp_eq_compare)

lemma fetch_entry_finds:
  assumes "sorted_wrt (<) (names es)" and "fname \<in> set (names es)"
  shows "fetch_entry es fname \<noteq> None"
proof -
  obtain k where k: "k < length es" "fe_fname (es ! k) = fname" using assms(2) by (auto simp: in_set_conv_nth)
  have "cmp_ordered (\<lambda>i. strcmp fname (fe_fname (es ! i))) (length es)"
    using assms(1) unfolding cmp_ordered_def strcmp_eq_compare sorted_wrt_iff_nth_less
    by (auto, (blast intro: less_trans)+)
  then show ?thesis
    using k bsearch_finds [of _ "length es" k] by (simp add: fetch_entry_def cmp_fileset_entry_def strcmp_eq_compare)
qed

lemma reload_lines_Nil: "getline data = None \<Longrightarrow> reload_lines F load setdir data u st = Some st"
  by (subst reload_lines.simps) simp

primrec reload_all ::
  "filesys \<Rightarrow> ('p, 'u) load_fun option \<Rightarrow> bytes list \<Rightarrow>
   'p fileset_entry list \<times> 'u \<times> 'p fileset_entry list \<Rightarrow> ('p fileset_entry list \<times> 'u \<times> 'p fileset_entry list) option" where
  "reload_all F load [] st = Some st"
| "reload_all F load (n # ns) st = do { st \<leftarrow> reload_entry F load n st; reload_all F load ns st }"

text \<open>The buffer is only a buffer; lines whose file does not exist are passed over.\<close>

lemma reload_entry_absent: "\<not> path_exists F n \<Longrightarrow> reload_entry F load n st = Some st"
  by (simp add: reload_entry_def split: prod.splits)

lemma reload_lines_listed:
  assumes "0 \<notin> set setdir" and "vec_inv u"
  shows "reload_lines F load setdir data u st = reload_all F load (listed F setdir data) st"
  using assms(2)
proof (induction data arbitrary: u st rule: lines_of.induct)
  case (1 data)
  show ?case
  proof (cases "getline data")
    case None
    then have "lines_of data = []" by (subst lines_of.simps) simp
    then show ?thesis using None by (simp add: listed_def reload_lines_Nil)
  next
    case (Some lr)
    obtain line rest where g: "getline data = Some (line, rest)" using Some by (cases lr) auto
    obtain u' where u': "setfile_name setdir u line = Some (line_name setdir line, u')" "vec_inv u'"
      using setfile_name_ok [OF "1.prems" assms(1)] by blast
    have ln: "lines_of data = line # lines_of rest" using g by (subst lines_of.simps) simp
    have "reload_lines F load setdir rest u' = reload_all F load (listed F setdir rest)"
      using "1.IH" [OF g refl u'(2)] by (rule ext)
    then have "reload_lines F load setdir data u st =
        reload_entry F load (line_name setdir line) st \<bind> reload_all F load (listed F setdir rest)"
      using g u' by (subst reload_lines.simps) simp
    then show ?thesis
      by (cases "path_exists F (line_name setdir line)") (simp_all add: listed_def ln reload_entry_absent)
  qed
qed

definition setfile_stamp :: "filesys \<Rightarrow> ('p, 'u) my_fileset \<Rightarrow> nat \<times> int" where
  "setfile_stamp F fs =
     (case fs_stat F (mf_setfile fs) of None \<Rightarrow> (mf_last_ino fs, mf_last_mtime fs) | Some s \<Rightarrow> s)"

subsection \<open>The contract of the loader\<close>

locale loader =
  fixes load :: "('p, 'u) load_fun"
    and unload :: "('p, 'u) unload_fun"
    and content :: "'u \<Rightarrow> 'p \<Rightarrow> 'r option"
    and moves :: "'u \<Rightarrow> nat"
    and reads :: "filesys \<Rightarrow> bytes \<Rightarrow> 'r option option"
  assumes load: "reads F fname = Some r \<Longrightarrow> \<exists>p u'. load F u fname = Some (p, u') \<and> moves u' = moves u + 1 \<and>
      (case r of
         None \<Rightarrow> p = None \<and> content u' = content u
       | Some x \<Rightarrow> \<exists>q. p = Some q \<and> content u q = None \<and> content u' = (content u)(q \<mapsto> x))"
    and unload: "(\<forall>q. p = Some q \<longrightarrow> content u q \<noteq> None) \<Longrightarrow> \<exists>u'. unload u fname p = Some u' \<and>
      moves u' = moves u + 1 \<and> content u' = (case p of None \<Rightarrow> content u | Some q \<Rightarrow> (content u)(q := None))"
begin

text \<open>The pointers loaded are those of the list, each of them once.\<close>

definition owns :: "'u \<Rightarrow> 'p option list \<Rightarrow> bool" where
  "owns u ps \<longleftrightarrow> distinct (ptrs ps) \<and> dom (content u) = set (ptrs ps)"

lemma owns_perm: "owns u ps \<Longrightarrow> mset ps = mset qs \<Longrightarrow> owns u qs"
  unfolding owns_def using mset_ptrs [of ps qs] by (metis mset_eq_imp_distinct_iff mset_eq_setD)

lemma owns_load:
  assumes "owns u ps" and "reads F fname = Some r"
  shows "\<exists>p u'. load F u fname = Some (p, u') \<and> moves u' = moves u + 1 \<and> owns u' (ps @ [p]) \<and>
    value_at (content u') p = r \<and> (\<forall>q\<in>set ps. value_at (content u') q = value_at (content u) q)"
proof -
  obtain p u' where l: "load F u fname = Some (p, u')" "moves u' = moves u + 1"
      "case r of None \<Rightarrow> p = None \<and> content u' = content u
       | Some x \<Rightarrow> \<exists>q. p = Some q \<and> content u q = None \<and> content u' = (content u)(q \<mapsto> x)"
    using load [OF assms(2), of u] by blast
  show ?thesis
  proof (cases r)
    case None
    then show ?thesis using l assms(1) by (auto simp: owns_def)
  next
    case (Some x)
    obtain q where q: "p = Some q" "content u q = None" "content u' = (content u)(q \<mapsto> x)"
      using l(3) unfolding Some by auto
    have "q \<notin> set (ptrs ps)" using q(2) assms(1) by (auto simp: owns_def)
    then have "owns u' (ps @ [p])" using assms(1) q by (auto simp: owns_def)
    moreover have "value_at (content u') p' = value_at (content u) p'" if "p' \<in> set ps" for p'
    proof -
      have "p' \<noteq> Some q" using that \<open>q \<notin> _\<close> by (auto simp: set_ptrs)
      then show ?thesis unfolding q(3) by (rule value_at_upd)
    qed
    ultimately show ?thesis using l q(1,3) Some by auto
  qed
qed

lemma owns_unload:
  assumes "owns u (p # ps)"
  shows "\<exists>u'. unload u fname p = Some u' \<and> moves u' = moves u + 1 \<and> owns u' ps \<and>
    (\<forall>q\<in>set ps. value_at (content u') q = value_at (content u) q)"
proof -
  have "\<forall>q. p = Some q \<longrightarrow> content u q \<noteq> None" using assms by (auto simp: owns_def)
  from unload [OF this, of fname] obtain u' where u': "unload u fname p = Some u'" "moves u' = moves u + 1"
      "content u' = (case p of None \<Rightarrow> content u | Some q \<Rightarrow> (content u)(q := None))"
    by blast
  show ?thesis
  proof (cases p)
    case None
    then show ?thesis using u' assms by (auto simp: owns_def)
  next
    case (Some q)
    then have c: "content u' = (content u)(q := None)" "q \<notin> set (ptrs ps)"
      using u'(3) assms by (auto simp: owns_def)
    have "owns u' ps" using assms c unfolding Some by (auto simp: owns_def)
    moreover have "value_at (content u') p' = value_at (content u) p'" if "p' \<in> set ps" for p'
    proof -
      have "p' \<noteq> Some q" using that c(2) by (auto simp: set_ptrs)
      then show ?thesis unfolding c(1) by (rule value_at_upd)
    qed
    ultimately show ?thesis using u' by blast
  qed
qed

lemma unload_dropped_ok:
  assumes "owns u (map fe_ptr es @ rest)"
  shows "\<exists>u'. unload_dropped (Some unload) u es = Some u' \<and> owns u' (map fe_ptr (filter fe_keep es) @ rest) \<and>
    moves u' = moves u + length (filter (\<lambda>e. \<not> fe_keep e) es) \<and>
    (\<forall>p\<in>set (map fe_ptr (filter fe_keep es) @ rest). value_at (content u') p = value_at (content u) p)"
  using assms
proof (induction es arbitrary: u rest)
  case (Cons e es)
  show ?case
  proof (cases "fe_keep e")
    case True
    have "owns u (map fe_ptr es @ fe_ptr e # rest)" by (rule owns_perm [OF Cons.prems]) simp
    from Cons.IH [OF this] obtain u' where u': "unload_dropped (Some unload) u es = Some u'"
        "owns u' (map fe_ptr (filter fe_keep es) @ fe_ptr e # rest)"
        "moves u' = moves u + length (filter (\<lambda>e. \<not> fe_keep e) es)"
        "\<forall>p\<in>set (map fe_ptr (filter fe_keep es) @ fe_ptr e # rest). value_at (content u') p = value_at (content u) p"
      by blast
    have "owns u' (map fe_ptr (filter fe_keep (e # es)) @ rest)" by (rule owns_perm [OF u'(2)]) (simp add: True)
    then show ?thesis using u' True by auto
  next
    case False
    obtain u1 where u1: "unload u (fe_fname e) (fe_ptr e) = Some u1" "moves u1 = moves u + 1"
        "owns u1 (map fe_ptr es @ rest)" "\<forall>q\<in>set (map fe_ptr es @ rest). value_at (content u1) q = value_at (content u) q"
      using owns_unload [of u "fe_ptr e" "map fe_ptr es @ rest" "fe_fname e"] Cons.prems by (auto simp del: set_append)
    obtain u' where "unload_dropped (Some unload) u1 es = Some u'" "owns u' (map fe_ptr (filter fe_keep es) @ rest)"
        "moves u' = moves u1 + length (filter (\<lambda>e. \<not> fe_keep e) es)"
        "\<forall>p\<in>set (map fe_ptr (filter fe_keep es) @ rest). value_at (content u') p = value_at (content u1) p"
      using Cons.IH [OF u1(3)] by blast
    then show ?thesis using u1 False by auto
  qed
qed simp

lemma destroy_entries_ok:
  "owns u (map fe_ptr es) \<Longrightarrow> \<exists>u'. destroy_entries (Some unload) u es = Some u' \<and> owns u' []"
proof (induction es arbitrary: u)
  case (Cons e es)
  obtain u1 where "unload u (fe_fname e) (fe_ptr e) = Some u1" "owns u1 (map fe_ptr es)"
    using owns_unload [of u "fe_ptr e" "map fe_ptr es" "fe_fname e"] Cons.prems by auto
  with Cons.IH [of u1] show ?case by auto
qed simp

text \<open>
  The loop, after the names \<open>P\<close>: the entries that were there are marked where \<open>P\<close> names them,
  and the new entries are those of \<open>P\<close>, with the pointer that was there or a newly loaded one.
\<close>

definition reload_state ::
  "filesys \<Rightarrow> 'p fileset_entry list \<Rightarrow> 'u \<Rightarrow> bytes list \<Rightarrow> 'p fileset_entry list \<times> 'u \<times> 'p fileset_entry list \<Rightarrow> bool" where
  "reload_state F es u0 P st \<longleftrightarrow> (case st of (entries, user, new) \<Rightarrow>
     entries = map (\<lambda>e. e\<lparr>fe_keep := fe_fname e \<in> set P\<rparr>) es \<and> names new = P \<and> (\<forall>e\<in>set new. \<not> fe_keep e) \<and>
     owns user (map fe_ptr es @ map fe_ptr (filter (\<lambda>e. fe_fname e \<notin> set (names es)) new)) \<and>
     (\<forall>e\<in>set new. if fe_fname e \<in> set (names es) then fe_ptr e = ptr_of es (fe_fname e)
        else reads F (fe_fname e) = Some (value_at (content user) (fe_ptr e))) \<and>
     (\<forall>p\<in>set (map fe_ptr es). value_at (content user) p = value_at (content u0) p) \<and>
     moves user = moves u0 + length (filter (\<lambda>e. fe_fname e \<notin> set (names es)) new))"

lemma keep_one:
  assumes "distinct (names es)" and "i < length es" and "fe_fname (es ! i) = n"
  shows "(map (\<lambda>e. e\<lparr>fe_keep := fe_fname e \<in> set P\<rparr>) es)[i := (map (\<lambda>e. e\<lparr>fe_keep := fe_fname e \<in> set P\<rparr>) es ! i)\<lparr>fe_keep := True\<rparr>] =
    map (\<lambda>e. e\<lparr>fe_keep := fe_fname e \<in> set (P @ [n])\<rparr>) es"
proof (rule nth_equalityI)
  fix j
  assume "j < length ((map (\<lambda>e. e\<lparr>fe_keep := fe_fname e \<in> set P\<rparr>) es)[i := (map (\<lambda>e. e\<lparr>fe_keep := fe_fname e \<in> set P\<rparr>) es ! i)\<lparr>fe_keep := True\<rparr>])"
  then have j: "j < length es" by simp
  have "fe_fname (es ! j) = n \<longleftrightarrow> j = i" using assms j by (auto simp: distinct_conv_nth)
  then show "(map (\<lambda>e. e\<lparr>fe_keep := fe_fname e \<in> set P\<rparr>) es)[i := (map (\<lambda>e. e\<lparr>fe_keep := fe_fname e \<in> set P\<rparr>) es ! i)\<lparr>fe_keep := True\<rparr>] ! j =
      map (\<lambda>e. e\<lparr>fe_keep := fe_fname e \<in> set (P @ [n])\<rparr>) es ! j"
    using j assms(2) by (cases "j = i") (auto simp: nth_list_update)
qed simp

lemma keep_none:
  "n \<notin> set (names es) \<Longrightarrow> map (\<lambda>e. e\<lparr>fe_keep := fe_fname e \<in> set P\<rparr>) es =
     map (\<lambda>e. e\<lparr>fe_keep := fe_fname e \<in> set (P @ [n])\<rparr>) es"
  by (induction es) auto

lemma reload_entry_ok:
  assumes st: "reload_state F es u0 P st" and srt: "sorted_wrt (<) (names es)"
    and n: "path_exists F n" "n \<notin> set P" "reads F n \<noteq> None"
  shows "\<exists>st'. reload_entry F (Some load) n st = Some st' \<and> reload_state F es u0 (P @ [n]) st'"
proof -
  let ?entries = "map (\<lambda>e. e\<lparr>fe_keep := fe_fname e \<in> set P\<rparr>) es"
  obtain user new where st_eq: "st = (?entries, user, new)" and new: "names new = P" "\<forall>e\<in>set new. \<not> fe_keep e"
    and own: "owns user (map fe_ptr es @ map fe_ptr (filter (\<lambda>e. fe_fname e \<notin> set (names es)) new))"
    and ptr: "\<forall>e\<in>set new. if fe_fname e \<in> set (names es) then fe_ptr e = ptr_of es (fe_fname e)
        else reads F (fe_fname e) = Some (value_at (content user) (fe_ptr e))"
    and old: "\<forall>p\<in>set (map fe_ptr es). value_at (content user) p = value_at (content u0) p"
    and mv: "moves user = moves u0 + length (filter (\<lambda>e. fe_fname e \<notin> set (names es)) new)"
    using st unfolding reload_state_def by (cases st) auto
  have nm: "names ?entries = names es" by simp
  have dist: "distinct (names es)" by (rule strict_distinct [OF srt])
  show ?thesis
  proof (cases "fetch_entry ?entries n")
    case (Some i)
    then have i: "i < length es" "fe_fname (es ! i) = n" using fetch_entry_Some [OF Some] by auto
    then have p: "n \<in> set (names es)" "fe_ptr (es ! i) = ptr_of es n" using ptr_of [OF dist, of "es ! i"] by auto
    show ?thesis
      using Some i n(1) new own ptr old mv p keep_one [OF dist i, of P]
      by (simp add: reload_entry_def st_eq reload_state_def)
  next
    case None
    have out: "n \<notin> set (names es)" using fetch_entry_finds [of ?entries n] None srt unfolding nm by blast
    obtain r where "reads F n = Some r" using n(3) by blast
    from owns_load [OF own this] obtain p u' where l: "load F user n = Some (p, u')" "moves u' = moves user + 1"
        "owns u' ((map fe_ptr es @ map fe_ptr (filter (\<lambda>e. fe_fname e \<notin> set (names es)) new)) @ [p])"
        "value_at (content u') p = r"
        "\<forall>q\<in>set (map fe_ptr es @ map fe_ptr (filter (\<lambda>e. fe_fname e \<notin> set (names es)) new)).
           value_at (content u') q = value_at (content user) q"
      by blast
    let ?e = "\<lparr>fe_keep = False, fe_fname = n, fe_ptr = p\<rparr>"
    have read: "reads F n = Some (value_at (content u') p)" using l(4) \<open>reads F n = Some r\<close> by simp
    have "\<forall>e\<in>set (new @ [?e]). if fe_fname e \<in> set (names es) then fe_ptr e = ptr_of es (fe_fname e)
        else reads F (fe_fname e) = Some (value_at (content u') (fe_ptr e))"
      using ptr l(5) out read by auto
    moreover have "\<forall>q\<in>set (map fe_ptr es). value_at (content u') q = value_at (content u0) q" using old l(5) by auto
    moreover have "filter (\<lambda>e. fe_fname e \<notin> set (names es)) (new @ [?e]) =
        filter (\<lambda>e. fe_fname e \<notin> set (names es)) new @ [?e]" using out by simp
    ultimately have "reload_state F es u0 (P @ [n]) (?entries, u', new @ [?e])"
      using new l(2,3) mv keep_none [OF out] unfolding reload_state_def prod.case by (intro conjI) simp_all
    moreover have "reload_entry F (Some load) n st = Some (?entries, u', new @ [?e])"
      using None n(1) l(1) by (simp add: reload_entry_def st_eq)
    ultimately show ?thesis by blast
  qed
qed

lemma reload_all_ok:
  assumes "sorted_wrt (<) (names es)" and "reload_state F es u0 P st" and "distinct (P @ ns)"
    and "\<forall>n\<in>set ns. path_exists F n \<and> reads F n \<noteq> None"
  shows "\<exists>st'. reload_all F (Some load) ns st = Some st' \<and> reload_state F es u0 (P @ ns) st'"
  using assms
proof (induction ns arbitrary: P st)
  case (Cons n ns)
  obtain st1 where "reload_entry F (Some load) n st = Some st1" "reload_state F es u0 (P @ [n]) st1"
    using reload_entry_ok [OF Cons.prems(2,1), of n] Cons.prems(3,4) by auto
  with Cons.IH [of "P @ [n]" st1] Cons.prems(1,3,4) show ?case by auto
qed auto

text \<open>The pointers kept are those of the names that are listed again.\<close>

lemma kept_ptrs:
  assumes "distinct (names es)" and "distinct (names new)"
    and "\<forall>e\<in>set new. fe_fname e \<in> set (names es) \<longrightarrow> fe_ptr e = ptr_of es (fe_fname e)"
  shows "mset (map fe_ptr (filter (\<lambda>e. fe_fname e \<in> set (names new)) es)) =
    mset (map fe_ptr (filter (\<lambda>e. fe_fname e \<in> set (names es)) new))"
proof -
  have "map fe_ptr (filter (\<lambda>e. fe_fname e \<in> set (names new)) es) =
      map (ptr_of es) (filter (\<lambda>n. n \<in> set (names new)) (names es))"
    using ptr_of [OF assms(1)] by (simp add: filter_map comp_def)
  moreover have "map fe_ptr (filter (\<lambda>e. fe_fname e \<in> set (names es)) new) =
      map (ptr_of es) (filter (\<lambda>n. n \<in> set (names es)) (names new))"
    using assms(3) by (simp add: filter_map comp_def)
  moreover have "mset (filter (\<lambda>n. n \<in> set (names new)) (names es)) = mset (filter (\<lambda>n. n \<in> set (names es)) (names new))"
    using assms(1,2) by (subst set_eq_iff_mset_eq_distinct [symmetric]) auto
  ultimately show ?thesis by (simp only: mset_map)
qed

lemma kept_value:
  assumes dist: "distinct (names es)"
    and ptr: "\<forall>e\<in>set new. if fe_fname e \<in> set (names es) then fe_ptr e = ptr_of es (fe_fname e)
        else reads F (fe_fname e) = Some (value_at c (fe_ptr e))"
    and old: "\<forall>p\<in>set (map fe_ptr es). value_at c p = value_at c0 p"
    and same: "\<forall>p\<in>set (map fe_ptr (filter (\<lambda>e. fe_fname e \<in> set (names new)) es) @
        map fe_ptr (filter (\<lambda>e. fe_fname e \<notin> set (names es)) new)). value_at c' p = value_at c p"
    and e: "e \<in> set new"
  shows "value_at c' (fe_ptr e) =
    (case map_of (files_of c0 es) (fe_fname e) of Some r \<Rightarrow> r | None \<Rightarrow> the (reads F (fe_fname e)))"
proof (cases "fe_fname e \<in> set (names es)")
  case True
  have "fe_ptr e = ptr_of es (fe_fname e)" using ptr e True by auto
  moreover obtain e0 where e0: "e0 \<in> set es" "fe_fname e0 = fe_fname e" using True by auto
  then have "ptr_of es (fe_fname e) = fe_ptr e0" using ptr_of [OF dist, of e0] by simp
  moreover have "fe_ptr e0 \<in> set (map fe_ptr (filter (\<lambda>e. fe_fname e \<in> set (names new)) es))" using e0 e by force
  ultimately show ?thesis using map_of_files [OF dist True, of c0] same old e0(1) by auto
next
  case False
  then have "fe_ptr e \<in> set (map fe_ptr (filter (\<lambda>e. fe_fname e \<notin> set (names es)) new))"
      "reads F (fe_fname e) = Some (value_at c (fe_ptr e))"
    using ptr e by auto
  then show ?thesis using map_of_files_None [OF False, of c0] same by auto
qed

lemma same_entries:
  assumes "sorted_wrt (<) (names es)" and "sorted_wrt (<) (names es')"
    and "set (names es') \<subseteq> set (names es)" and "set (names es) \<subseteq> set (names es')"
    and "\<forall>e\<in>set es'. fe_ptr e = ptr_of es (fe_fname e)"
  shows "names es' = names es \<and> map fe_ptr es' = map fe_ptr es"
proof -
  have nm: "names es' = names es"
    using assms(1-4) by (intro sorted_distinct_set_unique) (auto simp: strict_sorted_iff)
  have "map fe_ptr es' = map (ptr_of es) (names es')" using assms(5) by simp
  then have "map fe_ptr es' = map fe_ptr es" unfolding nm using ptr_of [OF strict_distinct [OF assms(1)]] by simp
  then show ?thesis using nm by simp
qed

definition entries_ok :: "'u \<Rightarrow> 'p fileset_entry list \<Rightarrow> bool" where
  "entries_ok u es \<longleftrightarrow> sorted_wrt (<) (names es) \<and> (\<forall>e\<in>set es. \<not> fe_keep e) \<and> owns u (map fe_ptr es)"

text \<open>A call of \<open>load\<close> or \<open>unload\<close> is the sign that the list has changed.\<close>

definition reloaded :: "'u \<Rightarrow> 'p fileset_entry list \<Rightarrow> 'u \<Rightarrow> 'p fileset_entry list \<Rightarrow> bool" where
  "reloaded u es u' es' \<longleftrightarrow> entries_ok u' es' \<and> moves u \<le> moves u' \<and>
     (moves u' = moves u \<longrightarrow> names es' = names es \<and> map fe_ptr es' = map fe_ptr es \<and>
       (\<forall>p\<in>set (map fe_ptr es). value_at (content u') p = value_at (content u) p))"

lemma swap_entries:
  assumes ok: "sorted_wrt (<) (names es)" and st: "reload_state F es u0 P (entries, u, new)"
    and P: "distinct P" and es': "mset es' = mset new" "sorted (names es')"
  shows "\<exists>u'. unload_dropped (Some unload) u entries = Some u' \<and> reloaded u0 es u' es' \<and>
    files_of (content u') es' =
      map (\<lambda>n. (n, case map_of (files_of (content u0) es) n of Some r \<Rightarrow> r | None \<Rightarrow> the (reads F n))) (sort P)"
proof -
  let ?fresh = "filter (\<lambda>e. fe_fname e \<notin> set (names es)) new"
  let ?kept = "filter (\<lambda>e. fe_fname e \<in> set (names new)) es"
  have entries: "entries = map (\<lambda>e. e\<lparr>fe_keep := fe_fname e \<in> set (names new)\<rparr>) es" and new: "names new = P" "\<forall>e\<in>set new. \<not> fe_keep e"
    and own: "owns u (map fe_ptr es @ map fe_ptr ?fresh)"
    and ptr: "\<forall>e\<in>set new. if fe_fname e \<in> set (names es) then fe_ptr e = ptr_of es (fe_fname e)
        else reads F (fe_fname e) = Some (value_at (content u) (fe_ptr e))"
    and old: "\<forall>p\<in>set (map fe_ptr es). value_at (content u) p = value_at (content u0) p"
    and mv: "moves u = moves u0 + length ?fresh"
    using st unfolding reload_state_def by auto
  have dist: "distinct (names es)" "distinct (names new)" using strict_distinct [OF ok] P new(1) by simp_all
  have keep: "map fe_ptr (filter fe_keep entries) = map fe_ptr ?kept" "map fe_ptr entries = map fe_ptr es"
      "length (filter (\<lambda>e. \<not> fe_keep e) entries) = length (filter (\<lambda>e. fe_fname e \<notin> set (names new)) es)"
    by (simp_all add: entries filter_map comp_def)
  obtain u' where u': "unload_dropped (Some unload) u entries = Some u'" "owns u' (map fe_ptr ?kept @ map fe_ptr ?fresh)"
      "moves u' = moves u + length (filter (\<lambda>e. fe_fname e \<notin> set (names new)) es)"
      "\<forall>p\<in>set (map fe_ptr ?kept @ map fe_ptr ?fresh). value_at (content u') p = value_at (content u) p"
    using unload_dropped_ok [of u entries "map fe_ptr ?fresh"] own unfolding keep by blast
  have kp: "mset (map fe_ptr ?kept) = mset (map fe_ptr (filter (\<lambda>e. fe_fname e \<in> set (names es)) new))"
    using kept_ptrs [OF dist] ptr by auto
  have "mset (map fe_ptr ?kept @ map fe_ptr ?fresh) = mset (map fe_ptr new)"
    unfolding mset_append kp by (rule mset_partition)
  then have "mset (map fe_ptr ?kept @ map fe_ptr ?fresh) = mset (map fe_ptr es')" using es'(1) by simp
  from owns_perm [OF u'(2) this] have own': "owns u' (map fe_ptr es')" .
  have perm: "distinct (names es')" "set es' = set new"
    using dist(2) es'(1) mset_eq_setD [OF es'(1)] by (metis mset_eq_imp_distinct_iff mset_map)+
  have strict: "sorted_wrt (<) (names es')" using es'(2) perm(1) by (simp add: strict_sorted_iff)
  have srt: "sort P = names es'" using es' new(1) by (intro properties_for_sort) (simp_all flip: new(1))
  have val: "value_at (content u') (fe_ptr e) =
      (case map_of (files_of (content u0) es) (fe_fname e) of Some r \<Rightarrow> r | None \<Rightarrow> the (reads F (fe_fname e)))"
    if e: "e \<in> set es'" for e
    by (rule kept_value [OF dist(1) ptr old u'(4)]) (use e perm(2) in simp)
  have files: "files_of (content u') es' =
      map (\<lambda>n. (n, case map_of (files_of (content u0) es) n of Some r \<Rightarrow> r | None \<Rightarrow> the (reads F n))) (sort P)"
    unfolding srt files_of_def map_map using val by (auto simp: files_of_def)
  have "names es' = names es \<and> map fe_ptr es' = map fe_ptr es \<and>
      (\<forall>p\<in>set (map fe_ptr es). value_at (content u') p = value_at (content u0) p)" if same: "moves u' = moves u0"
  proof -
    have none: "?fresh = []" "filter (\<lambda>e. fe_fname e \<notin> set (names new)) es = []" using same mv u'(3) by auto
    then have "?kept = es" by (auto simp: filter_empty_conv filter_id_conv)
    moreover have "names es' = names es \<and> map fe_ptr es' = map fe_ptr es"
      using none ptr perm(2) by (intro same_entries [OF ok strict]) (auto simp: filter_empty_conv)
    ultimately show ?thesis using u'(4) old by simp
  qed
  moreover have "entries_ok u' es'" using strict own' new(2) perm(2) by (simp add: entries_ok_def)
  moreover have "moves u0 \<le> moves u'" using mv u'(3) by simp
  ultimately have "reloaded u0 es u' es'" unfolding reloaded_def by blast
  then show ?thesis using u'(1) files by blast
qed

definition setfile_ok :: "filesys \<Rightarrow> bytes \<Rightarrow> bytes \<Rightarrow> bool" where
  "setfile_ok F setfile setdir \<longleftrightarrow> (\<forall>data. fs_open F setfile = Some data \<longrightarrow>
     distinct (listed F setdir data) \<and> (\<forall>n\<in>set (listed F setdir data). reads F n \<noteq> None))"

lemma cmp_entry_names: "cmp_fileset_entry a b \<le> 0 \<longleftrightarrow> fe_fname a \<le> fe_fname b"
  by (simp add: cmp_fileset_entry_def strcmp_eq_compare)

lemma sorted_entries:
  assumes "qsort_ok qsort"
  shows "mset (qsort cmp_fileset_entry new) = mset new \<and> sorted (names (qsort cmp_fileset_entry new))"
proof -
  have "\<forall>a b. cmp_fileset_entry a b \<le> 0 \<or> cmp_fileset_entry b a \<le> 0" by (auto simp: cmp_entry_names)
  moreover have "transp (\<lambda>a b. cmp_fileset_entry a b \<le> 0)" by (auto simp: cmp_entry_names transp_def)
  ultimately have "mset (qsort cmp_fileset_entry new) = mset new \<and>
      sorted_wrt (\<lambda>a b. cmp_fileset_entry a b \<le> 0) (qsort cmp_fileset_entry new)"
    using assms unfolding qsort_ok_def by blast
  then show ?thesis by (simp add: cmp_entry_names sorted_wrt_map)
qed

lemma reload_listed:
  assumes ok: "entries_ok u es" and qs: "qsort_ok qsort" and dir: "0 \<notin> set setdir"
    and lst: "distinct (listed F setdir data)" "\<forall>n\<in>set (listed F setdir data). reads F n \<noteq> None"
  shows "\<exists>entries u1 new u'. reload_lines F (Some load) setdir data (vec_init 64) (es, u, []) = Some (entries, u1, new) \<and>
    unload_dropped (Some unload) u1 entries = Some u' \<and> reloaded u es u' (qsort cmp_fileset_entry new) \<and>
    files_of (content u') (qsort cmp_fileset_entry new) =
      map (\<lambda>n. (n, case map_of (files_of (content u) es) n of Some r \<Rightarrow> r | None \<Rightarrow> the (reads F n)))
        (sort (listed F setdir data))"
proof -
  have es: "sorted_wrt (<) (names es)" "\<forall>e\<in>set es. \<not> fe_keep e" "owns u (map fe_ptr es)"
    using ok by (simp_all add: entries_ok_def)
  have "map (\<lambda>e. e\<lparr>fe_keep := fe_fname e \<in> set []\<rparr>) es = es" using es(2) by (intro map_idI) simp
  then have st0: "reload_state F es u [] (es, u, [])" using es(3) by (simp add: reload_state_def)
  have "\<forall>n\<in>set (listed F setdir data). path_exists F n \<and> reads F n \<noteq> None"
    using lst(2) unfolding listed_def by simp
  then obtain st where st: "reload_all F (Some load) (listed F setdir data) (es, u, []) = Some st"
      "reload_state F es u (listed F setdir data) st"
    using reload_all_ok [OF es(1) st0, of "listed F setdir data"] lst(1) unfolding append_Nil by blast
  obtain entries u1 new where "st = (entries, u1, new)" by (cases st)
  note st = st [unfolded this]
  have "reload_lines F (Some load) setdir data (vec_init 64) (es, u, []) = Some (entries, u1, new)"
    by (rule trans [OF reload_lines_listed [OF dir]]) (simp_all add: st(1))
  moreover obtain u' where "unload_dropped (Some unload) u1 entries = Some u'" "reloaded u es u' (qsort cmp_fileset_entry new)"
      "files_of (content u') (qsort cmp_fileset_entry new) =
      map (\<lambda>n. (n, case map_of (files_of (content u) es) n of Some r \<Rightarrow> r | None \<Rightarrow> the (reads F n)))
        (sort (listed F setdir data))"
    using swap_entries [OF es(1) st(2) lst(1)] sorted_entries [OF qs, of new] by blast
  ultimately show ?thesis by (intro exI conjI)
qed

lemma setfile_updated_eq:
  "setfile_updated F fs = (case setfile_stamp F fs of (ino, mtime) \<Rightarrow>
     (mf_last_ino fs \<noteq> ino \<or> mf_last_mtime fs \<noteq> mtime, fs\<lparr>mf_last_ino := ino, mf_last_mtime := mtime\<rparr>))"
  by (auto simp: setfile_updated_def setfile_stamp_def split: option.split)

theorem reload_ok:
  assumes ok: "entries_ok u (mf_entries fs)" and qs: "qsort_ok qsort"
    and fns: "mf_load fs = Some load" "mf_unload fs = Some unload" and dir: "0 \<notin> set (mf_setdir fs)"
    and set: "setfile_ok F (mf_setfile fs) (mf_setdir fs)"
  shows "\<exists>es u'. my_fileset_reload qsort F fs u =
      Some (fs\<lparr>mf_last_ino := fst (setfile_stamp F fs), mf_last_mtime := snd (setfile_stamp F fs), mf_entries := es\<rparr>, u') \<and>
    reloaded u (mf_entries fs) u' es \<and>
    files_of (content u') es = reload_files reads F (mf_setfile fs) (mf_setdir fs)
      (mf_last_ino fs, mf_last_mtime fs) (files_of (content u) (mf_entries fs))"
proof -
  obtain ino mtime where st: "setfile_stamp F fs = (ino, mtime)" by (cases "setfile_stamp F fs")
  let ?upd = "mf_last_ino fs \<noteq> ino \<or> mf_last_mtime fs \<noteq> mtime"
  have upd: "setfile_updated F fs = (?upd, fs\<lparr>mf_last_ino := ino, mf_last_mtime := mtime\<rparr>)"
    unfolding setfile_updated_eq st by simp
  show ?thesis
  proof (cases "?upd \<and> fs_open F (mf_setfile fs) \<noteq> None")
    case False
    then have "my_fileset_reload qsort F fs u = Some (fs\<lparr>mf_last_ino := ino, mf_last_mtime := mtime, mf_entries := mf_entries fs\<rparr>, u)"
      unfolding my_fileset_reload_def upd Let_def by (auto split: option.split)
    moreover have "reload_files reads F (mf_setfile fs) (mf_setdir fs) (mf_last_ino fs, mf_last_mtime fs) files = files" for files
      using False st by (auto simp: reload_files_def setfile_stamp_def split: option.split)
    moreover have "reloaded u (mf_entries fs) u (mf_entries fs)" using ok by (simp add: reloaded_def)
    ultimately show ?thesis unfolding st fst_conv snd_conv by metis
  next
    case True
    then obtain data where data: "fs_open F (mf_setfile fs) = Some data" by blast
    have "fs_stat F (mf_setfile fs) = Some (ino, mtime)" "(ino, mtime) \<noteq> (mf_last_ino fs, mf_last_mtime fs)"
      using st True by (auto simp: setfile_stamp_def split: option.splits)
    then have rf: "reload_files reads F (mf_setfile fs) (mf_setdir fs) (mf_last_ino fs, mf_last_mtime fs) files =
        map (\<lambda>n. (n, case map_of files n of Some r \<Rightarrow> r | None \<Rightarrow> the (reads F n))) (sort (listed F (mf_setdir fs) data))" for files
      by (auto simp: reload_files_def data)
    have lst: "distinct (listed F (mf_setdir fs) data)" "\<forall>n\<in>set (listed F (mf_setdir fs) data). reads F n \<noteq> None"
      using set data by (simp_all add: setfile_ok_def)
    obtain entries u1 new u' where r: "reload_lines F (Some load) (mf_setdir fs) data (vec_init 64) (mf_entries fs, u, []) =
          Some (entries, u1, new)" "unload_dropped (Some unload) u1 entries = Some u'"
        "reloaded u (mf_entries fs) u' (qsort cmp_fileset_entry new)"
        "files_of (content u') (qsort cmp_fileset_entry new) =
          map (\<lambda>n. (n, case map_of (files_of (content u) (mf_entries fs)) n of Some r \<Rightarrow> r | None \<Rightarrow> the (reads F n)))
            (sort (listed F (mf_setdir fs) data))"
      using reload_listed [OF ok qs dir lst] by blast
    have "my_fileset_reload qsort F fs u =
        Some (fs\<lparr>mf_last_ino := ino, mf_last_mtime := mtime, mf_entries := qsort cmp_fileset_entry new\<rparr>, u')"
      using True r(1,2) data fns by (simp add: my_fileset_reload_def upd)
    then show ?thesis using r(3,4) rf st by auto
  qed
qed

end

end
