(* ===== verification/Fileset_Facts.thy ===== *)
theory Fileset_Facts
  imports Fileset My_Fileset_Facts
begin

text \<open>
  What filesets promise (\<open>fileset_spec\<close>, \<open>spec_step\<close>): the files of the set as names with the
  reader loaded from each, the options of every fileset, which fileset every open iterator
  reads, and when to load again; no references, marks, counters or cached mergers. The relation
  \<open>refines\<close> is kept by every call a program may make (\<open>call_ok\<close>), which does not fail.
\<close>

subsection \<open>Readers are loaded and unloaded\<close>

definition reader_reads :: "(bytes \<Rightarrow> u32) \<Rightarrow> filesys \<Rightarrow> bytes \<Rightarrow> mtbl_reader option option" where
  "reader_reads crc F fname = mtbl_reader_init crc (fs_map_failed F fname) (fs_open F fname) None"

lemma cell_Nil: "cell [] = (\<lambda>_. None)"
  by (rule ext) (simp add: cell_def)

lemma cell_append: "cell (xs @ [x]) i = (if i = length xs then x else cell xs i)"
  by (auto simp: cell_def nth_append)

lemma cell_update: "i < length xs \<Longrightarrow> cell (xs[i := x]) j = (if j = i then x else cell xs j)"
  by (auto simp: cell_def nth_list_update)

lemma cell_Some: "cell xs i = Some x \<Longrightarrow> i < length xs \<and> xs ! i = Some x"
  by (simp add: cell_def split: if_splits)

lemma cell_not_None: "cell xs i \<noteq> None \<Longrightarrow> i < length xs"
  by (simp add: cell_def split: if_splits)

interpretation fs: loader "fs_load crc" fs_unload "\<lambda>u. cell (fu_readers u)"
  "\<lambda>u. fu_n_loaded u + fu_n_unloaded u" "reader_reads crc" for crc
proof unfold_locales
  fix F fname u and r :: "mtbl_reader option"
  assume r: "reader_reads crc F fname = Some r"
  show "\<exists>p u'. fs_load crc F u fname = Some (p, u') \<and>
      fu_n_loaded u' + fu_n_unloaded u' = fu_n_loaded u + fu_n_unloaded u + 1 \<and>
      (case r of None \<Rightarrow> p = None \<and> cell (fu_readers u') = cell (fu_readers u)
       | Some x \<Rightarrow> \<exists>q. p = Some q \<and> cell (fu_readers u) q = None \<and> cell (fu_readers u') = (cell (fu_readers u))(q \<mapsto> x))"
    using r by (cases r) (auto simp: fs_load_def reader_reads_def cell_append fun_eq_iff cell_def Let_def nth_append)
next
  fix p and u :: fs_user and fname :: bytes
  assume "\<forall>q. p = Some q \<longrightarrow> cell (fu_readers u) q \<noteq> None"
  then show "\<exists>u'. fs_unload u fname p = Some u' \<and>
      fu_n_loaded u' + fu_n_unloaded u' = fu_n_loaded u + fu_n_unloaded u + 1 \<and>
      cell (fu_readers u') = (case p of None \<Rightarrow> cell (fu_readers u) | Some q \<Rightarrow> (cell (fu_readers u))(q := None))"
    by (cases p) (auto simp: fs_unload_def Let_def fun_eq_iff cell_update dest!: cell_Some)
qed

subsection \<open>The specification\<close>

definition opts_of :: "mtbl_fileset \<Rightarrow> mtbl_fileset_options" where
  "opts_of f =
     \<lparr>fo_reload_interval = f_reload_interval f, fo_merge = mo_merge (f_mopt f), fo_dupsort = mo_dupsort (f_mopt f),
       fo_fname_filter = f_fname_filter f, fo_reader_filter = f_reader_filter f\<rparr>"

definition fileset_passes :: "mtbl_fileset_options \<Rightarrow> bytes \<Rightarrow> mtbl_reader \<Rightarrow> bool" where
  "fileset_passes opt fname r \<longleftrightarrow>
     (case fo_fname_filter opt of None \<Rightarrow> True | Some p \<Rightarrow> p fname) \<and>
     (case fo_reader_filter opt of None \<Rightarrow> True | Some p \<Rightarrow> p r)"

definition files_readers :: "mtbl_fileset_options \<Rightarrow> (bytes \<times> mtbl_reader option) list \<Rightarrow> mtbl_reader list" where
  "files_readers opt files =
     concat (map (\<lambda>(n, r). case r of None \<Rightarrow> [] | Some r \<Rightarrow> if fileset_passes opt n r then [r] else []) files)"

record fileset_spec =
  sp_setfile :: bytes
  sp_setdir :: bytes
  sp_files :: "(bytes \<times> mtbl_reader option) list"
  sp_stamp :: "nat \<times> int"
  sp_last :: timespec
  sp_needed :: bool
  sp_sets :: "mtbl_fileset_options option list"
  sp_iters :: "nat option list"

definition spec_start :: "bytes \<Rightarrow> mtbl_fileset_options \<Rightarrow> fileset_spec" where
  "spec_start fname opt =
     \<lparr>sp_setfile = fname, sp_setdir = dirname fname, sp_files = [], sp_stamp = (0, 0), sp_last = Timespec 0 0,
       sp_needed = True, sp_sets = [Some opt], sp_iters = []\<rparr>"

definition no_iters :: "fileset_spec \<Rightarrow> bool" where
  "no_iters sp \<longleftrightarrow> list_all (\<lambda>k. k = None) (sp_iters sp)"

definition spec_load :: "(bytes \<Rightarrow> u32) \<Rightarrow> filesys \<Rightarrow> timespec \<Rightarrow> fileset_spec \<Rightarrow> fileset_spec" where
  "spec_load crc F now sp =
     sp\<lparr>sp_files := reload_files (reader_reads crc) F (sp_setfile sp) (sp_setdir sp) (sp_stamp sp) (sp_files sp),
       sp_stamp := (case fs_stat F (sp_setfile sp) of None \<Rightarrow> sp_stamp sp | Some s \<Rightarrow> s),
       sp_last := now, sp_needed := False\<rparr>"

definition spec_due :: "fileset_spec \<Rightarrow> timespec \<Rightarrow> u32 \<Rightarrow> bool" where
  "spec_due sp now interval \<longleftrightarrow> no_iters sp \<and>
     (sp_needed sp \<or> (interval \<noteq> MTBL_FILESET_RELOAD_INTERVAL_NEVER \<and>
        tv_sec now - tv_sec (sp_last sp) > uint interval))"

definition spec_reload :: "(bytes \<Rightarrow> u32) \<Rightarrow> filesys \<Rightarrow> timespec \<Rightarrow> nat \<Rightarrow> fileset_spec \<Rightarrow> fileset_spec" where
  "spec_reload crc F now i sp =
     (case cell (sp_sets sp) i of
        None \<Rightarrow> sp
      | Some opt \<Rightarrow> if spec_due sp now (fo_reload_interval opt) then spec_load crc F now sp else sp)"

fun spec_step :: "(bytes \<Rightarrow> u32) \<Rightarrow> fileset_spec \<Rightarrow> fileset_call \<Rightarrow> fileset_spec" where
  "spec_step crc sp (F, now, Fs_reload i) = spec_reload crc F now i sp"
| "spec_step crc sp (F, now, Fs_reload_now i) =
     (if no_iters sp then spec_load crc F now sp else sp\<lparr>sp_needed := True\<rparr>)"
| "spec_step crc sp (F, now, Fs_dup i opt) = sp\<lparr>sp_sets := sp_sets sp @ [Some opt]\<rparr>"
| "spec_step crc sp (F, now, Fs_destroy i) = sp\<lparr>sp_sets := (sp_sets sp)[i := None]\<rparr>"
| "spec_step crc sp (F, now, Fs_open i ty key0 key1) =
     (let sp = spec_reload crc F now i sp in sp\<lparr>sp_iters := sp_iters sp @ [Some i]\<rparr>)"
| "spec_step crc sp (F, now, Fs_next k) = sp"
| "spec_step crc sp (F, now, Fs_free k) =
     (case cell (sp_iters sp) k of
        None \<Rightarrow> sp
      | Some i \<Rightarrow> spec_reload crc F now i (sp\<lparr>sp_iters := (sp_iters sp)[k := None]\<rparr>))"

text \<open>
  The calls a program may make: on filesets and iterators that exist, destroying a fileset only
  when no iterator reads it, at times that differ from that of the last load, on a file system in
  which the setfile names no file twice and what it names is either no table or a table with
  nonempty keys; \<open>mtbl_fileset_reload_now\<close> only where the fileset has no duplicate.
\<close>

definition reads_table :: "(bytes \<Rightarrow> u32) \<Rightarrow> 'z complib \<Rightarrow> mtbl_reader \<Rightarrow> bool" where
  "reads_table crc L r \<longleftrightarrow> (\<exists>T. holds_table crc L r T \<and> (\<forall>e\<in>set T. fst e \<noteq> []))"

definition filesys_ok :: "(bytes \<Rightarrow> u32) \<Rightarrow> 'z complib \<Rightarrow> bytes \<Rightarrow> bytes \<Rightarrow> filesys \<Rightarrow> bool" where
  "filesys_ok crc L setfile setdir F \<longleftrightarrow> (\<forall>data. fs_open F setfile = Some data \<longrightarrow>
     distinct (listed F setdir data) \<and>
     (\<forall>n\<in>set (listed F setdir data). \<exists>r. reader_reads crc F n = Some r \<and> (\<forall>x. r = Some x \<longrightarrow> reads_table crc L x)))"

definition fileset_options_ok :: "mtbl_fileset_options \<Rightarrow> bool" where
  "fileset_options_ok opt \<longleftrightarrow>
     (let mopt = \<lparr>mo_merge = fo_merge opt, mo_dupsort = fo_dupsort opt\<rparr> in dupsort_ok mopt \<and> merge_ok mopt)"

fun op_ok :: "fileset_spec \<Rightarrow> fileset_op \<Rightarrow> bool" where
  "op_ok sp (Fs_reload i) \<longleftrightarrow> cell (sp_sets sp) i \<noteq> None"
| "op_ok sp (Fs_reload_now i) \<longleftrightarrow> cell (sp_sets sp) i \<noteq> None \<and> length (sp_sets sp) = 1"
| "op_ok sp (Fs_dup i opt) \<longleftrightarrow> cell (sp_sets sp) i \<noteq> None \<and> fileset_options_ok opt"
| "op_ok sp (Fs_destroy i) \<longleftrightarrow> cell (sp_sets sp) i \<noteq> None \<and> Some i \<notin> set (sp_iters sp)"
| "op_ok sp (Fs_open i ty key0 key1) \<longleftrightarrow> cell (sp_sets sp) i \<noteq> None"
| "op_ok sp (Fs_next k) \<longleftrightarrow> cell (sp_iters sp) k \<noteq> None"
| "op_ok sp (Fs_free k) \<longleftrightarrow> cell (sp_iters sp) k \<noteq> None"

definition call_ok :: "(bytes \<Rightarrow> u32) \<Rightarrow> 'z complib \<Rightarrow> fileset_spec \<Rightarrow> fileset_call \<Rightarrow> bool" where
  "call_ok crc L sp = (\<lambda>(F, now, call).
     sp_last sp < now \<and> filesys_ok crc L (sp_setfile sp) (sp_setdir sp) F \<and> op_ok sp call)"

primrec calls_ok :: "(bytes \<Rightarrow> u32) \<Rightarrow> 'z complib \<Rightarrow> fileset_spec \<Rightarrow> fileset_call list \<Rightarrow> bool" where
  "calls_ok crc L sp [] \<longleftrightarrow> True"
| "calls_ok crc L sp (c # cs) \<longleftrightarrow> call_ok crc L sp c \<and> calls_ok crc L (spec_step crc sp c) cs"

subsection \<open>Mergers of references\<close>

primrec set_refs :: "mtbl_fileset \<Rightarrow> fs_user \<Rightarrow> nat fileset_entry list \<Rightarrow> nat list" where
  "set_refs f user [] = []"
| "set_refs f user (e # es) =
     (case fe_ptr e of
        None \<Rightarrow> set_refs f user es
      | Some q \<Rightarrow> if fs_wanted f user (fe_fname e) q = Some True then q # set_refs f user es else set_refs f user es)"

definition all_live :: "fs_user \<Rightarrow> nat fileset_entry list \<Rightarrow> bool" where
  "all_live user es \<longleftrightarrow> (\<forall>e\<in>set es. \<forall>q. fe_ptr e = Some q \<longrightarrow> cell (fu_readers user) q \<noteq> None)"

lemma wanted_live: "cell (fu_readers user) q = Some r \<Longrightarrow> fs_wanted f user n q = Some (fileset_passes (opts_of f) n r)"
  by (auto simp: fs_wanted_def fileset_passes_def opts_of_def split: option.split)

lemma reinit_loop_ok:
  assumes "all_live (sf_user sh) (mf_entries (sf_my_fs sh))"
  shows "reinit_loop sh f i m = Some (m @ set_refs f (sf_user sh) (drop i (mf_entries (sf_my_fs sh))))"
proof (induction "length (mf_entries (sf_my_fs sh)) - i" arbitrary: i m)
  case 0
  then have "length (mf_entries (sf_my_fs sh)) \<le> i" by simp
  then show ?case by (subst reinit_loop.simps) (simp add: my_fileset_get_def)
next
  case (Suc d)
  let ?es = "mf_entries (sf_my_fs sh)"
  have i: "i < length ?es" using Suc(2) by simp
  then have d: "drop i ?es = ?es ! i # drop (Suc i) ?es" by (simp add: Cons_nth_drop_Suc)
  have IH: "reinit_loop sh f (Suc i) m = Some (m @ set_refs f (sf_user sh) (drop (Suc i) ?es))" for m
    using Suc(1) [of "Suc i" m] Suc(2) by simp
  show ?case
  proof (cases "fe_ptr (?es ! i)")
    case None
    then show ?thesis using i IH by (subst reinit_loop.simps) (simp add: my_fileset_get_def d)
  next
    case (Some q)
    obtain r where r: "cell (fu_readers (sf_user sh)) q = Some r"
      using assms i Some unfolding all_live_def by (metis nth_mem not_Some_eq)
    show ?thesis
      using i IH Some r by (subst reinit_loop.simps) (simp add: my_fileset_get_def d wanted_live [OF r])
  qed
qed

lemma set_refs_readers:
  assumes "all_live user es"
  shows "those (map (cell (fu_readers user)) (set_refs f user es)) =
    Some (files_readers (opts_of f) (files_of (cell (fu_readers user)) es))"
  using assms
proof (induction es)
  case (Cons e es)
  then have IH: "those (map (cell (fu_readers user)) (set_refs f user es)) =
      Some (files_readers (opts_of f) (files_of (cell (fu_readers user)) es))"
    by (simp add: all_live_def)
  show ?case
  proof (cases "fe_ptr e")
    case (Some q)
    then obtain r where "cell (fu_readers user) q = Some r" using Cons.prems by (auto simp: all_live_def)
    then show ?thesis using IH Some by (simp add: files_of_def files_readers_def wanted_live)
  qed (use IH in \<open>simp add: files_of_def files_readers_def\<close>)
qed (simp add: files_of_def files_readers_def)

lemma set_refs_live: "all_live user es \<Longrightarrow> r \<in> set (set_refs f user es) \<Longrightarrow> cell (fu_readers user) r \<noteq> None"
  by (induction es) (auto simp: all_live_def split: option.splits if_splits)

text \<open>Equal names, pointers and readers give equal mergers.\<close>

lemma set_refs_same:
  assumes "names es' = names es" and "map fe_ptr es' = map fe_ptr es"
    and "\<forall>p\<in>set (map fe_ptr es). value_at (cell (fu_readers u')) p = value_at (cell (fu_readers u)) p"
  shows "set_refs f u' es' = set_refs f u es"
  using assms
proof (induction es arbitrary: es')
  case (Cons e es)
  obtain e' es'' where es': "es' = e' # es''" using Cons.prems(1) by (cases es') auto
  have same: "fs_wanted f u' n q = fs_wanted f u n q" if "fe_ptr e = Some q" for n q
    using Cons.prems(3) that by (auto simp: fs_wanted_def split: option.split)
  have "set_refs f u' es'' = set_refs f u es" using Cons es' by auto
  then show ?case using Cons.prems es' same by (auto split: option.split)
qed simp

subsection \<open>The shared part\<close>

definition shared_refines :: "(bytes \<Rightarrow> u32) \<Rightarrow> 'z complib \<Rightarrow> shared_fileset \<Rightarrow> fileset_spec \<Rightarrow> bool" where
  "shared_refines crc L sh sp \<longleftrightarrow> (let my = sf_my_fs sh; user = sf_user sh in
     fs.entries_ok user (mf_entries my) \<and> mf_load my = Some (fs_load crc) \<and> mf_unload my = Some fs_unload \<and>
     0 \<notin> set (sp_setdir sp) \<and> mf_setfile my = sp_setfile sp \<and> mf_setdir my = sp_setdir sp \<and>
     (mf_last_ino my, mf_last_mtime my) = sp_stamp sp \<and>
     files_of (cell (fu_readers user)) (mf_entries my) = sp_files sp \<and>
     sf_fs_last sh = sp_last sp \<and> sf_reload_needed sh = sp_needed sp \<and>
     (\<forall>n x. (n, Some x) \<in> set (sp_files sp) \<longrightarrow> reads_table crc L x))"

definition set_fresh :: "shared_fileset \<Rightarrow> mtbl_fileset \<Rightarrow> bool" where
  "set_fresh sh f \<longleftrightarrow> f_fs_last f = sf_fs_last sh"

definition set_ok :: "shared_fileset \<Rightarrow> mtbl_fileset \<Rightarrow> bool" where
  "set_ok sh f \<longleftrightarrow> f_fs_last f \<le> sf_fs_last sh \<and>
     (set_fresh sh f \<longrightarrow> f_merger f = set_refs f (sf_user sh) (mf_entries (sf_my_fs sh)))"

lemma entries_live: "fs.entries_ok user es \<Longrightarrow> all_live user es"
  unfolding fs.entries_ok_def fs.owns_def all_live_def by (force simp: set_ptrs dom_def set_eq_iff)

lemma set_refs_merger [simp]:
  "set_refs (f\<lparr>f_merger := m, f_merger_no := no\<rparr>) = set_refs f" "set_refs (f\<lparr>f_fs_last := t\<rparr>) = set_refs f"
proof -
  have "fs_wanted (f\<lparr>f_merger := m, f_merger_no := no\<rparr>) = fs_wanted f" "fs_wanted (f\<lparr>f_fs_last := t\<rparr>) = fs_wanted f"
    by (simp_all add: fs_wanted_def fun_eq_iff)
  then have "set_refs (f\<lparr>f_merger := m, f_merger_no := no\<rparr>) u es = set_refs f u es"
      "set_refs (f\<lparr>f_fs_last := t\<rparr>) u es = set_refs f u es" for u es
    by (induction es) (simp_all split: option.split)
  then show "set_refs (f\<lparr>f_merger := m, f_merger_no := no\<rparr>) = set_refs f" "set_refs (f\<lparr>f_fs_last := t\<rparr>) = set_refs f"
    by (simp_all add: fun_eq_iff)
qed

lemma opts_of_merger [simp]:
  "opts_of (f\<lparr>f_merger := m, f_merger_no := no\<rparr>) = opts_of f" "opts_of (f\<lparr>f_fs_last := t\<rparr>) = opts_of f"
  by (simp_all add: opts_of_def)

lemma reinit_ok:
  assumes "all_live (sf_user sh) (mf_entries (sf_my_fs sh))"
  shows "fs_reinit_merger sh f =
    Some (f\<lparr>f_merger := set_refs f (sf_user sh) (mf_entries (sf_my_fs sh)), f_merger_no := f_merger_no f + 1\<rparr>)"
  unfolding fs_reinit_merger_def reinit_loop_ok [OF assms] by simp

lemma timespec_neq: "tv_sec a \<noteq> tv_sec b \<or> tv_nsec a \<noteq> tv_nsec b \<longleftrightarrow> a \<noteq> b"
  by (cases a; cases b) auto

text \<open>Files loaded or kept are tables.\<close>

lemma reload_files_tables:
  assumes "\<forall>n x. (n, Some x) \<in> set files \<longrightarrow> reads_table crc L x" and "filesys_ok crc L setfile setdir F"
  shows "\<forall>n x. (n, Some x) \<in> set (reload_files (reader_reads crc) F setfile setdir stamp files) \<longrightarrow> reads_table crc L x"
proof (intro allI impI)
  fix n x
  assume mem: "(n, Some x) \<in> set (reload_files (reader_reads crc) F setfile setdir stamp files)"
  show "reads_table crc L x"
  proof (cases "(n, Some x) \<in> set files")
    case False
    then obtain data where d: "fs_open F setfile = Some data" "n \<in> set (listed F setdir data)"
        "Some x = (case map_of files n of Some r \<Rightarrow> r | None \<Rightarrow> the (reader_reads crc F n))"
      using mem by (auto simp: reload_files_def split: option.splits if_splits)
    then have "Some x = the (reader_reads crc F n)" using False by (auto dest: map_of_SomeD split: option.splits)
    moreover obtain r where "reader_reads crc F n = Some r" "\<forall>x. r = Some x \<longrightarrow> reads_table crc L x"
      using assms(2) d(1,2) unfolding filesys_ok_def by blast
    ultimately show ?thesis by simp
  qed (use assms(1) in blast)
qed

lemma load_ok:
  assumes ref: "shared_refines crc L sh sp" and f: "set_ok sh f" "set_fresh sh f" and qs: "qsort_ok qsort"
    and env: "filesys_ok crc L (sp_setfile sp) (sp_setdir sp) F"
  shows "\<exists>sh' f'. fileset_load qsort F now sh f = Some (sh', f') \<and> shared_refines crc L sh' (spec_load crc F now sp) \<and>
    set_ok sh' f' \<and> set_fresh sh' f' \<and> opts_of f' = opts_of f \<and>
    sf_n_fs sh' = sf_n_fs sh \<and> sf_n_iters sh' = sf_n_iters sh \<and> sf_fs_last sh' = now"
proof -
  let ?my = "sf_my_fs sh" and ?u0 = "(sf_user sh)\<lparr>fu_n_loaded := 0, fu_n_unloaded := 0\<rparr>"
  have own: "fs.owns ?u0 ps = fs.owns (sf_user sh) ps" for ps by (simp add: fs.owns_def)
  have r: "fs.entries_ok ?u0 (mf_entries ?my)" "mf_load ?my = Some (fs_load crc)" "mf_unload ?my = Some fs_unload"
      "0 \<notin> set (mf_setdir ?my)" "mf_setfile ?my = sp_setfile sp" "mf_setdir ?my = sp_setdir sp"
      "sp_stamp sp = (mf_last_ino ?my, mf_last_mtime ?my)" "sp_files sp = files_of (cell (fu_readers ?u0)) (mf_entries ?my)"
      "\<forall>n x. (n, Some x) \<in> set (sp_files sp) \<longrightarrow> reads_table crc L x"
    using ref unfolding shared_refines_def Let_def fs.entries_ok_def own by simp_all
  have "fs.setfile_ok crc F (mf_setfile ?my) (mf_setdir ?my)"
    using env unfolding r(5,6) fs.setfile_ok_def filesys_ok_def by blast
  from fs.reload_ok [OF r(1) qs r(2,3,4) this] obtain es u' where
    l: "my_fileset_reload qsort F ?my ?u0 = Some (?my\<lparr>mf_last_ino := fst (setfile_stamp F ?my),
          mf_last_mtime := snd (setfile_stamp F ?my), mf_entries := es\<rparr>, u')"
      "fs.reloaded ?u0 (mf_entries ?my) u' es"
      "files_of (cell (fu_readers u')) es = reload_files (reader_reads crc) F (mf_setfile ?my) (mf_setdir ?my)
         (mf_last_ino ?my, mf_last_mtime ?my) (files_of (cell (fu_readers ?u0)) (mf_entries ?my))"
    by blast
  let ?sh = "sh\<lparr>sf_my_fs := ?my\<lparr>mf_last_ino := fst (setfile_stamp F ?my), mf_last_mtime := snd (setfile_stamp F ?my),
      mf_entries := es\<rparr>, sf_user := u'\<rparr>"
  let ?moved = "fu_n_loaded u' > 0 \<or> fu_n_unloaded u' > 0"
  let ?f = "if ?moved then f\<lparr>f_merger := set_refs f u' es, f_merger_no := f_merger_no f + 1\<rparr> else f"
  have ok: "fs.entries_ok u' es" using l(2) by (simp add: fs.reloaded_def)
  have "(if ?moved then fs_reinit_merger ?sh f else Some f) = Some ?f"
    using reinit_ok [of ?sh f] entries_live [OF ok] by simp
  then have step: "fileset_load qsort F now sh f =
      Some (?sh\<lparr>sf_fs_last := now, sf_reload_needed := False\<rparr>, ?f\<lparr>f_fs_last := now\<rparr>)"
    using l(1) by (simp add: fileset_load_def Let_def)
  have "f_merger ?f = set_refs f u' es"
  proof (cases ?moved)
    case False
    then have "names es = names (mf_entries ?my)" "map fe_ptr es = map fe_ptr (mf_entries ?my)"
        "\<forall>p\<in>set (map fe_ptr (mf_entries ?my)). value_at (cell (fu_readers u')) p = value_at (cell (fu_readers (sf_user sh))) p"
      using l(2) by (simp_all add: fs.reloaded_def)
    from set_refs_same [OF this] show ?thesis using f False by (simp add: set_ok_def)
  qed simp
  then have "set_ok (?sh\<lparr>sf_fs_last := now, sf_reload_needed := False\<rparr>) (?f\<lparr>f_fs_last := now\<rparr>)"
    by (simp add: set_ok_def)
  moreover have "shared_refines crc L (?sh\<lparr>sf_fs_last := now, sf_reload_needed := False\<rparr>) (spec_load crc F now sp)"
    using ok r(2-6) l(3) reload_files_tables [OF r(9) env, of "sp_stamp sp"]
    by (auto simp: shared_refines_def Let_def spec_load_def r(7,8) setfile_stamp_def split: option.split)
  moreover have "set_fresh (?sh\<lparr>sf_fs_last := now, sf_reload_needed := False\<rparr>) (?f\<lparr>f_fs_last := now\<rparr>)"
      "opts_of (?f\<lparr>f_fs_last := now\<rparr>) = opts_of f"
    by (simp_all add: set_fresh_def)
  ultimately show ?thesis unfolding step
    by (intro exI [of _ "?sh\<lparr>sf_fs_last := now, sf_reload_needed := False\<rparr>"] exI [of _ "?f\<lparr>f_fs_last := now\<rparr>"])
      (simp del: opts_of_merger)
qed

lemma shared_refines_sets [simp]:
  "shared_refines crc L sh (sp\<lparr>sp_sets := sets\<rparr>) = shared_refines crc L sh sp"
  "shared_refines crc L sh (sp\<lparr>sp_iters := iters\<rparr>) = shared_refines crc L sh sp"
  "shared_refines crc L (sh\<lparr>sf_n_fs := n\<rparr>) sp = shared_refines crc L sh sp"
  "shared_refines crc L (sh\<lparr>sf_n_iters := n\<rparr>) sp = shared_refines crc L sh sp"
  "shared_refines crc L sh sp \<Longrightarrow>
   shared_refines crc L (sh\<lparr>sf_reload_needed := needed\<rparr>) (sp\<lparr>sp_needed := needed\<rparr>)"
  by (simp_all add: shared_refines_def Let_def)

lemma set_ok_counts [simp]:
  "set_ok (sh\<lparr>sf_n_fs := n\<rparr>) f = set_ok sh f" "set_fresh (sh\<lparr>sf_n_fs := n\<rparr>) f = set_fresh sh f"
  "set_ok (sh\<lparr>sf_n_iters := n\<rparr>) f = set_ok sh f" "set_fresh (sh\<lparr>sf_n_iters := n\<rparr>) f = set_fresh sh f"
  "set_ok (sh\<lparr>sf_reload_needed := b\<rparr>) f = set_ok sh f" "set_fresh (sh\<lparr>sf_reload_needed := b\<rparr>) f = set_fresh sh f"
  by (simp_all add: set_ok_def set_fresh_def)

lemma refresh_ok:
  assumes ref: "shared_refines crc L sh sp" and f: "set_ok sh f"
  shows "\<exists>f'. (if tv_sec (f_fs_last f) \<noteq> tv_sec (sf_fs_last sh) \<or> tv_nsec (f_fs_last f) \<noteq> tv_nsec (sf_fs_last sh)
      then do { f \<leftarrow> fs_reinit_merger sh f; Some (f\<lparr>f_fs_last := sf_fs_last sh\<rparr>) } else Some f) = Some f' \<and>
    set_ok sh f' \<and> set_fresh sh f' \<and> opts_of f' = opts_of f \<and> f_reload_interval f' = f_reload_interval f \<and>
    (set_fresh sh f \<longrightarrow> f' = f)"
proof (cases "set_fresh sh f")
  case True
  then show ?thesis using f unfolding timespec_neq by (simp add: set_fresh_def)
next
  case False
  have "all_live (sf_user sh) (mf_entries (sf_my_fs sh))"
    using ref by (intro entries_live) (simp add: shared_refines_def Let_def)
  from reinit_ok [OF this] show ?thesis
    using False unfolding timespec_neq by (simp add: set_fresh_def set_ok_def)
qed

lemma reload_sound:
  assumes ref: "shared_refines crc L sh sp" and f: "set_ok sh f" and qs: "qsort_ok qsort"
    and env: "filesys_ok crc L (sp_setfile sp) (sp_setdir sp) F"
    and opt: "cell (sp_sets sp) i = Some (opts_of f)" and iters: "sf_n_iters sh = 0 \<longleftrightarrow> no_iters sp"
  shows "\<exists>sh' f'. mtbl_fileset_reload qsort F now sh f = Some (sh', f') \<and>
    shared_refines crc L sh' (spec_reload crc F now i sp) \<and> set_ok sh' f' \<and> set_fresh sh' f' \<and> opts_of f' = opts_of f \<and>
    sf_n_fs sh' = sf_n_fs sh \<and> sf_n_iters sh' = sf_n_iters sh \<and>
    (sh' = sh \<and> (set_fresh sh f \<longrightarrow> f' = f) \<or> no_iters sp \<and> sf_fs_last sh' = now)"
proof -
  obtain f1 where f1: "(if tv_sec (f_fs_last f) \<noteq> tv_sec (sf_fs_last sh) \<or> tv_nsec (f_fs_last f) \<noteq> tv_nsec (sf_fs_last sh)
      then do { f \<leftarrow> fs_reinit_merger sh f; Some (f\<lparr>f_fs_last := sf_fs_last sh\<rparr>) } else Some f) = Some f1"
      "set_ok sh f1" "set_fresh sh f1" "opts_of f1 = opts_of f" "f_reload_interval f1 = f_reload_interval f"
      "set_fresh sh f \<longrightarrow> f1 = f"
    using refresh_ok [OF ref f] by blast
  have eq: "sf_reload_needed sh = sp_needed sp" "sf_fs_last sh = sp_last sp" "fo_reload_interval (opts_of f) = f_reload_interval f1"
    using ref f1(5) by (simp_all add: shared_refines_def Let_def opts_of_def)
  have step: "mtbl_fileset_reload qsort F now sh f =
      (if spec_due sp now (f_reload_interval f1) then fileset_load qsort F now sh f1 else Some (sh, f1))"
    unfolding mtbl_fileset_reload_def f1(1) bind.bind_lunit unfolding spec_due_def eq using iters by auto
  have spec: "spec_reload crc F now i sp = (if spec_due sp now (f_reload_interval f1) then spec_load crc F now sp else sp)"
    by (simp add: spec_reload_def opt eq)
  show ?thesis
  proof (cases "spec_due sp now (f_reload_interval f1)")
    case True
    then have "no_iters sp" by (simp add: spec_due_def)
    then show ?thesis using load_ok [OF ref f1(2,3) qs env, of now] f1(4) unfolding step spec if_P [OF True] by auto
  next
    case False
    then show ?thesis using ref f1 by (simp add: step spec)
  qed
qed

end
