(* ===== verification/Fileset_Run.thy ===== *)
theory Fileset_Run
  imports Fileset_Facts Merger_Files
begin

text \<open>
  Programs that use filesets: the relation between the filesets, iterators and readers of a
  program and the specification of \<open>Fileset_Facts\<close>, its preservation by every call, and what the
  iterators return.
\<close>

subsection \<open>Opening\<close>

definition opts_merger :: "mtbl_fileset_options \<Rightarrow> mtbl_merger_options" where
  "opts_merger opt = \<lparr>mo_merge = fo_merge opt, mo_dupsort = fo_dupsort opt\<rparr>"

text \<open>The answer to a query of tables: their entries in order, the values of a key combined.\<close>

definition query_answer ::
  "(bytes \<Rightarrow> u32) \<Rightarrow> 'z complib \<Rightarrow> mtbl_fileset_options \<Rightarrow> mtbl_reader list \<Rightarrow> reader_iter_type \<Rightarrow> bytes \<Rightarrow> bytes \<Rightarrow>
   entry list \<Rightarrow> bool" where
  "query_answer crc L opt rs ty key0 key1 es \<longleftrightarrow> (\<exists>Ts all. list_all2 (holds_table crc L) rs Ts \<and>
     mset all = mset (filter (\<lambda>e. wanted ty key0 key1 (fst e)) (concat Ts)) \<and>
     sorted_wrt (mle (opts_merger opt)) all \<and> es = combined (fo_merge opt) all)"

lemma files_readers_tables:
  assumes "\<forall>n x. (n, Some x) \<in> set files \<longrightarrow> reads_table crc L x"
  shows "\<exists>Ts. list_all2 (holds_table crc L) (files_readers opt files) Ts \<and> (\<forall>e\<in>set (concat Ts). fst e \<noteq> [])"
  using assms
proof (induction files)
  case (Cons f files)
  obtain Ts where Ts: "list_all2 (holds_table crc L) (files_readers opt files) Ts" "\<forall>e\<in>set (concat Ts). fst e \<noteq> []"
    using Cons by auto
  obtain n r where f: "f = (n, r)" by (cases f)
  show ?case
  proof (cases "\<exists>x. r = Some x \<and> fileset_passes opt n x")
    case True
    then obtain x where x: "r = Some x" "fileset_passes opt n x" by blast
    have "reads_table crc L x" using Cons.prems f x(1) by auto
    then obtain T where "holds_table crc L x T" "\<forall>e\<in>set T. fst e \<noteq> []" unfolding reads_table_def by blast
    then show ?thesis using Ts f x by (intro exI [of _ "T # Ts"]) (auto simp: files_readers_def)
  next
    case False
    then have "files_readers opt (f # files) = files_readers opt files"
      using f by (auto simp: files_readers_def split: option.split)
    then show ?thesis using Ts by auto
  qed
qed (simp add: files_readers_def)

lemma merger_opens:
  assumes ref: "shared_refines crc L sh sp" and f: "set_ok sh f" "set_fresh sh f" and opt: "fileset_options_ok (opts_of f)"
  shows "\<exists>m mit es. fileset_merger crc L sh f = Some m \<and> source_open (mtbl_merger_source m) ty key0 key1 = Some mit \<and>
    query_answer crc L (opts_of f) (files_readers (opts_of f) (sp_files sp)) ty key0 key1 es \<and> merger_kid crc L mit es"
proof -
  let ?rs = "files_readers (opts_of f) (sp_files sp)"
  have live: "all_live (sf_user sh) (mf_entries (sf_my_fs sh))"
    using ref by (intro entries_live) (simp add: shared_refines_def Let_def)
  have "f_merger f = set_refs f (sf_user sh) (mf_entries (sf_my_fs sh))" using f by (simp add: set_ok_def)
  moreover have "files_of (cell (fu_readers (sf_user sh))) (mf_entries (sf_my_fs sh)) = sp_files sp"
    using ref by (simp add: shared_refines_def Let_def)
  ultimately have m: "fileset_merger crc L sh f = Some \<lparr>m_sources = map (mtbl_reader_source crc L) ?rs, m_opt = f_mopt f\<rparr>"
    using set_refs_readers [OF live, of f] by (simp add: fileset_merger_def)
  have mopt: "opts_merger (opts_of f) = f_mopt f" by (simp add: opts_merger_def opts_of_def)
  have ok: "dupsort_ok (f_mopt f)" "merge_ok (f_mopt f)"
    using opt unfolding fileset_options_ok_def Let_def by (simp_all flip: mopt opts_merger_def)
  obtain Ts where Ts: "list_all2 (holds_table crc L) ?rs Ts" "\<forall>e\<in>set (concat Ts). fst e \<noteq> []"
    using files_readers_tables [of "sp_files sp" crc L "opts_of f"] ref unfolding shared_refines_def Let_def by blast
  obtain it all where "source_open (mtbl_merger_source \<lparr>m_sources = map (mtbl_reader_source crc L) ?rs, m_opt = f_mopt f\<rparr>) ty key0 key1 = Some it"
      "mset all = mset (filter (\<lambda>e. wanted ty key0 key1 (fst e)) (concat Ts))" "sorted_wrt (mle (f_mopt f)) all"
      "merger_kid crc L it (combined (mo_merge (f_mopt f)) all)"
    using reader_merger_ok [OF ok Ts] by blast
  then show ?thesis using m Ts(1) unfolding query_answer_def mopt by (auto simp: opts_of_def)
qed

lemma source_open_eq:
  "fileset_source_open crc L qsort F now ty key0 key1 sh i f = do {
     (sh, f) \<leftarrow> mtbl_fileset_reload qsort F now sh f;
     m \<leftarrow> fileset_merger crc L sh f;
     mit \<leftarrow> source_open (mtbl_merger_source m) ty key0 key1;
     Some (fileset_iter_init sh i f mit, f)
   }"
  by (cases ty) (simp_all add: fileset_source_iter_def fileset_source_get_def fileset_source_get_prefix_def
      fileset_source_get_range_def fileset_source_with_def)

subsection \<open>The relation\<close>

definition used :: "'a option list \<Rightarrow> nat" where
  "used xs = length (filter (\<lambda>x. x \<noteq> None) xs)"

lemma used_append [simp]: "used (xs @ [Some x]) = used xs + 1"
  by (simp add: used_def)

lemma used_update: "i < length xs \<Longrightarrow> xs ! i = Some x \<Longrightarrow> used (xs[i := Some y]) = used xs"
  by (induction xs arbitrary: i) (auto simp: used_def nth_Cons split: nat.splits)

lemma used_remove: "i < length xs \<Longrightarrow> xs ! i = Some x \<Longrightarrow> used (xs[i := None]) = used xs - 1 \<and> 0 < used xs"
  by (induction xs arbitrary: i) (auto simp: used_def nth_Cons split: nat.splits)

lemma used_0: "used xs = 0 \<longleftrightarrow> list_all (\<lambda>x. x = None) xs"
  by (auto simp: used_def filter_empty_conv list_all_iff)

lemma used_cell: "cell xs i = Some x \<Longrightarrow> used xs \<noteq> 0"
  unfolding used_0 list_all_iff using cell_Some nth_mem by (metis option.distinct(1))

lemma used_some:
  assumes "used xs \<noteq> 0"
  obtains k x where "cell xs k = Some x"
proof -
  obtain y where "y \<in> set xs" "y \<noteq> None" using assms unfolding used_0 list_all_iff by blast
  then obtain k x where "k < length xs" "xs ! k = Some x" unfolding in_set_conv_nth by auto
  then show thesis by (intro that [of k x]) (simp add: cell_def)
qed

lemma used_map [simp]: "used (map (map_option g) xs) = used xs"
  by (induction xs) (auto simp: used_def)

lemma cell_map [simp]: "cell (map (map_option g) xs) i = map_option g (cell xs i)"
  by (simp add: cell_def)

definition iter_ok ::
  "(bytes \<Rightarrow> u32) \<Rightarrow> 'z complib \<Rightarrow> shared_fileset \<Rightarrow> mtbl_fileset \<Rightarrow> fileset_iter \<Rightarrow> entry list \<Rightarrow> bool" where
  "iter_ok crc L sh f it es \<longleftrightarrow> set_fresh sh f \<and> fi_merger_no it = f_merger_no f \<and> fi_readers it = f_merger f \<and>
     merger_kid crc L (fi_iter it) es"

text \<open>\<open>rest k\<close> is what the iterator \<open>k\<close> has still to return.\<close>

definition shared_ok ::
  "(bytes \<Rightarrow> u32) \<Rightarrow> 'z complib \<Rightarrow> (nat \<Rightarrow> entry list) \<Rightarrow> shared_fileset \<Rightarrow> fileset_sys \<Rightarrow> fileset_spec \<Rightarrow> bool" where
  "shared_ok crc L rest sh sy sp \<longleftrightarrow> shared_refines crc L sh sp \<and>
     sf_n_fs sh = used (sy_sets sy) \<and> sf_n_iters sh = used (sy_iters sy) \<and>
     (\<forall>i f. cell (sy_sets sy) i = Some f \<longrightarrow> set_ok sh f \<and> (length (sy_sets sy) = 1 \<longrightarrow> set_fresh sh f)) \<and>
     (\<forall>k it. cell (sy_iters sy) k = Some it \<longrightarrow>
        (\<exists>f. cell (sy_sets sy) (fi_fs it) = Some f \<and> iter_ok crc L sh f it (rest k)))"

definition refines ::
  "(bytes \<Rightarrow> u32) \<Rightarrow> 'z complib \<Rightarrow> (nat \<Rightarrow> entry list) \<Rightarrow> fileset_sys \<Rightarrow> fileset_spec \<Rightarrow> bool" where
  "refines crc L rest sy sp \<longleftrightarrow>
     map (map_option opts_of) (sy_sets sy) = sp_sets sp \<and> map (map_option fi_fs) (sy_iters sy) = sp_iters sp \<and>
     (\<forall>i opt. cell (sp_sets sp) i = Some opt \<longrightarrow> fileset_options_ok opt) \<and>
     (case sy_shared sy of
        None \<Rightarrow> used (sy_sets sy) = 0 \<and> used (sy_iters sy) = 0
      | Some sh \<Rightarrow> shared_ok crc L rest sh sy sp)"

lemma shared_iter:
  "shared_ok crc L rest sh sy sp \<Longrightarrow> cell (sy_iters sy) k = Some it \<Longrightarrow>
   \<exists>f. cell (sy_sets sy) (fi_fs it) = Some f \<and> iter_ok crc L sh f it (rest k)"
  unfolding shared_ok_def by blast

lemma refines_set:
  assumes "refines crc L rest sy sp" and "cell (sp_sets sp) i \<noteq> None"
  shows "\<exists>sh f. sy_shared sy = Some sh \<and> cell (sy_sets sy) i = Some f \<and> shared_ok crc L rest sh sy sp \<and>
    cell (sp_sets sp) i = Some (opts_of f) \<and> fileset_options_ok (opts_of f)"
proof -
  have sets: "sp_sets sp = map (map_option opts_of) (sy_sets sy)" using assms(1) by (simp add: refines_def)
  then obtain f where f: "cell (sy_sets sy) i = Some f" using assms(2) by auto
  then have "used (sy_sets sy) \<noteq> 0" by (rule used_cell)
  then show ?thesis using assms(1) f sets unfolding refines_def by (auto split: option.splits)
qed

lemma refines_iter:
  assumes "refines crc L rest sy sp" and "cell (sp_iters sp) k \<noteq> None"
  shows "\<exists>sh f it. sy_shared sy = Some sh \<and> cell (sy_iters sy) k = Some it \<and> cell (sy_sets sy) (fi_fs it) = Some f \<and>
    shared_ok crc L rest sh sy sp \<and> iter_ok crc L sh f it (rest k) \<and> cell (sp_iters sp) k = Some (fi_fs it) \<and>
    cell (sp_sets sp) (fi_fs it) = Some (opts_of f)"
proof -
  have sets: "sp_iters sp = map (map_option fi_fs) (sy_iters sy)" "sp_sets sp = map (map_option opts_of) (sy_sets sy)"
    using assms(1) by (simp_all add: refines_def)
  then obtain it where it: "cell (sy_iters sy) k = Some it" using assms(2) by auto
  then have "used (sy_iters sy) \<noteq> 0" by (rule used_cell)
  then obtain sh where "sy_shared sy = Some sh" "shared_ok crc L rest sh sy sp"
    using assms(1) unfolding refines_def by (auto split: option.splits)
  then show ?thesis using it sets unfolding shared_ok_def by fastforce
qed

lemma no_iters_used: "map (map_option fi_fs) (sy_iters sy) = sp_iters sp \<Longrightarrow> no_iters sp \<longleftrightarrow> used (sy_iters sy) = 0"
  by (metis no_iters_def used_0 used_map)

subsection \<open>Every call keeps the relation\<close>

text \<open>Putting back a fileset that was reloaded.\<close>

lemma put_reloaded:
  assumes ref: "refines crc L rest sy sp" and sh: "sy_shared sy = Some sh" and f: "cell (sy_sets sy) i = Some f"
    and clock: "sp_last sp < now"
    and r: "shared_refines crc L sh' sp'" "set_ok sh' f'" "set_fresh sh' f'" "opts_of f' = opts_of f"
      "sf_n_fs sh' = sf_n_fs sh" "sf_n_iters sh' = sf_n_iters sh"
      "sh' = sh \<and> (set_fresh sh f \<longrightarrow> f' = f) \<or> no_iters sp \<and> sf_fs_last sh' = now"
    and sp': "sp_sets sp' = sp_sets sp" "sp_iters sp' = sp_iters sp"
  shows "refines crc L rest (put_set sy i (sh', f')) sp'"
proof -
  have ok: "shared_ok crc L rest sh sy sp" and sets: "map (map_option opts_of) (sy_sets sy) = sp_sets sp"
      "map (map_option fi_fs) (sy_iters sy) = sp_iters sp"
    using ref sh by (simp_all add: refines_def)
  have i: "i < length (sy_sets sy)" "sy_sets sy ! i = Some f" using cell_Some [OF f] by simp_all
  let ?sets = "(sy_sets sy)[i := Some f']"
  have same: "map (map_option opts_of) ?sets = sp_sets sp"
    using i r(4) by (simp add: map_update flip: sets(1)) (simp add: list_update_same_conv)
  have last: "sf_fs_last sh < now" using ok clock by (simp add: shared_ok_def shared_refines_def Let_def)
  have "set_ok sh' g \<and> (length ?sets = 1 \<longrightarrow> set_fresh sh' g)" if g: "cell ?sets j = Some g" for j g
  proof (cases "j = i")
    case False
    then have "set_ok sh g" "length (sy_sets sy) \<noteq> 1"
      using g ok i(1) cell_Some [OF g] by (auto simp: cell_update shared_ok_def)
    then show ?thesis using r(7) last by (auto simp: set_ok_def set_fresh_def)
  qed (use g i(1) r(2,3) in \<open>auto simp: cell_update\<close>)
  moreover have "\<exists>g. cell ?sets (fi_fs it) = Some g \<and> iter_ok crc L sh' g it (rest k)" if it: "cell (sy_iters sy) k = Some it" for k it
  proof -
    have "\<not> no_iters sp" using used_cell [OF it] no_iters_used [OF sets(2)] by simp
    then have "sh' = sh" "set_fresh sh f \<longrightarrow> f' = f" using r(7) by auto
    moreover obtain g where "cell (sy_sets sy) (fi_fs it) = Some g" "iter_ok crc L sh g it (rest k)"
      using ok it unfolding shared_ok_def by blast
    ultimately show ?thesis using f i(1) by (auto simp: cell_update iter_ok_def)
  qed
  ultimately have "shared_ok crc L rest sh' (put_set sy i (sh', f')) sp'"
    using ok r(1,5,6) used_update [OF i, of f'] by (simp add: shared_ok_def put_set_def)
  then show ?thesis using ref sets(2) same sp' by (simp add: refines_def put_set_def)
qed

lemma reload_step:
  assumes ref: "refines crc L rest sy sp" and qs: "qsort_ok qsort" and clock: "sp_last sp < now"
    and env: "filesys_ok crc L (sp_setfile sp) (sp_setdir sp) F"
    and sh: "sy_shared sy = Some sh" and f: "cell (sy_sets sy) i = Some f"
  shows "\<exists>sh' f'. mtbl_fileset_reload qsort F now sh f = Some (sh', f') \<and> opts_of f' = opts_of f \<and>
    set_ok sh' f' \<and> set_fresh sh' f' \<and> shared_refines crc L sh' (spec_reload crc F now i sp) \<and>
    refines crc L rest (put_set sy i (sh', f')) (spec_reload crc F now i sp)"
proof -
  have ok: "shared_ok crc L rest sh sy sp" and sets: "map (map_option opts_of) (sy_sets sy) = sp_sets sp"
      "map (map_option fi_fs) (sy_iters sy) = sp_iters sp"
    using ref sh by (simp_all add: refines_def)
  have h: "shared_refines crc L sh sp" "set_ok sh f" "sf_n_iters sh = 0 \<longleftrightarrow> no_iters sp"
    using ok f no_iters_used [OF sets(2)] by (auto simp: shared_ok_def)
  have "cell (sp_sets sp) i = Some (opts_of f)" using f by (simp flip: sets(1))
  with reload_sound [OF h(1,2) qs env _ h(3)] obtain sh' f' where r: "mtbl_fileset_reload qsort F now sh f = Some (sh', f')"
      "shared_refines crc L sh' (spec_reload crc F now i sp)" "set_ok sh' f'" "set_fresh sh' f'" "opts_of f' = opts_of f"
      "sf_n_fs sh' = sf_n_fs sh" "sf_n_iters sh' = sf_n_iters sh"
      "sh' = sh \<and> (set_fresh sh f \<longrightarrow> f' = f) \<or> no_iters sp \<and> sf_fs_last sh' = now"
    by blast
  have "sp_sets (spec_reload crc F now i sp) = sp_sets sp" "sp_iters (spec_reload crc F now i sp) = sp_iters sp"
    by (simp_all add: spec_reload_def spec_load_def split: option.split)
  from put_reloaded [OF ref sh f clock r(2-8) this] show ?thesis using r by blast
qed

lemma sets_of: "refines crc L rest sy sp \<Longrightarrow> map (map_option opts_of) (sy_sets sy) = sp_sets sp"
  and iters_of: "refines crc L rest sy sp \<Longrightarrow> map (map_option fi_fs) (sy_iters sy) = sp_iters sp"
  by (simp_all add: refines_def)

lemma step_reload_now:
  assumes ref: "refines crc L rest sy sp" and qs: "qsort_ok qsort" and clock: "sp_last sp < now"
    and env: "filesys_ok crc L (sp_setfile sp) (sp_setdir sp) F" and i: "op_ok sp (Fs_reload_now i)"
  shows "\<exists>sy'. fileset_step crc L qsort sy (F, now, Fs_reload_now i) = Some (None, sy') \<and>
    refines crc L rest sy' (spec_step crc sp (F, now, Fs_reload_now i))"
proof -
  obtain sh f where s: "sy_shared sy = Some sh" "cell (sy_sets sy) i = Some f" "shared_ok crc L rest sh sy sp"
    using refines_set [OF ref, of i] i by auto
  have one: "length (sy_sets sy) = 1" using i sets_of [OF ref] by (metis length_map op_ok.simps(2))
  then have i0: "i = 0" "sy_sets sy = [Some f]" using cell_Some [OF s(2)] by (auto simp: length_Suc_conv)
  have sh: "shared_refines crc L sh sp" "set_ok sh f" "set_fresh sh f" "sf_n_iters sh = used (sy_iters sy)"
    using s one by (auto simp: shared_ok_def)
  have no: "no_iters sp \<longleftrightarrow> sf_n_iters sh = 0" using no_iters_used [OF iters_of [OF ref]] sh(4) by simp
  show ?thesis
  proof (cases "no_iters sp")
    case True
    obtain sh' f' where l: "fileset_load qsort F now sh f = Some (sh', f')" "shared_refines crc L sh' (spec_load crc F now sp)"
        "set_ok sh' f'" "set_fresh sh' f'" "opts_of f' = opts_of f" "sf_n_fs sh' = sf_n_fs sh"
        "sf_n_iters sh' = sf_n_iters sh" "sf_fs_last sh' = now"
      using load_ok [OF sh(1-3) qs env] by blast
    have "sp_sets (spec_load crc F now sp) = sp_sets sp" "sp_iters (spec_load crc F now sp) = sp_iters sp"
      by (simp_all add: spec_load_def)
    then have "refines crc L rest (put_set sy i (sh', f')) (spec_load crc F now sp)"
      using put_reloaded [OF ref s(1,2) clock l(2-7)] l(8) True by blast
    then show ?thesis using s l(1) True no by (simp add: mtbl_fileset_reload_now_def)
  next
    case False
    have "refines crc L rest (put_set sy i (sh\<lparr>sf_reload_needed := True\<rparr>, f)) (sp\<lparr>sp_needed := True\<rparr>)"
      using ref s(1,3) i0 by (auto simp: refines_def shared_ok_def put_set_def iter_ok_def)
    then show ?thesis using s no False by (simp add: mtbl_fileset_reload_now_def)
  qed
qed

text \<open>A fileset that has never been loaded has no files.\<close>

definition spec_clock :: "fileset_spec \<Rightarrow> bool" where
  "spec_clock sp \<longleftrightarrow> Timespec 0 0 \<le> sp_last sp \<and> (sp_last sp = Timespec 0 0 \<longrightarrow> sp_files sp = [])"

lemma spec_clock_step:
  assumes "spec_clock sp" and "call_ok crc L sp c"
  shows "spec_clock (spec_step crc sp c)"
proof -
  obtain F now op where c: "c = (F, now, op)" by (cases c)
  have now: "sp_last sp < now" using assms(2) by (simp add: call_ok_def c)
  then have "Timespec 0 0 < now" using assms(1) unfolding spec_clock_def by (auto intro: le_less_trans)
  then have "spec_clock (spec_load crc F now sp')" for sp' by (auto simp: spec_clock_def spec_load_def)
  then have "spec_clock (spec_reload crc F now i sp')" if "spec_clock sp'" for i sp'
    using that by (simp add: spec_reload_def split: option.split)
  moreover have "spec_clock (sp'\<lparr>sp_iters := iters\<rparr>) = spec_clock sp'" "spec_clock (sp'\<lparr>sp_sets := sets\<rparr>) = spec_clock sp'"
      "spec_clock (sp'\<lparr>sp_needed := b\<rparr>) = spec_clock sp'" for sp' iters sets b
    by (simp_all add: spec_clock_def)
  ultimately show ?thesis
    using assms(1) \<open>\<And>sp'. spec_clock (spec_load crc F now sp')\<close> by (cases op) (auto simp: c Let_def split: option.split)
qed

lemma opts_of_set [simp]: "opts_of (mtbl_fileset_set_options opt) = opt"
  by (simp add: opts_of_def mtbl_fileset_set_options_def mtbl_merger_options_init_def
      mtbl_merger_options_set_merge_func_def mtbl_merger_options_set_dupsort_func_def)

lemma new_set_ok:
  assumes "shared_refines crc L sh sp" and "spec_clock sp"
  shows "set_ok sh (mtbl_fileset_set_options opt)"
proof -
  have "sf_fs_last sh = sp_last sp" "files_of (cell (fu_readers (sf_user sh))) (mf_entries (sf_my_fs sh)) = sp_files sp"
    using assms(1) by (simp_all add: shared_refines_def Let_def)
  then show ?thesis
    using assms(2) by (auto simp: set_ok_def set_fresh_def spec_clock_def mtbl_fileset_set_options_def files_of_def)
qed

lemma step_dup:
  assumes ref: "refines crc L rest sy sp" and clock: "spec_clock sp" and i: "op_ok sp (Fs_dup i opt)"
  shows "\<exists>sy'. fileset_step crc L qsort sy (F, now, Fs_dup i opt) = Some (None, sy') \<and>
    refines crc L rest sy' (spec_step crc sp (F, now, Fs_dup i opt))"
proof -
  obtain sh f where s: "sy_shared sy = Some sh" "cell (sy_sets sy) i = Some f" "shared_ok crc L rest sh sy sp"
    using refines_set [OF ref, of i] i by auto
  let ?f = "mtbl_fileset_set_options opt" and ?sh = "sh\<lparr>sf_n_fs := sf_n_fs sh + 1\<rparr>"
  let ?sy = "sy\<lparr>sy_shared := Some ?sh, sy_sets := sy_sets sy @ [Some ?f]\<rparr>"
  have new: "set_ok sh ?f" using new_set_ok s(3) clock by (auto simp: shared_ok_def)
  have ne: "sy_sets sy \<noteq> []" using cell_Some [OF s(2)] by auto
  have it: "cell (sy_sets sy) j = Some g \<Longrightarrow> cell (sy_sets sy @ [Some ?f]) j = Some g" for j g
    using cell_Some [of "sy_sets sy" j g] by (simp add: cell_append)
  have "set_ok ?sh g \<and> (length (sy_sets ?sy) = 1 \<longrightarrow> set_fresh ?sh g)" if "cell (sy_sets ?sy) j = Some g" for j g
    using that s(3) new ne by (auto simp: shared_ok_def cell_append split: if_splits)
  moreover have "\<exists>g. cell (sy_sets ?sy) (fi_fs it) = Some g \<and> iter_ok crc L ?sh g it (rest k)" if h: "cell (sy_iters ?sy) k = Some it" for k it
  proof -
    obtain g where "cell (sy_sets sy) (fi_fs it) = Some g" "iter_ok crc L sh g it (rest k)"
      using shared_iter [OF s(3), of k it] h by auto
    then show ?thesis using it by (intro exI [of _ g]) (simp add: iter_ok_def)
  qed
  ultimately have "shared_ok crc L rest ?sh ?sy (spec_step crc sp (F, now, Fs_dup i opt))"
    using s(3) ne unfolding shared_ok_def by simp
  moreover have "\<forall>j o'. cell (sp_sets sp @ [Some opt]) j = Some o' \<longrightarrow> fileset_options_ok o'"
    using ref i by (auto simp: refines_def cell_append)
  ultimately have "refines crc L rest ?sy (spec_step crc sp (F, now, Fs_dup i opt))"
    using sets_of [OF ref] iters_of [OF ref] by (simp add: refines_def)
  moreover have "fileset_step crc L qsort sy (F, now, Fs_dup i opt) = Some (None, ?sy)"
    using s by (simp add: mtbl_fileset_dup_def)
  ultimately show ?thesis by blast
qed

lemma step_destroy:
  assumes ref: "refines crc L rest sy sp" and i: "op_ok sp (Fs_destroy i)"
  shows "\<exists>sy'. fileset_step crc L qsort sy (F, now, Fs_destroy i) = Some (None, sy') \<and>
    refines crc L rest sy' (spec_step crc sp (F, now, Fs_destroy i))"
proof -
  obtain sh f where s: "sy_shared sy = Some sh" "cell (sy_sets sy) i = Some f" "shared_ok crc L rest sh sy sp"
    using refines_set [OF ref, of i] i by auto
  let ?sets = "(sy_sets sy)[i := None]"
  have len: "i < length (sy_sets sy)" "sy_sets sy ! i = Some f" using cell_Some [OF s(2)] by simp_all
  have n: "sf_n_fs sh = used (sy_sets sy)" "used ?sets = used (sy_sets sy) - 1" "0 < used (sy_sets sy)"
    using s(3) used_remove [OF len] by (simp_all add: shared_ok_def)
  have sets: "map (map_option opts_of) ?sets = (sp_sets sp)[i := None]" using sets_of [OF ref] by (simp add: map_update)
  have other: "fi_fs it \<noteq> i" if "cell (sy_iters sy) k = Some it" for k it
  proof -
    have "Some (fi_fs it) = sp_iters sp ! k" "k < length (sp_iters sp)"
      using cell_Some [OF that] iters_of [OF ref] by (auto simp flip: iters_of [OF ref])
    then have "Some (fi_fs it) \<in> set (sp_iters sp)" by simp
    then show ?thesis using i by auto
  qed
  have opts: "\<forall>j o'. cell ((sp_sets sp)[i := None]) j = Some o' \<longrightarrow> fileset_options_ok o'"
    using ref cell_not_None [of "sp_sets sp" i] i by (auto simp: refines_def cell_update)
  show ?thesis
  proof (cases "used ?sets = 0")
    case True
    have own: "fs.owns (sf_user sh) (map fe_ptr (mf_entries (sf_my_fs sh)))" "mf_unload (sf_my_fs sh) = Some fs_unload"
      using s(3) by (simp_all add: shared_ok_def shared_refines_def Let_def fs.entries_ok_def)
    obtain u where "my_fileset_destroy (sf_my_fs sh) (sf_user sh) = Some u"
      using fs.destroy_entries_ok [OF own(1)] own(2) by (auto simp: my_fileset_destroy_def)
    then have "fileset_step crc L qsort sy (F, now, Fs_destroy i) =
        Some (None, sy\<lparr>sy_shared := None, sy_sets := ?sets\<rparr>)"
      using s n True by (simp add: mtbl_fileset_destroy_def)
    moreover have "used (sy_iters sy) = 0"
    proof (rule ccontr)
      assume "used (sy_iters sy) \<noteq> 0"
      then obtain k it where it: "cell (sy_iters sy) k = Some it" by (rule used_some)
      then obtain g where g: "cell (sy_sets sy) (fi_fs it) = Some g" using shared_iter [OF s(3)] by blast
      then have "cell ?sets (fi_fs it) = Some g" using other [OF it] len(1) by (simp add: cell_update)
      from used_cell [OF this] show False using True by simp
    qed
    ultimately show ?thesis using True sets opts iters_of [OF ref] by (simp add: refines_def)
  next
    case False
    then have "fileset_step crc L qsort sy (F, now, Fs_destroy i) =
        Some (None, sy\<lparr>sy_shared := Some (sh\<lparr>sf_n_fs := sf_n_fs sh - 1\<rparr>), sy_sets := ?sets\<rparr>)"
      using s n by (simp add: mtbl_fileset_destroy_def)
    moreover have "shared_ok crc L rest (sh\<lparr>sf_n_fs := sf_n_fs sh - 1\<rparr>)
        (sy\<lparr>sy_shared := Some (sh\<lparr>sf_n_fs := sf_n_fs sh - 1\<rparr>), sy_sets := ?sets\<rparr>) (spec_step crc sp (F, now, Fs_destroy i))"
      using s(3) n len(1) other unfolding shared_ok_def
      by (auto simp: cell_update iter_ok_def split: if_splits)
    ultimately show ?thesis using sets opts iters_of [OF ref] by (simp add: refines_def)
  qed
qed

lemma add_iter:
  assumes ref: "refines crc L rest sy sp" and sh: "sy_shared sy = Some sh" and f: "cell (sy_sets sy) i = Some f"
    and fr: "set_fresh sh f" and kid: "merger_kid crc L mit es"
  shows "refines crc L (rest(length (sy_iters sy) := es))
    (sy\<lparr>sy_shared := Some (fst (fileset_iter_init sh i f mit)), sy_iters := sy_iters sy @ [Some (snd (fileset_iter_init sh i f mit))]\<rparr>)
    (sp\<lparr>sp_iters := sp_iters sp @ [Some i]\<rparr>)"
proof -
  let ?rest = "rest(length (sy_iters sy) := es)" and ?it = "snd (fileset_iter_init sh i f mit)"
  let ?sh = "sh\<lparr>sf_n_iters := sf_n_iters sh + 1\<rparr>" and ?iters = "sy_iters sy @ [Some ?it]"
  have ok: "shared_ok crc L rest sh sy sp" using ref sh by (simp add: refines_def)
  have "\<exists>g. cell (sy_sets sy) (fi_fs it) = Some g \<and> iter_ok crc L ?sh g it (?rest k)" if it: "cell ?iters k = Some it" for k it
  proof (cases "k = length (sy_iters sy)")
    case True
    then show ?thesis using it f fr kid by (auto simp: cell_append fileset_iter_init_def iter_ok_def)
  next
    case False
    then have "cell (sy_iters sy) k = Some it" using it by (simp add: cell_append)
    from shared_iter [OF ok this] show ?thesis using False by (auto simp: iter_ok_def)
  qed
  then have "shared_ok crc L ?rest ?sh (sy\<lparr>sy_shared := Some ?sh, sy_iters := ?iters\<rparr>) (sp\<lparr>sp_iters := sp_iters sp @ [Some i]\<rparr>)"
    using ok unfolding shared_ok_def by simp
  then show ?thesis using ref by (simp add: refines_def fileset_iter_init_def)
qed

lemma step_open:
  assumes ref: "refines crc L rest sy sp" and qs: "qsort_ok qsort" and clock: "sp_last sp < now"
    and env: "filesys_ok crc L (sp_setfile sp) (sp_setdir sp) F" and i: "op_ok sp (Fs_open i ty key0 key1)"
  shows "\<exists>sy' es opt. fileset_step crc L qsort sy (F, now, Fs_open i ty key0 key1) = Some (None, sy') \<and>
    refines crc L (rest(length (sp_iters sp) := es)) sy' (spec_step crc sp (F, now, Fs_open i ty key0 key1)) \<and>
    cell (sp_sets sp) i = Some opt \<and>
    query_answer crc L opt (files_readers opt (sp_files (spec_reload crc F now i sp))) ty key0 key1 es"
proof -
  obtain sh f where s: "sy_shared sy = Some sh" "cell (sy_sets sy) i = Some f"
      "cell (sp_sets sp) i = Some (opts_of f)" "fileset_options_ok (opts_of f)"
    using refines_set [OF ref, of i] i by auto
  obtain sh' f' where r: "mtbl_fileset_reload qsort F now sh f = Some (sh', f')" "opts_of f' = opts_of f" "set_ok sh' f'"
      "set_fresh sh' f'" "shared_refines crc L sh' (spec_reload crc F now i sp)"
      "refines crc L rest (put_set sy i (sh', f')) (spec_reload crc F now i sp)"
    using reload_step [OF ref qs clock env s(1,2)] by blast
  obtain m mit es where o: "fileset_merger crc L sh' f' = Some m" "source_open (mtbl_merger_source m) ty key0 key1 = Some mit"
      "query_answer crc L (opts_of f') (files_readers (opts_of f') (sp_files (spec_reload crc F now i sp))) ty key0 key1 es"
      "merger_kid crc L mit es"
    using merger_opens [OF r(5,3,4)] s(4) r(2) by metis
  let ?sy = "put_set sy i (sh', f')"
  have sy: "sy_shared ?sy = Some sh'" "cell (sy_sets ?sy) i = Some f'" "sy_iters ?sy = sy_iters sy"
    using cell_Some [OF s(2)] by (simp_all add: put_set_def cell_update)
  have "length (sy_iters ?sy) = length (sp_iters sp)" using iters_of [OF ref] sy(3) by (metis length_map)
  with add_iter [OF r(6) sy(1,2) r(4) o(4)]
  have "refines crc L (rest(length (sp_iters sp) := es)) (?sy\<lparr>sy_shared := Some (fst (fileset_iter_init sh' i f' mit)),
      sy_iters := sy_iters sy @ [Some (snd (fileset_iter_init sh' i f' mit))]\<rparr>) (spec_step crc sp (F, now, Fs_open i ty key0 key1))"
    using sy(3) by (simp add: Let_def)
  moreover have "fileset_step crc L qsort sy (F, now, Fs_open i ty key0 key1) = Some (None,
      ?sy\<lparr>sy_shared := Some (fst (fileset_iter_init sh' i f' mit)),
        sy_iters := sy_iters sy @ [Some (snd (fileset_iter_init sh' i f' mit))]\<rparr>)"
    using s(1,2) r(1) o(1,2) by (simp add: source_open_eq put_set_def split: prod.split)
  ultimately show ?thesis using s(3) o(3) r(2) by metis
qed

lemma kid_next:
  assumes "merger_kid crc L it es"
  shows "\<exists>it'. mtbl_iter_next it = Some (if es = [] then None else Some (hd es), it') \<and> merger_kid crc L it' (tl es)"
proof (cases es)
  case Nil
  then show ?thesis using merged.step_Nil [of crc L it] assms by simp
next
  case (Cons e es')
  then show ?thesis using merged.step_Cons [of crc L it e es'] assms by simp
qed

lemma step_next:
  assumes ref: "refines crc L rest sy sp" and k: "op_ok sp (Fs_next k)"
  shows "\<exists>sy'. fileset_step crc L qsort sy (F, now, Fs_next k) =
      Some (if rest k = [] then None else Some (hd (rest k)), sy') \<and>
    refines crc L (rest(k := tl (rest k))) sy' (spec_step crc sp (F, now, Fs_next k))"
proof -
  obtain sh f it where s: "sy_shared sy = Some sh" "cell (sy_iters sy) k = Some it" "cell (sy_sets sy) (fi_fs it) = Some f"
      "shared_ok crc L rest sh sy sp" "iter_ok crc L sh f it (rest k)"
    using refines_iter [OF ref, of k] k by auto
  have live: "all_live (sf_user sh) (mf_entries (sf_my_fs sh))" and ok: "set_ok sh f"
    using s(3,4) by (auto simp: shared_ok_def shared_refines_def Let_def intro: entries_live)
  then have "iter_usable sh f it"
    using s(5) set_refs_live [OF live] by (auto simp: iter_usable_def iter_ok_def set_ok_def list_all_iff)
  moreover obtain mit where mit: "mtbl_iter_next (fi_iter it) = Some (if rest k = [] then None else Some (hd (rest k)), mit)"
      "merger_kid crc L mit (tl (rest k))"
    using kid_next s(5) unfolding iter_ok_def by blast
  ultimately have n: "fileset_iter_next sh f it = Some (if rest k = [] then None else Some (hd (rest k)), it\<lparr>fi_iter := mit\<rparr>)"
    by (simp add: fileset_iter_next_def)
  let ?iters = "(sy_iters sy)[k := Some (it\<lparr>fi_iter := mit\<rparr>)]"
  have len: "k < length (sy_iters sy)" "sy_iters sy ! k = Some it" using cell_Some [OF s(2)] by simp_all
  have "\<exists>g. cell (sy_sets sy) (fi_fs it') = Some g \<and> iter_ok crc L sh g it' ((rest(k := tl (rest k))) j)"
    if h: "cell ?iters j = Some it'" for j it'
  proof (cases "j = k")
    case True
    then show ?thesis using h len(1) s(3,5) mit(2) by (auto simp: cell_update iter_ok_def)
  next
    case False
    then show ?thesis using h len(1) shared_iter [OF s(4), of j it'] by (simp add: cell_update)
  qed
  then have "shared_ok crc L (rest(k := tl (rest k))) sh (sy\<lparr>sy_iters := ?iters\<rparr>) sp"
    using s(4) used_update [OF len] unfolding shared_ok_def by simp
  moreover have "map (map_option fi_fs) ?iters = sp_iters sp"
    using len by (simp add: map_update flip: iters_of [OF ref]) (simp add: list_update_same_conv)
  ultimately have "refines crc L (rest(k := tl (rest k))) (sy\<lparr>sy_iters := ?iters\<rparr>) sp"
    using ref s(1) by (simp add: refines_def)
  then show ?thesis using s(1-3) n by simp
qed

lemma step_free:
  assumes ref: "refines crc L rest sy sp" and qs: "qsort_ok qsort" and clock: "sp_last sp < now"
    and env: "filesys_ok crc L (sp_setfile sp) (sp_setdir sp) F" and k: "op_ok sp (Fs_free k)"
  shows "\<exists>sy'. fileset_step crc L qsort sy (F, now, Fs_free k) = Some (None, sy') \<and>
    refines crc L rest sy' (spec_step crc sp (F, now, Fs_free k))"
proof -
  obtain sh f it where s: "sy_shared sy = Some sh" "cell (sy_iters sy) k = Some it" "cell (sy_sets sy) (fi_fs it) = Some f"
      "shared_ok crc L rest sh sy sp" "cell (sp_iters sp) k = Some (fi_fs it)"
    using refines_iter [OF ref, of k] k by auto
  let ?sh = "sh\<lparr>sf_n_iters := sf_n_iters sh - 1\<rparr>" and ?iters = "(sy_iters sy)[k := None]"
  let ?sy = "sy\<lparr>sy_shared := Some ?sh, sy_iters := ?iters\<rparr>" and ?sp = "sp\<lparr>sp_iters := (sp_iters sp)[k := None]\<rparr>"
  have len: "k < length (sy_iters sy)" "sy_iters sy ! k = Some it" using cell_Some [OF s(2)] by simp_all
  have "\<exists>g. cell (sy_sets sy) (fi_fs it') = Some g \<and> iter_ok crc L ?sh g it' (rest j)" if h: "cell ?iters j = Some it'" for j it'
  proof -
    have "cell (sy_iters sy) j = Some it'" using h len(1) by (simp add: cell_update split: if_splits)
    from shared_iter [OF s(4) this] show ?thesis by (simp add: iter_ok_def)
  qed
  then have "shared_ok crc L rest ?sh ?sy ?sp" using s(4) used_remove [OF len] unfolding shared_ok_def by simp
  then have ref': "refines crc L rest ?sy ?sp" using ref by (simp add: refines_def map_update)
  have sy: "sy_shared ?sy = Some ?sh" "cell (sy_sets ?sy) (fi_fs it) = Some f" using s(3) by simp_all
  obtain sh' f' where "mtbl_fileset_reload qsort F now ?sh f = Some (sh', f')"
      "refines crc L rest (put_set ?sy (fi_fs it) (sh', f')) (spec_reload crc F now (fi_fs it) ?sp)"
    using reload_step [OF ref' qs _ _ sy, of now F] clock env by auto
  moreover have "(put_set sy (fi_fs it) (sh', f'))\<lparr>sy_iters := ?iters\<rparr> = put_set ?sy (fi_fs it) (sh', f')" for sh' f'
    by (simp add: put_set_def)
  ultimately show ?thesis using s(1-3,5) by (simp add: fileset_iter_free_def)
qed

lemma step_iters: "length (sp_iters sp) \<le> length (sp_iters (spec_step crc sp c))"
proof -
  obtain F now op where c: "c = (F, now, op)" by (cases c)
  have "sp_iters (spec_reload crc F now i sp') = sp_iters sp'" for i sp'
    by (simp add: spec_reload_def spec_load_def split: option.split)
  then show ?thesis by (cases op) (simp_all add: c Let_def spec_load_def split: option.split)
qed

text \<open>What a call returns, and what is left of the iterators after it.\<close>

definition step_served :: "(nat \<Rightarrow> entry list) \<Rightarrow> fileset_call \<Rightarrow> entry option \<Rightarrow> (nat \<Rightarrow> entry list) \<Rightarrow> nat \<Rightarrow> bool" where
  "step_served rest c e rest' n \<longleftrightarrow> (\<forall>k<n.
     if snd (snd c) = Fs_next k then e = (if rest k = [] then None else Some (hd (rest k))) \<and> rest' k = tl (rest k)
     else rest' k = rest k)"

lemma step_ok:
  assumes ref: "refines crc L rest sy sp" and clock: "spec_clock sp" and qs: "qsort_ok qsort" and c: "call_ok crc L sp c"
  shows "\<exists>e sy' rest'. fileset_step crc L qsort sy c = Some (e, sy') \<and> refines crc L rest' sy' (spec_step crc sp c) \<and>
    step_served rest c e rest' (length (sp_iters sp))"
proof -
  obtain F now op where ceq: "c = (F, now, op)" by (cases c)
  have h: "sp_last sp < now" "filesys_ok crc L (sp_setfile sp) (sp_setdir sp) F" "op_ok sp op"
    using c by (simp_all add: call_ok_def ceq)
  show ?thesis
  proof (cases op)
    case (Fs_reload i)
    obtain sh f where s: "sy_shared sy = Some sh" "cell (sy_sets sy) i = Some f"
      using refines_set [OF ref, of i] h(3) Fs_reload by auto
    from reload_step [OF ref qs h(1,2) s] show ?thesis using s by (auto simp: ceq Fs_reload step_served_def)
  next
    case (Fs_reload_now i)
    from step_reload_now [OF ref qs h(1,2), of i] show ?thesis
      using h(3) unfolding ceq Fs_reload_now step_served_def by auto
  next
    case (Fs_dup i opt)
    from step_dup [OF ref clock, of i opt] show ?thesis using h(3) unfolding ceq Fs_dup step_served_def by auto
  next
    case (Fs_destroy i)
    from step_destroy [OF ref, of i] show ?thesis using h(3) unfolding ceq Fs_destroy step_served_def by auto
  next
    case (Fs_open i ty key0 key1)
    from step_open [OF ref qs h(1,2), of i ty key0 key1] obtain sy' es where
      "fileset_step crc L qsort sy (F, now, Fs_open i ty key0 key1) = Some (None, sy')"
      "refines crc L (rest(length (sp_iters sp) := es)) sy' (spec_step crc sp (F, now, Fs_open i ty key0 key1))"
      using h(3) Fs_open by blast
    then show ?thesis unfolding ceq Fs_open step_served_def by fastforce
  next
    case (Fs_next k)
    from step_next [OF ref, of k qsort F now] h(3) Fs_next obtain sy' where
      "fileset_step crc L qsort sy (F, now, Fs_next k) = Some (if rest k = [] then None else Some (hd (rest k)), sy')"
      "refines crc L (rest(k := tl (rest k))) sy' (spec_step crc sp (F, now, Fs_next k))"
      by blast
    then show ?thesis unfolding ceq Fs_next step_served_def by (intro exI conjI) auto
  next
    case (Fs_free k)
    from step_free [OF ref qs h(1,2), of k] show ?thesis using h(3) unfolding ceq Fs_free step_served_def by auto
  qed
qed

text \<open>The results of the calls of \<open>mtbl_iter_next\<close> on one iterator.\<close>

definition next_results :: "nat \<Rightarrow> fileset_call list \<Rightarrow> entry option list \<Rightarrow> entry option list" where
  "next_results k cs outs = map snd (filter (\<lambda>(c, e). snd (snd c) = Fs_next k) (zip cs outs))"

definition serves :: "entry list \<Rightarrow> entry option list \<Rightarrow> bool" where
  "serves es outs \<longleftrightarrow> outs = take (length outs) (map Some es @ replicate (length outs) None)"

lemma serves_Nil [simp]: "serves es []"
  by (simp add: serves_def)

lemma serves_Cons: "serves es (e # outs) \<longleftrightarrow> e = (if es = [] then None else Some (hd es)) \<and> serves (tl es) outs"
proof (cases es)
  case Nil
  then show ?thesis by (simp add: serves_def)
next
  case (Cons a es')
  have "take n (map Some es' @ replicate (Suc n) None) = take n (map Some es' @ replicate n None)" for n
    by (simp add: take_append replicate_append_same [symmetric])
  then show ?thesis using Cons by (simp add: serves_def)
qed

lemma run_ok_from:
  assumes "refines crc L rest sy sp" and "spec_clock sp" and "qsort_ok qsort" and "calls_ok crc L sp cs"
  shows "\<exists>outs sy' rest'. fileset_run crc L qsort sy cs = Some (outs, sy') \<and>
    refines crc L rest' sy' (foldl (spec_step crc) sp cs) \<and> length outs = length cs \<and>
    (\<forall>k<length (sp_iters sp). serves (rest k) (next_results k cs outs))"
  using assms
proof (induction cs arbitrary: rest sy sp)
  case Nil
  then show ?case by (auto simp: next_results_def)
next
  case (Cons c cs)
  have c: "call_ok crc L sp c" "calls_ok crc L (spec_step crc sp c) cs" using Cons.prems(4) by simp_all
  obtain e sy1 rest1 where s: "fileset_step crc L qsort sy c = Some (e, sy1)" "refines crc L rest1 sy1 (spec_step crc sp c)"
      "step_served rest c e rest1 (length (sp_iters sp))"
    using step_ok [OF Cons.prems(1,2,3) c(1)] by blast
  obtain outs sy' rest' where r: "fileset_run crc L qsort sy1 cs = Some (outs, sy')"
      "refines crc L rest' sy' (foldl (spec_step crc) (spec_step crc sp c) cs)" "length outs = length cs"
      "\<forall>k<length (sp_iters (spec_step crc sp c)). serves (rest1 k) (next_results k cs outs)"
    using Cons.IH [OF s(2) spec_clock_step [OF Cons.prems(2) c(1)] Cons.prems(3) c(2)] by blast
  have "serves (rest k) (next_results k (c # cs) (e # outs))" if k: "k < length (sp_iters sp)" for k
  proof -
    have sv: "serves (rest1 k) (next_results k cs outs)" using r(4) k step_iters [of sp crc c] by simp
    show ?thesis
    proof (cases "snd (snd c) = Fs_next k")
      case True
      then have "e = (if rest k = [] then None else Some (hd (rest k)))" "rest1 k = tl (rest k)"
        using s(3) k unfolding step_served_def by auto
      then show ?thesis using sv True by (simp add: next_results_def serves_Cons)
    next
      case False
      then have "rest1 k = rest k" using s(3) k unfolding step_served_def by auto
      then show ?thesis using sv False by (simp add: next_results_def)
    qed
  qed
  then show ?case using s(1) r(1-3) by auto
qed

lemma calls_ok_append:
  "calls_ok crc L sp (cs @ ds) \<longleftrightarrow> calls_ok crc L sp cs \<and> calls_ok crc L (foldl (spec_step crc) sp cs) ds"
  by (induction cs arbitrary: sp) simp_all

lemma spec_clock_run: "spec_clock sp \<Longrightarrow> calls_ok crc L sp cs \<Longrightarrow> spec_clock (foldl (spec_step crc) sp cs)"
  by (induction cs arbitrary: sp) (auto intro: spec_clock_step)

lemma run_append:
  "fileset_run crc L qsort sy cs = Some (outs1, sy1) \<Longrightarrow> fileset_run crc L qsort sy1 ds = Some (outs2, sy2) \<Longrightarrow>
   fileset_run crc L qsort sy (cs @ ds) = Some (outs1 @ outs2, sy2)"
  by (induction cs arbitrary: sy outs1) (auto split: Option.bind_splits)

subsection \<open>Starting\<close>

lemma rstrip_slashes_sub: "set (rstrip_slashes s) \<subseteq> set s"
  unfolding rstrip_slashes_def using set_dropWhileD by fastforce

lemma dirname_no_nul:
  assumes "0 \<notin> set path"
  shows "0 \<notin> set (dirname path)"
proof -
  have p: "0 \<notin> set (rstrip_slashes path)" using assms rstrip_slashes_sub by blast
  then have "0 \<notin> set (rev (dropWhile (\<lambda>b. b \<noteq> 47) (rev (rstrip_slashes path))))"
    by (auto dest: set_dropWhileD)
  then have "0 \<notin> set (rstrip_slashes (rev (dropWhile (\<lambda>b. b \<noteq> 47) (rev (rstrip_slashes path)))))"
    using rstrip_slashes_sub by blast
  moreover have "rstrip_slashes [] = []" by (simp add: rstrip_slashes_def)
  ultimately show ?thesis by (simp add: dirname_def Let_def)
qed

lemma start_ok:
  assumes "fileset_options_ok opt" and "0 \<notin> set fname" and "path_exists F fname"
  shows "\<exists>sy. fileset_start crc F fname opt = Some sy \<and> refines crc L rest sy (spec_start fname opt) \<and> spec_clock (spec_start fname opt)"
proof -
  obtain sh where sh: "fileset_start crc F fname opt =
      Some \<lparr>sy_shared = Some sh, sy_sets = [Some (mtbl_fileset_set_options opt)], sy_iters = []\<rparr>"
      "sf_n_fs sh = 1" "sf_n_iters sh = 0" "sf_fs_last sh = Timespec 0 0" "mf_entries (sf_my_fs sh) = []"
      "shared_refines crc L sh (spec_start fname opt)"
    using assms(3) dirname_no_nul [OF assms(2)]
    by (simp add: fileset_start_def mtbl_fileset_init_def my_fileset_init_def shared_refines_def Let_def spec_start_def
        fs.entries_ok_def fs.owns_def cell_Nil files_of_def)
  have clock: "spec_clock (spec_start fname opt)" by (simp add: spec_clock_def spec_start_def)
  have "set_ok sh (mtbl_fileset_set_options opt)" by (rule new_set_ok [OF sh(6) clock])
  moreover have "set_fresh sh (mtbl_fileset_set_options opt)"
    using sh(4) by (simp add: set_fresh_def mtbl_fileset_set_options_def)
  ultimately have "refines crc L rest \<lparr>sy_shared = Some sh, sy_sets = [Some (mtbl_fileset_set_options opt)], sy_iters = []\<rparr>
      (spec_start fname opt)"
    using sh assms(1) by (simp add: refines_def shared_ok_def used_def cell_def) (simp add: spec_start_def)
  then show ?thesis using sh(1) clock by blast
qed

end
