(* ===== verification/Fileset_Claims.thy ===== *)
theory Fileset_Claims
  imports Fileset_Run
begin

text \<open>
  The properties of filesets, an example with two table files, and the two ways the code makes a
  fileset read readers it has destroyed: a forced reload of a duplicate, and a setfile that names
  a file twice.
\<close>

subsection \<open>An example\<close>

text \<open>A setfile \<open>d/s\<close>, and the files \<open>d/a\<close> and \<open>/b\<close>.\<close>

definition demo_set :: bytes where "demo_set = [100, 47, 115]"

definition demo_files :: "int \<Rightarrow> bytes \<Rightarrow> bytes \<Rightarrow> bytes \<Rightarrow> filesys" where
  "demo_files mtime content d1 d2 =
     \<lparr>fs_stat = (\<lambda>p. if p = demo_set then Some (1, mtime)
        else if p = [100, 47, 97] \<or> p = [47, 98] then Some (2, 0) else None),
      fs_open = (\<lambda>p. if p = demo_set then Some content
        else if p = [100, 47, 97] then Some d1 else if p = [47, 98] then Some d2 else None),
      fs_map_failed = (\<lambda>p. False)\<rparr>"

definition demo_options :: mtbl_fileset_options where
  "demo_options = mtbl_fileset_options_set_merge_func
     (mtbl_fileset_options_set_reload_interval mtbl_fileset_options_init MTBL_FILESET_RELOAD_INTERVAL_NEVER)
     (Some (\<lambda>k a b. Some (a @ b)))"

lemma demo_options_ok: "fileset_options_ok demo_options"
  using concat_merger_ok(1,2)
  by (simp add: fileset_options_ok_def demo_options_def mtbl_fileset_options_set_merge_func_def
      mtbl_fileset_options_set_reload_interval_def mtbl_fileset_options_init_def concat_merger_def
      mtbl_merger_options_set_merge_func_def mtbl_merger_options_init_def)

lemma demo_dir: "dirname demo_set = [100]"
  by code_simp

lemmas line_simps = listed_def lines_of.simps getline_def line_name_def cstring_def path_exists_def

lemma demo_listed:
  "listed (demo_files t c d1 d2) [100] [97, 10, 47, 98, 10] = [[100, 47, 97], [47, 98]]"
  "listed (demo_files t c d1 d2) [100] [47, 98] = [[47, 98]]"
  "listed (demo_files t c d1 d2) [100] [47, 98, 10, 47, 98, 10] = [[47, 98], [47, 98]]"
  "listed (demo_files t c d1 d2) [100] [] = []"
  by (simp_all add: line_simps demo_files_def demo_set_def)

lemma demo_stat:
  "fs_stat (demo_files t c d1 d2) demo_set = Some (1, t)" "fs_open (demo_files t c d1 d2) demo_set = Some c"
  by (simp_all add: demo_files_def)

lemma demo_reads:
  "reader_reads crc (demo_files t c d1 d2) [100, 47, 97] = mtbl_reader_init_fd crc False d1 None"
  "reader_reads crc (demo_files t c d1 d2) [47, 98] = mtbl_reader_init_fd crc False d2 None"
  by (simp_all add: reader_reads_def demo_files_def mtbl_reader_init_def demo_set_def)

lemma demo_tables:
  "\<exists>d1 d2 r1 r2. mtbl_reader_init_fd crc False d1 None = Some (Some r1) \<and> holds_table crc store_lib r1 [([97], [1]), ([98], [2])] \<and>
     mtbl_reader_init_fd crc False d2 None = Some (Some r2) \<and> holds_table crc store_lib r2 [([97], [3])]"
proof -
  obtain datas where d: "list_all2 (run_writes store_lib crc) two_runs datas"
    and rs: "(\<forall>d\<in>set datas. length d < 2 ^ 63) \<longrightarrow> (\<exists>rs. open_tables crc None datas = Some (Some rs) \<and>
       list_all2 (holds_table crc store_lib) rs (map run_entries two_runs))"
    using run_tables [OF two_runs_ok(1), of crc None] by blast
  obtain rs where "open_tables crc None datas = Some (Some rs)" "list_all2 (holds_table crc store_lib) rs (map run_entries two_runs)"
    using rs two_runs_small [OF d] by blast
  moreover obtain d1 d2 where "datas = [d1, d2]" using d by (auto simp: two_runs_def list_all2_Cons1)
  moreover have "map run_entries two_runs = [[([97], [1]), ([98], [2])], [([97], [3])]]"
    by (simp add: two_runs_def run_entries_def)
  ultimately show ?thesis by (auto simp: list_all2_Cons2 split: Option.bind_splits option.splits)
qed

lemma demo_filesys_ok:
  assumes "mtbl_reader_init_fd crc False d1 None = Some (Some r1)" "holds_table crc L r1 T1" "\<forall>e\<in>set T1. fst e \<noteq> []"
    and "mtbl_reader_init_fd crc False d2 None = Some (Some r2)" "holds_table crc L r2 T2" "\<forall>e\<in>set T2. fst e \<noteq> []"
    and "c \<in> {[97, 10, 47, 98, 10], [47, 98], []}"
  shows "filesys_ok crc L demo_set [100] (demo_files t c d1 d2)"
proof -
  have "reads_table crc L r1" "reads_table crc L r2" using assms(2,3,5,6) by (auto simp: reads_table_def)
  then show ?thesis using assms(1,4,7) unfolding filesys_ok_def demo_stat by (auto simp: demo_listed demo_reads)
qed

text \<open>An iterator is open while the setfile is emptied and a duplicate is asked to reload.\<close>

definition demo_open :: "bytes \<Rightarrow> bytes \<Rightarrow> fileset_call" where
  "demo_open d1 d2 = (demo_files 1 [97, 10, 47, 98, 10] d1 d2, Timespec 1 0, Fs_open 0 READER_ITER_TYPE_GET [97] [])"

definition demo_after :: "bytes \<Rightarrow> bytes \<Rightarrow> fileset_call list" where
  "demo_after d1 d2 = (let F = demo_files 2 [] d1 d2 in
     [(F, Timespec 2 0, Fs_dup 0 demo_options), (F, Timespec 2 1, Fs_reload 1), (F, Timespec 3 0, Fs_next 0),
      (F, Timespec 4 0, Fs_next 0), (F, Timespec 5 0, Fs_free 0)])"

lemma demo_spec:
  assumes "mtbl_reader_init_fd crc False d1 None = Some (Some r1)" "mtbl_reader_init_fd crc False d2 None = Some (Some r2)"
  shows "spec_step crc (spec_start demo_set demo_options) (demo_open d1 d2) =
    (spec_start demo_set demo_options)\<lparr>sp_files := [([47, 98], Some r2), ([100, 47, 97], Some r1)], sp_stamp := (1, 1),
      sp_last := Timespec 1 0, sp_needed := False, sp_iters := [Some 0]\<rparr>"
  using assms
  by (simp add: demo_open_def Let_def spec_reload_def cell_def spec_start_def spec_due_def no_iters_def spec_load_def
      reload_files_def demo_stat demo_dir demo_listed demo_reads)

lemma demo_calls_ok:
  assumes "mtbl_reader_init_fd crc False d1 None = Some (Some r1)" "holds_table crc L r1 T1" "\<forall>e\<in>set T1. fst e \<noteq> []"
    and "mtbl_reader_init_fd crc False d2 None = Some (Some r2)" "holds_table crc L r2 T2" "\<forall>e\<in>set T2. fst e \<noteq> []"
  shows "calls_ok crc L (spec_start demo_set demo_options) ([] @ demo_open d1 d2 # demo_after d1 d2)"
  using demo_filesys_ok [OF assms] demo_options_ok unfolding append_Nil calls_ok.simps demo_spec [OF assms(1,4)]
  by (simp add: demo_after_def Let_def call_ok_def demo_open_def spec_start_def demo_dir cell_def less_timespec_def
      my_timespec_cmp_def spec_reload_def spec_due_def no_iters_def demo_options_def mtbl_fileset_options_set_merge_func_def
      mtbl_fileset_options_set_reload_interval_def mtbl_fileset_options_init_def MTBL_FILESET_RELOAD_INTERVAL_NEVER_def)

lemma demo_set_exists: "path_exists (demo_files t c d1 d2) demo_set" "0 \<notin> set demo_set"
  by (simp_all add: path_exists_def demo_files_def demo_set_def)

subsection \<open>Properties\<close>

text \<open>
  C4: any number of filesets over one setfile, made by \<open>mtbl_fileset_init\<close> and \<open>mtbl_fileset_dup\<close>,
  used in any order by calls a program may make, never fail: no reader is used after it was
  destroyed or destroyed twice, no iterator is left on a merger that is gone. What they hold is
  what the specification says: the names the setfile listed when it was last loaded, each with
  the reader opened for it when it was first listed, and every live reader is that of one name.
\<close>

theorem fileset_refines:
  assumes "fileset_options_ok opt" and "0 \<notin> set fname" and "path_exists F fname" and "qsort_ok qsort"
    and "calls_ok crc L (spec_start fname opt) cs"
  shows "\<exists>sy0 outs sy. fileset_start crc F fname opt = Some sy0 \<and> fileset_run crc L qsort sy0 cs = Some (outs, sy) \<and>
    (let sp = foldl (spec_step crc) (spec_start fname opt) cs in
       map (map_option opts_of) (sy_sets sy) = sp_sets sp \<and> map (map_option fi_fs) (sy_iters sy) = sp_iters sp \<and>
       (case sy_shared sy of
          None \<Rightarrow> list_all (\<lambda>f. f = None) (sp_sets sp)
        | Some sh \<Rightarrow>
            (let es = mf_entries (sf_my_fs sh); readers = cell (fu_readers (sf_user sh)) in
               map (\<lambda>e. (fe_fname e, value_at readers (fe_ptr e))) es = sp_files sp \<and>
               distinct (ptrs (map fe_ptr es)) \<and> dom readers = set (ptrs (map fe_ptr es)))))"
proof -
  obtain sy0 where s: "fileset_start crc F fname opt = Some sy0" "refines crc L (\<lambda>_. []) sy0 (spec_start fname opt)"
      "spec_clock (spec_start fname opt)"
    using start_ok [OF assms(1,2,3)] by blast
  obtain outs sy rest where r: "fileset_run crc L qsort sy0 cs = Some (outs, sy)"
      "refines crc L rest sy (foldl (spec_step crc) (spec_start fname opt) cs)"
    using run_ok_from [OF s(2,3) assms(4,5)] by blast
  have "used (sy_sets sy) = used (sp_sets (foldl (spec_step crc) (spec_start fname opt) cs))"
    using sets_of [OF r(2)] used_map by metis
  then show ?thesis
    using s(1) r unfolding refines_def
    by (auto simp: Let_def shared_ok_def shared_refines_def fs.entries_ok_def fs.owns_def files_of_def used_0
        split: option.splits)
qed

theorem fileset_refines_witness:
  "\<exists>d1 d2 sy0 outs sy. fileset_start crc32c (demo_files 1 [] d1 d2) demo_set demo_options = Some sy0 \<and>
     fileset_run crc32c store_lib insertion_sort sy0 (demo_open d1 d2 # demo_after d1 d2) = Some (outs, sy) \<and>
     map (map_option opts_of) (sy_sets sy) = [Some demo_options, Some demo_options]"
proof -
  obtain d1 d2 r1 r2 where t: "mtbl_reader_init_fd crc32c False d1 None = Some (Some r1)"
      "holds_table crc32c store_lib r1 [([97], [1]), ([98], [2])]"
      "mtbl_reader_init_fd crc32c False d2 None = Some (Some r2)" "holds_table crc32c store_lib r2 [([97], [3])]"
    using demo_tables [of crc32c] by blast
  have "calls_ok crc32c store_lib (spec_start demo_set demo_options) ([] @ demo_open d1 d2 # demo_after d1 d2)"
    by (rule demo_calls_ok [OF t(1,2) _ t(3,4)]) simp_all
  from fileset_refines [OF demo_options_ok demo_set_exists(2,1) insertion_sort_ok this, of 1 "[]" d1 d2]
  obtain sy0 outs sy where "fileset_start crc32c (demo_files 1 [] d1 d2) demo_set demo_options = Some sy0"
      "fileset_run crc32c store_lib insertion_sort sy0 ([] @ demo_open d1 d2 # demo_after d1 d2) = Some (outs, sy)"
      "map (map_option opts_of) (sy_sets sy) =
         sp_sets (foldl (spec_step crc32c) (spec_start demo_set demo_options) ([] @ demo_open d1 d2 # demo_after d1 d2))"
    unfolding Let_def by blast
  moreover have "sp_sets (spec_reload crc F now i sp) = sp_sets sp" for crc F now i sp
    by (simp add: spec_reload_def spec_load_def split: option.split)
  then have "sp_sets (foldl (spec_step crc32c) (spec_start demo_set demo_options) ([] @ demo_open d1 d2 # demo_after d1 d2)) =
      [Some demo_options, Some demo_options]"
    unfolding append_Nil foldl_Cons demo_spec [OF t(1,3)]
    by (simp add: demo_after_def Let_def spec_start_def cell_def split: option.split)
  ultimately show ?thesis unfolding append_Nil by metis
qed

text \<open>
  C10: an iterator opened on a fileset for an iteration, a lookup, a prefix or a range returns one
  by one the answer to the query over the files that were current when it was opened and pass the
  filters of its fileset, with the values of a key merged by its merge function, whatever other
  calls the program makes in between and however the setfile changes.
\<close>

theorem fileset_answers:
  assumes "fileset_options_ok opt" and "0 \<notin> set fname" and "path_exists F fname" and "qsort_ok qsort"
    and "calls_ok crc L (spec_start fname opt) (cs1 @ (F', now, Fs_open i ty key0 key1) # cs2)"
  shows "\<exists>sy0 outs1 outs2 sy opt' es. fileset_start crc F fname opt = Some sy0 \<and>
    fileset_run crc L qsort sy0 (cs1 @ (F', now, Fs_open i ty key0 key1) # cs2) = Some (outs1 @ None # outs2, sy) \<and>
    length outs1 = length cs1 \<and>
    (let sp1 = foldl (spec_step crc) (spec_start fname opt) cs1 in
       cell (sp_sets sp1) i = Some opt' \<and>
       query_answer crc L opt' (files_readers opt' (sp_files (spec_reload crc F' now i sp1))) ty key0 key1 es \<and>
       serves es (next_results (length (sp_iters sp1)) cs2 outs2))"
proof -
  obtain sy0 where s: "fileset_start crc F fname opt = Some sy0" "refines crc L (\<lambda>_. []) sy0 (spec_start fname opt)"
      "spec_clock (spec_start fname opt)"
    using start_ok [OF assms(1,2,3)] by blast
  let ?c = "(F', now, Fs_open i ty key0 key1)" and ?sp1 = "foldl (spec_step crc) (spec_start fname opt) cs1"
  have ok: "calls_ok crc L (spec_start fname opt) cs1" "call_ok crc L ?sp1 ?c" "calls_ok crc L (spec_step crc ?sp1 ?c) cs2"
    using assms(5) by (simp_all add: calls_ok_append)
  obtain outs1 sy1 rest1 where r1: "fileset_run crc L qsort sy0 cs1 = Some (outs1, sy1)" "refines crc L rest1 sy1 ?sp1"
      "length outs1 = length cs1"
    using run_ok_from [OF s(2,3) assms(4) ok(1)] by blast
  have clock: "spec_clock ?sp1" by (rule spec_clock_run [OF s(3) ok(1)])
  obtain sy2 es opt' where o: "fileset_step crc L qsort sy1 ?c = Some (None, sy2)"
      "refines crc L (rest1(length (sp_iters ?sp1) := es)) sy2 (spec_step crc ?sp1 ?c)" "cell (sp_sets ?sp1) i = Some opt'"
      "query_answer crc L opt' (files_readers opt' (sp_files (spec_reload crc F' now i ?sp1))) ty key0 key1 es"
    using step_open [OF r1(2) assms(4), of now F' i ty key0 key1] ok(2) unfolding call_ok_def by auto
  obtain outs2 sy where r2: "fileset_run crc L qsort sy2 cs2 = Some (outs2, sy)"
      "\<forall>k<length (sp_iters (spec_step crc ?sp1 ?c)). serves ((rest1(length (sp_iters ?sp1) := es)) k) (next_results k cs2 outs2)"
    using run_ok_from [OF o(2) spec_clock_step [OF clock ok(2)] assms(4) ok(3)] by blast
  have "length (sp_iters ?sp1) < length (sp_iters (spec_step crc ?sp1 ?c))"
    by (simp add: Let_def spec_reload_def spec_load_def split: option.split)
  then have "serves es (next_results (length (sp_iters ?sp1)) cs2 outs2)" using r2(2) by auto
  moreover have "fileset_run crc L qsort sy0 (cs1 @ ?c # cs2) = Some (outs1 @ None # outs2, sy)"
    by (rule run_append [OF r1(1)]) (simp add: o(1) r2(1) del: fileset_step.simps)
  ultimately show ?thesis using s(1) r1(3) o(3,4) unfolding Let_def by blast
qed

theorem fileset_answers_witness:
  "\<exists>d1 d2 r1 r2 sy0 outs sy es. mtbl_reader_init_fd crc32c False d1 None = Some (Some r1) \<and>
     mtbl_reader_init_fd crc32c False d2 None = Some (Some r2) \<and>
     fileset_start crc32c (demo_files 1 [] d1 d2) demo_set demo_options = Some sy0 \<and>
     fileset_run crc32c store_lib insertion_sort sy0 (demo_open d1 d2 # demo_after d1 d2) = Some (None # outs, sy) \<and>
     query_answer crc32c store_lib demo_options [r2, r1] READER_ITER_TYPE_GET [97] [] es \<and>
     serves es (next_results 0 (demo_after d1 d2) outs)"
proof -
  obtain d1 d2 r1 r2 where t: "mtbl_reader_init_fd crc32c False d1 None = Some (Some r1)"
      "holds_table crc32c store_lib r1 [([97], [1]), ([98], [2])]"
      "mtbl_reader_init_fd crc32c False d2 None = Some (Some r2)" "holds_table crc32c store_lib r2 [([97], [3])]"
    using demo_tables [of crc32c] by blast
  have ok: "calls_ok crc32c store_lib (spec_start demo_set demo_options) ([] @ demo_open d1 d2 # demo_after d1 d2)"
    by (rule demo_calls_ok [OF t(1,2) _ t(3,4)]) simp_all
  have files: "files_readers demo_options (sp_files (spec_reload crc32c (demo_files 1 [97, 10, 47, 98, 10] d1 d2) (Timespec 1 0) 0
      (spec_start demo_set demo_options))) = [r2, r1]"
  proof -
    have "sp_files (spec_reload crc32c (demo_files 1 [97, 10, 47, 98, 10] d1 d2) (Timespec 1 0) 0
        (spec_start demo_set demo_options)) = [([47, 98], Some r2), ([100, 47, 97], Some r1)]"
      using arg_cong [OF demo_spec [OF t(1,3)], of sp_files] by (simp add: demo_open_def Let_def)
    then show ?thesis by (simp add: files_readers_def fileset_passes_def demo_options_def
        mtbl_fileset_options_set_merge_func_def mtbl_fileset_options_set_reload_interval_def mtbl_fileset_options_init_def)
  qed
  from fileset_answers [OF demo_options_ok demo_set_exists(2,1) insertion_sort_ok ok [unfolded demo_open_def], of 1 "[]" d1 d2]
  obtain sy0 outs1 outs sy opt es where r: "fileset_start crc32c (demo_files 1 [] d1 d2) demo_set demo_options = Some sy0"
      "fileset_run crc32c store_lib insertion_sort sy0 (demo_open d1 d2 # demo_after d1 d2) = Some (outs1 @ None # outs, sy)"
      "outs1 = []" "cell [Some demo_options] 0 = Some opt"
      "query_answer crc32c store_lib opt (files_readers opt (sp_files (spec_reload crc32c (demo_files 1 [97, 10, 47, 98, 10] d1 d2)
         (Timespec 1 0) 0 (spec_start demo_set demo_options)))) READER_ITER_TYPE_GET [97] [] es"
      "serves es (next_results 0 (demo_after d1 d2) outs)"
    unfolding demo_open_def [symmetric] Let_def foldl_Nil append_Nil list.size length_0_conv
    by (simp add: spec_start_def) blast
  have "opt = demo_options" using r(4) by (simp add: cell_def)
  show ?thesis using t(1,3) r(1,2,6) r(5) [unfolded \<open>opt = demo_options\<close> files] unfolding r(3) append_Nil by metis
qed

subsection \<open>Readers used after they were destroyed\<close>

lemma sort_none [simp]: "qsort_ok qsort \<Longrightarrow> qsort cmp_fileset_entry [] = []"
  using fs.sorted_entries [of qsort "[]"] by simp

lemma sort_one: "qsort_ok qsort \<Longrightarrow> qsort cmp_fileset_entry [e] = [e]"
  using fs.sorted_entries [of qsort "[e]"] by simp

text \<open>The state of a family of filesets over the demonstration setfile.\<close>

definition demo_shared ::
  "(bytes \<Rightarrow> u32) \<Rightarrow> nat \<Rightarrow> nat \<Rightarrow> nat \<Rightarrow> mtbl_reader option list \<Rightarrow> nat \<Rightarrow> bool \<Rightarrow> timespec \<Rightarrow> nat \<times> int \<Rightarrow> nat fileset_entry list \<Rightarrow>
   shared_fileset" where
  "demo_shared crc n_loaded n_unloaded iters readers n_fs needed loaded stamp es =
     \<lparr>sf_user = \<lparr>fu_n_loaded = n_loaded, fu_n_unloaded = n_unloaded, fu_readers = readers\<rparr>, sf_n_fs = n_fs, sf_n_iters = iters,
       sf_reload_needed = needed, sf_fs_last = loaded,
       sf_my_fs = \<lparr>mf_last_ino = fst stamp, mf_last_mtime = snd stamp, mf_setfile = demo_set, mf_setdir = [100],
         mf_load = Some (fs_load crc), mf_unload = Some fs_unload, mf_entries = es\<rparr>\<rparr>"

lemma demo_load:
  assumes "qsort_ok qsort" and "t \<noteq> snd stamp"
    and "reload_all (demo_files t c d1 d2) (Some (fs_load crc)) (listed (demo_files t c d1 d2) [100] c)
      (es, \<lparr>fu_n_loaded = 0, fu_n_unloaded = 0, fu_readers = readers\<rparr>, []) = Some (es', u, new)"
    and "unload_dropped (Some fs_unload) u es' = Some \<lparr>fu_n_loaded = l', fu_n_unloaded = u', fu_readers = readers'\<rparr>"
  shows "fileset_load qsort (demo_files t c d1 d2) now (demo_shared crc l v iters readers n_fs needed loaded stamp es) f =
    (if l' > 0 \<or> u' > 0 then fs_reinit_merger (demo_shared crc l' u' iters readers' n_fs needed loaded (1, t) (qsort cmp_fileset_entry new)) f
     else Some f) \<bind>
    (\<lambda>f. Some (demo_shared crc l' u' iters readers' n_fs False now (1, t) (qsort cmp_fileset_entry new), f\<lparr>f_fs_last := now\<rparr>))"
proof -
  have "reload_lines (demo_files t c d1 d2) (Some (fs_load crc)) [100] c (vec_init 64)
      (es, \<lparr>fu_n_loaded = 0, fu_n_unloaded = 0, fu_readers = readers\<rparr>, []) = Some (es', u, new)"
    by (rule trans [OF reload_lines_listed]) (simp_all add: assms(3))
  then show ?thesis
    using assms(2,4)
    by (simp add: fileset_load_def demo_shared_def my_fileset_reload_def setfile_updated_def demo_stat Let_def)
qed

definition fresh_set :: mtbl_fileset where
  "fresh_set = mtbl_fileset_set_options demo_options"

lemma demo_start:
  "fileset_start crc (demo_files t c d1 d2) demo_set demo_options =
     Some \<lparr>sy_shared = Some (demo_shared crc 0 0 0 [] 1 True (Timespec 0 0) (0, 0) []), sy_sets = [Some fresh_set], sy_iters = []\<rparr>"
  using demo_set_exists(1)
  by (simp add: fileset_start_def mtbl_fileset_init_def my_fileset_init_def demo_shared_def demo_dir fresh_set_def)

lemma demo_same:
  "fileset_load qsort (demo_files t c d1 d2) now (demo_shared crc l v iters readers n_fs needed loaded (1, t) es) f =
     Some (demo_shared crc 0 0 iters readers n_fs False now (1, t) es, f\<lparr>f_fs_last := now\<rparr>)"
  by (simp add: fileset_load_def demo_shared_def my_fileset_reload_def setfile_updated_def demo_stat Let_def)

definition demo_entry :: "nat \<Rightarrow> nat fileset_entry" where
  "demo_entry q = \<lparr>fe_keep = False, fe_fname = [47, 98], fe_ptr = Some q\<rparr>"

lemma demo_reinit:
  "f_fname_filter f = None \<Longrightarrow> f_reader_filter f = None \<Longrightarrow> cell readers q = Some r \<Longrightarrow>
   fs_reinit_merger (demo_shared crc l v iters readers n_fs needed loaded stamp [demo_entry q]) f =
     Some (f\<lparr>f_merger := [q], f_merger_no := f_merger_no f + 1\<rparr>)"
  "fs_reinit_merger (demo_shared crc l v iters readers n_fs needed loaded stamp []) f =
     Some (f\<lparr>f_merger := [], f_merger_no := f_merger_no f + 1\<rparr>)"
  by (subst reinit_ok; simp add: all_live_def demo_shared_def demo_entry_def fs_wanted_def)+

lemma fresh_simps [simp]:
  "f_fname_filter fresh_set = None" "f_reader_filter fresh_set = None" "f_merger_no fresh_set = 0" "f_merger fresh_set = []"
  "f_fs_last fresh_set = Timespec 0 0" "f_reload_interval fresh_set = MTBL_FILESET_RELOAD_INTERVAL_NEVER"
  by (simp_all add: fresh_set_def mtbl_fileset_set_options_def demo_options_def mtbl_fileset_options_set_merge_func_def
      mtbl_fileset_options_set_reload_interval_def mtbl_fileset_options_init_def)

lemma demo_shared_simps [simp]:
  "sf_n_iters (demo_shared crc l v iters readers n_fs needed loaded stamp es) = iters"
  "sf_reload_needed (demo_shared crc l v iters readers n_fs needed loaded stamp es) = needed"
  "sf_fs_last (demo_shared crc l v iters readers n_fs needed loaded stamp es) = loaded"
  "fu_readers (sf_user (demo_shared crc l v iters readers n_fs needed loaded stamp es)) = readers"
  by (simp_all add: demo_shared_def)

lemma demo_reload_first:
  assumes "qsort_ok qsort" and "mtbl_reader_init_fd crc False d None = Some (Some r)"
  shows "fileset_load qsort (demo_files 1 [47, 98] d d) now (demo_shared crc l v 0 [] n_fs needed loaded (0, 0) []) fresh_set =
    Some (demo_shared crc 1 0 0 [Some r] n_fs False now (1, 1) [demo_entry 0],
      fresh_set\<lparr>f_merger := [0], f_merger_no := 1, f_fs_last := now\<rparr>)"
proof -
  have "fs_load crc (demo_files 1 [47, 98] d d) u [47, 98] =
      Some (Some (length (fu_readers u)), u\<lparr>fu_n_loaded := fu_n_loaded u + 1, fu_readers := fu_readers u @ [Some r]\<rparr>)" for u
    using assms(2) by (simp add: fs_load_def demo_files_def demo_set_def mtbl_reader_init_def)
  then have "reload_all (demo_files 1 [47, 98] d d) (Some (fs_load crc)) (listed (demo_files 1 [47, 98] d d) [100] [47, 98])
      ([], \<lparr>fu_n_loaded = 0, fu_n_unloaded = 0, fu_readers = []\<rparr>, []) =
      Some ([], \<lparr>fu_n_loaded = 1, fu_n_unloaded = 0, fu_readers = [Some r]\<rparr>, [demo_entry 0])"
    unfolding demo_listed(2)
    by (simp add: reload_entry_def path_exists_def demo_files_def fetch_entry_def bsearch_def bsearch_loop.simps demo_entry_def)
  from demo_load [OF assms(1) _ this] show ?thesis by (simp add: sort_one [OF assms(1)] demo_reinit cell_def)
qed

text \<open>
  C39: \<open>mtbl_fileset_reload_now\<close> on one of two filesets takes its merger for current although the
  other one's reload has changed the set: after a file was dropped from the setfile and both
  filesets were told to reload, the second still has the destroyed reader as a source, and the
  next use of it fails. \<open>mtbl_fileset_reload\<close> makes the merger anew in that case.
\<close>

theorem fileset_reload_now_keeps_destroyed_reader:
  assumes "qsort_ok qsort" and "mtbl_reader_init_fd crc False d None = Some (Some r)"
  shows "\<exists>sy0 es sy. fileset_start crc (demo_files 1 [47, 98] d d) demo_set demo_options = Some sy0 \<and>
    fileset_run crc L qsort sy0
      [(demo_files 1 [47, 98] d d, Timespec 1 0, Fs_dup 0 demo_options), (demo_files 1 [47, 98] d d, Timespec 2 0, Fs_reload 1),
       (demo_files 2 [] d d, Timespec 3 0, Fs_reload_now 0), (demo_files 2 [] d d, Timespec 4 0, Fs_reload_now 1)] = Some (es, sy) \<and>
    fileset_step crc L qsort sy (demo_files 2 [] d d, Timespec 5 0, Fs_open 1 ty key0 key1) = None"
proof -
  let ?r = "demo_files 1 [47, 98] d d" and ?e = "demo_files 2 [] d d"
  let ?sh = "\<lambda>l v readers. demo_shared crc l v 0 readers 2"
  let ?f1 = "fresh_set\<lparr>f_merger := [0], f_merger_no := 1, f_fs_last := Timespec 2 0\<rparr>"
  let ?f2 = "fresh_set\<lparr>f_merger := [0], f_merger_no := 1, f_fs_last := Timespec 4 0\<rparr>"
  have dup: "mtbl_fileset_dup (demo_shared crc 0 0 0 [] 1 True (Timespec 0 0) (0, 0) []) (Some demo_options) =
      Some (?sh 0 0 [] True (Timespec 0 0) (0, 0) [], fresh_set)"
    by (simp add: mtbl_fileset_dup_def demo_shared_def fresh_set_def)
  have first: "mtbl_fileset_reload qsort ?r (Timespec 2 0) (?sh 0 0 [] True (Timespec 0 0) (0, 0) []) fresh_set =
      Some (?sh 1 0 [Some r] False (Timespec 2 0) (1, 1) [demo_entry 0], ?f1)"
    by (simp add: mtbl_fileset_reload_def demo_reload_first [OF assms])
  have "reload_all ?e (Some (fs_load crc)) (listed ?e [100] []) (es, u, []) = Some (es, u, [])" for es u
    unfolding demo_listed(4) by simp
  from demo_load [OF assms(1) _ this]
  have second: "fileset_load qsort ?e (Timespec 3 0) (?sh 1 0 [Some r] False (Timespec 2 0) (1, 1) [demo_entry 0]) fresh_set =
      Some (?sh 0 1 [None] False (Timespec 3 0) (1, 2) [], fresh_set\<lparr>f_merger := [], f_merger_no := 1, f_fs_last := Timespec 3 0\<rparr>)"
    by (simp add: demo_entry_def fs_unload_def cell_def assms(1) demo_reinit)
  have third: "fileset_load qsort ?e (Timespec 4 0) (?sh 0 1 [None] False (Timespec 3 0) (1, 2) []) ?f1 =
      Some (?sh 0 0 [None] False (Timespec 4 0) (1, 2) [], ?f2)"
    unfolding demo_same by simp
  have open_it: "mtbl_fileset_reload qsort ?e (Timespec 5 0) (?sh 0 0 [None] False (Timespec 4 0) (1, 2) []) ?f2 =
      Some (?sh 0 0 [None] False (Timespec 4 0) (1, 2) [], ?f2)"
    by (simp add: mtbl_fileset_reload_def)
  have dead: "fileset_merger crc L (?sh 0 0 [None] False (Timespec 4 0) (1, 2) []) ?f2 = None"
    by (simp add: fileset_merger_def cell_def)
  show ?thesis
    by (simp add: demo_start cell_def put_set_def mtbl_fileset_reload_now_def source_open_eq
        dup [unfolded One_nat_def] first [unfolded One_nat_def] second [unfolded One_nat_def] third [unfolded One_nat_def]
        open_it [unfolded One_nat_def] dead [unfolded One_nat_def])
qed

theorem fileset_reload_now_keeps_destroyed_reader_witness:
  "\<exists>d sy0 es sy. fileset_start crc32c (demo_files 1 [47, 98] d d) demo_set demo_options = Some sy0 \<and>
    fileset_run crc32c store_lib insertion_sort sy0
      [(demo_files 1 [47, 98] d d, Timespec 1 0, Fs_dup 0 demo_options), (demo_files 1 [47, 98] d d, Timespec 2 0, Fs_reload 1),
       (demo_files 2 [] d d, Timespec 3 0, Fs_reload_now 0), (demo_files 2 [] d d, Timespec 4 0, Fs_reload_now 1)] = Some (es, sy) \<and>
    fileset_step crc32c store_lib insertion_sort sy (demo_files 2 [] d d, Timespec 5 0, Fs_open 1 READER_ITER_TYPE_ITER [] []) = None"
proof -
  obtain d r where "mtbl_reader_init_fd crc32c False d None = Some (Some r)" using demo_tables [of crc32c] by blast
  from fileset_reload_now_keeps_destroyed_reader [OF insertion_sort_ok this, of store_lib READER_ITER_TYPE_ITER "[]" "[]"]
  show ?thesis by blast
qed

text \<open>A setfile that names \<open>/b\<close> twice.\<close>

definition twice :: "int \<Rightarrow> bytes \<Rightarrow> filesys" where
  "twice t d = demo_files t [47, 98, 10, 47, 98, 10] d d"

lemma sort_two: "qsort_ok qsort \<Longrightarrow> qsort cmp_fileset_entry [a, b] \<in> {[a, b], [b, a]}"
proof -
  assume "qsort_ok qsort"
  then have m: "mset (qsort cmp_fileset_entry [a, b]) = mset [a, b]" using fs.sorted_entries by blast
  then have "length (qsort cmp_fileset_entry [a, b]) = 2" using mset_eq_length by fastforce
  then obtain x y where "qsort cmp_fileset_entry [a, b] = [x, y]" by (auto simp: numeral_2_eq_2 length_Suc_conv)
  then show ?thesis using m by (auto simp: add_eq_conv_ex)
qed

lemma twice_exists: "path_exists (twice t d) [47, 98]"
  by (simp add: path_exists_def twice_def demo_files_def)

lemma fetch_second: "fetch_entry [e0, e1\<lparr>fe_fname := n, fe_keep := b\<rparr>] n = Some 1" "fe_fname e1 = n \<Longrightarrow> fetch_entry [e0, e1] n = Some 1"
  by (simp_all add: fetch_entry_def bsearch_def bsearch_loop.simps cmp_fileset_entry_def strcmp_eq_compare)

text \<open>Every reload after the first keeps only what the second of two equal entries points to.\<close>

lemma twice_again:
  "reload_all (twice t d) (Some (fs_load crc)) (listed (twice t d) [100] [47, 98, 10, 47, 98, 10]) ([demo_entry p, demo_entry q], u, []) =
     Some ([demo_entry p, (demo_entry q)\<lparr>fe_keep := True\<rparr>], u, [demo_entry q, demo_entry q])"
  unfolding twice_def demo_listed(3) using twice_exists
  by (simp add: reload_entry_def fetch_second(2) demo_entry_def twice_def)

lemma reinit_two:
  "f_fname_filter f = None \<Longrightarrow> f_reader_filter f = None \<Longrightarrow>
   fs_reinit_merger (demo_shared crc l v iters readers n_fs needed loaded stamp [demo_entry p, demo_entry q]) f =
     (if cell readers p = None \<or> cell readers q = None then None
      else Some (f\<lparr>f_merger := [p, q], f_merger_no := f_merger_no f + 1\<rparr>))"
  by (cases "cell readers p"; cases "cell readers q")
    (simp_all add: fs_reinit_merger_def reinit_loop.simps my_fileset_get_def demo_shared_def demo_entry_def fs_wanted_def)

lemma twice_first:
  assumes "qsort_ok qsort" and "mtbl_reader_init_fd crc False d None = Some (Some r)"
  shows "\<exists>p q. {p, q} = {0, 1} \<and>
    fileset_load qsort (twice 1 d) now (demo_shared crc l v 0 [] n_fs needed loaded (0, 0) []) fresh_set =
    Some (demo_shared crc 2 0 0 [Some r, Some r] n_fs False now (1, 1) [demo_entry p, demo_entry q],
      fresh_set\<lparr>f_merger := [p, q], f_merger_no := 1, f_fs_last := now\<rparr>)"
proof -
  have "fs_load crc (twice 1 d) u [47, 98] =
      Some (Some (length (fu_readers u)), u\<lparr>fu_n_loaded := fu_n_loaded u + 1, fu_readers := fu_readers u @ [Some r]\<rparr>)" for u
    using assms(2) by (simp add: fs_load_def twice_def demo_files_def demo_set_def mtbl_reader_init_def)
  then have all: "reload_all (twice 1 d) (Some (fs_load crc)) (listed (twice 1 d) [100] [47, 98, 10, 47, 98, 10])
      ([], \<lparr>fu_n_loaded = 0, fu_n_unloaded = 0, fu_readers = []\<rparr>, []) =
      Some ([], \<lparr>fu_n_loaded = 2, fu_n_unloaded = 0, fu_readers = [Some r, Some r]\<rparr>, [demo_entry 0, demo_entry 1])"
    unfolding twice_def demo_listed(3) using twice_exists
    by (simp add: reload_entry_def fetch_entry_def bsearch_def bsearch_loop.simps demo_entry_def twice_def)
  obtain p q where pq: "{p, q} = {0, 1}" "qsort cmp_fileset_entry [demo_entry 0, demo_entry 1] = [demo_entry p, demo_entry q]"
  proof (cases "qsort cmp_fileset_entry [demo_entry 0, demo_entry 1] = [demo_entry 0, demo_entry 1]")
    case False
    then have "qsort cmp_fileset_entry [demo_entry 0, demo_entry 1] = [demo_entry 1, demo_entry 0]"
      using sort_two [OF assms(1)] by blast
    then show ?thesis by (intro that [of 1 0]) auto
  qed (intro that [of 0 1], simp_all)
  have "cell [Some r, Some r] p = Some r" "cell [Some r, Some r] q = Some r"
    using pq(1) by (auto simp: cell_def doubleton_eq_iff)
  then show ?thesis
    using demo_load [OF assms(1) _ all [unfolded twice_def]] pq
    by (intro exI [of _ p] exI [of _ q]) (simp add: twice_def reinit_two)
qed

text \<open>
  C40: when the setfile names a file twice, two readers are opened for it; the next change of the
  setfile keeps one of them for both lines and destroys the other, and the change after that
  destroys the one both lines use, so the reload that finds it fails.
\<close>

theorem fileset_duplicate_line_destroys_reader:
  assumes "qsort_ok qsort" and "mtbl_reader_init_fd crc False d None = Some (Some r)"
  shows "\<exists>sy0 es sy. fileset_start crc (twice 1 d) demo_set demo_options = Some sy0 \<and>
    fileset_run crc L qsort sy0 [(twice 1 d, Timespec 1 0, Fs_reload 0), (twice 2 d, Timespec 2 0, Fs_reload_now 0)] = Some (es, sy) \<and>
    fileset_step crc L qsort sy (twice 3 d, Timespec 3 0, Fs_reload_now 0) = None"
proof -
  let ?sh = "\<lambda>l v readers. demo_shared crc l v 0 readers 1"
  obtain p q where pq: "{p, q} = {0, 1}" and first: "fileset_load qsort (twice 1 d) (Timespec 1 0)
        (?sh 0 0 [] True (Timespec 0 0) (0, 0) []) fresh_set =
      Some (?sh 2 0 [Some r, Some r] False (Timespec 1 0) (1, 1) [demo_entry p, demo_entry q],
        fresh_set\<lparr>f_merger := [p, q], f_merger_no := 1, f_fs_last := Timespec 1 0\<rparr>)"
    using twice_first [OF assms, of "Timespec 1 0" 0 0 1 True "Timespec 0 0"] by (elim exE conjE) (rule that)
  define rs0 where "rs0 = [Some r, Some r]"
  define rs1 where "rs1 = rs0[p := None]"
  have rs: "cell rs0 p = Some r" "cell rs1 q = Some r" "cell (rs1[q := None]) q = None"
    using pq by (auto simp: rs0_def rs1_def cell_def doubleton_eq_iff)
  have drop: "unload_dropped (Some fs_unload) \<lparr>fu_n_loaded = 0, fu_n_unloaded = 0, fu_readers = xs\<rparr>
        [demo_entry a, (demo_entry b)\<lparr>fe_keep := True\<rparr>] =
      Some \<lparr>fu_n_loaded = 0, fu_n_unloaded = 1, fu_readers = xs[a := None]\<rparr>" if "cell xs a = Some r" for xs a b
    using that by (simp add: demo_entry_def fs_unload_def)
  have two: "qsort cmp_fileset_entry [demo_entry q, demo_entry q] = [demo_entry q, demo_entry q]"
    using sort_two [OF assms(1), of "demo_entry q" "demo_entry q"] by simp
  have second: "fileset_load qsort (twice 2 d) (Timespec 2 0)
        (?sh 2 0 rs0 False (Timespec 1 0) (1, 1) [demo_entry p, demo_entry q]) f =
      Some (?sh 0 1 rs1 False (Timespec 2 0) (1, 2) [demo_entry q, demo_entry q],
        f\<lparr>f_merger := [q, q], f_merger_no := f_merger_no f + 1, f_fs_last := Timespec 2 0\<rparr>)"
    if "f_fname_filter f = None" "f_reader_filter f = None" for f
    using demo_load [OF assms(1) _ twice_again [unfolded twice_def] drop [OF rs(1), folded rs1_def]] that
    by (simp add: twice_def two reinit_two rs(2))
  have third: "fileset_load qsort (twice 3 d) (Timespec 3 0) (?sh 0 1 rs1 False (Timespec 2 0) (1, 2) [demo_entry q, demo_entry q]) f = None"
    if "f_fname_filter f = None" "f_reader_filter f = None" for f
    using demo_load [OF assms(1) _ twice_again [unfolded twice_def] drop [OF rs(2)]] that
    by (simp add: twice_def two reinit_two rs(3))
  have start: "fileset_start crc (twice 1 d) demo_set demo_options =
      Some \<lparr>sy_shared = Some (?sh 0 0 [] True (Timespec 0 0) (0, 0) []), sy_sets = [Some fresh_set], sy_iters = []\<rparr>"
    unfolding twice_def by (rule demo_start)
  show ?thesis
    by (simp add: start cell_def put_set_def mtbl_fileset_reload_now_def mtbl_fileset_reload_def
        first [folded rs0_def, unfolded One_nat_def] second [unfolded One_nat_def] third [unfolded One_nat_def])
qed

theorem fileset_duplicate_line_destroys_reader_witness:
  "\<exists>d sy0 es sy. fileset_start crc32c (twice 1 d) demo_set demo_options = Some sy0 \<and>
    fileset_run crc32c store_lib insertion_sort sy0
      [(twice 1 d, Timespec 1 0, Fs_reload 0), (twice 2 d, Timespec 2 0, Fs_reload_now 0)] = Some (es, sy) \<and>
    fileset_step crc32c store_lib insertion_sort sy (twice 3 d, Timespec 3 0, Fs_reload_now 0) = None"
proof -
  obtain d r where "mtbl_reader_init_fd crc32c False d None = Some (Some r)" using demo_tables [of crc32c] by blast
  from fileset_duplicate_line_destroys_reader [OF insertion_sort_ok this, of store_lib]
  show ?thesis by blast
qed

subsection \<open>Partitions\<close>

definition refs_where :: "(bytes \<Rightarrow> bool) \<Rightarrow> nat fileset_entry list \<Rightarrow> nat list" where
  "refs_where p es = map (\<lambda>e. the (fe_ptr e)) (filter (\<lambda>e. p (fe_fname e)) es)"

lemma partition_loop_ok:
  assumes "all_live (sf_user sh) (mf_entries (sf_my_fs sh))"
  shows "partition_loop cb sh i m1 m2 = (let es = drop i (mf_entries (sf_my_fs sh)) in
    if \<exists>e\<in>set es. fe_ptr e = None then None
    else Some (m1 @ refs_where cb es, m2 @ refs_where (\<lambda>n. \<not> cb n) es))"
proof (induction "length (mf_entries (sf_my_fs sh)) - i" arbitrary: i m1 m2)
  case 0
  then have "length (mf_entries (sf_my_fs sh)) \<le> i" by simp
  then show ?case by (subst partition_loop.simps) (simp add: my_fileset_get_def refs_where_def)
next
  case (Suc d)
  let ?es = "mf_entries (sf_my_fs sh)"
  have i: "i < length ?es" using Suc(2) by simp
  then have d: "drop i ?es = ?es ! i # drop (Suc i) ?es" by (simp add: Cons_nth_drop_Suc)
  note IH = Suc(1) [of "Suc i"]
  show ?case
  proof (cases "fe_ptr (?es ! i)")
    case None
    then show ?thesis using i by (subst partition_loop.simps) (simp add: my_fileset_get_def d)
  next
    case (Some q)
    obtain r where r: "cell (fu_readers (sf_user sh)) q = Some r"
      using assms i Some unfolding all_live_def by (metis nth_mem not_Some_eq)
    have "d = length ?es - Suc i" using Suc(2) by simp
    then show ?thesis
      using i Some r by (subst partition_loop.simps) (auto simp: my_fileset_get_def d IH refs_where_def Let_def)
  qed
qed

text \<open>
  A partition splits the readers of all files by their names; when one of the files listed is not
  a table it aborts, where \<open>fs_reinit_merger\<close> passes over the file.
\<close>

theorem fileset_partition_splits:
  assumes "shared_refines crc L sh sp" and "set_ok sh f" and "qsort_ok qsort"
    and "filesys_ok crc L (sp_setfile sp) (sp_setdir sp) F"
    and "cell (sp_sets sp) i = Some (opts_of f)" and "sf_n_iters sh = 0 \<longleftrightarrow> no_iters sp"
  shows "\<exists>sh' f'. mtbl_fileset_reload qsort F now sh f = Some (sh', f') \<and>
    mtbl_fileset_partition qsort F now cb sh f =
      (let es = mf_entries (sf_my_fs sh') in
         if \<exists>n. (n, None) \<in> set (sp_files (spec_reload crc F now i sp)) then None
         else Some ((refs_where cb es, refs_where (\<lambda>n. \<not> cb n) es), sh', f'))"
proof -
  obtain sh' f' where r: "mtbl_fileset_reload qsort F now sh f = Some (sh', f')"
      "shared_refines crc L sh' (spec_reload crc F now i sp)"
    using reload_sound [OF assms] by blast
  have live: "all_live (sf_user sh') (mf_entries (sf_my_fs sh'))"
    and files: "sp_files (spec_reload crc F now i sp) = files_of (cell (fu_readers (sf_user sh'))) (mf_entries (sf_my_fs sh'))"
    using r(2) by (auto simp: shared_refines_def Let_def intro: entries_live)
  have "(\<exists>n. (n, None) \<in> set (sp_files (spec_reload crc F now i sp))) \<longleftrightarrow> (\<exists>e\<in>set (mf_entries (sf_my_fs sh')). fe_ptr e = None)"
    unfolding files files_of_def using live by (force simp: all_live_def value_at_def split: option.splits)
  then show ?thesis
    using r(1) by (auto simp: mtbl_fileset_partition_def partition_loop_ok [OF live] Let_def)
qed

end
