(* ===== verification/Verify.thy ===== *)
theory Verify
  imports Writer_Reader
begin

text \<open>
  \<open>src/mtbl_verify.c\<close>: checking the checksums of a table's blocks. The mapping is the part of the
  file up to \<open>len_mmap_data\<close>; a read outside it is \<open>None\<close>. Sizes and offsets are \<open>uint64_t\<close> and
  wrap. \<open>intact\<close> is what the loop is meant to establish, over natural numbers.
\<close>

subsection \<open>The program\<close>

text \<open>
  One turn of the loop per block. A block whose bounds or checksum fail ends it with \<open>False\<close>;
  progress output is left out.
\<close>

partial_function (option) verify_loop ::
  "(bytes \<Rightarrow> u32) \<Rightarrow> mtbl_file_version \<Rightarrow> bytes \<Rightarrow> u64 \<Rightarrow> u64 \<Rightarrow> u64 \<Rightarrow> u64 \<Rightarrow> u64 \<Rightarrow> bool option" where
  "verify_loop crc version data bytes_blocks count_blocks block offset bytes_consumed =
     (if block \<le> count_blocks then do {
        (raw_contents_size_len, raw_contents_size) \<leftarrow> block_length version data (unat offset);
        let bytes_consumed = bytes_consumed + (of_nat raw_contents_size_len + 4);
        let bytes_consumed = bytes_consumed + raw_contents_size;
        if bytes_consumed > bytes_blocks then Some False
        else do {
          block_crc \<leftarrow> mtbl_fixed_decode32 (drop (unat offset + raw_contents_size_len) data);
          raw_contents \<leftarrow> bytes_at data (unat offset + raw_contents_size_len + 4) (unat raw_contents_size);
          if block_crc \<noteq> crc raw_contents then Some False
          else do {
            let offset = offset + (of_nat raw_contents_size_len + 4);
            let offset = offset + raw_contents_size;
            verify_loop crc version data bytes_blocks count_blocks (block + 1) offset bytes_consumed
          }
        }
      } else Some True)"

text \<open>\<open>mmap\<close> fails on an empty range and whenever the system says so.\<close>

definition verify_data_blocks ::
  "(bytes \<Rightarrow> u32) \<Rightarrow> bool \<Rightarrow> bytes \<Rightarrow> u64 \<Rightarrow> u64 \<Rightarrow> u64 \<Rightarrow> mtbl_file_version \<Rightarrow> bool option" where
  "verify_data_blocks crc map_failed fd file_offset bytes_blocks count_blocks version =
     (if bytes_blocks = 0 \<and> count_blocks = 0 then Some True
      else let len_mmap_data = file_offset + bytes_blocks in
        if map_failed \<or> len_mmap_data = 0 then Some False
        else let mmap_data = take (unat len_mmap_data) fd;
                 data = drop (unat file_offset) mmap_data
             in verify_loop crc version data bytes_blocks count_blocks 1 0 0)"

text \<open>A file: what \<open>open\<close> gives, and whether the two \<open>mmap\<close> calls on it fail.\<close>

record verify_input =
  vi_opened :: "bytes option"
  vi_reader_map_failed :: bool
  vi_map_failed :: bool

definition verify_file :: "(bytes \<Rightarrow> u32) \<Rightarrow> verify_input \<Rightarrow> bool option" where
  "verify_file crc fname =
     (case vi_opened fname of
        None \<Rightarrow> Some False
      | Some fd \<Rightarrow> do {
          let ropt = mtbl_reader_options_set_verify_checksums mtbl_reader_options_init True;
          r \<leftarrow> mtbl_reader_init_fd crc (vi_reader_map_failed fname) fd (Some ropt);
          case r of
            None \<Rightarrow> Some False
          | Some r \<Rightarrow> (let m = mtbl_reader_metadata r;
                count_data_blocks = mtbl_metadata_count_data_blocks m;
                bytes_data_blocks = mtbl_metadata_bytes_data_blocks m;
                index_offset = mtbl_metadata_index_block_offset m;
                data_offset = index_offset - bytes_data_blocks
              in verify_data_blocks crc (vi_map_failed fname) fd data_offset bytes_data_blocks
                   count_data_blocks (mtbl_metadata_file_version m))
        })"

text \<open>\<open>main\<close> after the options: the exit status, with no file named the usage message.\<close>

primrec count_failed :: "(bytes \<Rightarrow> u32) \<Rightarrow> verify_input list \<Rightarrow> int \<Rightarrow> int option" where
  "count_failed crc [] n_failed = Some n_failed"
| "count_failed crc (fname # argv) n_failed = do {
     ok \<leftarrow> verify_file crc fname;
     count_failed crc argv (if ok then n_failed else n_failed + 1)
   }"

definition verify_main :: "(bytes \<Rightarrow> u32) \<Rightarrow> verify_input list \<Rightarrow> int option" where
  "verify_main crc argv =
     (if length argv < 1 then Some 1
      else do {
        n_failed \<leftarrow> count_failed crc argv 0;
        Some (if n_failed > 0 then 1 else 0)
      })"

subsection \<open>Intact blocks\<close>

text \<open>\<open>k\<close> stored blocks follow each other from \<open>ofs\<close>, each within the data and with its checksum.\<close>

primrec intact :: "(bytes \<Rightarrow> u32) \<Rightarrow> mtbl_file_version \<Rightarrow> bytes \<Rightarrow> nat \<Rightarrow> nat \<Rightarrow> bool" where
  "intact crc v data ofs 0 = True"
| "intact crc v data ofs (Suc k) =
     (case block_length v data ofs of
        None \<Rightarrow> False
      | Some (l, s) \<Rightarrow>
          (case bytes_at data (ofs + l + 4) (unat s) of
             None \<Rightarrow> False
           | Some p \<Rightarrow> mtbl_fixed_decode32 (drop (ofs + l) data) = Some (crc p) \<and>
               intact crc v data (ofs + l + 4 + unat s) k))"

lemma bytes_at_SomeD: "bytes_at data i n = Some xs \<Longrightarrow> i + n \<le> length data \<and> xs = take n (drop i data)"
  by (simp add: bytes_at_def split: if_splits)

lemma intact_SucE:
  assumes "intact crc v data ofs (Suc k)"
  obtains l p and s :: u64 where "block_length v data ofs = Some (l, s)" "bytes_at data (ofs + l + 4) (unat s) = Some p"
    "ofs + l + 4 + unat s \<le> length data" "mtbl_fixed_decode32 (drop (ofs + l) data) = Some (crc p)"
    "intact crc v data (ofs + l + 4 + unat s) k"
proof -
  obtain l s where ls: "block_length v data ofs = Some (l, s)" using assms by (auto split: option.splits)
  with assms obtain p where "bytes_at data (ofs + l + 4) (unat s) = Some p" by (auto split: option.splits)
  with ls assms bytes_at_SomeD [OF this] that show thesis by auto
qed

lemma intact_bound: "intact crc v data ofs k \<Longrightarrow> k = 0 \<or> ofs + 4 * k \<le> length data"
proof (induction k arbitrary: ofs)
  case (Suc k)
  from Suc.prems obtain l p and s :: u64 where "ofs + l + 4 + unat s \<le> length data" "intact crc v data (ofs + l + 4 + unat s) k"
    by (rule intact_SucE)
  with Suc.IH [OF this(2)] show ?case by auto
qed simp

lemma intact_mono: "intact crc v data ofs k \<Longrightarrow> j \<le> k \<Longrightarrow> intact crc v data ofs j"
proof (induction k arbitrary: ofs j)
  case (Suc k)
  then show ?case by (cases j) (auto split: option.splits)
qed simp

text \<open>Offsets as the loop computes them.\<close>

lemma step_offset:
  "(of_nat ofs :: u64) + (of_nat l + 4) + s = of_nat (ofs + l + 4 + unat s)"
  by (simp add: ac_simps)

lemma loop_of_intact:
  assumes "intact crc v data ofs k" and "ofs \<le> length data" and "length data \<le> unat bytes"
    and "unat block + k = unat count + 1" and "unat count < 2 ^ 62"
  shows "verify_loop crc v data bytes count block (of_nat ofs) (of_nat ofs) = Some True"
  using assms
proof (induction k arbitrary: ofs block)
  case 0
  then have "\<not> block \<le> count" by (simp add: word_le_nat_alt)
  then show ?case by (subst verify_loop.simps) simp
next
  case (Suc k)
  note len = Suc.prems(3)
  from Suc.prems(1) obtain l s p where b: "block_length v data ofs = Some (l, s)"
    "bytes_at data (ofs + l + 4) (unat s) = Some p" "ofs + l + 4 + unat s \<le> length data"
    "mtbl_fixed_decode32 (drop (ofs + l) data) = Some (crc p)" "intact crc v data (ofs + l + 4 + unat s) k"
    by (rule intact_SucE)
  have small: "length data < 2 ^ 64"  using le_less_trans [OF len unat_u64_lt] by simp
  have ofs: "unat (of_nat ofs :: u64) = ofs" using Suc.prems(2) small by (intro unat_of_nat_small) simp
  have ofs': "unat (of_nat (ofs + l + 4 + unat s) :: u64) = ofs + l + 4 + unat s"
    using b(3) small by (intro unat_of_nat_small) simp
  have le: "block \<le> count" using Suc.prems(4) by (simp add: word_le_nat_alt)
  have nxt: "unat (block + 1) = unat block + 1"
    using Suc.prems(4,5) unat_word_ariths(1) [of block 1] by simp
  have bound: "\<not> bytes < of_nat (ofs + l + 4 + unat s)"
    unfolding word_less_nat_alt ofs' using b(3) len by simp
  have "verify_loop crc v data bytes count (block + 1) (of_nat (ofs + l + 4 + unat s)) (of_nat (ofs + l + 4 + unat s)) = Some True"
    using b(3,5) len Suc.prems(4,5) nxt by (intro Suc.IH) simp_all
  then show ?case
    using le bound b(1,2,4)
    by (subst verify_loop.simps) (simp add: ofs step_offset Let_def del: of_nat_add)
qed

text \<open>What the loop accepts is intact: each turn consumes the bytes it has read.\<close>

lemma intact_of_loop:
  assumes "verify_loop crc v data bytes count block (of_nat ofs) consumed = Some True"
    and "ofs \<le> length data" and "length data < 2 ^ 64"
  shows "intact crc v data ofs (unat count + 1 - unat block)"
  using assms
proof (induction "length data - ofs" arbitrary: ofs block consumed rule: less_induct)
  case less
  show ?case
  proof (cases "block \<le> count")
    case False
    then show ?thesis by (simp add: word_le_nat_alt)
  next
    case le: True
    have ofs: "unat (of_nat ofs :: u64) = ofs" using less.prems(2,3) by (intro unat_of_nat_small) simp
    from less.prems(1) le obtain l s p where b: "block_length v data ofs = Some (l, s)"
      "bytes_at data (ofs + l + 4) (unat s) = Some p" "mtbl_fixed_decode32 (drop (ofs + l) data) = Some (crc p)"
      and rec: "verify_loop crc v data bytes count (block + 1) (of_nat (ofs + l + 4 + unat s))
        (consumed + (of_nat l + 4) + s) = Some True"
      by (subst (asm) verify_loop.simps)
        (auto simp: ofs step_offset Let_def simp del: of_nat_add split: bind_splits if_splits prod.splits)
    have in_data: "ofs + l + 4 + unat s \<le> length data" using bytes_at_SomeD [OF b(2)] by simp
    then have "intact crc v data (ofs + l + 4 + unat s) (unat count + 1 - unat (block + 1))"
      using rec less.prems(3) by (intro less.hyps) simp_all
    moreover have "unat count + 1 - unat block = Suc k \<Longrightarrow> k \<le> unat count + 1 - unat (block + 1)" for k
      using unat_word_ariths(1) [of block 1] by simp
    moreover have "\<exists>k. unat count + 1 - unat block = Suc k"
      using le by (intro exI [of _ "unat count - unat block"]) (simp add: word_le_nat_alt)
    ultimately show ?thesis using b intact_mono by fastforce
  qed
qed

subsection \<open>Files\<close>

text \<open>The part of the file the metadata say holds the data blocks.\<close>

definition data_region :: "mtbl_metadata \<Rightarrow> bytes \<Rightarrow> bytes" where
  "data_region m fd = drop (unat (index_block_offset m - bytes_data_blocks m)) (take (unat (index_block_offset m)) fd)"

lemma data_region_length: "length (data_region m fd) \<le> unat (bytes_data_blocks m)"
proof -
  let ?i = "index_block_offset m" and ?b = "bytes_data_blocks m"
  have "unat ?i \<le> unat (?i - ?b) + unat ?b"
    using unat_word_ariths(1) [of "?i - ?b" ?b] mod_less_eq_dividend [of "unat (?i - ?b) + unat ?b" "2 ^ 64"] by simp
  then show ?thesis by (auto simp: data_region_def min_def)
qed

lemma verify_data_blocks_iff:
  "verify_data_blocks crc failed fd (index_block_offset m - bytes_data_blocks m) (bytes_data_blocks m)
      (count_data_blocks m) v = Some True \<longleftrightarrow>
    bytes_data_blocks m = 0 \<and> count_data_blocks m = 0 \<or>
    \<not> failed \<and> index_block_offset m \<noteq> 0 \<and> intact crc v (data_region m fd) 0 (unat (count_data_blocks m))"
proof -
  let ?d = "data_region m fd" and ?bytes = "bytes_data_blocks m" and ?count = "count_data_blocks m"
  have small: "length ?d < 2 ^ 64" using le_less_trans [OF data_region_length unat_u64_lt] by simp
  have "verify_loop crc v ?d ?bytes ?count 1 0 0 = Some True \<longleftrightarrow> intact crc v ?d 0 (unat ?count)"
  proof
    assume "verify_loop crc v ?d ?bytes ?count 1 0 0 = Some True"
    then show "intact crc v ?d 0 (unat ?count)" using intact_of_loop [of crc v ?d ?bytes ?count 1 0 0] small by simp
  next
    assume i: "intact crc v ?d 0 (unat ?count)"
    have "unat ?count < 2 ^ 62" using intact_bound [OF i] small by auto
    with loop_of_intact [OF i _ data_region_length, of 1 ?count]
    show "verify_loop crc v ?d ?bytes ?count 1 0 0 = Some True" by simp
  qed
  then show ?thesis by (auto simp: verify_data_blocks_def data_region_def Let_def)
qed

text \<open>A table the program accepts: it opens, and its data blocks are intact.\<close>

abbreviation verify_options :: "mtbl_reader_options option" where
  "verify_options \<equiv> Some (mtbl_reader_options_set_verify_checksums mtbl_reader_options_init True)"

definition table_sound :: "(bytes \<Rightarrow> u32) \<Rightarrow> verify_input \<Rightarrow> bool" where
  "table_sound crc fname =
     (case vi_opened fname of
        None \<Rightarrow> False
      | Some fd \<Rightarrow>
          (case mtbl_reader_init_fd crc (vi_reader_map_failed fname) fd verify_options of
             Some (Some r) \<Rightarrow>
               bytes_data_blocks (r_m r) = 0 \<and> count_data_blocks (r_m r) = 0 \<or>
               \<not> vi_map_failed fname \<and> index_block_offset (r_m r) \<noteq> 0 \<and>
               intact crc (file_version (r_m r)) (data_region (r_m r) fd) 0 (unat (count_data_blocks (r_m r)))
           | _ \<Rightarrow> False))"

lemma verify_file_iff: "verify_file crc fname = Some True \<longleftrightarrow> table_sound crc fname"
  by (auto simp: verify_file_def table_sound_def mtbl_reader_metadata_def mtbl_metadata_count_data_blocks_def
      mtbl_metadata_bytes_data_blocks_def mtbl_metadata_index_block_offset_def mtbl_metadata_file_version_def
      verify_data_blocks_iff Let_def split: bind_splits option.splits)

lemma count_failed_ge: "count_failed crc argv n = Some m \<Longrightarrow> n \<le> m"
  by (induction argv arbitrary: n) (fastforce split: bind_splits if_splits)+

lemma count_failed_none:
  "count_failed crc argv n = Some n \<longleftrightarrow> (\<forall>fname\<in>set argv. verify_file crc fname = Some True)"
proof (induction argv arbitrary: n)
  case (Cons fname argv)
  have "count_failed crc argv (n + 1) \<noteq> Some n" using count_failed_ge [of crc argv "n + 1" n] by auto
  then show ?case using Cons.IH [of n] by (cases "verify_file crc fname") auto
qed simp

lemma verify_main_zero:
  "verify_main crc argv = Some 0 \<longleftrightarrow> argv \<noteq> [] \<and> (\<forall>fname\<in>set argv. verify_file crc fname = Some True)"
  using count_failed_none [of crc argv 0] count_failed_ge [of crc argv 0]
  by (fastforce simp: verify_main_def Suc_le_eq split: bind_splits if_splits)

subsection \<open>Written files\<close>

lemma intact_frames:
  assumes "\<forall>p\<in>set ps. length p < 2 ^ 64"
  shows "intact crc MTBL_FORMAT_V2 (pre @ concat (map (frame crc) ps)) (length pre) (length ps)"
  using assms
proof (induction ps arbitrary: pre)
  case (Cons p ps)
  let ?data = "pre @ frame crc p @ concat (map (frame crc) ps)"
  have len: "unat (of_nat (length p) :: u64) = length p" using Cons.prems by (intro unat_of_nat_small) simp
  note at = frame_at [of ?data pre crc p "concat (map (frame crc) ps)", OF refl refl]
  let ?l = "length (mtbl_varint_encode64 (of_nat (length p)))"
  have contents: "bytes_at ?data (length pre + ?l + 4) (length p) = Some p"
    using at(2) by (simp add: bytes_at_def frame_def)
  have next_ofs: "length pre + ?l + 4 + length p = length pre + length (frame crc p)" by (simp add: frame_def)
  have "intact crc MTBL_FORMAT_V2 ((pre @ frame crc p) @ concat (map (frame crc) ps))
      (length (pre @ frame crc p)) (length ps)"
    using Cons.prems by (intro Cons.IH) simp
  then show ?case
    using at contents by (simp add: len next_ofs)
qed simp

lemma payload_in_frames: "b \<in> set bs \<Longrightarrow> length (block_payload L opt b) \<le> length (block_frames L crc opt bs)"
  by (induction bs) (auto simp: frame_def)

lemma frames_count: "length bs \<le> length (block_frames L crc opt bs)"
proof (induction bs)
  case (Cons b bs)
  then show ?case using frame_pos [of crc "block_payload L opt b"] by (simp add: Suc_le_eq add_strict_increasing del: length_greater_0_conv)
qed simp

lemma written_verifies:
  assumes fits: "run_fits L opt fd (added evs)" and wr: "write_file L crc opt fd evs = Some (rs, data)"
    and small: "length data < 2 ^ 63"
  shows "verify_file crc \<lparr>vi_opened = Some data, vi_reader_map_failed = False, vi_map_failed = False\<rparr> = Some True"
proof -
  let ?bs = "table_close (final_state opt (added evs))" and ?pre = "f_bytes fd"
  let ?fr = "block_frames L crc opt ?bs" and ?es = "kept None (added evs)"
  have data: "data = table_image L crc opt ?pre ?es ?bs" using session [OF fits, of crc None] wr by auto
  obtain r where r: "mtbl_reader_init_fd crc False data verify_options = Some (Some r)"
      "r_m r = written_meta L crc opt ?pre ?es ?bs"
    using written_metadata [OF fits wr small, of verify_options] by blast
  note m = r(2) written_meta_def table_meta_def
  obtain rest where tf: "data = (?pre @ ?fr) @ rest"
    unfolding data by (simp add: table_image_def Let_def)
  then have len: "length ?pre + length ?fr < 2 ^ 63" using small by (metis length_append add_lessD1)
  have off: "unat (of_nat (length ?pre + length ?fr) :: u64) = length ?pre + length ?fr"
    "unat (of_nat (length ?pre) :: u64) = length ?pre" "unat (of_nat (length ?fr) :: u64) = length ?fr"
    by (rule unat_of_nat_small; use len in simp)+
  have region: "data_region (r_m r) data = ?fr"
    using off by (simp add: data_region_def m tf)
  have fr: "length ?fr < 2 ^ 64" using len by simp
  have pl: "\<forall>p\<in>set (map (block_payload L opt) ?bs). length p < 2 ^ 64"
    unfolding set_map ball_simps(9) using le_less_trans [OF payload_in_frames fr] by blast
  have n: "unat (of_nat (length ?bs) :: u64) = length ?bs"
    using frames_count [of ?bs L crc opt] len by (intro unat_of_nat_small) simp
  have "intact crc MTBL_FORMAT_V2 ?fr 0 (length ?bs)"
    using intact_frames [OF pl, of crc "[]"] by (simp add: block_frames_def comp_def)
  then have "intact crc (file_version (r_m r)) (data_region (r_m r) data) 0 (unat (count_data_blocks (r_m r)))"
    unfolding region by (simp add: m n)
  moreover have "bytes_data_blocks (r_m r) = 0 \<and> count_data_blocks (r_m r) = 0 \<or> index_block_offset (r_m r) \<noteq> 0"
  proof (cases ?bs)
    case Nil
    then show ?thesis by (simp add: m)
  next
    case (Cons b bs)
    then have "0 < length ?fr" using frame_pos by simp
    then have "index_block_offset (r_m r) \<noteq> 0" using off(1) by (auto simp: m simp del: of_nat_add)
    then show ?thesis ..
  qed
  ultimately show ?thesis using r(1) by (simp add: verify_file_iff table_sound_def)
qed

subsection \<open>Properties\<close>

text \<open>
  C16: a table written by any sequence of calls on one host verifies on another: the program exits
  with status 0.
\<close>

theorem written_file_verifies:
  assumes "run_fits L opt fd (added evs)" and "host_ok h" and "host_ok h'"
  shows "\<exists>data. write_file L (host_crc h addr) opt fd evs = Some (increasing None (added evs), data) \<and>
    (length data < 2 ^ 63 \<longrightarrow>
     verify_main (host_crc h' addr')
       [\<lparr>vi_opened = Some data, vi_reader_map_failed = False, vi_map_failed = False\<rparr>] = Some 0)"
  unfolding host_crc_eq [OF assms(2)] host_crc_eq [OF assms(3)] verify_main_zero
  using session [OF assms(1)] written_verifies [OF assms(1)] by fastforce

theorem written_file_verifies_witness:
  "\<exists>data. write_file store_lib (host_crc portable_host (\<lambda>b. 0)) plain_options empty_fd
       [Add [97] [1], Add [98] [2]] = Some ([True, True], data) \<and>
     verify_main (host_crc portable_host (\<lambda>b. 1))
       [\<lparr>vi_opened = Some data, vi_reader_map_failed = False, vi_map_failed = False\<rparr>] = Some 0"
proof -
  let ?evs = "[Add [97] [1], Add [98] [2]]"
  have fits: "run_fits store_lib plain_options empty_fd (added ?evs)"
    by (rule plain_fits) (simp_all add: entry_fits_def)
  have "size_bound [] (table_close (final_state plain_options (added ?evs))) < 2 ^ 63"
    by (simp add: layout_simps)
  note small = plain_small [OF fits _ this]
  from written_file_verifies [OF fits portable_host_ok portable_host_ok, of "\<lambda>b. 0" "\<lambda>b. 1"]
  obtain data where w: "write_file store_lib (host_crc portable_host (\<lambda>b. 0)) plain_options empty_fd ?evs =
      Some (increasing None (added ?evs), data)"
    and r: "length data < 2 ^ 63 \<longrightarrow> verify_main (host_crc portable_host (\<lambda>b. 1))
       [\<lparr>vi_opened = Some data, vi_reader_map_failed = False, vi_map_failed = False\<rparr>] = Some 0"
    by blast
  from w r [THEN mp, OF small [OF w]] show ?thesis by (intro exI [of _ data]) simp
qed

text \<open>
  C9: the program exits with status 0 exactly when it was given at least one file and every one
  opens with its index intact and has as many intact data blocks, one after the other from the
  start of the data region and inside it, as its metadata count: the wrapping offsets and the
  bounds check of the loop let nothing else pass.
\<close>

theorem verify_exit_zero:
  "verify_main crc argv = Some 0 \<longleftrightarrow> argv \<noteq> [] \<and> (\<forall>fname\<in>set argv. table_sound crc fname)"
  unfolding verify_main_zero verify_file_iff by (rule refl)

theorem verify_exit_zero_witness:
  "\<exists>data. write_file store_lib crc32c plain_options empty_fd [Add [97] [1], Add [98] [2]] = Some ([True, True], data) \<and>
     (let good = \<lparr>vi_opened = Some data, vi_reader_map_failed = False, vi_map_failed = False\<rparr>;
          missing = \<lparr>vi_opened = None, vi_reader_map_failed = False, vi_map_failed = False\<rparr>
      in verify_main crc32c [good, good] = Some 0 \<and> verify_main crc32c [good, missing] \<noteq> Some 0)"
proof -
  let ?evs = "[Add [97] [1], Add [98] [2]]"
  have fits: "run_fits store_lib plain_options empty_fd (added ?evs)"
    by (rule plain_fits) (simp_all add: entry_fits_def)
  obtain data where w: "write_file store_lib crc32c plain_options empty_fd ?evs = Some (increasing None (added ?evs), data)"
    using session [OF fits, of crc32c None] by blast
  have "size_bound [] (table_close (final_state plain_options (added ?evs))) < 2 ^ 63"
    by (simp add: layout_simps)
  note small = plain_small [OF fits w this]
  have "table_sound crc32c \<lparr>vi_opened = Some data, vi_reader_map_failed = False, vi_map_failed = False\<rparr>"
    using written_verifies [OF fits w small] by (simp add: verify_file_iff)
  then show ?thesis
    using w by (intro exI [of _ data]) (simp add: verify_exit_zero Let_def table_sound_def [of _ "\<lparr>vi_opened = None, vi_reader_map_failed = _, vi_map_failed = _\<rparr>"])
qed

text \<open>
  A size near \<open>2 ^ 64\<close> wraps \<open>bytes_consumed\<close>, passes the bounds check, and the checksum is taken of
  memory outside the file.
\<close>

theorem verify_size_wraps:
  assumes "0 < count" and "length rest < 2 ^ 63"
  shows "verify_loop crc MTBL_FORMAT_V2 (mtbl_varint_encode64 (- 14) @ rest) bytes count 1 0 0 = None"
proof -
  have "1 \<le> count" using assms(1) by (simp add: word_le_nat_alt word_less_nat_alt)
  moreover have "length (mtbl_varint_encode64 (- 14)) = 10" by code_simp
  ultimately show ?thesis using assms(2)
    by (subst verify_loop.simps) (simp add: block_length_def wire_simps bytes_at_def)
qed

end
