(* ===== verification/Strtol.thy ===== *)
theory Strtol
  imports Prelude "HOL-Library.Char_ord"
begin

text \<open>
  \<open>strtol\<close>, \<open>strtoul\<close> and \<open>atoi\<close> of the C library in the C locale: the value, the rest of the
  string (\<open>endptr\<close>) and whether \<open>errno\<close> is \<open>ERANGE\<close>. Where there is no number the value is 0
  and the rest the whole string. \<open>getenv_int\<close> is \<open>libmy/getenv_int.h\<close>.
\<close>

definition LONG_MAX :: int where "LONG_MAX = 2 ^ 63 - 1"
definition LONG_MIN :: int where "LONG_MIN = - (2 ^ 63)"
definition ULONG_MAX :: nat where "ULONG_MAX = 2 ^ 64 - 1"

definition isspace :: "char \<Rightarrow> bool" where
  "isspace c \<longleftrightarrow> of_char c \<in> {9, 10, 11, 12, 13, 32 :: nat}"

text \<open>The value of a digit in any base up to 36; 36 for other characters.\<close>

definition digit_value :: "char \<Rightarrow> nat" where
  "digit_value c =
     (let n = of_char c
      in if 48 \<le> n \<and> n \<le> 57 then n - 48
         else if 65 \<le> n \<and> n \<le> 90 then n - 55
         else if 97 \<le> n \<and> n \<le> 122 then n - 87
         else 36)"

primrec strto_digits :: "nat \<Rightarrow> nat \<Rightarrow> string \<Rightarrow> nat \<times> string" where
  "strto_digits base n [] = (n, [])"
| "strto_digits base n (c # s) =
     (if digit_value c < base then strto_digits base (n * base + digit_value c) s else (n, c # s))"

definition strto_sign :: "string \<Rightarrow> bool \<times> string" where
  "strto_sign s =
     (case s of
        [] \<Rightarrow> (False, s)
      | c # t \<Rightarrow> if c = CHR ''-'' then (True, t) else if c = CHR ''+'' then (False, t) else (False, s))"

text \<open>A base of 0 is read from the number: \<open>0x\<close> before a hexadecimal digit, \<open>0\<close>, or neither.\<close>

definition strto_base :: "nat \<Rightarrow> string \<Rightarrow> nat \<times> string" where
  "strto_base base s =
     (case s of
        z # x # d # t \<Rightarrow>
          if (base = 0 \<or> base = 16) \<and> z = CHR ''0'' \<and> (x = CHR ''x'' \<or> x = CHR ''X'') \<and> digit_value d < 16
          then (16, d # t)
          else if base = 0 then (if z = CHR ''0'' then 8 else 10, s) else (base, s)
      | z # t \<Rightarrow> if base = 0 then (if z = CHR ''0'' then 8 else 10, s) else (base, s)
      | [] \<Rightarrow> (base, s))"

definition strto :: "nat \<Rightarrow> string \<Rightarrow> (bool \<times> nat \<times> string) option" where
  "strto base s =
     (let (neg, t) = strto_sign (dropWhile isspace s);
          (b, t) = strto_base base t
      in case t of
           [] \<Rightarrow> None
         | c # _ \<Rightarrow>
             if digit_value c < b then (let (n, rest) = strto_digits b 0 t in Some (neg, n, rest))
             else None)"

definition strtol :: "nat \<Rightarrow> string \<Rightarrow> int \<times> string \<times> bool" where
  "strtol base s =
     (case strto base s of
        None \<Rightarrow> (0, s, False)
      | Some (neg, n, rest) \<Rightarrow>
          (let v = (if neg then - int n else int n)
           in if v > LONG_MAX then (LONG_MAX, rest, True)
              else if v < LONG_MIN then (LONG_MIN, rest, True)
              else (v, rest, False)))"

definition strtoul :: "nat \<Rightarrow> string \<Rightarrow> u64 \<times> string \<times> bool" where
  "strtoul base s =
     (case strto base s of
        None \<Rightarrow> (0, s, False)
      | Some (neg, n, rest) \<Rightarrow>
          if n > ULONG_MAX then (of_nat ULONG_MAX, rest, True)
          else (if neg then - of_nat n else of_nat n, rest, False))"

text \<open>Converting a \<open>long\<close> to an \<open>int\<close> keeps the low 32 bits.\<close>

definition int_of_long :: "int \<Rightarrow> int" where
  "int_of_long v = sint (of_int v :: u32)"

definition atoi :: "string \<Rightarrow> int" where
  "atoi s = int_of_long (fst (strtol 10 s))"

definition getenv_int :: "string option \<Rightarrow> u64 option" where
  "getenv_int env =
     (case env of
        None \<Rightarrow> None
      | Some s \<Rightarrow> (let (value, t, _) = strtoul 0 s in if t \<noteq> [] then None else Some value))"

subsection \<open>Facts\<close>

lemma int_of_long_bounds: "- (2 ^ 31) \<le> int_of_long v \<and> int_of_long v < 2 ^ 31"
  unfolding int_of_long_def using sint_ge [of "of_int v :: u32"] sint_lt [of "of_int v :: u32"] by simp

lemma int_of_long_id: "- (2 ^ 31) \<le> v \<Longrightarrow> v < 2 ^ 31 \<Longrightarrow> int_of_long v = v"
  unfolding int_of_long_def by (simp add: signed_of_int signed_take_bit_int_eq_self)

lemma strtol_bounds: "strtol base s = (v, rest, e) \<Longrightarrow> LONG_MIN \<le> v \<and> v \<le> LONG_MAX"
  by (auto simp: strtol_def Let_def LONG_MAX_def LONG_MIN_def split: option.splits if_splits)

text \<open>Decimal numbers as \<open>printf\<close> writes them read back.\<close>

fun decimal :: "nat \<Rightarrow> string" where
  "decimal n = (if n < 10 then [char_of (n + 48)] else decimal (n div 10) @ [char_of (n mod 10 + 48)])"

declare decimal.simps [simp del]

lemma digit_value_char: "d < 10 \<Longrightarrow> digit_value (char_of (d + 48)) = d"
  by (simp add: digit_value_def Let_def)

lemma digits_append:
  "\<forall>c\<in>set s. digit_value c < base \<Longrightarrow> strto_digits base n (s @ t) = strto_digits base (fst (strto_digits base n s)) t"
  by (induction s arbitrary: n) simp_all

lemma decimal_digits: "\<forall>c\<in>set (decimal n). digit_value c < 10"
proof (induction n rule: decimal.induct)
  case (1 n)
  then show ?case using digit_value_char [of n] digit_value_char [of "n mod 10"]
    by (subst decimal.simps) auto
qed

lemma digits_decimal: "strto_digits 10 0 (decimal n) = (n, [])"
proof (induction n rule: decimal.induct)
  case (1 n)
  show ?case
  proof (cases "n < 10")
    case True
    then show ?thesis by (subst decimal.simps) (simp add: digit_value_char)
  next
    case False
    then have "strto_digits 10 0 (decimal n) = strto_digits 10 (n div 10) [char_of (n mod 10 + 48)]"
      using 1 digits_append [OF decimal_digits] by (subst decimal.simps) simp
    then show ?thesis by (simp add: digit_value_char)
  qed
qed

lemma decimal_hd: "\<exists>c t. decimal n = c # t \<and> digit_value c < 10"
proof -
  have "decimal n \<noteq> []" by (subst decimal.simps) simp
  then show ?thesis using decimal_digits [of n] by (cases "decimal n") auto
qed

lemma strtol_decimal:
  assumes "n < 2 ^ 63"
  shows "strtol 10 (decimal n) = (int n, [], False)" and "strtol 10 (CHR ''-'' # decimal n) = (- int n, [], False)"
proof -
  obtain c t where d: "decimal n = c # t" "digit_value c < 10" using decimal_hd by blast
  then have c: "\<not> isspace c" "c \<noteq> CHR ''-''" "c \<noteq> CHR ''+''"
    by (auto simp: isspace_def digit_value_def Let_def split: if_splits)
  have b: "strto_base 10 (decimal n) = (10, decimal n)"
    by (auto simp: strto_base_def split: list.splits)
  have dash: "\<not> isspace CHR ''-''" by (simp add: isspace_def)
  have "strto 10 (decimal n) = Some (False, n, [])" "strto 10 (CHR ''-'' # decimal n) = Some (True, n, [])"
    using digits_decimal [of n] b c dash d by (auto simp: strto_def strto_sign_def)
  then show "strtol 10 (decimal n) = (int n, [], False)" "strtol 10 (CHR ''-'' # decimal n) = (- int n, [], False)"
    using assms by (simp_all add: strtol_def Let_def LONG_MAX_def LONG_MIN_def)
qed

end
