(* ===== verification/Mtbl_Merge.thy ===== *)
theory Mtbl_Merge
  imports Strtol Source_Write Combine Merger_Files
begin

text \<open>
  \<open>src/mtbl_merge.c\<close>: the command that merges table files into one. The environment, the options
  as \<open>getopt\<close> delivers them, the contents of the input files, the output file and the user's
  shared object are arguments. An inner \<open>None\<close> is the exit with a message and status 1; an outer
  \<open>None\<close> is a failed assertion, as everywhere. The counters the program prints are left out.
\<close>

subsection \<open>Options\<close>

definition MERGE_DEFAULT_BLOCK_SIZE :: u64 where "MERGE_DEFAULT_BLOCK_SIZE = 8192"
definition DEFAULT_COMPRESS_LEVEL :: int where "DEFAULT_COMPRESS_LEVEL = - 1000"

record merge_opts =
  opt_threadpool :: "int option"
  opt_compression_type :: mtbl_compression_type
  opt_compression_level :: int
  opt_block_size :: u64

text \<open>\<open>MTBL_MERGE_BLOCK_SIZE\<close> of the environment.\<close>

definition get_block_size :: "string option \<Rightarrow> u64" where
  "get_block_size env =
     (case getenv_int env of Some sz \<Rightarrow> sz | None \<Rightarrow> MERGE_DEFAULT_BLOCK_SIZE)"

definition parse_long :: "string \<Rightarrow> int option" where
  "parse_long str =
     (let (val, endptr, erange) = strtol 0 str
      in if erange \<and> (val = LONG_MAX \<or> val = LONG_MIN) \<or> erange \<and> val = 0 then None
         else if endptr = str \<or> endptr \<noteq> [] then None
         else Some val)"

definition parse_arg_block_size :: "string option \<Rightarrow> string \<Rightarrow> merge_opts \<Rightarrow> merge_opts option" where
  "parse_arg_block_size env arg opts =
     (if env \<noteq> None then None
      else case parse_long arg of
        None \<Rightarrow> None
      | Some arg_block_size \<Rightarrow> Some (opts\<lparr>opt_block_size := of_int arg_block_size\<rparr>))"

definition parse_arg_compression :: "string \<Rightarrow> merge_opts \<Rightarrow> merge_opts option" where
  "parse_arg_compression arg opts =
     (case mtbl_compression_type_from_str arg of
        None \<Rightarrow> None
      | Some t \<Rightarrow> Some (opts\<lparr>opt_compression_type := t\<rparr>))"

definition parse_arg_compression_level :: "string \<Rightarrow> merge_opts \<Rightarrow> merge_opts option" where
  "parse_arg_compression_level arg opts =
     (let (val, endp, _) = strtol 10 arg
      in if endp = [] then Some (opts\<lparr>opt_compression_level := int_of_long val\<rparr>) else None)"

definition parse_arg_thread_count :: "string \<Rightarrow> merge_opts \<Rightarrow> merge_opts option" where
  "parse_arg_thread_count arg opts =
     (let (val, endp, _) = strtol 10 arg;
          thread_count = int_of_long val
      in if thread_count < 0 then None else Some (opts\<lparr>opt_threadpool := Some thread_count\<rparr>))"

text \<open>The loop of \<open>main\<close> over the options \<open>getopt\<close> returns.\<close>

primrec merge_getopt :: "string option \<Rightarrow> (char \<times> string) list \<Rightarrow> merge_opts \<Rightarrow> merge_opts option" where
  "merge_getopt env [] opts = Some opts"
| "merge_getopt env (a # argv) opts = do {
     let (c, optarg) = a;
     opts \<leftarrow> (if c = CHR ''b'' then parse_arg_block_size env optarg opts
               else if c = CHR ''c'' then parse_arg_compression optarg opts
               else if c = CHR ''l'' then parse_arg_compression_level optarg opts
               else if c = CHR ''t'' then parse_arg_thread_count optarg opts
               else None);
     merge_getopt env argv opts
   }"

definition merge_options :: "string option \<Rightarrow> (char \<times> string) list \<Rightarrow> merge_opts option" where
  "merge_options env argv =
     merge_getopt env argv
       \<lparr>opt_threadpool = None, opt_compression_type = MTBL_COMPRESSION_ZLIB,
        opt_compression_level = DEFAULT_COMPRESS_LEVEL, opt_block_size = get_block_size env\<rparr>"

subsection \<open>The user's functions\<close>

text \<open>
  A loaded shared object: the merge functions it has by symbol name, and what its init functions
  return (\<open>None\<close> for NULL). A merge function gets that pointer and gives a value or NULL.
\<close>

type_synonym merge_fn = "bytes \<Rightarrow> bytes \<Rightarrow> bytes \<Rightarrow> bytes option"

record 'c merge_dso =
  dso_merge :: "string \<Rightarrow> ('c option \<Rightarrow> merge_fn) option"
  dso_init :: "string \<Rightarrow> 'c option option"

text \<open>
  \<open>path\<close> and \<open>prefix\<close> are \<open>MTBL_MERGE_DSO\<close> and \<open>MTBL_MERGE_FUNC_PREFIX\<close>. The result is
  \<open>user_func_merge\<close> with its closure applied, as \<open>merge_func\<close> calls it.
\<close>

definition init_dso ::
  "(string \<Rightarrow> 'c merge_dso option) \<Rightarrow> string option \<Rightarrow> string option \<Rightarrow> merge_fn option" where
  "init_dso dlopen path prefix = do {
     path \<leftarrow> path;
     prefix \<leftarrow> prefix;
     handle \<leftarrow> dlopen path;
     user_func_merge \<leftarrow> dso_merge handle (prefix @ ''_func'');
     let user_clos = (case dso_init handle (prefix @ ''_init_func'') of None \<Rightarrow> None | Some clos \<Rightarrow> clos);
     Some (user_func_merge user_clos)
   }"

subsection \<open>Merging\<close>

text \<open>
  The options of the writer \<open>init_mtbl\<close> makes; \<open>None\<close> for a type the setter asserts against. A
  pool of 0 threads (\<open>mtbl_threadpool_init\<close>) has no \<open>struct threadpool\<close> and is no pool to the writer.
\<close>

definition merge_writer_options :: "merge_opts \<Rightarrow> mtbl_writer_options option" where
  "merge_writer_options opts = do {
     wopt \<leftarrow> mtbl_writer_options_set_compression mtbl_writer_options_init (opt_compression_type opts);
     let wopt = (if opt_compression_level opts \<noteq> DEFAULT_COMPRESS_LEVEL
                 then mtbl_writer_options_set_compression_level wopt (opt_compression_level opts) else wopt);
     let wopt = mtbl_writer_options_set_threadpool wopt
       (case opt_threadpool opts of None \<Rightarrow> False | Some thread_count \<Rightarrow> thread_count > 0);
     Some (mtbl_writer_options_set_block_size wopt (unat (opt_block_size opts)))
   }"

definition init_mtbl ::
  "merge_opts \<Rightarrow> merge_fn \<Rightarrow> fdesc option \<Rightarrow> (('c, 's) mtbl_merger \<times> mtbl_writer) option option" where
  "init_mtbl opts merge_func output = do {
     let mopt = mtbl_merger_options_set_merge_func mtbl_merger_options_init (Some merge_func);
     wopt \<leftarrow> merge_writer_options opts;
     merger \<leftarrow> mtbl_merger_init (Some mopt);
     writer \<leftarrow> mtbl_writer_init output (Some wopt);
     Some (map_option (Pair merger) writer)
   }"

text \<open>The loop of \<open>merge\<close>; it ends whenever \<open>mtbl_iter_next\<close> does not succeed.\<close>

partial_function (option) merge_loop ::
  "('w \<Rightarrow> bytes \<Rightarrow> bytes \<Rightarrow> (bool \<times> 'w) option) \<Rightarrow> ('s \<Rightarrow> (entry option \<times> 's) option) \<Rightarrow> 's \<Rightarrow> 'w \<Rightarrow> 'w option" where
  "merge_loop add next it w = do {
     (e, it) \<leftarrow> next it;
     case e of
       None \<Rightarrow> Some w
     | Some (key, val) \<Rightarrow> do {
         (res, w) \<leftarrow> add w key val;
         ensure res;
         merge_loop add next it w
       }
   }"

definition merge ::
  "'z complib \<Rightarrow> (bytes \<Rightarrow> u32) \<Rightarrow> (mtbl_reader, reader_clos) mtbl_merger \<Rightarrow> mtbl_writer \<Rightarrow> fdesc option" where
  "merge L crc merger writer = do {
     it \<leftarrow> mtbl_source_iter (mtbl_merger_source merger);
     ensure (it \<noteq> None);
     writer \<leftarrow> merge_loop (mtbl_writer_add L crc) mtbl_iter_next it writer;
     mtbl_writer_destroy L crc writer
   }"

text \<open>The inputs: what \<open>open\<close> gives, and whether \<open>mmap\<close> fails.\<close>

type_synonym merge_input = "bytes option \<times> bool"

primrec open_inputs ::
  "(bytes \<Rightarrow> u32) \<Rightarrow> 'z complib \<Rightarrow> merge_input list \<Rightarrow> (mtbl_reader, reader_clos) mtbl_merger \<Rightarrow>
   (mtbl_reader, reader_clos) mtbl_merger option option" where
  "open_inputs crc L [] merger = Some (Some merger)"
| "open_inputs crc L (fname # argv) merger = do {
     r \<leftarrow> mtbl_reader_init crc (snd fname) (fst fname) None;
     case r of
       None \<Rightarrow> Some None
     | Some r \<Rightarrow> open_inputs crc L argv (mtbl_merger_add_source merger (mtbl_reader_source crc L r))
   }"

text \<open>\<open>main\<close>: the exit status and the output file, if one was created.\<close>

definition merge_main ::
  "'z complib \<Rightarrow> (bytes \<Rightarrow> u32) \<Rightarrow> (string \<Rightarrow> 'c merge_dso option) \<Rightarrow> (string \<Rightarrow> string option) \<Rightarrow> (char \<times> string) list \<Rightarrow>
   merge_input list \<Rightarrow> fdesc option \<Rightarrow> (int \<times> fdesc option) option" where
  "merge_main L crc dlopen getenv argv inputs output =
     (case merge_options (getenv ''MTBL_MERGE_BLOCK_SIZE'') argv of
        None \<Rightarrow> Some (1, None)
      | Some opts \<Rightarrow>
          if inputs = [] then Some (1, None)
          else (case init_dso dlopen (getenv ''MTBL_MERGE_DSO'') (getenv ''MTBL_MERGE_FUNC_PREFIX'') of
              None \<Rightarrow> Some (1, None)
            | Some merge_func \<Rightarrow> do {
                mw \<leftarrow> init_mtbl opts merge_func output;
                case mw of
                  None \<Rightarrow> Some (1, None)
                | Some (merger, writer) \<Rightarrow> do {
                    m \<leftarrow> open_inputs crc L inputs merger;
                    case m of
                      None \<Rightarrow> Some (1, Some (w_fd writer))
                    | Some merger \<Rightarrow> do {
                        fd \<leftarrow> merge L crc merger writer;
                        Some (0, Some fd)
                      }
                  }
              }))"

subsection \<open>The options are well-formed\<close>

text \<open>
  What the option parser promises the rest of the program: a known compression type, a level and
  a thread count that are \<open>int\<close> values.
\<close>

definition opts_typed :: "merge_opts \<Rightarrow> bool" where
  "opts_typed opts \<longleftrightarrow> mtbl_compression_type_to_str (opt_compression_type opts) \<noteq> None \<and>
     - (2 ^ 31) \<le> opt_compression_level opts \<and> opt_compression_level opts < 2 ^ 31 \<and>
     (\<forall>n. opt_threadpool opts = Some n \<longrightarrow> 0 \<le> n \<and> n < 2 ^ 31)"

lemma from_str_known: "mtbl_compression_type_from_str s = Some t \<Longrightarrow> mtbl_compression_type_to_str t \<noteq> None"
  by (auto simp: mtbl_compression_type_from_str_def split: if_splits)

lemma parse_typed:
  assumes "opts_typed opts"
  shows "parse_arg_block_size env arg opts = Some opts' \<Longrightarrow> opts_typed opts'"
    and "parse_arg_compression arg opts = Some opts' \<Longrightarrow> opts_typed opts'"
    and "parse_arg_compression_level arg opts = Some opts' \<Longrightarrow> opts_typed opts'"
    and "parse_arg_thread_count arg opts = Some opts' \<Longrightarrow> opts_typed opts'"
  using assms int_of_long_bounds from_str_known
  by (auto simp: opts_typed_def parse_arg_block_size_def parse_arg_compression_def parse_arg_compression_level_def
      parse_arg_thread_count_def Let_def split: if_splits option.splits prod.splits)

lemma getopt_typed: "merge_getopt env argv opts = Some opts' \<Longrightarrow> opts_typed opts \<Longrightarrow> opts_typed opts'"
proof (induction argv arbitrary: opts)
  case (Cons a argv)
  obtain c optarg where a: "a = (c, optarg)" by fastforce
  then obtain opts1 where "merge_getopt env argv opts1 = Some opts'" "opts_typed opts1"
    using Cons.prems parse_typed [OF Cons.prems(2)] by (auto split: bind_splits if_splits)
  then show ?case by (rule Cons.IH)
qed simp

lemma options_typed: "merge_options env argv = Some opts \<Longrightarrow> opts_typed opts"
  unfolding merge_options_def
  by (erule getopt_typed) (simp add: opts_typed_def DEFAULT_COMPRESS_LEVEL_def)

lemma typed_writer_options:
  assumes "opts_typed opts"
  shows "\<exists>wopt. merge_writer_options opts = Some wopt \<and> wo_compression_type wopt = opt_compression_type opts \<and>
    wo_block_size wopt = max MIN_BLOCK_SIZE (unat (opt_block_size opts)) \<and>
    wo_block_restart_interval wopt = DEFAULT_BLOCK_RESTART_INTERVAL"
  using assms
  by (cases "opt_compression_type opts")
    (auto simp: opts_typed_def merge_writer_options_def mtbl_writer_options_set_compression_def
      mtbl_writer_options_set_compression_level_def mtbl_writer_options_set_threadpool_def
      mtbl_writer_options_set_block_size_def mtbl_writer_options_init_def Let_def max_def)

subsection \<open>The loop is a run of the writer\<close>

context cursor begin

lemma merge_loop_run:
  "remaining s es \<Longrightarrow> writer_run L crc w (adds es) = Some (replicate (length es) True, w') \<Longrightarrow>
   merge_loop (mtbl_writer_add L crc) step s w = Some w'"
proof (induction es arbitrary: s w)
  case Nil
  then show ?case using step_Nil [OF Nil.prems(1)] by (subst merge_loop.simps) auto
next
  case (Cons e es)
  obtain s' where s': "step s = Some (Some e, s')" "remaining s' es" using step_Cons [OF Cons.prems(1)] by blast
  obtain w1 where w1: "mtbl_writer_add L crc w (fst e) (snd e) = Some (True, w1)"
      "writer_run L crc w1 (adds es) = Some (replicate (length es) True, w')"
    using Cons.prems(2) by (auto split: bind_splits)
  have "merge_loop (mtbl_writer_add L crc) step s' w1 = Some w'" by (rule Cons.IH [OF s'(2) w1(2)])
  then show ?case using s'(1) w1(1) by (cases e) (subst merge_loop.simps, simp)
qed

end

lemma open_inputs_tables:
  "open_inputs crc L (map (\<lambda>d. (Some d, False)) datas) merger =
     map_option (map_option (\<lambda>rs. foldl mtbl_merger_add_source merger (map (mtbl_reader_source crc L) rs)))
       (open_tables crc None datas)"
proof (induction datas arbitrary: merger)
  case (Cons data datas)
  show ?case
  proof (cases "mtbl_reader_init_fd crc False data None")
    case (Some r)
    then show ?thesis
      using Cons.IH by (cases r; cases "open_tables crc None datas") (auto simp: mtbl_reader_init_def option.map_comp comp_def)
  qed (simp add: mtbl_reader_init_def)
qed simp

lemma merge_ok_total: "mo_merge opt = Some f \<Longrightarrow> \<forall>k a b. f k a b \<noteq> None \<Longrightarrow> merge_ok opt"
  by (simp add: merge_ok_def)

text \<open>The merge of opened tables into a new file.\<close>

lemma merge_written:
  assumes total: "\<forall>k a b. f k a b \<noteq> None" and rs: "list_all2 (holds_table crc L) rs Ts"
    and keys: "\<forall>e\<in>set (concat Ts). fst e \<noteq> []"
  defines "m \<equiv> \<lparr>m_sources = map (mtbl_reader_source crc L) rs,
      m_opt = mtbl_merger_options_set_merge_func mtbl_merger_options_init (Some f)\<rparr>"
  shows "\<exists>out. sums f (mset (concat Ts)) out \<and>
    (run_fits L wopt fd out \<longrightarrow> (\<exists>w fd'. mtbl_writer_init_fd fd (Some wopt) = Some w \<and> merge L crc m w = Some fd' \<and>
       write_file L crc wopt fd (adds out) = Some (replicate (length out) True, f_bytes fd') \<and>
       (length (f_bytes fd') < 2 ^ 63 \<longrightarrow>
        read_file L crc ropt (f_bytes fd') ty key0 key1 (length out + 1) =
          Some (Some (filter (\<lambda>e. wanted ty key0 key1 (fst e)) out)))))"
proof -
  let ?opt = "mtbl_merger_options_set_merge_func mtbl_merger_options_init (Some f)"
  have opt: "dupsort_ok ?opt" "merge_ok ?opt" "mo_merge ?opt = Some f"
    using total by (simp_all add: mtbl_merger_options_set_merge_func_def mtbl_merger_options_init_def dupsort_ok_def merge_ok_def)
  obtain it all where it: "source_open (mtbl_merger_source m) READER_ITER_TYPE_ITER [] [] = Some it" "it \<noteq> None"
      "mset all = mset (concat Ts)" "sorted_wrt (mle ?opt) all" "merger_kid crc L it (collapse f all)"
    using reader_merger_ok [OF opt(1,2) rs keys, where ty = READER_ITER_TYPE_ITER and ?key0.0 = "[]" and ?key1.0 = "[]"]
    by (auto simp: m_def opt(3) combined_def)
  have open_it: "mtbl_source_iter (mtbl_merger_source m) = Some it" using it(1) by simp
  have srt: "sorted_wrt (\<lambda>a b. fst a \<le> fst b) all"
    using it(4) by (rule sorted_wrt_mono_rel [rotated])
      (auto simp: mtbl_merger_options_set_merge_func_def mtbl_merger_options_init_def entry_le_def)
  have out: "sums f (mset (concat Ts)) (collapse f all)"
    using collapse_sums [OF total srt] it(3) by simp
  have "\<exists>w fd'. mtbl_writer_init_fd fd (Some wopt) = Some w \<and> merge L crc m w = Some fd' \<and>
       write_file L crc wopt fd (adds (collapse f all)) = Some (replicate (length (collapse f all)) True, f_bytes fd') \<and>
       (length (f_bytes fd') < 2 ^ 63 \<longrightarrow>
        read_file L crc ropt (f_bytes fd') ty key0 key1 (length (collapse f all) + 1) =
          Some (Some (filter (\<lambda>e. wanted ty key0 key1 (fst e)) (collapse f all))))"
    if fits: "run_fits L wopt fd (collapse f all)"
  proof -
    obtain w w' fd' where w: "mtbl_writer_init_fd fd (Some wopt) = Some w"
        "writer_run L crc w (adds (collapse f all)) = Some (replicate (length (collapse f all)) True, w')"
        "mtbl_writer_destroy L crc w' = Some fd'"
      and rd: "length (f_bytes fd') < 2 ^ 63 \<longrightarrow>
        read_file L crc ropt (f_bytes fd') ty key0 key1 (length (collapse f all) + 1) =
          Some (Some (filter (\<lambda>e. wanted ty key0 key1 (fst e)) (collapse f all)))"
      using written_back [OF strict_keys_collapse [OF srt] fits] by blast
    have "merge L crc m w = Some fd'"
      using open_it it(2) merged.merge_loop_run [OF it(5) w(2)] w(3) by (simp add: merge_def)
    moreover have "write_file L crc wopt fd (adds (collapse f all)) = Some (replicate (length (collapse f all)) True, f_bytes fd')"
      using w by (simp add: write_file_def)
    ultimately show ?thesis using w(1) rd by blast
  qed
  then show ?thesis using out by blast
qed

text \<open>
  \<open>parse_arg_block_size\<close> takes a negative number for a size near \<open>2 ^ 64\<close>, and
  \<open>parse_arg_thread_count\<close>, which does not look at \<open>endp\<close>, takes a word for 0 threads.
\<close>

lemma block_size_negative:
  "parse_arg_block_size None ''-1'' opts = Some (opts\<lparr>opt_block_size := - 1\<rparr>)"
proof -
  have "parse_long ''-1'' = Some (- 1)" by code_simp
  then show ?thesis by (simp add: parse_arg_block_size_def)
qed

lemma thread_count_any_word:
  "strto 10 arg = None \<Longrightarrow> parse_arg_thread_count arg opts = Some (opts\<lparr>opt_threadpool := Some 0\<rparr>)"
  by (simp add: parse_arg_thread_count_def strtol_def int_of_long_def)

subsection \<open>Properties\<close>

text \<open>
  C31: whatever options the command line gives, what the parser accepts is well-formed (a known
  compression type, \<open>int\<close> values for the level and the number of threads), so the writer options are
  made without tripping the assertion of \<open>mtbl_writer_options_set_compression\<close>, with a block size of
  at least the minimum and a restart interval the block builder accepts.
\<close>

theorem merge_options_well_formed:
  "case merge_options env argv of
     None \<Rightarrow> True
   | Some opts \<Rightarrow> opts_typed opts \<and>
       (case merge_writer_options opts of
          None \<Rightarrow> False
        | Some wopt \<Rightarrow> wo_compression_type wopt = opt_compression_type opts \<and>
            wo_block_size wopt = max MIN_BLOCK_SIZE (unat (opt_block_size opts)) \<and>
            mtbl_writer_init (Some fd) (Some wopt) \<noteq> None)"
proof (cases "merge_options env argv")
  case (Some opts)
  then have t: "opts_typed opts" by (rule options_typed)
  then obtain wopt where w: "merge_writer_options opts = Some wopt" "wo_compression_type wopt = opt_compression_type opts"
      "wo_block_size wopt = max MIN_BLOCK_SIZE (unat (opt_block_size opts))"
      "wo_block_restart_interval wopt = DEFAULT_BLOCK_RESTART_INTERVAL"
    using typed_writer_options by blast
  have "mtbl_writer_init (Some fd) (Some wopt) \<noteq> None"
    using w(4) builder_init [of DEFAULT_BLOCK_RESTART_INTERVAL]
    by (auto simp: mtbl_writer_init_def mtbl_writer_init_fd_def DEFAULT_BLOCK_RESTART_INTERVAL_def Let_def)
  then show ?thesis using Some t w by simp
qed simp

text \<open>
  C8: the command given any tables a writer left, with options it accepts and a user merge function
  that does not fail, exits with status 0 and leaves the table of every key of the inputs once, in
  order, with a value merged from all the values the inputs have for it, which a reader finds.
\<close>

theorem merge_command_merges:
  assumes runs: "\<forall>t\<in>set runs. run_ok L t" "runs \<noteq> []"
    and keys: "\<forall>e\<in>set (concat (map run_entries runs)). fst e \<noteq> []"
    and opts: "merge_options (getenv ''MTBL_MERGE_BLOCK_SIZE'') argv = Some opts" "merge_writer_options opts = Some wopt"
    and dso: "init_dso dlopen (getenv ''MTBL_MERGE_DSO'') (getenv ''MTBL_MERGE_FUNC_PREFIX'') = Some f"
    and total: "\<forall>k a b. f k a b \<noteq> None"
  shows "\<exists>datas. list_all2 (run_writes L crc) runs datas \<and>
    ((\<forall>d\<in>set datas. length d < 2 ^ 63) \<longrightarrow> (\<exists>out. sums f (mset (concat (map run_entries runs))) out \<and>
       (run_fits L wopt fd out \<longrightarrow> (\<exists>fd'.
          merge_main L crc dlopen getenv argv (map (\<lambda>d. (Some d, False)) datas) (Some fd) = Some (0, Some fd') \<and>
          write_file L crc wopt fd (adds out) = Some (replicate (length out) True, f_bytes fd') \<and>
          (length (f_bytes fd') < 2 ^ 63 \<longrightarrow>
           read_file L crc ropt (f_bytes fd') ty key0 key1 (length out + 1) =
             Some (Some (filter (\<lambda>e. wanted ty key0 key1 (fst e)) out)))))))"
proof -
  obtain datas where datas: "list_all2 (run_writes L crc) runs datas"
    and rd: "(\<forall>d\<in>set datas. length d < 2 ^ 63) \<Longrightarrow> \<exists>rs. open_tables crc None datas = Some (Some rs) \<and>
       list_all2 (holds_table crc L) rs (map run_entries runs)"
    using run_tables [OF runs(1), of crc None] by blast
  have ne: "datas \<noteq> []" using datas runs(2) by auto
  show ?thesis
  proof (rule exI [of _ datas], intro conjI impI datas)
    assume "\<forall>d\<in>set datas. length d < 2 ^ 63"
    then obtain rs where rs: "open_tables crc None datas = Some (Some rs)"
        "list_all2 (holds_table crc L) rs (map run_entries runs)"
      using rd by blast
    let ?mopt = "mtbl_merger_options_set_merge_func mtbl_merger_options_init (Some f)"
    have main: "merge_main L crc dlopen getenv argv (map (\<lambda>d. (Some d, False)) datas) (Some fd) = Some (0, Some fd')"
      if "mtbl_writer_init_fd fd (Some wopt) = Some w"
        "merge L crc \<lparr>m_sources = map (mtbl_reader_source crc L) rs, m_opt = ?mopt\<rparr> w = Some fd'" for w fd'
      using that rs(1) opts dso ne
      by (simp add: merge_main_def init_mtbl_def mtbl_merger_init_def mtbl_writer_init_def open_inputs_tables add_sources_all Let_def)
    show "\<exists>out. sums f (mset (concat (map run_entries runs))) out \<and>
       (run_fits L wopt fd out \<longrightarrow> (\<exists>fd'.
          merge_main L crc dlopen getenv argv (map (\<lambda>d. (Some d, False)) datas) (Some fd) = Some (0, Some fd') \<and>
          write_file L crc wopt fd (adds out) = Some (replicate (length out) True, f_bytes fd') \<and>
          (length (f_bytes fd') < 2 ^ 63 \<longrightarrow>
           read_file L crc ropt (f_bytes fd') ty key0 key1 (length out + 1) =
             Some (Some (filter (\<lambda>e. wanted ty key0 key1 (fst e)) out)))))"
      using merge_written [OF total rs(2) keys, of wopt fd ropt ty key0 key1] main by blast
  qed
qed

definition concat_dso :: "string \<Rightarrow> unit merge_dso option" where
  "concat_dso path = Some
     \<lparr>dso_merge = (\<lambda>name. if name = ''join_func'' then Some (\<lambda>clos k a b. Some (a @ b)) else None),
      dso_init = (\<lambda>name. None)\<rparr>"

definition join_env :: "string \<Rightarrow> string option" where
  "join_env name =
     (if name = ''MTBL_MERGE_DSO'' then Some ''join.so''
      else if name = ''MTBL_MERGE_FUNC_PREFIX'' then Some ''join'' else None)"

lemma join_setup:
  "init_dso concat_dso (join_env ''MTBL_MERGE_DSO'') (join_env ''MTBL_MERGE_FUNC_PREFIX'') =
     Some (\<lambda>k a b. Some (a @ b))"
  "merge_options (join_env ''MTBL_MERGE_BLOCK_SIZE'') [(CHR ''c'', ''none''), (CHR ''b'', ''0x100'')] =
     Some \<lparr>opt_threadpool = None, opt_compression_type = MTBL_COMPRESSION_NONE,
       opt_compression_level = DEFAULT_COMPRESS_LEVEL, opt_block_size = 256\<rparr>"
  by (simp add: init_dso_def join_env_def concat_dso_def) code_simp

lemma join_options:
  "merge_writer_options \<lparr>opt_threadpool = None, opt_compression_type = MTBL_COMPRESSION_NONE,
       opt_compression_level = DEFAULT_COMPRESS_LEVEL, opt_block_size = 256\<rparr> = Some plain_options"
  by (simp add: merge_writer_options_def plain_options_def mtbl_writer_options_set_compression_def
      mtbl_writer_options_set_threadpool_def mtbl_writer_options_set_block_size_def mtbl_writer_options_init_def
      MIN_BLOCK_SIZE_def)

lemma combines_append_length:
  "combines (\<lambda>k a b. Some (a @ b)) k A v \<Longrightarrow> length v = (\<Sum>x\<in>#A. length x)"
  by (induction rule: combines.induct) auto

text \<open>What two small tables merge to is small.\<close>

lemma join_small:
  assumes "sums (\<lambda>k a b. Some (a @ b)) (mset [([97], [1]), ([98], [2]), ([97], [3])]) out"
  shows "length out = 2" and "run_fits store_lib plain_options empty_fd out"
proof -
  let ?M = "mset [([97], [1]), ([98], [2]), ([97], [3])] :: entry multiset"
  have out: "strict_keys out" "fst ` set out = {[97], [98]}"
      "\<forall>e\<in>set out. combines (\<lambda>k a b. Some (a @ b)) (fst e) (vals (fst e) ?M) (snd e)"
    using assms by (auto simp: sums_def)
  have "distinct (map fst out)" using out(1) unfolding strict_keys_def strict_sorted_iff by simp
  then show two: "length out = 2" using distinct_card [of "map fst out"] out(2) by simp
  have "entry_fits e" if "e \<in> set out" for e
  proof -
    have "fst e \<in> fst ` set out" using that by (rule imageI)
    then have k: "fst e = [97] \<or> fst e = [98]" unfolding out(2) by simp
    have "length (snd e) = (\<Sum>x\<in>#vals (fst e) ?M. length x)" by (rule combines_append_length) (rule bspec [OF out(3) that])
    moreover have "vals [97] ?M = {#[1], [3]#}" "vals [98] ?M = {#[2]#}" by (simp_all add: add_mset_commute)
    ultimately have "length (snd e) \<le> 2" using k by (elim disjE) (simp_all only:, simp_all)
    then show ?thesis using k by (auto simp: entry_fits_def)
  qed
  then show "run_fits store_lib plain_options empty_fd out" using two by (intro plain_fits) simp_all
qed

lemma plain_coder_small: "coder_small store_lib plain_options"
proof -
  have "wo_compression_type plain_options = MTBL_COMPRESSION_NONE"
    by (simp add: plain_options_def mtbl_writer_options_set_block_size_def Let_def)
  then show ?thesis by (simp add: coder_small_def payload_plain)
qed

theorem merge_command_merges_witness:
  "\<exists>datas out fd'. list_all2 (run_writes store_lib crc32c) two_runs datas \<and>
     sums (\<lambda>k a b. Some (a @ b)) (mset [([97], [1]), ([98], [2]), ([97], [3])]) out \<and>
     merge_main store_lib crc32c concat_dso join_env [(CHR ''c'', ''none''), (CHR ''b'', ''0x100'')]
       (map (\<lambda>d. (Some d, False)) datas) (Some empty_fd) = Some (0, Some fd') \<and>
     read_file store_lib crc32c None (f_bytes fd') READER_ITER_TYPE_ITER [] [] 3 = Some (Some out)"
proof -
  have ne: "two_runs \<noteq> []" by (simp add: two_runs_def)
  have total: "\<forall>k a b. (\<lambda>k a b. Some (a @ b)) (k :: bytes) (a :: bytes) (b :: bytes) \<noteq> None" by simp
  note m = merge_command_merges [OF two_runs_ok(1) ne two_runs_ok(2) join_setup(2) join_options join_setup(1) total,
      of crc32c empty_fd None READER_ITER_TYPE_ITER "[]" "[]", unfolded two_runs_ok(3)]
  obtain datas out where d: "list_all2 (run_writes store_lib crc32c) two_runs datas"
      "sums (\<lambda>k a b. Some (a @ b)) (mset [([97], [1]), ([98], [2]), ([97], [3])]) out"
      "run_fits store_lib plain_options empty_fd out \<longrightarrow> (\<exists>fd'.
          merge_main store_lib crc32c concat_dso join_env [(CHR ''c'', ''none''), (CHR ''b'', ''0x100'')]
            (map (\<lambda>d. (Some d, False)) datas) (Some empty_fd) = Some (0, Some fd') \<and>
          write_file store_lib crc32c plain_options empty_fd (adds out) = Some (replicate (length out) True, f_bytes fd') \<and>
          (length (f_bytes fd') < 2 ^ 63 \<longrightarrow>
           read_file store_lib crc32c None (f_bytes fd') READER_ITER_TYPE_ITER [] [] (length out + 1) =
             Some (Some (filter (\<lambda>e. wanted READER_ITER_TYPE_ITER [] [] (fst e)) out))))"
    using m two_runs_small by blast
  note fits = join_small(2) [OF d(2)] and len = join_small(1) [OF d(2)]
  have "f_bytes empty_fd = []" by (simp add: empty_fd_def)
  then have "length (f_bytes fd') < 2 ^ 63"
    if "write_file store_lib crc32c plain_options empty_fd (adds out) = Some (replicate (length out) True, f_bytes fd')" for fd'
    using run_small [OF _ _ plain_coder_small _ that] fits len by simp
  then show ?thesis using d fits len by (fastforce simp: numeral_3_eq_3)
qed

end
