(* ===== verification/Mtbl_Dump.thy ===== *)
theory Mtbl_Dump
  imports Strtol Source_Write
begin

text \<open>
  \<open>src/mtbl_dump.c\<close> with \<open>libmy/hex_decode.h\<close> and \<open>libmy/print_string.h\<close>: the command that prints
  the entries of a table. The options are as \<open>getopt\<close> delivers them; the output is the bytes
  written to the standard output. \<open>None\<close> is a failed assertion, the exit status is a value.
\<close>

subsection \<open>Hexadecimal\<close>

definition toupper :: "char \<Rightarrow> char" where
  "toupper c =
     (let n = of_char c :: nat in if 97 \<le> n \<and> n \<le> 122 then char_of (n - 32) else c)"

definition hex_to_int :: "char \<Rightarrow> u8 option" where
  "hex_to_int hex =
     (let hex = of_char (toupper hex) :: nat
      in if 48 \<le> hex \<and> hex \<le> 57 then Some (of_nat (hex - 48))
         else if 65 \<le> hex \<and> hex \<le> 70 then Some (of_nat (hex - 55))
         else None)"

fun hex_decode_loop :: "string \<Rightarrow> bytes option" where
  "hex_decode_loop (a # b # hex) = do {
     val0 \<leftarrow> hex_to_int a;
     val1 \<leftarrow> hex_to_int b;
     raw \<leftarrow> hex_decode_loop hex;
     Some ((push_bit 4 val0 OR val1) # raw)
   }"
| "hex_decode_loop hex = Some []"

definition hex_decode :: "string \<Rightarrow> bytes option" where
  "hex_decode hex =
     (let hexlen = length hex
      in if hexlen = 0 \<or> hexlen mod 2 \<noteq> 0 then None else hex_decode_loop hex)"

subsection \<open>Printing\<close>

text \<open>\<open>%x\<close> with a width and zeros in front, for numbers of at most that many digits.\<close>

definition hex_digit :: "nat \<Rightarrow> u8" where
  "hex_digit d = of_nat (if d < 10 then 48 + d else 87 + d)"

primrec print_hex :: "nat \<Rightarrow> nat \<Rightarrow> bytes" where
  "print_hex 0 n = []"
| "print_hex (Suc w) n = print_hex w (n div 16) @ [hex_digit (n mod 16)]"

definition isprint :: "u8 \<Rightarrow> bool" where
  "isprint c \<longleftrightarrow> 32 \<le> c \<and> c \<le> 126"

text \<open>\<open>libmy/print_string.h\<close>: 34 is the double quote, 92 the backslash, 120 the letter x.\<close>

primrec print_chars :: "bytes \<Rightarrow> bytes" where
  "print_chars [] = []"
| "print_chars (c # str) =
     (if isprint c then (if c = 34 then [92, 34] else [c]) else [92, 120] @ print_hex 2 (unat c)) @ print_chars str"

definition print_string :: "bytes \<Rightarrow> bytes" where
  "print_string data = [34] @ print_chars data @ [34]"

primrec hex_chars :: "bytes \<Rightarrow> bytes" where
  "hex_chars [] = []"
| "hex_chars (c # str) = print_hex 2 (unat c) @ (if length str > 0 then [45] else []) @ hex_chars str"

definition print_hex_string :: "bytes \<Rightarrow> bytes option" where
  "print_hex_string data = do {
     ensure (length data < 4294967295);
     Some (print_hex 8 (length data) @ [58] @ hex_chars data)
   }"

subsection \<open>The command\<close>

record dump_opts =
  do_silent :: bool
  do_hex :: bool
  key_prefix :: "bytes option"
  val_prefix :: "bytes option"
  key_min_len :: u64
  val_min_len :: u64

definition has_prefix :: "bytes option \<Rightarrow> bytes \<Rightarrow> bool" where
  "has_prefix p data =
     (case p of None \<Rightarrow> True | Some p \<Rightarrow> \<not> (length data < length p \<or> take (length p) data \<noteq> p))"

definition dump_line :: "dump_opts \<Rightarrow> bytes \<Rightarrow> bytes \<Rightarrow> bytes option" where
  "dump_line opts key val =
     (if do_hex opts then do {
        k \<leftarrow> print_hex_string key;
        v \<leftarrow> print_hex_string val;
        Some (k @ [32] @ v @ [10])
      } else Some (print_string key @ [32] @ print_string val @ [10]))"

partial_function (option) dump_loop ::
  "dump_opts \<Rightarrow> ('s \<Rightarrow> (entry option \<times> 's) option) \<Rightarrow> 's \<Rightarrow> bytes \<Rightarrow> bytes option" where
  "dump_loop opts next it out = do {
     (e, it) \<leftarrow> next it;
     case e of
       None \<Rightarrow> Some out
     | Some (key, val) \<Rightarrow>
         if \<not> has_prefix (key_prefix opts) key then dump_loop opts next it out
         else if \<not> has_prefix (val_prefix opts) val then dump_loop opts next it out
         else if length key < unat (key_min_len opts) \<or> length val < unat (val_min_len opts)
         then dump_loop opts next it out
         else if do_silent opts then dump_loop opts next it out
         else do {
           line \<leftarrow> dump_line opts key val;
           dump_loop opts next it (out @ line)
         }
   }"

definition dump ::
  "'z complib \<Rightarrow> (bytes \<Rightarrow> u32) \<Rightarrow> bool \<Rightarrow> bytes option \<Rightarrow> dump_opts \<Rightarrow> (bool \<times> bytes) option" where
  "dump L crc map_failed fname opts = do {
     r \<leftarrow> mtbl_reader_init crc map_failed fname None;
     case r of
       None \<Rightarrow> Some (False, [])
     | Some r \<Rightarrow> do {
         it \<leftarrow> mtbl_source_iter (mtbl_reader_source crc L r);
         out \<leftarrow> dump_loop opts mtbl_iter_next it [];
         Some (True, out)
       }
   }"

text \<open>The argument of \<open>-K\<close> and \<open>-V\<close>: an \<open>int\<close> assigned to a \<open>size_t\<close>.\<close>

definition min_len_arg :: "string \<Rightarrow> u64 option" where
  "min_len_arg optarg =
     (if optarg = [] then None
      else let min_len = of_int (atoi optarg) in if min_len < 1 then None else Some min_len)"

definition prefix_arg :: "string \<Rightarrow> bytes option" where
  "prefix_arg optarg = (if optarg = [] then None else hex_decode optarg)"

primrec dump_getopt :: "(char \<times> string) list \<Rightarrow> dump_opts \<Rightarrow> dump_opts option" where
  "dump_getopt [] opts = Some opts"
| "dump_getopt (a # argv) opts = do {
     let (c, optarg) = a;
     opts \<leftarrow> (if c = CHR ''s'' then Some (opts\<lparr>do_silent := True\<rparr>)
              else if c = CHR ''x'' then Some (opts\<lparr>do_hex := True\<rparr>)
              else if c = CHR ''k'' then map_option (\<lambda>p. opts\<lparr>key_prefix := Some p\<rparr>) (prefix_arg optarg)
              else if c = CHR ''v'' then map_option (\<lambda>p. opts\<lparr>val_prefix := Some p\<rparr>) (prefix_arg optarg)
              else if c = CHR ''K'' then map_option (\<lambda>n. opts\<lparr>key_min_len := n\<rparr>) (min_len_arg optarg)
              else if c = CHR ''V'' then map_option (\<lambda>n. opts\<lparr>val_min_len := n\<rparr>) (min_len_arg optarg)
              else None);
     dump_getopt argv opts
   }"

definition dump_main ::
  "'z complib \<Rightarrow> (bytes \<Rightarrow> u32) \<Rightarrow> (char \<times> string) list \<Rightarrow> (bool \<times> bytes option) list \<Rightarrow> (int \<times> bytes) option" where
  "dump_main L crc argv files =
     (case dump_getopt argv
         \<lparr>do_silent = False, do_hex = False, key_prefix = None, val_prefix = None, key_min_len = 0, val_min_len = 0\<rparr> of
        None \<Rightarrow> Some (1, [])
      | Some opts \<Rightarrow>
          (case files of
             [] \<Rightarrow> Some (1, [])
           | f # _ \<Rightarrow> do {
               (ok, out) \<leftarrow> dump L crc (fst f) (snd f) opts;
               Some (if ok then 0 else 1, out)
             }))"

subsection \<open>What is printed\<close>

definition dump_wanted :: "dump_opts \<Rightarrow> entry \<Rightarrow> bool" where
  "dump_wanted opts e \<longleftrightarrow> \<not> do_silent opts \<and> has_prefix (key_prefix opts) (fst e) \<and> has_prefix (val_prefix opts) (snd e) \<and>
     unat (key_min_len opts) \<le> length (fst e) \<and> unat (val_min_len opts) \<le> length (snd e)"

definition printable :: "entry \<Rightarrow> bool" where
  "printable e \<longleftrightarrow> length (fst e) < 4294967295 \<and> length (snd e) < 4294967295"

definition hex_field :: "bytes \<Rightarrow> bytes" where
  "hex_field data = print_hex 8 (length data) @ [58] @ hex_chars data"

definition dump_text :: "dump_opts \<Rightarrow> entry \<Rightarrow> bytes" where
  "dump_text opts e =
     (if do_hex opts then hex_field (fst e) @ [32] @ hex_field (snd e) @ [10]
      else print_string (fst e) @ [32] @ print_string (snd e) @ [10])"

lemma dump_line_text: "printable e \<Longrightarrow> dump_line opts (fst e) (snd e) = Some (dump_text opts e)"
  by (simp add: dump_line_def dump_text_def print_hex_string_def hex_field_def printable_def)

context cursor begin

lemma dump_loop_all:
  "remaining s es \<Longrightarrow> \<forall>e\<in>set es. printable e \<Longrightarrow>
   dump_loop opts step s out = Some (out @ concat (map (dump_text opts) (filter (dump_wanted opts) es)))"
proof (induction es arbitrary: s out)
  case Nil
  then show ?case using step_Nil [OF Nil.prems(1)] by (subst dump_loop.simps) auto
next
  case (Cons e es)
  obtain s' where s': "step s = Some (Some e, s')" "remaining s' es" using step_Cons [OF Cons.prems(1)] by blast
  have line: "dump_line opts (fst e) (snd e) = Some (dump_text opts e)" using Cons.prems(2) by (intro dump_line_text) simp
  have IH: "dump_loop opts step s' out' = Some (out' @ concat (map (dump_text opts) (filter (dump_wanted opts) es)))" for out'
    using Cons.IH [OF s'(2)] Cons.prems(2) by simp
  obtain k v where e: "e = (k, v)" by fastforce
  show ?case
    using s'(1) line unfolding e
    by (subst dump_loop.simps) (auto simp: IH dump_wanted_def linorder_not_less not_le)
qed

end

subsection \<open>The hexadecimal form determines the entries\<close>

lemma length_print_hex [simp]: "length (print_hex w n) = w"
  by (induction w arbitrary: n) simp_all

lemma unat_hex_digit: "d < 16 \<Longrightarrow> unat (hex_digit d) = (if d < 10 then 48 + d else 87 + d)"
  unfolding hex_digit_def by (rule unat_of_nat_small) simp

lemma hex_digit_inj:
  assumes "hex_digit d = hex_digit e" and "d < 16" and "e < 16"
  shows "d = e"
proof -
  have "unat (hex_digit d) = unat (hex_digit e)" using assms(1) by (rule arg_cong)
  then have "(if d < 10 then 48 + d else 87 + d) = (if e < 10 then 48 + e else 87 + e)"
    unfolding unat_hex_digit [OF assms(2)] unat_hex_digit [OF assms(3)] .
  then show ?thesis by (simp split: if_splits)
qed

lemma print_hex_inj: "print_hex w n = print_hex w m \<Longrightarrow> n < 16 ^ w \<Longrightarrow> m < 16 ^ w \<Longrightarrow> n = m"
proof (induction w arbitrary: n m)
  case (Suc w)
  have "print_hex w (n div 16) = print_hex w (m div 16)" "hex_digit (n mod 16) = hex_digit (m mod 16)"
    using Suc.prems(1) by simp_all
  then have "n div 16 = m div 16" "n mod 16 = m mod 16"
    using Suc.IH [of "n div 16" "m div 16"] Suc.prems(2,3) hex_digit_inj [of "n mod 16" "m mod 16"]
    by (simp_all add: less_mult_imp_div_less)
  then show ?case by (metis div_mult_mod_eq)
qed simp

lemma hex_chars_inj: "length x = length y \<Longrightarrow> hex_chars x @ r = hex_chars y @ s \<Longrightarrow> x = y \<and> r = s"
proof (induction x y rule: list_induct2)
  case (Cons c x d y)
  then have "print_hex 2 (unat c) = print_hex 2 (unat d)" "hex_chars x @ r = hex_chars y @ s"
    by (auto simp: append_eq_append_conv)
  then show ?case using Cons.IH print_hex_inj [of 2 "unat c" "unat d"] by (simp add: word_unat_eq_iff)
qed simp

lemma hex_field_inj:
  assumes "hex_field x @ r = hex_field y @ s" and "length x < 4294967295" and "length y < 4294967295"
  shows "x = y \<and> r = s"
proof -
  have e: "print_hex 8 (length x) = print_hex 8 (length y)" "hex_chars x @ r = hex_chars y @ s"
    using assms(1) by (auto simp: hex_field_def append_eq_append_conv)
  then have "length x = length y" using print_hex_inj [of 8 "length x" "length y"] assms(2,3) by simp
  then show ?thesis using hex_chars_inj e(2) by blast
qed

lemma dump_text_inj:
  assumes "do_hex opts" and "printable e" and "printable e'" and "dump_text opts e @ r = dump_text opts e' @ s"
  shows "e = e' \<and> r = s"
proof -
  have k: "fst e = fst e' \<and> [32] @ hex_field (snd e) @ [10] @ r = [32] @ hex_field (snd e') @ [10] @ s"
    using assms by (intro hex_field_inj) (simp_all add: dump_text_def printable_def)
  then have "snd e = snd e' \<and> [10] @ r = [10] @ s"
    using assms by (intro hex_field_inj) (simp_all add: printable_def)
  with k show ?thesis by (simp add: prod_eq_iff)
qed

lemma dump_text_nonempty [simp]: "dump_text opts e \<noteq> []"
  by (simp add: dump_text_def)

lemma dump_texts_inj:
  assumes "do_hex opts" and "\<forall>e\<in>set es. printable e" and "\<forall>e\<in>set es'. printable e"
    and "concat (map (dump_text opts) es) = concat (map (dump_text opts) es')"
  shows "es = es'"
  using assms(2-4)
proof (induction es arbitrary: es')
  case Nil
  then show ?case by (cases es') auto
next
  case (Cons e es)
  then obtain e' rest where es': "es' = e' # rest" by (cases es') auto
  have "e = e' \<and> concat (map (dump_text opts) es) = concat (map (dump_text opts) rest)"
    using Cons.prems es' by (intro dump_text_inj [OF assms(1)]) simp_all
  then show ?case using Cons.IH [of rest] Cons.prems es' by simp
qed

text \<open>
  The other form does not: \<open>print_string\<close> escapes the double quote but not the backslash, so the
  byte 0 and the four characters of its escape sequence print alike.
\<close>

lemma print_string_ambiguous: "print_string [0] = print_string [92, 120, 48, 48]"
  by code_simp

text \<open>A negative minimum length is taken for a size near \<open>2 ^ 64\<close>, which no entry has.\<close>

lemma min_len_negative: "min_len_arg ''-1'' = Some (- 1)"
  by code_simp

subsection \<open>Properties\<close>

text \<open>
  C17: given a table a writer left and options it accepts, the command exits with status 0 and prints
  exactly the entries the options select, in order, one line each; in hexadecimal mode the output
  is printed for no other list of entries.
\<close>

theorem dump_prints_entries:
  assumes "run_fits L opt fd (added evs)"
    and "dump_getopt argv \<lparr>do_silent = False, do_hex = False, key_prefix = None, val_prefix = None,
           key_min_len = 0, val_min_len = 0\<rparr> = Some opts"
  defines "shown \<equiv> filter (dump_wanted opts) (kept None (added evs))"
  shows "\<exists>data. write_file L crc opt fd evs = Some (increasing None (added evs), data) \<and>
    (length data < 2 ^ 63 \<longrightarrow>
      dump_main L crc argv [(False, Some data)] = Some (0, concat (map (dump_text opts) shown)) \<and>
      (\<forall>es. do_hex opts \<longrightarrow> (\<forall>e\<in>set es. printable e) \<longrightarrow>
         concat (map (dump_text opts) es) = concat (map (dump_text opts) shown) \<longrightarrow> es = shown))"
proof -
  obtain w w' fd' where w: "mtbl_writer_init_fd fd (Some opt) = Some w"
      "writer_run L crc w evs = Some (increasing None (added evs), w')" "mtbl_writer_destroy L crc w' = Some fd'"
    and rd: "length (f_bytes fd') < 2 ^ 63 \<Longrightarrow> \<exists>r. mtbl_reader_init_fd crc False (f_bytes fd') None = Some (Some r) \<and>
       holds_table crc L r (kept None (added evs))"
    using chunk_table [OF assms(1), of crc None] by blast
  have print: "\<forall>e\<in>set (kept None (added evs)). printable e"
    using run_fitsD(3) [OF assms(1)] kept_subset [of None "added evs"] by (fastforce simp: entry_fits_def printable_def)
  have "dump_main L crc argv [(False, Some (f_bytes fd'))] = Some (0, concat (map (dump_text opts) shown))"
    if small: "length (f_bytes fd') < 2 ^ 63"
  proof -
    obtain r n bs offs ix where r: "mtbl_reader_init_fd crc False (f_bytes fd') None = Some (Some r)"
        "opens crc L r n bs offs ix" "concat (map fst bs) = kept None (added evs)"
      using rd [OF small] unfolding holds_table_def by blast
    obtain it where it: "mtbl_source_iter (mtbl_reader_source crc L r) = Some it"
        "reader_kid crc L it (kept None (added evs))"
      using reader_source_opens [OF r(2), of READER_ITER_TYPE_ITER] r(3) by auto
    have "dump_loop opts mtbl_iter_next it [] = Some (concat (map (dump_text opts) shown))"
      using reader_iters.dump_loop_all [OF it(2) print] by (simp add: shown_def)
    then show ?thesis using r(1) it(1) assms(2) by (simp add: dump_main_def dump_def mtbl_reader_init_def)
  qed
  moreover have "es = shown"
    if "do_hex opts" "\<forall>e\<in>set es. printable e"
      "concat (map (dump_text opts) es) = concat (map (dump_text opts) shown)" for es
    using dump_texts_inj [OF that(1,2) _ that(3)] print by (simp add: shown_def)
  moreover have "write_file L crc opt fd evs = Some (increasing None (added evs), f_bytes fd')"
    using w by (simp add: write_file_def)
  ultimately show ?thesis by blast
qed

theorem dump_prints_entries_witness:
  "\<exists>data. write_file store_lib crc32c plain_options empty_fd [Add [97] [1], Add [97, 34] [10, 11]] = Some ([True, True], data) \<and>
     dump_main store_lib crc32c [(CHR ''x'', []), (CHR ''K'', ''2''), (CHR ''k'', ''61'')] [(False, Some data)] =
       Some (0, map of_char ''00000002:61-22 00000002:0a-0b'' @ [10])"
proof -
  let ?evs = "[Add [97] [1], Add [97, 34] [10, 11]]"
  let ?opts = "\<lparr>do_silent = False, do_hex = True, key_prefix = Some [97], val_prefix = None, key_min_len = 2, val_min_len = 0\<rparr>"
  have fits: "run_fits store_lib plain_options empty_fd (added ?evs)"
    by (rule plain_fits) (simp_all add: entry_fits_def)
  have opts: "dump_getopt [(CHR ''x'', []), (CHR ''K'', ''2''), (CHR ''k'', ''61'')]
      \<lparr>do_silent = False, do_hex = False, key_prefix = None, val_prefix = None, key_min_len = 0, val_min_len = 0\<rparr> = Some ?opts"
    by code_simp
  have "size_bound [] (table_close (final_state plain_options (added ?evs))) < 2 ^ 63"
    by (simp add: layout_simps)
  note small = plain_small [OF fits _ this, of crc32c]
  have "concat (map (dump_text ?opts) (filter (dump_wanted ?opts) (kept None (added ?evs)))) =
      map of_char ''00000002:61-22 00000002:0a-0b'' @ [10]"
    by code_simp
  with dump_prints_entries [OF fits opts, of crc32c] small show ?thesis by auto
qed

end
