(* ===== verification/Floats.thy ===== *)
theory Floats
  imports Complex_Main
begin

text \<open>
  The \<open>double\<close> arithmetic of \<open>src/mtbl_info.c\<close>: IEEE 754 binary64 numbers that are not negative,
  rounded to nearest with ties to even, and the bound on the error of a rounding. The operations
  give the exact result rounded (\<open>fl\<close>). The exponents of the program's values stay between -117 and
  72, so neither overflow nor subnormal numbers occur and the exponent is not bounded here.
\<close>

subsection \<open>Rounding a quotient\<close>

definition round_div :: "nat \<Rightarrow> nat \<Rightarrow> nat" where
  "round_div a b =
     (let k = a div b; r = a mod b
      in if 2 * r < b \<or> 2 * r = b \<and> even k then k else k + 1)"

lemma round_div_error:
  assumes "0 < b"
  shows "\<bar>real (round_div a b) - real a / real b\<bar> \<le> 1 / 2"
proof -
  define k r where kr: "k = a div b" "r = a mod b"
  have a: "real a = real b * real k + real r"
    unfolding kr of_nat_mult [symmetric] of_nat_add [symmetric] by simp
  have r: "r < b" using assms by (simp add: kr)
  have q: "real a / real b = real k + real r / real b" using assms by (simp add: a add_divide_distrib)
  show ?thesis
  proof (cases "2 * r < b \<or> 2 * r = b \<and> even k")
    case True
    then have "2 * real r \<le> real b" by linarith
    then have "real r / real b \<le> 1 / 2" using assms by (simp add: field_simps)
    then show ?thesis using True q by (simp add: round_div_def Let_def flip: kr)
  next
    case False
    then have "real b \<le> 2 * real r" by linarith
    then have "1 / 2 \<le> real r / real b" "real r / real b < 1" using assms r by (simp_all add: field_simps)
    moreover have "real (round_div a b) = real k + 1" using False by (simp add: round_div_def Let_def flip: kr)
    ultimately show ?thesis unfolding q by linarith
  qed
qed

fun bits :: "nat \<Rightarrow> nat" where
  "bits n = (if n = 0 then 0 else Suc (bits (n div 2)))"

declare bits.simps [simp del]

lemma bits_bounds: "0 < n \<Longrightarrow> 2 ^ bits n \<le> 2 * n \<and> n < 2 ^ bits n"
proof (induction n rule: bits.induct)
  case (1 n)
  show ?case
  proof (cases "n = 1")
    case True
    then show ?thesis by (simp add: bits.simps)
  next
    case False
    then have "0 < n div 2" using 1(2) by linarith
    with 1(1,2) have IH: "2 ^ bits (n div 2) \<le> 2 * (n div 2)" "n div 2 < 2 ^ bits (n div 2)" by simp_all
    have "bits n = Suc (bits (n div 2))" using 1(2) by (subst bits.simps) simp
    moreover have "2 * 2 ^ bits (n div 2) \<le> 2 * n" using IH(1) by linarith
    moreover have "n < 2 * 2 ^ bits (n div 2)" using IH(2) by linarith
    ultimately show ?thesis by simp
  qed
qed

subsection \<open>Numbers and operations\<close>

datatype double = D nat int | D_inf | D_nan

definition dval :: "double \<Rightarrow> real" where
  "dval d = (case d of D m e \<Rightarrow> real m * 2 powi e | _ \<Rightarrow> 0)"

text \<open>The double nearest to \<open>p / q * 2 powi k\<close>: a mantissa of 53 bits.\<close>

definition fl :: "nat \<Rightarrow> nat \<Rightarrow> int \<Rightarrow> double" where
  "fl p q k =
     (if p = 0 then D 0 0
      else let s = 53 + int (bits q) - int (bits p);
               a = p * 2 ^ nat s; b = q * 2 ^ nat (- s)
           in if a < b * 2 ^ 53 then D (round_div a b) (k - s)
              else D (round_div a (2 * b)) (k - s + 1))"

definition of_uint :: "nat \<Rightarrow> double" where
  "of_uint n = fl n 1 0"

fun dmul :: "double \<Rightarrow> double \<Rightarrow> double" where
  "dmul (D m e) (D n f) = fl (m * n) 1 (e + f)"
| "dmul D_inf (D n f) = (if n = 0 then D_nan else D_inf)"
| "dmul (D m e) D_inf = (if m = 0 then D_nan else D_inf)"
| "dmul D_inf D_inf = D_inf"
| "dmul _ _ = D_nan"

fun ddiv :: "double \<Rightarrow> double \<Rightarrow> double" where
  "ddiv (D m e) (D n f) = (if n = 0 then if m = 0 then D_nan else D_inf else fl m n (e - f))"
| "ddiv D_inf (D n f) = D_inf"
| "ddiv (D m e) D_inf = D 0 0"
| "ddiv _ _ = D_nan"

subsection \<open>The error of a rounding\<close>

lemma scaled_error:
  assumes b: "0 < b" and x: "x = real a / real b * 2 powi e" and big: "2 ^ 52 * real b \<le> real a"
  shows "\<bar>dval (D (round_div a b) e) - x\<bar> \<le> x / 2 ^ 53"
proof -
  have pos: "(0 :: real) < 2 powi e" by simp
  have "\<bar>dval (D (round_div a b) e) - x\<bar> = \<bar>real (round_div a b) - real a / real b\<bar> * 2 powi e"
    unfolding x dval_def double.case left_diff_distrib [symmetric] abs_mult using pos by simp
  also have "\<dots> \<le> 1 / 2 * 2 powi e" using round_div_error [OF b, of a] pos by (intro mult_right_mono) simp_all
  also have "\<dots> \<le> real a / real b / 2 ^ 53 * 2 powi e"
    using big b pos by (intro mult_right_mono) (simp_all add: field_simps)
  also have "\<dots> = x / 2 ^ 53" by (simp add: x)
  finally show ?thesis .
qed

lemma fl_error:
  assumes q: "0 < q"
  shows "\<exists>m e. fl p q k = D m e \<and> \<bar>dval (D m e) - real p / real q * 2 powi k\<bar> \<le> real p / real q * 2 powi k / 2 ^ 53"
proof (cases "p = 0")
  case True
  then show ?thesis by (simp add: fl_def dval_def)
next
  case False
  define s where "s = 53 + int (bits q) - int (bits p)"
  define a b where ab: "a = p * 2 ^ nat s" "b = q * 2 ^ nat (- s)"
  have b: "0 < b" using q by (simp add: ab)
  have quot: "real a / real b = real p / real q * 2 powi s"
  proof (cases "0 \<le> s")
    case True
    then have "b = q" "(2 :: real) powi s = 2 ^ nat s" by (simp_all add: ab power_int_def)
    then show ?thesis by (simp add: ab(1))
  next
    case False
    then have "a = p" "(2 :: real) powi s = inverse (2 ^ nat (- s))" by (simp_all add: ab power_int_def power_one_over inverse_eq_divide)
    then show ?thesis by (simp add: ab(2) divide_inverse)
  qed
  have "(2 :: real) powi k = 2 powi s * 2 powi (k - s)" by (subst power_int_add [symmetric]) simp_all
  then have exact: "real p / real q * 2 powi k = real a / real b * 2 powi (k - s)"
    unfolding quot by (simp only: mult.assoc)
  have p: "0 < p" using False by simp
  have "real (2 ^ bits p) \<le> real (2 * p)" "real q < real (2 ^ bits q)"
    by (simp_all only: of_nat_le_iff of_nat_less_iff bits_bounds [OF p] bits_bounds [OF q])
  then have bp: "2 ^ bits p \<le> 2 * real p" and bq: "real q < 2 ^ bits q" by simp_all
  have big: "2 ^ 52 * real b \<le> real a"
  proof -
    have "2 ^ 53 * (real q * 2 ^ bits p) \<le> 2 ^ 53 * (2 ^ bits q * (2 * real p))"
      using bp bq by (intro mult_left_mono mult_mono) simp_all
    then have "2 ^ 52 * (real q * 2 ^ bits p) \<le> real p * (2 ^ 53 * 2 ^ bits q)" by simp
    moreover have "int (53 + bits q) = int (bits p) + s" by (simp add: s_def)
    then have "(2 :: real) ^ 53 * 2 ^ bits q * 2 ^ nat (- s) = 2 ^ bits p * 2 ^ nat s"
      unfolding power_add [symmetric] by (intro arg_cong [where f = "power 2"]) linarith
    ultimately have "2 ^ 52 * (real q * 2 ^ nat (- s)) * 2 ^ bits p \<le> real p * 2 ^ nat s * 2 ^ bits p"
      by (smt (verit) mult.assoc mult.commute mult_right_mono zero_le_power)
    then show ?thesis by (simp add: ab)
  qed
  show ?thesis
  proof (cases "a < b * 2 ^ 53")
    case True
    then have "fl p q k = D (round_div a b) (k - s)" using False by (simp add: fl_def Let_def flip: s_def ab)
    then show ?thesis using scaled_error [OF b exact big] by blast
  next
    case over: False
    then have "fl p q k = D (round_div a (2 * b)) (k - s + 1)" using False by (simp add: fl_def Let_def flip: s_def ab)
    moreover have "real p / real q * 2 powi k = real a / real (2 * b) * 2 powi (k - s + 1)"
      unfolding exact by (simp add: power_int_add)
    moreover have "real (b * 2 ^ 53) \<le> real a" using over by (simp only: of_nat_le_iff not_less)
    then have "2 ^ 52 * real (2 * b) \<le> real a" by simp
    ultimately show ?thesis using scaled_error [of "2 * b" _ a "k - s + 1"] b by auto
  qed
qed

lemma fl_positive:
  assumes "0 < p" and "0 < q"
  shows "\<exists>m e. fl p q k = D m e \<and> 0 < m"
proof -
  obtain m e where m: "fl p q k = D m e"
      "\<bar>dval (D m e) - real p / real q * 2 powi k\<bar> \<le> real p / real q * 2 powi k / 2 ^ 53"
    using fl_error [OF assms(2)] by blast
  have "m \<noteq> 0"
  proof
    assume "m = 0"
    define x where "x = real p / real q * 2 powi k"
    have "0 < x" using assms by (simp add: x_def)
    moreover have "\<bar>x\<bar> \<le> x / 2 ^ 53" using m(2) \<open>m = 0\<close> unfolding x_def [symmetric] by (simp add: dval_def)
    ultimately show False by simp
  qed
  then show ?thesis using m(1) by blast
qed

subsection \<open>Percentages\<close>

text \<open>\<open>100.0 * a / b\<close> of integers, and a \<open>double\<close> in hundredths as \<open>%.2f\<close> prints it.\<close>

definition percentage :: "nat \<Rightarrow> nat \<Rightarrow> double" where
  "percentage a b = ddiv (dmul (D 100 0) (of_uint a)) (of_uint b)"

definition hundredths :: "nat \<Rightarrow> int \<Rightarrow> nat" where
  "hundredths m e = round_div (100 * m * 2 ^ nat e) (2 ^ nat (- e))"

lemma hundredths_error: "\<bar>real (hundredths m e) / 100 - dval (D m e)\<bar> \<le> 5 / 1000"
proof -
  have "real (100 * m * 2 ^ nat e) / real (2 ^ nat (- e)) = 100 * dval (D m e)"
  proof (cases "0 \<le> e")
    case True
    then show ?thesis by (simp add: dval_def power_int_def)
  next
    case False
    then have "(2 :: real) powi e = 1 / 2 ^ nat (- e)" by (simp add: power_int_def power_one_over)
    then show ?thesis using False by (simp add: dval_def)
  qed
  then have "\<bar>real (hundredths m e) - 100 * dval (D m e)\<bar> \<le> 1 / 2"
    using round_div_error [of "2 ^ nat (- e)" "100 * m * 2 ^ nat e"] unfolding hundredths_def by simp
  then show ?thesis unfolding abs_le_iff by linarith
qed

text \<open>The relative errors of the three conversions and the two operations add up.\<close>

lemma percentage_error:
  assumes "0 < b"
  shows "\<exists>m e. percentage a b = D m e \<and> \<bar>dval (D m e) - 100 * real a / real b\<bar> \<le> 100 * real a / real b / 2 ^ 50"
proof -
  let ?u = "1 / 2 ^ 53 :: real"
  obtain ma ea where a: "of_uint a = D ma ea" "\<bar>dval (D ma ea) - a\<bar> \<le> a * ?u"
    using fl_error [of 1 a 0] by (auto simp: of_uint_def)
  obtain mb eb where b: "of_uint b = D mb eb" "\<bar>dval (D mb eb) - b\<bar> \<le> b * ?u"
    using fl_error [of 1 b 0] by (auto simp: of_uint_def)
  have pos: "0 < real b" using assms by simp
  have "b * ?u < b" using pos by simp
  then have vb: "0 < dval (D mb eb)" using b(2) by linarith
  then have mb: "0 < mb" by (auto simp: dval_def intro: ccontr)
  obtain m e where p: "dmul (D 100 0) (of_uint a) = D m e" "\<bar>dval (D m e) - 100 * dval (D ma ea)\<bar> \<le> 100 * dval (D ma ea) * ?u"
  proof -
    have "real (100 * ma) / real 1 * 2 powi (0 + ea) = 100 * dval (D ma ea)" by (simp add: dval_def)
    from fl_error [of 1 "100 * ma" "0 + ea", unfolded this] show thesis using that by (auto simp: a(1))
  qed
  have quot: "real m / real mb * 2 powi (e - eb) = dval (D m e) / dval (D mb eb)"
    by (simp add: dval_def power_int_diff)
  obtain m' e' where q: "percentage a b = D m' e'" "\<bar>dval (D m' e') - dval (D m e) / dval (D mb eb)\<bar> \<le> dval (D m e) / dval (D mb eb) * ?u"
    using fl_error [OF mb, of m "e - eb"] mb unfolding quot by (auto simp: percentage_def p(1) b(1))
  define A B P Q where v: "A = dval (D ma ea)" "B = dval (D mb eb)" "P = dval (D m e)" "Q = dval (D m' e')"
  note err = a(2) b(2) p(2) q(2)
  have hi: "A \<le> a * (1 + ?u)" "B \<le> b * (1 + ?u)" "P \<le> 100 * A * (1 + ?u)" "Q \<le> P / B * (1 + ?u)"
    using err unfolding v [symmetric] abs_le_iff ring_distribs by linarith+
  have lo: "a * (1 - ?u) \<le> A" "b * (1 - ?u) \<le> B" "100 * A * (1 - ?u) \<le> P" "P / B * (1 - ?u) \<le> Q"
    using err unfolding v [symmetric] abs_le_iff ring_distribs by linarith+
  have B: "0 < B" using vb by (simp add: v)
  have P: "100 * (a * (1 - ?u)) * (1 - ?u) \<le> P" "P \<le> 100 * (a * (1 + ?u)) * (1 + ?u)"
    using mult_right_mono [OF hi(1), of "100 * (1 + ?u)"] mult_right_mono [OF lo(1), of "100 * (1 - ?u)"] hi(3) lo(3)
    by (simp_all add: mult_ac)
  let ?x = "100 * real a / real b"
  have "P / B \<le> 100 * (a * (1 + ?u)) * (1 + ?u) / (b * (1 - ?u))"
    by (rule frac_le [OF _ P(2) _ lo(2)]) (use pos in simp_all)
  also have "\<dots> = ?x * ((1 + ?u) * (1 + ?u) / (1 - ?u))" by simp
  finally have "Q \<le> ?x * ((1 + ?u) * (1 + ?u) / (1 - ?u)) * (1 + ?u)"
    using hi(4) mult_right_mono [of "P / B" _ "1 + ?u"] by fastforce
  moreover have "100 * (a * (1 - ?u)) * (1 - ?u) / (b * (1 + ?u)) \<le> P / B"
    by (rule frac_le [OF _ P(1) B hi(2)]) (use order_trans [OF _ P(1)] in simp_all)
  then have "?x * ((1 - ?u) * (1 - ?u) / (1 + ?u)) \<le> P / B" by simp
  then have "?x * ((1 - ?u) * (1 - ?u) / (1 + ?u)) * (1 - ?u) \<le> Q"
    using lo(4) mult_right_mono [of _ "P / B" "1 - ?u"] by fastforce
  moreover have "(1 + ?u) * (1 + ?u) / (1 - ?u) * (1 + ?u) \<le> 1 + 1 / 2 ^ 50"
    "1 - 1 / 2 ^ 50 \<le> (1 - ?u) * (1 - ?u) / (1 + ?u) * (1 - ?u)"
    by simp_all
  then have "?x * ((1 + ?u) * (1 + ?u) / (1 - ?u) * (1 + ?u)) \<le> ?x * (1 + 1 / 2 ^ 50)"
    "?x * (1 - 1 / 2 ^ 50) \<le> ?x * ((1 - ?u) * (1 - ?u) / (1 + ?u) * (1 - ?u))"
    by (intro mult_left_mono; simp)+
  ultimately have "Q \<le> ?x * (1 + 1 / 2 ^ 50)" "?x * (1 - 1 / 2 ^ 50) \<le> Q" by (simp_all only: mult.assoc)
  then have "\<bar>Q - ?x\<bar> \<le> ?x / 2 ^ 50" unfolding abs_le_iff by (simp add: ring_distribs)
  then show ?thesis using q(1) unfolding v by blast
qed

lemma percentage_of_nothing:
  assumes "0 < a"
  shows "percentage a 0 = D_inf"
proof -
  obtain m e where a: "of_uint a = D m e" "0 < m" using fl_positive [OF assms, of 1 0] by (auto simp: of_uint_def)
  obtain m' e' where "fl (100 * m) 1 (0 + e) = D m' e'" "0 < m'" using fl_positive [of "100 * m" 1 "0 + e"] a(2) by auto
  then show ?thesis by (simp add: percentage_def a(1)) (simp add: of_uint_def fl_def)
qed

end
