(* ===== verification/Mtbl_Info.thy ===== *)
theory Mtbl_Info
  imports Verify Floats
begin

text \<open>
  \<open>src/mtbl_info.c\<close>: the command that prints what the metadata of a table say. The output is the
  bytes written to the standard output; what \<open>setlocale\<close> selects for printing numbers is an
  argument. \<open>None\<close> is a failed assertion, the exit status is a value.
\<close>

subsection \<open>Numbers in the user's locale\<close>

text \<open>
  The members of C's \<open>struct lconv\<close> that matter. \<open>grouping\<close> has the sizes of the groups from the
  right, the last one is repeated, and 0 or \<open>CHAR_MAX\<close> ends the grouping.
\<close>

record lconv =
  decimal_point :: bytes
  thousands_sep :: bytes
  grouping :: "nat list"

definition c_locale :: lconv where
  "c_locale = \<lparr>decimal_point = [46], thousands_sep = [], grouping = []\<rparr>"

text \<open>The digits of a number, the last one first, and their groups.\<close>

fun digits :: "nat \<Rightarrow> bytes" where
  "digits n = (48 + of_nat (n mod 10)) # (if n < 10 then [] else digits (n div 10))"

declare digits.simps [simp del]

function group_digits :: "nat list \<Rightarrow> bytes \<Rightarrow> bytes \<Rightarrow> bytes" where
  "group_digits [] sep ds = ds"
| "group_digits (g # gs) sep ds =
     (if g = 0 \<or> 127 \<le> g \<or> length ds \<le> g then ds
      else take g ds @ rev sep @ group_digits (if gs = [] then [g] else gs) sep (drop g ds))"
  by pat_completeness auto
termination by (relation "measure (\<lambda>(gs, sep, ds). length ds)") auto

declare group_digits.simps(2) [simp del]

text \<open>\<open>%'zd\<close> and \<open>%'lu\<close>; \<open>%'.2f\<close>, which the C library computes exactly; \<open>%u\<close>.\<close>

definition print_grouped :: "lconv \<Rightarrow> nat \<Rightarrow> bytes" where
  "print_grouped lc n = rev (group_digits (grouping lc) (thousands_sep lc) (digits n))"

definition print_hundredths :: "lconv \<Rightarrow> nat \<Rightarrow> bytes" where
  "print_hundredths lc h = print_grouped lc (h div 100) @ decimal_point lc @
     [48 + of_nat (h div 10 mod 10), 48 + of_nat (h mod 10)]"

definition print_double :: "lconv \<Rightarrow> double \<Rightarrow> bytes" where
  "print_double lc d =
     (case d of D m e \<Rightarrow> print_hundredths lc (hundredths m e)
      | D_inf \<Rightarrow> map of_char ''inf'' | D_nan \<Rightarrow> map of_char ''-nan'')"

definition print_unsigned :: "nat \<Rightarrow> bytes" where
  "print_unsigned n = rev (digits n)"

subsection \<open>The command\<close>

definition info_line :: "string \<Rightarrow> bytes \<Rightarrow> bytes" where
  "info_line label value = map of_char label @ value @ [10]"

definition print_share :: "lconv \<Rightarrow> u64 \<Rightarrow> double \<Rightarrow> bytes" where
  "print_share lc n p = print_grouped lc (unat n) @ map of_char '' ('' @ print_double lc p @ map of_char ''%)''"

definition print_compression :: "u64 \<Rightarrow> bytes" where
  "print_compression code =
     (let compression_algorithm = ucast code :: u32
      in case mtbl_compression_type_to_str (compression_of_code compression_algorithm) of
           Some compression \<Rightarrow> map of_char compression
         | None \<Rightarrow> print_unsigned (unat compression_algorithm))"

definition info_text :: "lconv \<Rightarrow> bytes \<Rightarrow> nat \<Rightarrow> mtbl_metadata \<Rightarrow> bytes" where
  "info_text lc fname st_size m =
     (let data_block_size = mtbl_metadata_data_block_size m;
          count_entries = mtbl_metadata_count_entries m;
          count_data_blocks = mtbl_metadata_count_data_blocks m;
          bytes_data_blocks = mtbl_metadata_bytes_data_blocks m;
          bytes_index_block = mtbl_metadata_bytes_index_block m;
          bytes_keys = mtbl_metadata_bytes_keys m;
          bytes_values = mtbl_metadata_bytes_values m;
          index_block_offset = mtbl_metadata_index_block_offset m;
          p_data = percentage (unat bytes_data_blocks) st_size;
          p_index = percentage (unat bytes_index_block) st_size;
          compactness = percentage st_size (unat (bytes_keys + bytes_values))
      in info_line ''file name:             '' fname @
         info_line ''file size:             '' (print_grouped lc st_size) @
         info_line ''index block offset:    '' (print_grouped lc (unat index_block_offset)) @
         info_line ''index bytes:           '' (print_share lc bytes_index_block p_index) @
         info_line ''data block bytes       '' (print_share lc bytes_data_blocks p_data) @
         info_line ''data block size:       '' (print_grouped lc (unat data_block_size)) @
         info_line ''data block count       '' (print_grouped lc (unat count_data_blocks)) @
         info_line ''entry count:           '' (print_grouped lc (unat count_entries)) @
         info_line ''key bytes:             '' (print_grouped lc (unat bytes_keys)) @
         info_line ''value bytes:           '' (print_grouped lc (unat bytes_values)) @
         info_line ''compression algorithm: '' (print_compression (mtbl_metadata_compression_algorithm m)) @
         info_line ''compactness:           '' (print_double lc compactness @ map of_char ''%'') @
         [10])"

text \<open>A file: its name, what \<open>open\<close> gives, and whether \<open>fstat\<close> and \<open>mmap\<close> on it fail.\<close>

record info_input =
  ii_name :: bytes
  ii_opened :: "bytes option"
  ii_fstat_failed :: bool
  ii_map_failed :: bool

definition print_info :: "(bytes \<Rightarrow> u32) \<Rightarrow> lconv \<Rightarrow> info_input \<Rightarrow> bytes option option" where
  "print_info crc lc f =
     (case ii_opened f of
        None \<Rightarrow> Some None
      | Some fd \<Rightarrow>
          if ii_fstat_failed f then Some None
          else do {
            r \<leftarrow> mtbl_reader_init_fd crc (ii_map_failed f) fd None;
            case r of
              None \<Rightarrow> Some None
            | Some r \<Rightarrow> Some (Some (info_text lc (ii_name f) (length fd) (mtbl_reader_metadata r)))
          })"

text \<open>The first failure ends the program, after what was printed before.\<close>

primrec info_files :: "(bytes \<Rightarrow> u32) \<Rightarrow> lconv \<Rightarrow> info_input list \<Rightarrow> bytes \<Rightarrow> (int \<times> bytes) option" where
  "info_files crc lc [] out = Some (0, out)"
| "info_files crc lc (f # argv) out = do {
     res \<leftarrow> print_info crc lc f;
     case res of None \<Rightarrow> Some (1, out) | Some text \<Rightarrow> info_files crc lc argv (out @ text)
   }"

definition info_main :: "(bytes \<Rightarrow> u32) \<Rightarrow> lconv \<Rightarrow> info_input list \<Rightarrow> (int \<times> bytes) option" where
  "info_main crc lc argv = (if argv = [] then Some (1, []) else info_files crc lc argv [])"

subsection \<open>Written files\<close>

text \<open>The totals of the entries stay far below the width of the fields.\<close>

lemma totals_small:
  assumes "run_fits L opt fd es" and es: "set es' \<subseteq> set es" "length es' \<le> length es"
  shows "(\<Sum>e\<leftarrow>es'. length (fst e)) + (\<Sum>e\<leftarrow>es'. length (snd e)) < 2 ^ 63" and "length es' < 2 ^ 63"
proof -
  have fits: "\<forall>e\<in>set es. entry_fits e" "length es < 2 ^ 31 - 1" using run_fitsD [OF assms(1)] by simp_all
  then have each: "\<forall>e\<in>set es'. length (fst e) \<le> 2 ^ 30" "\<forall>e\<in>set es'. length (snd e) \<le> 2 ^ 30"
    using es(1) by (fastforce simp: entry_fits_def)+
  have "length es' * 2 ^ 30 \<le> 2 ^ 31 * 2 ^ 30" using es(2) fits(2) by (intro mult_le_mono1) simp
  moreover have "(\<Sum>e\<leftarrow>es'. length (fst e)) \<le> length es' * 2 ^ 30" "(\<Sum>e\<leftarrow>es'. length (snd e)) \<le> length es' * 2 ^ 30"
    by (rule sum_list_le; use each in simp)+
  ultimately show "(\<Sum>e\<leftarrow>es'. length (fst e)) + (\<Sum>e\<leftarrow>es'. length (snd e)) < 2 ^ 63" by simp
  show "length es' < 2 ^ 63" using es(2) fits(2) by simp
qed

lemma info_of_reader:
  assumes "mtbl_reader_init_fd crc False data None = Some (Some r)"
  shows "info_main crc lc [\<lparr>ii_name = fname, ii_opened = Some data, ii_fstat_failed = False, ii_map_failed = False\<rparr>] =
    Some (0, info_text lc fname (length data) (r_m r))"
  using assms by (simp add: info_main_def print_info_def mtbl_reader_metadata_def)

lemma known_name:
  assumes "table_fits L opt es"
  shows "\<exists>name. mtbl_compression_type_to_str (wo_compression_type opt) = Some name \<and>
    print_compression (ucast (compression_code (wo_compression_type opt))) = map of_char name"
proof -
  have "lossless L opt (replicate 11 0)" using assms by (rule table_fitsD)
  then have known: "\<forall>n. wo_compression_type opt \<noteq> MTBL_COMPRESSION_OTHER n" by (rule lossless_known)
  then obtain name where "mtbl_compression_type_to_str (wo_compression_type opt) = Some name"
    by (cases "wo_compression_type opt") auto
  then show ?thesis using compression_of_code_code [OF known] by (simp add: print_compression_def Let_def)
qed

lemma info_text_written:
  fixes L :: "'z complib" and opt :: mtbl_writer_options
  assumes "length pre + length fr + length ix < 2 ^ 63" and "length bs \<le> length fr"
    and "kb + vb < 2 ^ 63" and "length es < 2 ^ 63" and "wo_block_size opt < 2 ^ 63"
    and fr: "fr = block_frames L crc opt bs" and ix: "ix = frame crc (table_index L crc opt (length pre) bs)"
    and kb: "kb = (\<Sum>e\<leftarrow>es. length (fst e))" and vb: "vb = (\<Sum>e\<leftarrow>es. length (snd e))"
    and name: "print_compression (ucast (compression_code (wo_compression_type opt))) = map of_char name"
  shows "info_text lc fname len (written_meta L crc opt pre es bs) =
    info_line ''file name:             '' fname @
    info_line ''file size:             '' (print_grouped lc len) @
    info_line ''index block offset:    '' (print_grouped lc (length pre + length fr)) @
    info_line ''index bytes:           '' (print_grouped lc (length ix) @ map of_char '' ('' @
      print_double lc (percentage (length ix) len) @ map of_char ''%)'') @
    info_line ''data block bytes       '' (print_grouped lc (length fr) @ map of_char '' ('' @
      print_double lc (percentage (length fr) len) @ map of_char ''%)'') @
    info_line ''data block size:       '' (print_grouped lc (wo_block_size opt)) @
    info_line ''data block count       '' (print_grouped lc (length bs)) @
    info_line ''entry count:           '' (print_grouped lc (length es)) @
    info_line ''key bytes:             '' (print_grouped lc kb) @
    info_line ''value bytes:           '' (print_grouped lc vb) @
    info_line ''compression algorithm: '' (map of_char name) @
    info_line ''compactness:           '' (print_double lc (percentage len (kb + vb)) @ map of_char ''%'') @
    [10]"
proof -
  have n: "unat (of_nat x :: u64) = x" if "x < 2 ^ 63" for x using that by (intro unat_of_nat_small) simp
  have u: "unat (of_nat (length bs) :: u64) = length bs" "unat (of_nat (length fr) :: u64) = length fr"
      "unat (of_nat (length ix) :: u64) = length ix"
      "unat (of_nat (length pre + length fr) :: u64) = length pre + length fr"
    using assms(1,2) by (intro n; simp)+
  have v: "unat (of_nat kb :: u64) = kb" "unat (of_nat vb :: u64) = vb" "unat (of_nat (kb + vb) :: u64) = kb + vb"
      "unat (of_nat (length es) :: u64) = length es" "unat (of_nat (wo_block_size opt) :: u64) = wo_block_size opt"
    using assms(3-5) by (intro n; simp)+
  show ?thesis
    unfolding info_text_def Let_def print_share_def mtbl_metadata_data_block_size_def mtbl_metadata_count_entries_def
      mtbl_metadata_count_data_blocks_def mtbl_metadata_bytes_data_blocks_def mtbl_metadata_bytes_index_block_def
      mtbl_metadata_bytes_keys_def mtbl_metadata_bytes_values_def mtbl_metadata_index_block_offset_def
      mtbl_metadata_compression_algorithm_def written_meta_def table_meta_def
    by (simp add: u v name flip: kb vb fr ix of_nat_add)
qed

subsection \<open>Reading numbers back\<close>

text \<open>Without the separators the digits are there, and their value is the number.\<close>

definition is_digit :: "u8 \<Rightarrow> bool" where
  "is_digit c \<longleftrightarrow> 48 \<le> c \<and> c \<le> 57"

definition read_number :: "bytes \<Rightarrow> nat" where
  "read_number ds = foldl (\<lambda>n d. 10 * n + (unat d - 48)) 0 (filter is_digit ds)"

lemma digit_byte:
  assumes "d < 10"
  shows "unat (48 + of_nat d :: u8) = 48 + d" and "is_digit (48 + of_nat d)"
proof -
  have "(48 + of_nat d :: u8) = of_nat (48 + d)" by simp
  moreover have "unat (of_nat (48 + d) :: u8) = 48 + d" using assms by (intro unat_of_nat_small) simp
  ultimately show u: "unat (48 + of_nat d :: u8) = 48 + d" by (simp only:)
  show "is_digit (48 + of_nat d)" using assms by (simp add: is_digit_def word_le_nat_alt u)
qed

lemma digits_are_digits: "\<forall>d\<in>set (digits n). is_digit d"
proof (induction n rule: digits.induct)
  case (1 n)
  then show ?case using digit_byte(2) [of "n mod 10"] by (subst digits.simps) auto
qed

lemma digits_value: "foldl (\<lambda>n d. 10 * n + (unat d - 48)) 0 (rev (digits n)) = n"
proof (induction n rule: digits.induct)
  case (1 n)
  have "unat (48 + of_nat (n mod 10) :: u8) = 48 + n mod 10" by (rule digit_byte) simp
  then show ?case using 1 by (cases "n < 10") (simp_all add: digits.simps [of n])
qed

lemma group_keeps_digits:
  assumes "\<forall>c\<in>set sep. \<not> is_digit c"
  shows "filter is_digit (group_digits gs sep ds) = filter is_digit ds"
  using assms
proof (induction gs sep ds rule: group_digits.induct)
  case (2 g gs sep ds)
  have "filter is_digit (take g ds) @ filter is_digit (drop g ds) = filter is_digit ds"
    by (metis append_take_drop_id filter_append)
  moreover have "filter is_digit (rev sep) = []" using 2(2) by (simp add: filter_empty_conv)
  ultimately show ?case using 2 by (subst group_digits.simps(2)) simp
qed simp

lemma grouped_reads_back:
  assumes "\<forall>c\<in>set (thousands_sep lc). \<not> is_digit c"
  shows "read_number (print_grouped lc n) = n"
proof -
  have "filter is_digit (print_grouped lc n) = rev (digits n)"
    unfolding print_grouped_def rev_filter [symmetric] group_keeps_digits [OF assms]
    using digits_are_digits by (simp add: filter_id_conv)
  then show ?thesis using digits_value by (simp add: read_number_def)
qed

subsection \<open>Properties\<close>

text \<open>
  C18: given a table a writer left, the command exits with status 0 and prints, in the format of the
  user's locale, the size of the file and where the index starts, the sizes of its parts (which make
  up the file with what was before the table and 512 bytes of metadata), the number of data blocks,
  and the number and the total key and value lengths of the entries accepted, the block size and the
  name of the compression type of the writer's options.
\<close>

theorem info_reports_table:
  assumes "run_fits L opt fd (added evs)"
  defines "es \<equiv> kept None (added evs)" and "bs \<equiv> table_close (final_state opt (added evs))"
  defines "kb \<equiv> \<Sum>e\<leftarrow>es. length (fst e)" and "vb \<equiv> \<Sum>e\<leftarrow>es. length (snd e)"
  shows "\<exists>data blocks index name. write_file L crc opt fd evs = Some (increasing None (added evs), data) \<and>
    length data = length (f_bytes fd) + blocks + index + 512 \<and>
    mtbl_compression_type_to_str (wo_compression_type opt) = Some name \<and>
    (length data < 2 ^ 63 \<longrightarrow>
     info_main crc lc [\<lparr>ii_name = fname, ii_opened = Some data, ii_fstat_failed = False, ii_map_failed = False\<rparr>] =
       Some (0,
         info_line ''file name:             '' fname @
         info_line ''file size:             '' (print_grouped lc (length data)) @
         info_line ''index block offset:    '' (print_grouped lc (length (f_bytes fd) + blocks)) @
         info_line ''index bytes:           '' (print_grouped lc index @ map of_char '' ('' @
           print_double lc (percentage index (length data)) @ map of_char ''%)'') @
         info_line ''data block bytes       '' (print_grouped lc blocks @ map of_char '' ('' @
           print_double lc (percentage blocks (length data)) @ map of_char ''%)'') @
         info_line ''data block size:       '' (print_grouped lc (wo_block_size opt)) @
         info_line ''data block count       '' (print_grouped lc (length bs)) @
         info_line ''entry count:           '' (print_grouped lc (length es)) @
         info_line ''key bytes:             '' (print_grouped lc kb) @
         info_line ''value bytes:           '' (print_grouped lc vb) @
         info_line ''compression algorithm: '' (map of_char name) @
         info_line ''compactness:           '' (print_double lc (percentage (length data) (kb + vb)) @ map of_char ''%'') @
         [10]))"
proof -
  let ?pre = "f_bytes fd"
  let ?fr = "block_frames L crc opt bs" and ?ix = "frame crc (table_index L crc opt (length ?pre) bs)"
  obtain data where wr: "write_file L crc opt fd evs = Some (increasing None (added evs), data)"
    and data: "data = table_image L crc opt ?pre es bs"
    using session [OF assms(1), of crc None] unfolding es_def bs_def by blast
  have parts: "length data = length ?pre + length ?fr + length ?ix + 512"
    unfolding data table_image_def Let_def by simp
  have opt: "table_fits L opt (added evs)" "wo_block_size opt < 2 ^ 63"
    using run_fitsD [OF assms(1)] by (simp_all add: opt_fits_def)
  obtain name where name: "mtbl_compression_type_to_str (wo_compression_type opt) = Some name"
      "print_compression (ucast (compression_code (wo_compression_type opt))) = map of_char name"
    using known_name [OF opt(1)] by blast
  have tot: "kb + vb < 2 ^ 63" "length es < 2 ^ 63"
    using totals_small [OF assms(1) kept_subset kept_length, of None] by (simp_all add: es_def kb_def vb_def)
  have run: "info_main crc lc [\<lparr>ii_name = fname, ii_opened = Some data, ii_fstat_failed = False, ii_map_failed = False\<rparr>] =
      Some (0, info_text lc fname (length data) (written_meta L crc opt ?pre es bs))" if small: "length data < 2 ^ 63"
    using written_metadata [OF assms(1) wr small, of None] info_of_reader unfolding es_def bs_def by fastforce
  have "length ?pre + length ?fr + length ?ix < 2 ^ 63" if "length data < 2 ^ 63" using that parts by simp
  note shown = info_text_written [OF this frames_count tot opt(2) refl refl kb_def [THEN meta_eq_to_obj_eq]
      vb_def [THEN meta_eq_to_obj_eq] name(2)]
  show ?thesis
    by (rule exI [of _ data], rule exI [of _ "length ?fr"], rule exI [of _ "length ?ix"], rule exI [of _ name],
        intro conjI impI, rule wr, rule parts, rule name(1), simp only: run shown)
qed

theorem info_reports_table_witness:
  "\<exists>data blocks index. write_file store_lib crc32c plain_options empty_fd [Add [97] [1], Add [98] [2, 3]] = Some ([True, True], data) \<and>
     length data = blocks + index + 512 \<and>
     info_main crc32c c_locale [\<lparr>ii_name = [116], ii_opened = Some data, ii_fstat_failed = False, ii_map_failed = False\<rparr>] =
       Some (0, info_line ''file name:             '' [116] @
         info_line ''file size:             '' (print_grouped c_locale (length data)) @
         info_line ''index block offset:    '' (print_grouped c_locale blocks) @
         info_line ''index bytes:           '' (print_grouped c_locale index @ map of_char '' ('' @
           print_double c_locale (percentage index (length data)) @ map of_char ''%)'') @
         info_line ''data block bytes       '' (print_grouped c_locale blocks @ map of_char '' ('' @
           print_double c_locale (percentage blocks (length data)) @ map of_char ''%)'') @
         info_line ''data block size:       '' (map of_char ''1024'') @
         info_line ''data block count       '' (map of_char ''1'') @
         info_line ''entry count:           '' (map of_char ''2'') @
         info_line ''key bytes:             '' (map of_char ''2'') @
         info_line ''value bytes:           '' (map of_char ''3'') @
         info_line ''compression algorithm: '' (map of_char ''none'') @
         info_line ''compactness:           '' (print_double c_locale (percentage (length data) 5) @ map of_char ''%'') @
         [10])"
proof -
  let ?evs = "[Add [97] [1], Add [98] [2, 3]]"
  have fits: "run_fits store_lib plain_options empty_fd (added ?evs)"
    by (rule plain_fits) (simp_all add: entry_fits_def)
  have "size_bound [] (table_close (final_state plain_options (added ?evs))) < 2 ^ 63"
    by (simp add: layout_simps)
  note small = plain_small [OF fits _ this, of crc32c]
  have none: "wo_compression_type plain_options = MTBL_COMPRESSION_NONE" and size: "wo_block_size plain_options = 1024"
    by (simp_all add: plain_options_def mtbl_writer_options_set_block_size_def Let_def mtbl_writer_options_init_def MIN_BLOCK_SIZE_def)
  have one: "length (table_close (final_state plain_options (added ?evs))) = 1" by (simp add: layout_simps)
  have es: "kept None (added ?evs) = [([97], [1]), ([98], [2, 3])]" "increasing None (added ?evs) = [True, True]" by simp_all
  have sums: "(\<Sum>e\<leftarrow>([([97], [1]), ([98], [2, 3])] :: entry list). length (fst e)) = 2"
    "(\<Sum>e\<leftarrow>([([97], [1]), ([98], [2, 3])] :: entry list). length (snd e)) = 3"
    "length ([([97], [1]), ([98], [2, 3])] :: entry list) = 2" "2 + 3 = (5 :: nat)" "length (f_bytes empty_fd) + n = n" for n
    by (simp_all add: empty_fd_def)
  have n: "print_grouped c_locale 1 = map of_char ''1''" "print_grouped c_locale 2 = map of_char ''2''"
      "print_grouped c_locale 3 = map of_char ''3''" "print_grouped c_locale 1024 = map of_char ''1024''"
    by (simp_all add: print_grouped_def c_locale_def digits.simps)
  note t = info_reports_table [OF fits, of crc32c c_locale "[116]",
      unfolded es sums none size one n mtbl_compression_type_to_str.simps option.inject add.assoc]
  from t small show ?thesis unfolding add.assoc sums by blast
qed

text \<open>
  C33: the percentages are printed with an error of at most half a hundredth, whatever the sizes: the
  roundings of the two conversions, the product and the quotient add less than \<open>2 ^ -50\<close> of the
  value. Only the compactness of a table without key and value bytes is no number.
\<close>

theorem percentage_accurate:
  "if b = 0 then 0 < a \<longrightarrow> print_double lc (percentage a b) = map of_char ''inf''
   else \<exists>h. print_double lc (percentage a b) = print_hundredths lc h \<and>
     \<bar>real h / 100 - 100 * real a / real b\<bar> \<le> 5 / 1000 + 100 * real a / real b / 2 ^ 50"
proof (cases "b = 0")
  case True
  then show ?thesis using percentage_of_nothing [of a] by (simp add: print_double_def)
next
  case False
  then obtain m e where d: "percentage a b = D m e"
      "\<bar>dval (D m e) - 100 * real a / real b\<bar> \<le> 100 * real a / real b / 2 ^ 50"
    using percentage_error [of b a] by blast
  have "\<bar>real (hundredths m e) / 100 - 100 * real a / real b\<bar> \<le> 5 / 1000 + 100 * real a / real b / 2 ^ 50"
    using hundredths_error [of m e] d(2) unfolding abs_le_iff by linarith
  moreover have "print_double lc (percentage a b) = print_hundredths lc (hundredths m e)"
    by (simp add: print_double_def d(1))
  ultimately show ?thesis using False by auto
qed

theorem percentage_accurate_witness:
  "print_double c_locale (percentage 1 3) = map of_char ''33.33'' \<and>
   print_double \<lparr>decimal_point = [46], thousands_sep = [44], grouping = [3]\<rparr> (percentage 37037 3) = map of_char ''1,234,566.67'' \<and>
   (\<exists>h. print_double c_locale (percentage 1 3) = print_hundredths c_locale h \<and>
     \<bar>real h / 100 - 100 * real 1 / real 3\<bar> \<le> 5 / 1000 + 100 * real 1 / real 3 / 2 ^ 50) \<and>
   print_double c_locale (percentage 543 0) = map of_char ''inf''"
proof -
  note compute = percentage_def of_uint_def fl_def bits.simps round_div_def hundredths_def print_double_def
    print_hundredths_def print_grouped_def digits.simps group_digits.simps c_locale_def Let_def
  have "print_double c_locale (percentage 1 3) = map of_char ''33.33''" by (simp add: compute)
  moreover have "print_double \<lparr>decimal_point = [46], thousands_sep = [44], grouping = [3]\<rparr> (percentage 37037 3) =
      map of_char ''1,234,566.67''"
    by (simp add: compute)
  ultimately show ?thesis
    using percentage_accurate [of 3 1 c_locale] percentage_accurate [of 0 543 c_locale] by simp
qed

end
