(* ===== verification/Spec2Isabelle.thy ===== *)
theory Spec2Isabelle
  imports Writer_Reader Writer_Pool Merger_Files Sorter_Run Threadpool_Live Fileset_Claims Verify Mtbl_Merge Mtbl_Dump Mtbl_Info
begin

text \<open>
  mtbl is a C library of immutable sorted string tables, with command-line tools. A writer turns
  entries (key, value) with increasing keys into a table file: data blocks of entries, each
  compressed, with its length and CRC32C, an index block of the last key and offset of each, and a
  512-byte trailer. A reader opens such a file and answers queries through iterators; a merger
  gives the entries of several sources as one; a sorter writes sorted chunks as temporary tables
  and merges them; a fileset keeps a merger over the files a setfile names; a thread pool
  compresses blocks for writers and sorts chunks for sorters.

  \<^bold>\<open>Conventions.\<close> A function of the code is a definition of the same name. \<open>None\<close> of the outermost
  option is a failed assertion, an access outside an object or undefined behaviour, so that a
  result \<open>Some\<close> says that none of these happens; \<open>mtbl_res\<close> values, NULL results and exit statuses
  are values inside. Machine integers are words where they can wrap. The compression libraries (a
  record \<open>complib\<close>), \<open>qsort\<close>, the file system, the clock, the environment, the user's callbacks and
  the bytes of files are arguments; what is relied on of them is a named hypothesis
  (\<open>complib_ok\<close>, \<open>table_fits\<close>, \<open>qsort_ok\<close>, \<open>f_ok\<close>), met by an instance in the witnesses. Closures are pure
  functions of their arguments.

  \<^bold>\<open>Foundations.\<close>
  \<^item> \<open>Prelude\<close>: bytes, guarded reads, \<open>ensure\<close> (assertions), the collections \<open>run_simps\<close>, \<open>wire_simps\<close>.
  \<^item> \<open>Codec\<close>, \<open>Cursor\<close>: the interfaces \<open>codec\<close>, \<open>fixed_codec\<close> (encoders that round-trip) and
    \<open>cursor\<close> (iterators as the list they still have to give), interpreted on the code's codecs and
    on the iterators of blocks, readers, mergers and sorters.
  \<^item> \<open>Libc\<close>, \<open>Strtol\<close>: \<open>qsort\<close>, \<open>bsearch\<close>, \<open>getline\<close>, \<open>dirname\<close>, \<open>strtol\<close> as the C standard has them,
    and \<open>libmy/getenv_int.h\<close>.
  \<^item> \<open>Fixed\<close>, \<open>Varint\<close>, \<open>Metadata\<close>: \<open>mtbl/fixed.c\<close>, \<open>mtbl/varint.c\<close>, \<open>mtbl/metadata.c\<close>, with their
    round trips.
  \<^item> \<open>Bytes\<close>: \<open>mtbl/bytes.h\<close> and the key order; the shortest separator lies between two keys.
  \<^item> \<open>Vector\<close>, \<open>Heap\<close>: \<open>libmy/vector.h\<close>, \<open>libmy/ubuf.h\<close>, \<open>libmy/heap.c\<close>, with the contracts \<open>growable\<close>
    and \<open>heap_order\<close>.
  \<^item> \<open>Crc32c_Tables\<close>, \<open>Crc32c\<close>: the slicing code with its tables, the SSE 4.2 code and their
    selection all compute the bitwise checksum. \<open>Compression\<close>: \<open>mtbl/compression.c\<close>.

  \<^bold>\<open>Tables.\<close>
  \<^item> \<open>Block_Builder\<close>, \<open>Block\<close>: \<open>mtbl/block_builder.c\<close>, \<open>mtbl/block.c\<close>. \<open>block_image\<close> is the block of a list of
    entries; \<open>Block_Image\<close>, \<open>Block_Seek\<close>: decoding and seeking on it.
  \<^item> \<open>Writer\<close>: \<open>mtbl/writer.c\<close>; \<open>Table\<close>, \<open>Table_Facts\<close>: the file it leaves, \<open>table_image\<close>, as a function of
    the entries, and the invariant \<open>writer_inv\<close> every call keeps.
  \<^item> \<open>Reader\<close>: \<open>mtbl/reader.c\<close>; \<open>Table_Reader\<close>, \<open>Reader_Iter\<close>, \<open>Reader_Run\<close>: its iterators on a
    \<open>table_image\<close>; \<open>Writer_Reader\<close>: the two together (\<open>write_file\<close>, \<open>read_file\<close>).
  \<^item> \<open>Iter\<close>, \<open>Reader_Source\<close>, \<open>Source_Write\<close>: \<open>mtbl/iter.c\<close>, \<open>mtbl/source.c\<close>, and feeding an iterator to a
    writer.
  \<^item> \<open>Writer_Pool\<close>: the writer as a client of the thread pool's state machine, refining the queue
    of blocks \<open>Writer\<close> abstracts the pool to.

  \<^bold>\<open>Merging and sorting.\<close>
  \<^item> \<open>Merge_Spec\<close>, \<open>Combine\<close>: what a merge of sorted lists is, and what combining the values of a
    key promises for any merge function.
  \<^item> \<open>Merger\<close>: \<open>mtbl/merger.c\<close>; \<open>Merger_Facts\<close> (the invariant \<open>minv\<close> of its heap, the contract
    \<open>merger_kids\<close> of its children), \<open>Merger_Seek\<close>, \<open>Merger_Run\<close> (\<open>seeking_kids\<close>), \<open>Merger_Files\<close> (over
    readers of written files).
  \<^item> \<open>Sorter\<close>, \<open>Sorter_Facts\<close>, \<open>Sorter_Run\<close>: \<open>mtbl/sorter.c\<close>.

  \<^bold>\<open>Concurrency.\<close> \<open>Threadpool\<close>: \<open>mtbl/threadpool.c\<close> as a step relation of all its threads (\<open>pool_work\<close>,
  \<open>pool_call\<close>); \<open>Threadpool_Facts\<close>: its invariant (where each thread is, what each queue holds, and
  that the \<open>next\<close> pointers chain the lists of the model), by rule induction over the reachable states; \<open>Threadpool_Live\<close>: a cost every step lowers, and that
  the pool only rests when everything is delivered.

  \<^bold>\<open>Filesets.\<close> \<open>My_Fileset\<close>, \<open>My_Fileset_Facts\<close>: \<open>libmy/my_fileset.c\<close>, with the contract \<open>loader\<close> of the load
  and unload callbacks; \<open>Fileset\<close>: \<open>mtbl/fileset.c\<close>, readers being references, so that use after
  destruction fails; \<open>Fileset_Facts\<close>, \<open>Fileset_Run\<close>: the specification \<open>fileset_spec\<close> and the simulation;
  \<open>Fileset_Claims\<close>: what follows.

  \<^bold>\<open>Tools.\<close> \<open>Verify\<close>, \<open>Mtbl_Merge\<close>, \<open>Mtbl_Dump\<close>, \<open>Mtbl_Info\<close>: \<open>src/mtbl_verify.c\<close>, \<open>src/mtbl_merge.c\<close>,
  \<open>src/mtbl_dump.c\<close>, \<open>src/mtbl_info.c\<close>, each from its options to its exit status and output. \<open>Floats\<close>: the
  \<open>double\<close> arithmetic of the last, with the error of its percentages.

  \<^bold>\<open>Bounds.\<close> \<open>run_fits\<close>: fewer than 2^31 - 1 calls of \<open>mtbl_writer_add\<close>, and with \<open>table_fits\<close> a limit
  of at most 1 GiB such that the block size is at most the limit less 4 bytes, entries are at most the
  limit less 27 bytes, and the compression library gives back every block up to the limit; so the
  counters of 32 bits in a block do not wrap. Libraries that keep their promises do so up to 1 GiB,
  and zlib, whose sizes have 32 bits, up to 1 GiB less 512 KiB (\<open>compress_limit\<close>,
  \<open>table_fits_complib\<close>). Files of less than 2^63 bytes, as \<open>off_t\<close>. A sorter: fewer than 2^30 entries and
  compressed blocks of at most 2 GiB, which give that size (\<open>coder_small\<close>, \<open>image_small\<close>). A pool: fewer
  than 2^64 threads. The fuel of \<open>drain\<close> (a client that takes entries until there is none) is one
  more than the entries there are, and the theorems say that it is enough. Loops without a
  bound are \<open>partial_function\<close>s, and what they return is proved.

  \<^bold>\<open>Not modelled.\<close> Releasing memory (the \<open>_destroy\<close> and \<open>_free\<close> functions beyond their effect on
  files, threads and readers), failing allocation, the system calls behind \<open>mmap\<close>, \<open>open\<close> and
  \<open>madvise\<close>, condition variables beyond the guards of the waits, \<open>getopt\<close> and messages. The
  tests, and the vendored parts of \<open>libmy\<close> the build leaves out, are no part of the program.
\<close>

subsection \<open>Writer and reader\<close>

text \<open>
  C1: whatever sequence of keys a writer is given, it accepts exactly the keys greater than the
  last accepted one, and the file it leaves, read on another host (byte order, CRC instructions,
  buffer addresses) with or without verification of the checksums, opens and answers an
  iteration, an exact lookup, a prefix lookup and a range lookup with exactly the accepted
  entries the query means, in order and complete.
\<close>

theorem table_roundtrip:
  assumes "run_fits L opt fd (added evs)" and "host_ok h" and "host_ok h'"
  shows "\<exists>data. write_file L (host_crc h addr) opt fd evs = Some (increasing None (added evs), data) \<and>
    (length data < 2 ^ 63 \<longrightarrow>
     read_file L (host_crc h' addr') ropt data ty key0 key1 (length (added evs) + 1) =
       Some (Some (filter (\<lambda>e. wanted ty key0 key1 (fst e)) (kept None (added evs)))))"
  unfolding host_crc_eq [OF assms(2)] host_crc_eq [OF assms(3)] by (rule session_read [OF assms(1)])

theorem table_roundtrip_witness:
  "\<exists>data. write_file store_lib (host_crc portable_host (\<lambda>b. 0)) plain_options empty_fd
       [Add [97] [1], Add [97, 98] [2], Add [97] [9], Add [98] [3]] = Some ([True, True, False, True], data) \<and>
     read_file store_lib (host_crc portable_host (\<lambda>b. 1)) None data READER_ITER_TYPE_GET_PREFIX [97] [] 5 =
       Some (Some [([97], [1]), ([97, 98], [2])])"
proof -
  let ?evs = "[Add [97] [1], Add [97, 98] [2], Add [97] [9], Add [98] [3]]"
  have fits: "run_fits store_lib plain_options empty_fd (added ?evs)"
    by (rule plain_fits) (simp_all add: entry_fits_def)
  have "size_bound [] (table_close (final_state plain_options (added ?evs))) < 2 ^ 63"
    by (simp add: layout_simps)
  note small = plain_small [OF fits _ this]
  from table_roundtrip [OF fits portable_host_ok portable_host_ok, where addr = "\<lambda>b. 0" and addr' = "\<lambda>b. 1"
      and ropt = None and ty = READER_ITER_TYPE_GET_PREFIX and ?key0.0 = "[97]" and ?key1.0 = "[]"]
  obtain data where w: "write_file store_lib (host_crc portable_host (\<lambda>b. 0)) plain_options empty_fd ?evs =
      Some (increasing None (added ?evs), data)"
    and r: "length data < 2 ^ 63 \<longrightarrow>
     read_file store_lib (host_crc portable_host (\<lambda>b. 1)) None data READER_ITER_TYPE_GET_PREFIX [97] [] (length (added ?evs) + 1) =
       Some (Some (filter (\<lambda>e. wanted READER_ITER_TYPE_GET_PREFIX [97] [] (fst e)) (kept None (added ?evs))))"
    by blast
  have five: "length (added ?evs) + 1 = 5" by simp
  from w r [THEN mp, OF small [OF w], unfolded five] show ?thesis by (intro exI [of _ data]) simp
qed

text \<open>
  C7: with a thread pool, however the deliveries of finished blocks interleave with the calls of
  \<open>mtbl_writer_add\<close>, the answers and every byte of the file are those of the writer without a
  pool, and both are the file the specification gives for the accepted entries.
\<close>

theorem writer_pool_same_file:
  assumes "run_fits L opt fd (added evs)" and "added evs' = added evs"
  shows "write_file L crc (opt\<lparr>wo_pool := True\<rparr>) fd evs = write_file L crc (opt\<lparr>wo_pool := False\<rparr>) fd evs' \<and>
    write_file L crc opt fd evs = Some (increasing None (added evs),
      table_image L crc opt (f_bytes fd) (kept None (added evs)) (table_close (final_state opt (added evs))))"
  using session [of L "opt\<lparr>wo_pool := True\<rparr>" fd evs crc] session [of L "opt\<lparr>wo_pool := False\<rparr>" fd evs' crc]
    session [of L opt fd evs crc] assms by auto

theorem writer_pool_same_file_witness:
  "write_file store_lib crc32c (plain_options\<lparr>wo_pool := True\<rparr>) empty_fd [Add [97] [1], Deliver, Add [98] [2], Deliver] =
   write_file store_lib crc32c (plain_options\<lparr>wo_pool := False\<rparr>) empty_fd [Add [97] [1], Add [98] [2]]"
proof -
  have "run_fits store_lib plain_options empty_fd (added [Add [97] [1], Deliver, Add [98] [2], Deliver])"
    by (rule plain_fits) (simp_all add: entry_fits_def)
  moreover have "added [Add [97] [1], Add [98] [2]] = added [Add [97] [1], Deliver, Add [98] [2], Deliver]" by simp
  ultimately show ?thesis using writer_pool_same_file by blast
qed

text \<open>
  C19: the metadata a reader reports of a written file are the options and the totals of the
  entries accepted: their number, the bytes of their keys and of their values, the block size,
  the compression type and the number of data blocks.
\<close>

theorem reader_metadata_describes_table:
  assumes "run_fits L opt fd (added evs)"
  shows "\<exists>data. write_file L crc opt fd evs = Some (increasing None (added evs), data) \<and>
    (length data < 2 ^ 63 \<longrightarrow> (\<exists>r m. mtbl_reader_init_fd crc False data ropt = Some (Some r) \<and>
       mtbl_reader_metadata r = m \<and> mtbl_metadata_file_version m = MTBL_FORMAT_V2 \<and>
       mtbl_metadata_count_entries m = of_nat (length (kept None (added evs))) \<and>
       mtbl_metadata_bytes_keys m = of_nat (\<Sum>e\<leftarrow>kept None (added evs). length (fst e)) \<and>
       mtbl_metadata_bytes_values m = of_nat (\<Sum>e\<leftarrow>kept None (added evs). length (snd e)) \<and>
       mtbl_metadata_data_block_size m = of_nat (wo_block_size opt) \<and>
       mtbl_metadata_compression_algorithm m = ucast (compression_code (wo_compression_type opt)) \<and>
       mtbl_metadata_count_data_blocks m = of_nat (length (table_close (final_state opt (added evs))))))"
proof -
  obtain data where data: "write_file L crc opt fd evs = Some (increasing None (added evs), data)"
    and rd: "length data < 2 ^ 63 \<Longrightarrow> \<exists>r i j. mtbl_reader_init_fd crc False data ropt = Some (Some r) \<and>
       r_m r = (table_meta L crc opt (kept None (added evs)) (table_close (final_state opt (added evs))))\<lparr>
          index_block_offset := i, bytes_index_block := j\<rparr>"
    using session [OF assms, of crc ropt] by blast
  show ?thesis
  proof (rule exI [of _ data], intro conjI impI)
    assume "length data < 2 ^ 63"
    then obtain r i j where "mtbl_reader_init_fd crc False data ropt = Some (Some r)"
       "r_m r = (table_meta L crc opt (kept None (added evs)) (table_close (final_state opt (added evs))))\<lparr>
          index_block_offset := i, bytes_index_block := j\<rparr>"
      using rd by blast
    then show "\<exists>r m. mtbl_reader_init_fd crc False data ropt = Some (Some r) \<and>
       mtbl_reader_metadata r = m \<and> mtbl_metadata_file_version m = MTBL_FORMAT_V2 \<and>
       mtbl_metadata_count_entries m = of_nat (length (kept None (added evs))) \<and>
       mtbl_metadata_bytes_keys m = of_nat (\<Sum>e\<leftarrow>kept None (added evs). length (fst e)) \<and>
       mtbl_metadata_bytes_values m = of_nat (\<Sum>e\<leftarrow>kept None (added evs). length (snd e)) \<and>
       mtbl_metadata_data_block_size m = of_nat (wo_block_size opt) \<and>
       mtbl_metadata_compression_algorithm m = ucast (compression_code (wo_compression_type opt)) \<and>
       mtbl_metadata_count_data_blocks m = of_nat (length (table_close (final_state opt (added evs))))"
      by (simp add: mtbl_reader_metadata_def mtbl_metadata_file_version_def mtbl_metadata_count_entries_def
          mtbl_metadata_bytes_keys_def mtbl_metadata_bytes_values_def mtbl_metadata_data_block_size_def
          mtbl_metadata_compression_algorithm_def mtbl_metadata_count_data_blocks_def table_meta_def)
  qed (rule data)
qed

theorem reader_metadata_describes_table_witness:
  "\<exists>data r. write_file store_lib crc32c plain_options empty_fd [Add [97] [1], Add [98] [2, 3]] = Some ([True, True], data) \<and>
     mtbl_reader_init_fd crc32c False data None = Some (Some r) \<and>
     mtbl_metadata_count_entries (mtbl_reader_metadata r) = 2 \<and>
     mtbl_metadata_bytes_values (mtbl_reader_metadata r) = 3"
proof -
  let ?evs = "[Add [97] [1], Add [98] [2, 3]]"
  have fits: "run_fits store_lib plain_options empty_fd (added ?evs)"
    by (rule plain_fits) (simp_all add: entry_fits_def)
  have "size_bound [] (table_close (final_state plain_options (added ?evs))) < 2 ^ 63"
    by (simp add: layout_simps)
  note small = plain_small [OF fits _ this, of crc32c]
  from reader_metadata_describes_table [OF fits, of crc32c None] small show ?thesis by auto
qed

text \<open>
  C11: on one iterator over a written table, any sequence of steps and of seeks that go forward
  (to a key at least the last one returned or sought) returns what the sorted list of the
  accepted entries gives: after a seek the first entry at least the key, past the end nothing;
  and a later forward seek works again.
\<close>

theorem reader_forward_seeks:
  assumes "run_fits L opt fd (added evs)"
    and "forward (kept None (added evs)) (kept None (added evs)) [] ops"
  shows "\<exists>data. write_file L crc opt fd evs = Some (increasing None (added evs), data) \<and>
    (length data < 2 ^ 63 \<longrightarrow> run_file L crc ropt data ops =
       Some (if kept None (added evs) = [] then None
         else Some (iter_spec (kept None (added evs)) (kept None (added evs)) ops)))"
  by (rule session_run [OF assms])

theorem reader_forward_seeks_witness:
  "\<exists>data. write_file store_lib crc32c plain_options empty_fd [Add [97] [1], Add [98] [2], Add [99] [3]] =
       Some ([True, True, True], data) \<and>
     run_file store_lib crc32c None data [Next, Seek [97, 0], Next, Next, Next, Seek [100], Next] =
       Some (Some [Some ([97], [1]), Some ([98], [2]), Some ([99], [3]), None, None])"
proof -
  let ?evs = "[Add [97] [1], Add [98] [2], Add [99] [3]]"
  have fits: "run_fits store_lib plain_options empty_fd (added ?evs)"
    by (rule plain_fits) (simp_all add: entry_fits_def)
  have fwd: "forward (kept None (added ?evs)) (kept None (added ?evs)) [] [Next, Seek [97, 0], Next, Next, Next, Seek [100], Next]"
    by simp
  have "size_bound [] (table_close (final_state plain_options (added ?evs))) < 2 ^ 63"
    by (simp add: layout_simps)
  note small = plain_small [OF fits _ this, of crc32c]
  from reader_forward_seeks [OF fits fwd, of crc32c None] small show ?thesis by auto
qed

text \<open>
  C36: \<open>reader_iter_next\<close> does not update \<open>block_offset\<close> when it loads the next block. In any
  table of at least two blocks written at the start of a file, iterating to the first entry of
  the second block and then seeking to the first key of the table does not return that key: the
  next entry is the first one of the second block again.
\<close>

theorem reader_seek_back_stale_block:
  assumes "run_fits L opt fd (added evs)" and "f_bytes fd = []"
    and "table_close (final_state opt (added evs)) = b0 # b1 # bs"
  shows "\<exists>data. write_file L crc opt fd evs = Some (increasing None (added evs), data) \<and>
    (length data < 2 ^ 63 \<longrightarrow>
     run_file L crc ropt data (replicate (length (fst b0) + 1) Next @ [Seek (fst (hd (kept None (added evs)))), Next]) =
       Some (Some (map Some (fst b0 @ [hd (fst b1)]) @ [Some (hd (fst b1))])))"
  using session_stale [OF assms(1,2), of crc ropt] unfolding assms(3) by simp

theorem reader_seek_back_stale_block_witness:
  "\<exists>data. write_file store_lib crc32c plain_options empty_fd [Add [97] (replicate 600 0), Add [98] (replicate 600 1)] =
       Some ([True, True], data) \<and>
     run_file store_lib crc32c None data [Next, Next, Seek [97], Next] =
       Some (Some [Some ([97], replicate 600 0), Some ([98], replicate 600 1), Some ([98], replicate 600 1)])"
proof -
  obtain v0 v1 :: bytes where v: "v0 = replicate 600 0" "v1 = replicate 600 1" by blast
  have len: "length v0 = 600" "length v1 = 600" by (simp_all add: v)
  let ?evs = "[Add [97] v0, Add [98] v1]"
  have fits: "run_fits store_lib plain_options empty_fd (added ?evs)"
    by (rule plain_fits) (simp_all add: entry_fits_def len)
  have two: "table_close (final_state plain_options (added ?evs)) = [([([97], v0)], separator [97] [98]), ([([98], v1)], [98])]"
    by (simp add: layout_simps len mtbl_varint_encode32_def)
  have "length (separator [97] [98]) \<le> 1" using separator_le(4) [of "[97]" "[98]"] by simp
  then have "size_bound [] (table_close (final_state plain_options (added ?evs))) < 2 ^ 63"
    unfolding two by (simp add: size_bound_def len)
  note small = plain_small [OF fits _ this, of crc32c]
  have "f_bytes empty_fd = []" by (simp add: empty_fd_def)
  note stale = reader_seek_back_stale_block [OF fits this two, of crc32c None]
  have len1: "length (fst ([([97 :: u8], v0)], separator [97] [98])) + 1 = Suc (Suc 0)" by simp
  show ?thesis
    unfolding v [symmetric] using stale [unfolded len1] small by auto
qed

text \<open>
  C20: \<open>_write_all\<close> never leaves the caller with part of the buffer: through short writes and
  interruptions it returns only after all of it is written, once and in order. It aborts exactly
  when it is given nothing, or when a \<open>write\<close> fails, or writes nothing, before the writes ahead of
  it have made up the whole buffer; so an interruption never aborts it and an error is never
  retried.
\<close>

theorem write_all_complete_or_aborts:
  "(write_all fd buf = None \<longleftrightarrow> buf = [] \<or> write_fails (f_sched fd) (length buf)) \<and>
   (case write_all fd buf of
      Some fd' \<Rightarrow> buf \<noteq> [] \<and> f_bytes fd' = f_bytes fd @ buf
    | None \<Rightarrow> buf = [] \<or> Write_error \<in> set (f_sched fd) \<or> Written 0 \<in> set (f_sched fd))"
proof (cases "write_all fd buf")
  case None
  then show ?thesis using write_all_none [of fd buf] write_fails_set by auto
next
  case (Some fd')
  then show ?thesis
    using write_all_none [of fd buf] write_all_all [of fd buf fd'] by (auto simp: write_all_def)
qed

end
